(* ===== verification/O11y_Prelude.thy ===== *)
theory O11y_Prelude
  imports Main "HOL-Library.Word" "HOL-Library.Char_ord" "HOL-Library.List_Lexorder"
    "HOL-Library.Product_Lexorder" "HOL-Library.Monad_Syntax"
begin

text \<open>
  The vocabulary every component shares: machine integers, vectors whose indexing can panic,
  and the ordered containers of the standard library.

  \<^item> An \<open>i64\<close> is an \<^typ>\<open>int\<close> in \<open>[-2\<^sup>6\<^sup>3, 2\<^sup>6\<^sup>3)\<close>, with saturating, checked and
    wrapping arithmetic written out.  A \<open>u64\<close> that the code hashes or shifts is a
    \<^typ>\<open>64 word\<close>.  A \<open>usize\<close> (64 bits) or \<open>u32\<close> that the code only counts or indexes with is a
    \<^typ>\<open>nat\<close>, bounded where the code converts or saturates.
  \<^item> A Rust \<open>String\<close> is the list of its UTF-8 bytes, one \<^typ>\<open>char\<close> per byte.  The library
    order on such lists is the byte-wise order of Rust's \<open>str\<close>.
  \<^item> Code that panics (an index out of range, an \<open>expect\<close> that fails) is modelled in
    \<^typ>\<open>'a option\<close>, with \<^const>\<open>None\<close> for the panic.
  \<^item> A \<open>BTreeMap\<close> is an association list with strictly ascending keys, a \<open>BTreeSet\<close> a strictly
    ascending list, so that iteration order is part of the model and equal contents are equal
    values.
\<close>

section \<open>Machine integers\<close>

type_synonym u8 = "8 word"
type_synonym u32 = "32 word"
type_synonym u64 = "64 word"
type_synonym i64 = int
type_synonym usize = nat

abbreviation i64_min :: i64 where "i64_min \<equiv> - 9223372036854775808"
abbreviation i64_max :: i64 where "i64_max \<equiv> 9223372036854775807"
abbreviation u32_max :: nat where "u32_max \<equiv> 4294967295"
abbreviation usize_max :: usize where "usize_max \<equiv> 18446744073709551615"

definition is_i64 :: "int \<Rightarrow> bool" where
  "is_i64 x \<longleftrightarrow> i64_min \<le> x \<and> x \<le> i64_max"

definition sat_i64 :: "int \<Rightarrow> i64" where
  "sat_i64 x = max i64_min (min i64_max x)"

definition saturating_add :: "i64 \<Rightarrow> i64 \<Rightarrow> i64" where
  "saturating_add a b = sat_i64 (a + b)"

definition saturating_sub :: "i64 \<Rightarrow> i64 \<Rightarrow> i64" where
  "saturating_sub a b = sat_i64 (a - b)"

definition saturating_mul :: "i64 \<Rightarrow> i64 \<Rightarrow> i64" where
  "saturating_mul a b = sat_i64 (a * b)"

definition checked_mul :: "i64 \<Rightarrow> i64 \<Rightarrow> i64 option" where
  "checked_mul a b = (if is_i64 (a * b) then Some (a * b) else None)"

definition wrap_i64 :: "int \<Rightarrow> i64" where
  "wrap_i64 x = (x + 9223372036854775808) mod 18446744073709551616 - 9223372036854775808"

definition usize_saturating_add :: "usize \<Rightarrow> usize \<Rightarrow> usize" where
  "usize_saturating_add a b = min usize_max (a + b)"

lemma is_i64_sat [simp]: "is_i64 (sat_i64 x)"
  by (simp add: is_i64_def sat_i64_def)

lemma sat_i64_id: "is_i64 x \<Longrightarrow> sat_i64 x = x"
  by (simp add: is_i64_def sat_i64_def)

lemma is_i64_wrap [simp]: "is_i64 (wrap_i64 x)"
  by (simp add: is_i64_def wrap_i64_def)

lemma wrap_i64_id: "is_i64 x \<Longrightarrow> wrap_i64 x = x"
  by (simp add: is_i64_def wrap_i64_def)

text \<open>Wrapping subtraction is undone by wrapping addition, which the delta codings rest on.\<close>

lemma wrap_i64_add_sub:
  assumes "is_i64 x"
  shows "wrap_i64 (b + wrap_i64 (x - b)) = x"
proof -
  have "wrap_i64 (b + wrap_i64 (x - b)) = wrap_i64 x"
    unfolding wrap_i64_def by (simp add: algebra_simps mod_simps)
  with assms show ?thesis
    by (simp add: wrap_i64_id)
qed

section \<open>Panicking vector operations\<close>

named_theorems panic_simps \<open>evaluation of the panicking operations where they succeed\<close>

definition nth_opt :: "'a list \<Rightarrow> nat \<Rightarrow> 'a option" where
  "nth_opt xs i = (if i < length xs then Some (xs ! i) else None)"

definition upd_opt :: "'a list \<Rightarrow> nat \<Rightarrow> 'a \<Rightarrow> 'a list option" where
  "upd_opt xs i v = (if i < length xs then Some (xs[i := v]) else None)"

definition vec_remove :: "nat \<Rightarrow> 'a list \<Rightarrow> 'a list option" where
  "vec_remove i xs = (if i < length xs then Some (take i xs @ drop (Suc i) xs) else None)"

definition vec_insert :: "nat \<Rightarrow> 'a \<Rightarrow> 'a list \<Rightarrow> 'a list option" where
  "vec_insert i x xs = (if i \<le> length xs then Some (take i xs @ x # drop i xs) else None)"

definition vec_resize :: "nat \<Rightarrow> 'a \<Rightarrow> 'a list \<Rightarrow> 'a list" where
  "vec_resize n d xs = take n xs @ replicate (n - length xs) d"

definition slice_opt :: "'a list \<Rightarrow> nat \<Rightarrow> nat \<Rightarrow> 'a list option" where
  "slice_opt xs lo hi = (if lo \<le> hi \<and> hi \<le> length xs then Some (take (hi - lo) (drop lo xs)) else None)"

definition u32_try :: "nat \<Rightarrow> nat option" where
  "u32_try n = (if n \<le> u32_max then Some n else None)"

fun map_opt :: "('a \<Rightarrow> 'b option) \<Rightarrow> 'a list \<Rightarrow> 'b list option" where
  "map_opt f [] = Some []"
| "map_opt f (x # xs) = do { y \<leftarrow> f x; ys \<leftarrow> map_opt f xs; Some (y # ys) }"

fun filter_opt :: "('a \<Rightarrow> bool option) \<Rightarrow> 'a list \<Rightarrow> 'a list option" where
  "filter_opt p [] = Some []"
| "filter_opt p (x # xs) =
     do { b \<leftarrow> p x; ys \<leftarrow> filter_opt p xs; Some (if b then x # ys else ys) }"

fun any_opt :: "('a \<Rightarrow> bool option) \<Rightarrow> 'a list \<Rightarrow> bool option" where
  "any_opt p [] = Some False"
| "any_opt p (x # xs) = do { b \<leftarrow> p x; if b then Some True else any_opt p xs }"

fun fold_opt :: "('a \<Rightarrow> 's \<Rightarrow> 's option) \<Rightarrow> 'a list \<Rightarrow> 's \<Rightarrow> 's option" where
  "fold_opt f [] s = Some s"
| "fold_opt f (x # xs) s = do { s' \<leftarrow> f x s; fold_opt f xs s' }"

lemma nth_opt_Some [panic_simps]: "i < length xs \<Longrightarrow> nth_opt xs i = Some (xs ! i)"
  by (simp add: nth_opt_def)

lemma upd_opt_Some [panic_simps]: "i < length xs \<Longrightarrow> upd_opt xs i v = Some (xs[i := v])"
  by (simp add: upd_opt_def)

lemma vec_remove_Some [panic_simps]:
  "i < length xs \<Longrightarrow> vec_remove i xs = Some (take i xs @ drop (Suc i) xs)"
  by (simp add: vec_remove_def)

lemma vec_insert_Some [panic_simps]:
  "i \<le> length xs \<Longrightarrow> vec_insert i x xs = Some (take i xs @ x # drop i xs)"
  by (simp add: vec_insert_def)

lemma slice_opt_Some [panic_simps]:
  "lo \<le> hi \<Longrightarrow> hi \<le> length xs \<Longrightarrow> slice_opt xs lo hi = Some (take (hi - lo) (drop lo xs))"
  by (simp add: slice_opt_def)

lemma u32_try_Some [panic_simps]: "n \<le> u32_max \<Longrightarrow> u32_try n = Some n"
  by (simp add: u32_try_def)

lemma map_opt_Some: "(\<And>x. x \<in> set xs \<Longrightarrow> f x = Some (g x)) \<Longrightarrow> map_opt f xs = Some (map g xs)"
  by (induction xs) auto

lemma filter_opt_Some:
  "(\<And>x. x \<in> set xs \<Longrightarrow> p x = Some (q x)) \<Longrightarrow> filter_opt p xs = Some (filter q xs)"
  by (induction xs) auto

lemma any_opt_Some:
  "(\<And>x. x \<in> set xs \<Longrightarrow> p x = Some (q x)) \<Longrightarrow> any_opt p xs = Some (\<exists>x \<in> set xs. q x)"
  by (induction xs) auto

lemma set_map_filter: "y \<in> set (List.map_filter f xs) \<longleftrightarrow> (\<exists>x \<in> set xs. f x = Some y)"
  by (induction xs) (auto simp: map_filter_simps split: option.splits)

lemma fold_opt_append: "fold_opt f (xs @ ys) s = do { s' \<leftarrow> fold_opt f xs s; fold_opt f ys s' }"
  by (induction xs arbitrary: s) (auto simp: bind_assoc Option.bind_eq_Some_conv split: bind_splits)

text \<open>The rule for a panicking loop: an invariant that every iteration keeps without a panic.\<close>

lemma fold_opt_rule:
  assumes "I s" and "\<And>x s. x \<in> set xs \<Longrightarrow> I s \<Longrightarrow> \<exists>s'. f x s = Some s' \<and> I s'"
  shows "\<exists>s'. fold_opt f xs s = Some s' \<and> I s'"
  using assms
proof (induction xs arbitrary: s)
  case (Cons x xs)
  then obtain s' where "f x s = Some s'" "I s'"
    by (meson list.set_intros(1))
  with Cons show ?case by simp
qed simp

lemma length_vec_resize [simp]: "length (vec_resize n d xs) = n"
  by (simp add: vec_resize_def)

lemma nth_vec_resize: "i < n \<Longrightarrow> i < length xs \<Longrightarrow> vec_resize n d xs ! i = xs ! i"
  by (simp add: vec_resize_def nth_append)

text \<open>
  \<open>slice::partition_point\<close>: the number of leading elements that satisfy the predicate.  The
  library documents the result only for a slice the predicate partitions, which is how every
  caller here uses it.
\<close>

definition partition_point :: "('a \<Rightarrow> bool) \<Rightarrow> 'a list \<Rightarrow> nat" where
  "partition_point p xs = length (takeWhile p xs)"

lemma partition_point_le: "partition_point p xs \<le> length xs"
  by (simp add: partition_point_def length_takeWhile_le)

lemma partition_point_before: "x \<in> set (take (partition_point p xs) xs) \<Longrightarrow> p x"
  unfolding partition_point_def
  by (metis set_takeWhileD takeWhile_eq_take)

lemma partition_point_after:
  assumes "sorted_wrt (\<lambda>x y. p y \<longrightarrow> p x) xs" and "x \<in> set (drop (partition_point p xs) xs)"
  shows "\<not> p x"
  using assms
proof (induction xs)
  case (Cons y ys)
  show ?case
  proof (cases "p y")
    case True
    with Cons show ?thesis by (simp add: partition_point_def)
  next
    case False
    with Cons.prems show ?thesis by (auto simp: partition_point_def)
  qed
qed simp

section \<open>Ordered maps and sets\<close>

type_synonym ('k, 'v) btree_map = "('k \<times> 'v) list"
type_synonym 'k btree_set = "'k list"

abbreviation bt_ok :: "('k::linorder, 'v) btree_map \<Rightarrow> bool" where
  "bt_ok m \<equiv> sorted_wrt (<) (map fst m)"

abbreviation bs_ok :: "'k::linorder btree_set \<Rightarrow> bool" where
  "bs_ok s \<equiv> sorted_wrt (<) s"

abbreviation bt_get :: "('k, 'v) btree_map \<Rightarrow> 'k \<Rightarrow> 'v option" where
  "bt_get \<equiv> map_of"

abbreviation bt_keys :: "('k, 'v) btree_map \<Rightarrow> 'k list" where
  "bt_keys m \<equiv> map fst m"

fun bt_insert :: "'k::linorder \<Rightarrow> 'v \<Rightarrow> ('k, 'v) btree_map \<Rightarrow> ('k, 'v) btree_map" where
  "bt_insert k v [] = [(k, v)]"
| "bt_insert k v ((k', v') # m) =
     (if k < k' then (k, v) # (k', v') # m
      else if k = k' then (k, v) # m
      else (k', v') # bt_insert k v m)"

definition bt_remove :: "'k::linorder \<Rightarrow> ('k, 'v) btree_map \<Rightarrow> ('k, 'v) btree_map" where
  "bt_remove k m = filter (\<lambda>(k', v). k' \<noteq> k) m"

text \<open>\<open>entry(k).or_default()\<close> followed by an in-place update.\<close>

definition bt_update :: "'k::linorder \<Rightarrow> 'v \<Rightarrow> ('v \<Rightarrow> 'v) \<Rightarrow> ('k, 'v) btree_map \<Rightarrow> ('k, 'v) btree_map" where
  "bt_update k d f m = bt_insert k (f (case bt_get m k of None \<Rightarrow> d | Some v \<Rightarrow> v)) m"

fun bs_insert :: "'k::linorder \<Rightarrow> 'k btree_set \<Rightarrow> 'k btree_set" where
  "bs_insert x [] = [x]"
| "bs_insert x (y # ys) =
     (if x < y then x # y # ys else if x = y then y # ys else y # bs_insert x ys)"

definition bs_extend :: "'k::linorder list \<Rightarrow> 'k btree_set \<Rightarrow> 'k btree_set" where
  "bs_extend xs s = fold bs_insert xs s"

abbreviation bs_collect :: "'k::linorder list \<Rightarrow> 'k btree_set" where
  "bs_collect xs \<equiv> bs_extend xs []"

definition bs_inter :: "'k btree_set \<Rightarrow> 'k btree_set \<Rightarrow> 'k btree_set" where
  "bs_inter a b = filter (\<lambda>x. x \<in> set b) a"

definition bs_diff :: "'k btree_set \<Rightarrow> 'k btree_set \<Rightarrow> 'k btree_set" where
  "bs_diff a b = filter (\<lambda>x. x \<notin> set b) a"

subsection \<open>The contract of the ordered map\<close>

text \<open>
  What the code relies on of \<open>BTreeMap\<close>: lookups after an insertion or a removal, strictly
  ascending keys, and one representation per content.
\<close>

locale ordered_map =
  fixes get :: "'m \<Rightarrow> 'k::linorder \<Rightarrow> 'v option"
    and ins :: "'k \<Rightarrow> 'v \<Rightarrow> 'm \<Rightarrow> 'm"
    and del :: "'k \<Rightarrow> 'm \<Rightarrow> 'm"
    and keys :: "'m \<Rightarrow> 'k list"
    and ok :: "'m \<Rightarrow> bool"
  assumes get_ins: "ok m \<Longrightarrow> get (ins k v m) = (get m)(k \<mapsto> v)"
    and get_del: "ok m \<Longrightarrow> get (del k m) = (get m)(k := None)"
    and ok_ins: "ok m \<Longrightarrow> ok (ins k v m)"
    and ok_del: "ok m \<Longrightarrow> ok (del k m)"
    and keys_ascend: "ok m \<Longrightarrow> sorted_wrt (<) (keys m)"
    and keys_dom: "set (keys m) = dom (get m)"
    and extensional: "ok m \<Longrightarrow> ok n \<Longrightarrow> get m = get n \<Longrightarrow> m = n"
begin

lemma ins_ins: "ok m \<Longrightarrow> ins k v (ins k w m) = ins k v m"
  by (rule extensional) (auto simp: get_ins ok_ins)

lemma ins_commute: "ok m \<Longrightarrow> k \<noteq> l \<Longrightarrow> ins k v (ins l w m) = ins l w (ins k v m)"
  by (rule extensional) (auto simp: get_ins ok_ins fun_upd_twist)

lemma ins_same: "ok m \<Longrightarrow> get m k = Some v \<Longrightarrow> ins k v m = m"
  by (rule extensional) (auto simp: get_ins ok_ins)

lemma del_absent: "ok m \<Longrightarrow> get m k = None \<Longrightarrow> del k m = m"
  by (rule extensional) (auto simp: get_del ok_del)

lemma keys_eq: "ok m \<Longrightarrow> keys m = sorted_list_of_set (dom (get m))"
  by (metis keys_ascend keys_dom strict_sorted_equal strict_sorted_list_of_set
      sorted_list_of_set.set_sorted_key_list_of_set finite_set)

end

lemma fst_bt_insert: "fst ` set (bt_insert k v m) = insert k (fst ` set m)"
  by (induction k v m rule: bt_insert.induct) auto

lemma bt_ok_insert: "bt_ok m \<Longrightarrow> bt_ok (bt_insert k v m)"
proof (induction k v m rule: bt_insert.induct)
  case (2 k v k' v' m)
  then show ?case
    using fst_bt_insert[of k v m] by auto
qed simp

lemma bt_get_insert [simp]: "bt_get (bt_insert k v m) = (bt_get m)(k \<mapsto> v)"
  by (induction k v m rule: bt_insert.induct) auto

lemma bt_ok_remove: "bt_ok m \<Longrightarrow> bt_ok (bt_remove k m)"
  by (induction m) (auto simp: bt_remove_def)

lemma bt_get_remove [simp]: "bt_get (bt_remove k m) = (bt_get m)(k := None)"
  by (induction m) (auto simp: bt_remove_def fun_eq_iff)

lemma bt_ok_distinct: "bt_ok m \<Longrightarrow> distinct (map fst m)"
  using strict_sorted_iff by blast

lemma bs_eqI:
  assumes "bs_ok a" and "bs_ok b" and "set a = set b"
  shows "a = (b :: 'a::linorder list)"
  using assms by (metis strict_sorted_equal)

lemma bt_as_lookup: "bt_ok m \<Longrightarrow> m = map (\<lambda>k. (k, the (bt_get m k))) (bt_keys m)"
proof (rule nth_equalityI)
  fix i assume ok: "bt_ok m" and i: "i < length m"
  then have "bt_get m (fst (m ! i)) = Some (snd (m ! i))"
    by (simp add: bt_ok_distinct map_of_eq_Some_iff)
  with i show "m ! i = map (\<lambda>k. (k, the (bt_get m k))) (bt_keys m) ! i"
    by simp
qed simp

lemma bt_eqI:
  assumes "bt_ok m" and "bt_ok n" and get: "bt_get m = bt_get n"
  shows "m = n"
proof -
  have "set (map fst m) = set (map fst n)"
    using get by (metis dom_map_of_conv_image_fst list.set_map)
  then have "map fst m = map fst n"
    using assms by (intro bs_eqI) auto
  then show ?thesis
    using assms bt_as_lookup by metis
qed

interpretation bt: ordered_map bt_get bt_insert bt_remove bt_keys bt_ok
  by unfold_locales
    (auto simp: bt_ok_insert bt_ok_remove dom_map_of_conv_image_fst intro: bt_eqI)

lemma bt_get_update [simp]:
  "bt_get (bt_update k d f m) = (bt_get m)(k \<mapsto> f (case bt_get m k of None \<Rightarrow> d | Some v \<Rightarrow> v))"
  by (simp add: bt_update_def)

lemma bt_ok_update: "bt_ok m \<Longrightarrow> bt_ok (bt_update k d f m)"
  by (simp add: bt_update_def bt_ok_insert)

lemma set_bs_insert [simp]: "set (bs_insert x s) = insert x (set s)"
  by (induction x s rule: bs_insert.induct) auto

lemma bs_ok_insert: "bs_ok s \<Longrightarrow> bs_ok (bs_insert x s)"
  by (induction x s rule: bs_insert.induct) auto

lemma set_bs_extend [simp]: "set (bs_extend xs s) = set xs \<union> set s"
  unfolding bs_extend_def by (induction xs arbitrary: s) auto

lemma bs_ok_extend: "bs_ok s \<Longrightarrow> bs_ok (bs_extend xs s)"
  unfolding bs_extend_def by (induction xs arbitrary: s) (auto simp: bs_ok_insert)

lemma bs_ok_filter: "bs_ok s \<Longrightarrow> bs_ok (filter p s)"
  by (rule sorted_wrt_filter)

lemma set_bs_inter [simp]: "set (bs_inter a b) = set a \<inter> set b"
  by (auto simp: bs_inter_def)

lemma bs_ok_inter: "bs_ok a \<Longrightarrow> bs_ok (bs_inter a b)"
  by (simp add: bs_inter_def bs_ok_filter)

lemma set_bs_diff [simp]: "set (bs_diff a b) = set a - set b"
  by (auto simp: bs_diff_def)

lemma bs_ok_diff: "bs_ok a \<Longrightarrow> bs_ok (bs_diff a b)"
  by (simp add: bs_diff_def bs_ok_filter)

lemma bs_ok_distinct: "bs_ok s \<Longrightarrow> distinct s"
  using strict_sorted_iff by blast

lemma bs_collect_id: "bs_ok s \<Longrightarrow> bs_collect s = s"
  by (rule bs_eqI) (auto simp: bs_ok_extend)

end
