(* ===== verification/Kernels.thy ===== *)
theory Kernels
  imports O11y_Prelude
begin

text \<open>
  The pure kernels of \<open>crates/verified/src\<close>, which the storage layer delegates its arithmetic
  to: the retention cutoff, the grid slots of a time span and their ranges, the cut of a
  compaction group into runs, and the window of blocks a query range can overlap.  Each loop of
  the source is a recursive function over the same variables; an index out of range is a panic.
\<close>

section \<open>Retention\<close>

definition retention_cutoff :: "i64 \<Rightarrow> i64 \<Rightarrow> i64 option" where
  "retention_cutoff now_ts retention_ticks =
     (if retention_ticks \<le> 0 then None else Some (saturating_sub now_ts retention_ticks))"

section \<open>Grid slots\<close>

record shard_time_range =
  str_start :: i64
  str_end :: i64

definition shard_range :: "i64 \<Rightarrow> i64 \<Rightarrow> shard_time_range" where
  "shard_range slot width =
     (let start = (case checked_mul slot width of Some s \<Rightarrow> s | None \<Rightarrow> i64_min);
          fin = saturating_add start (width - 1)
      in \<lparr>str_start = start, str_end = fin\<rparr>)"

function slots_loop :: "i64 \<Rightarrow> i64 \<Rightarrow> i64 list \<Rightarrow> i64 list" where
  "slots_loop slot final slots =
     (if slot < final then slots_loop (slot + 1) final (slots @ [slot]) else slots)"
  by pat_completeness auto
termination
  by (relation "measure (\<lambda>(slot, final, slots). nat (final - slot))") auto

definition bounded_shard_slots :: "i64 \<Rightarrow> i64 \<Rightarrow> i64 \<Rightarrow> i64 list" where
  "bounded_shard_slots first final max_slots =
     (if saturating_sub final first \<ge> max_slots then []
      else slots_loop first final [] @ [final])"

section \<open>Compaction runs\<close>

record run_state =
  rs_ends :: "nat list"
  rs_start :: nat
  rs_rows :: usize
  rs_index :: nat

definition run_step :: "usize \<Rightarrow> usize \<Rightarrow> usize \<Rightarrow> run_state \<Rightarrow> run_state" where
  "run_step max_blocks target_rows row_count s =
     (let rows = usize_saturating_add (rs_rows s) row_count;
          index = rs_index s + 1
      in if index - rs_start s \<ge> max_blocks \<or> rows \<ge> target_rows
         then \<lparr>rs_ends = rs_ends s @ [index], rs_start = index, rs_rows = 0, rs_index = index\<rparr>
         else s\<lparr>rs_rows := rows, rs_index := index\<rparr>)"

definition compaction_run_ends :: "usize list \<Rightarrow> usize \<Rightarrow> usize \<Rightarrow> nat list" where
  "compaction_run_ends row_counts max_blocks target_rows =
     (let s = fold (run_step max_blocks target_rows) row_counts
                \<lparr>rs_ends = [], rs_start = 0, rs_rows = 0, rs_index = 0\<rparr>
      in if rs_index s - rs_start s \<ge> 2 then rs_ends s @ [rs_index s] else rs_ends s)"

section \<open>The overlap window\<close>

text \<open>The binary search both loops of \<open>overlap_window\<close> run, with the probe as its argument.\<close>

function search_loop :: "(nat \<Rightarrow> bool option) \<Rightarrow> nat \<Rightarrow> nat \<Rightarrow> nat option" where
  "search_loop right lower upper =
     (if lower < upper
      then let middle = lower + (upper - lower) div 2
           in case right middle of
                None \<Rightarrow> None
              | Some True \<Rightarrow> search_loop right (middle + 1) upper
              | Some False \<Rightarrow> search_loop right lower middle
      else Some lower)"
  by pat_completeness auto
termination
  by (relation "measure (\<lambda>(right, lower, upper). upper - lower)") auto

declare search_loop.simps [simp del] slots_loop.simps [simp del]

record overlap_bounds =
  ow_start :: nat
  ow_end :: nat

definition overlap_window ::
  "i64 list \<Rightarrow> i64 list \<Rightarrow> i64 \<Rightarrow> i64 \<Rightarrow> overlap_bounds option" where
  "overlap_window starts prefix_ends min_ts max_ts = do {
     hi \<leftarrow> search_loop (\<lambda>m. map_option (\<lambda>s. s \<le> max_ts) (nth_opt starts m)) 0 (length starts);
     lower \<leftarrow> search_loop (\<lambda>m. map_option (\<lambda>e. e < min_ts) (nth_opt prefix_ends m)) 0 hi;
     Some \<lparr>ow_start = lower, ow_end = hi\<rparr>
   }"

section \<open>Properties\<close>

subsection \<open>Grid slots\<close>

lemma slots_loop_upto: "slots_loop slot final slots = slots @ [slot..final - 1]"
proof (induction slot final slots rule: slots_loop.induct)
  case (1 slot final slots)
  then show ?case
    by (subst slots_loop.simps) (simp add: upto_rec1)
qed

lemma shard_range_unclamped:
  assumes "is_i64 (slot * width)" and "is_i64 (slot * width + (width - 1))"
  shows "shard_range slot width = \<lparr>str_start = slot * width, str_end = slot * width + (width - 1)\<rparr>"
  using assms by (simp add: shard_range_def checked_mul_def saturating_add_def sat_i64_id Let_def)

lemma shard_range_start_le_end:
  "width \<ge> 1 \<Longrightarrow> str_start (shard_range slot width) \<le> str_end (shard_range slot width)"
  by (auto simp: shard_range_def checked_mul_def saturating_add_def sat_i64_def is_i64_def Let_def)

lemma shard_range_contains:
  assumes "is_i64 ts" and "1 \<le> width" and "is_i64 width"
  shows "str_start (shard_range (ts div width) width) \<le> ts
       \<and> ts \<le> str_end (shard_range (ts div width) width)"
proof -
  let ?s = "ts div width * width"
  have lo: "?s \<le> ts" and hi: "ts < ?s + width"
    using assms(2) by (simp_all add: minus_mod_eq_div_mult [symmetric])
  show ?thesis
  proof (cases "is_i64 ?s")
    case True
    with lo hi assms show ?thesis
      by (auto simp: shard_range_def checked_mul_def saturating_add_def sat_i64_def is_i64_def Let_def)
  next
    case False
    with lo hi assms show ?thesis
      by (auto simp: shard_range_def checked_mul_def saturating_add_def sat_i64_def is_i64_def Let_def)
  qed
qed

text \<open>The slot enumeration is empty exactly when the span reaches the cap, and is otherwise
  every slot from first to last in order, whatever the ends of the \<open>i64\<close> range.\<close>

lemma bounded_slots_eq:
  assumes "is_i64 first" and "is_i64 final" and "first \<le> final" and "is_i64 max_slots"
    and "max_slots < i64_max"
  shows "bounded_shard_slots first final max_slots
       = (if final - first \<ge> max_slots then [] else [first..final])"
proof -
  have "saturating_sub final first \<ge> max_slots \<longleftrightarrow> final - first \<ge> max_slots"
    using assms by (auto simp: saturating_sub_def sat_i64_def is_i64_def)
  moreover have "[first..final] = [first..final - 1] @ [final]"
    using assms(3) by (simp add: upto_rec2)
  ultimately show ?thesis
    by (simp add: bounded_shard_slots_def slots_loop_upto)
qed

subsection \<open>Retention\<close>

lemma retention_cutoff_Some:
  assumes "retention_cutoff now_ts ticks = Some c" and "is_i64 now_ts"
  shows "is_i64 c \<and> c \<le> now_ts \<and> (c = now_ts - ticks \<or> (c = i64_min \<and> now_ts - ticks < i64_min))"
  using assms
  by (auto simp: retention_cutoff_def saturating_sub_def sat_i64_def is_i64_def split: if_splits)

subsection \<open>Compaction runs\<close>

text \<open>
  \<open>run_chain cap start ends\<close>: from \<open>start\<close>, each end closes a run of at least two and at most
  \<open>cap\<close> blocks.
\<close>

fun run_chain :: "nat \<Rightarrow> nat \<Rightarrow> nat list \<Rightarrow> bool" where
  "run_chain cap start [] = True"
| "run_chain cap start (e # es) = (start + 2 \<le> e \<and> e \<le> start + cap \<and> run_chain cap e es)"

lemma run_chain_snoc:
  "run_chain cap start (es @ [e])
     \<longleftrightarrow> run_chain cap start es \<and> last (start # es) + 2 \<le> e \<and> e \<le> last (start # es) + cap"
  by (induction es arbitrary: start) auto

definition run_inv :: "nat \<Rightarrow> nat \<Rightarrow> nat \<Rightarrow> run_state \<Rightarrow> bool" where
  "run_inv cap target n s \<longleftrightarrow>
     run_chain cap 0 (rs_ends s) \<and> rs_start s = last (0 # rs_ends s) \<and> rs_start s \<le> rs_index s
     \<and> rs_index s = n \<and> rs_index s - rs_start s < cap
     \<and> (rs_index s = rs_start s \<longrightarrow> rs_rows s = 0)
     \<and> (rs_index s = rs_start s + 1 \<longrightarrow> rs_rows s < target)"

lemma run_step_inv:
  assumes inv: "run_inv cap target n s" and cap: "2 \<le> cap" and row: "row < target"
  shows "run_inv cap target (Suc n) (run_step cap target row s)"
proof (cases "Suc n - rs_start s \<ge> cap \<or> usize_saturating_add (rs_rows s) row \<ge> target")
  case True
  have "rs_start s + 2 \<le> Suc n"
  proof (rule ccontr)
    assume "\<not> rs_start s + 2 \<le> Suc n"
    with inv have "n = rs_start s" "rs_rows s = 0"
      by (auto simp: run_inv_def)
    with True cap row show False
      by (auto simp: usize_saturating_add_def)
  qed
  moreover have "Suc n \<le> rs_start s + cap"
    using inv by (auto simp: run_inv_def)
  ultimately show ?thesis
    using True inv cap by (auto simp: run_step_def run_inv_def run_chain_snoc Let_def)
next
  case False
  with inv row show ?thesis
    by (auto simp: run_step_def run_inv_def Let_def)
qed

lemma run_fold_inv:
  assumes "2 \<le> cap" and "\<forall>r \<in> set rows. r < target" and "run_inv cap target n s"
  shows "run_inv cap target (n + length rows) (fold (run_step cap target) rows s)"
  using assms(2,3)
proof (induction rows arbitrary: n s)
  case (Cons r rows)
  then show ?case
    using run_step_inv [of cap target n s r] assms(1) by fastforce
qed simp

lemma run_ends_ok:
  assumes "2 \<le> max_blocks" and "1 \<le> target_rows" and "\<forall>r \<in> set row_counts. r < target_rows"
  shows "run_chain max_blocks 0 (compaction_run_ends row_counts max_blocks target_rows)
       \<and> last (0 # compaction_run_ends row_counts max_blocks target_rows) \<le> length row_counts
       \<and> length row_counts
           \<le> last (0 # compaction_run_ends row_counts max_blocks target_rows) + 1"
proof -
  define s0 where "s0 = \<lparr>rs_ends = [], rs_start = 0, rs_rows = 0, rs_index = 0\<rparr>"
  define s where "s = fold (run_step max_blocks target_rows) row_counts s0"
  have "run_inv max_blocks target_rows 0 s0"
    using assms by (simp add: run_inv_def s0_def)
  then have "run_inv max_blocks target_rows (length row_counts) s"
    using run_fold_inv [of max_blocks row_counts target_rows 0 s0] assms by (simp add: s_def)
  moreover have "compaction_run_ends row_counts max_blocks target_rows =
      (if rs_index s - rs_start s \<ge> 2 then rs_ends s @ [rs_index s] else rs_ends s)"
    by (simp add: compaction_run_ends_def s_def s0_def Let_def)
  ultimately show ?thesis
    by (auto simp: run_inv_def run_chain_snoc)
qed

subsection \<open>The overlap window\<close>

lemma search_loop_partition:
  assumes "lower \<le> upper"
    and "\<And>m. lower \<le> m \<Longrightarrow> m < upper \<Longrightarrow> right m = Some (P m)"
    and "\<And>i j. lower \<le> i \<Longrightarrow> i \<le> j \<Longrightarrow> j < upper \<Longrightarrow> P j \<Longrightarrow> P i"
  shows "\<exists>r. search_loop right lower upper = Some r \<and> lower \<le> r \<and> r \<le> upper
       \<and> (\<forall>i. lower \<le> i \<longrightarrow> i < r \<longrightarrow> P i) \<and> (\<forall>i. r \<le> i \<longrightarrow> i < upper \<longrightarrow> \<not> P i)"
  using assms
proof (induction right lower upper rule: search_loop.induct)
  case (1 right lower upper)
  show ?case
  proof (cases "lower < upper")
    case False
    with "1.prems"(1) show ?thesis
      by (intro exI [of _ lower]) (simp add: search_loop.simps)
  next
    case True
    define mid where "mid = lower + (upper - lower) div 2"
    have mid: "lower \<le> mid" "mid < upper"
      using True by (auto simp: mid_def)
    have probe: "right mid = Some (P mid)"
      using "1.prems"(2) mid by blast
    show ?thesis
    proof (cases "P mid")
      case True
      note right = this
      have "\<exists>r. search_loop right (mid + 1) upper = Some r \<and> mid + 1 \<le> r \<and> r \<le> upper
          \<and> (\<forall>i. mid + 1 \<le> i \<longrightarrow> i < r \<longrightarrow> P i) \<and> (\<forall>i. r \<le> i \<longrightarrow> i < upper \<longrightarrow> \<not> P i)"
        using "1.IH"(1) [OF \<open>lower < upper\<close> mid_def, of True] probe right mid "1.prems"(2,3)
        by force
      moreover have "P i" if "lower \<le> i" "i < mid + 1" for i
        using that right mid "1.prems"(3) [of i mid] by force
      ultimately show ?thesis
        using probe right \<open>lower < upper\<close> mid
        by (simp add: search_loop.simps [of right lower upper] mid_def [symmetric] Let_def)
          (metis Suc_eq_plus1 le_Suc_eq not_less_eq_eq le_trans not_le)
    next
      case False
      note left = this
      have "\<exists>r. search_loop right lower mid = Some r \<and> lower \<le> r \<and> r \<le> mid
          \<and> (\<forall>i. lower \<le> i \<longrightarrow> i < r \<longrightarrow> P i) \<and> (\<forall>i. r \<le> i \<longrightarrow> i < mid \<longrightarrow> \<not> P i)"
        using "1.IH"(2) [OF \<open>lower < upper\<close> mid_def, of False] probe left mid "1.prems"(2,3)
        by force
      moreover have "\<not> P i" if "mid \<le> i" "i < upper" for i
        using that left mid "1.prems"(3) [of mid i] by force
      ultimately show ?thesis
        using probe left \<open>lower < upper\<close> mid
        by (simp add: search_loop.simps [of right lower upper] mid_def [symmetric] Let_def)
          (metis le_trans less_imp_le not_le)
    qed
  qed
qed

text \<open>
  The contract the block list relies on: for starts and running ends in ascending order the
  search never reads out of range, everything before the window ends before the query starts,
  everything after it starts after the query ends, and nothing inside is excluded by either
  search.
\<close>

lemma overlap_window_correct:
  assumes "length starts = length prefix_ends" and "sorted starts" and "sorted prefix_ends"
  shows "\<exists>w. overlap_window starts prefix_ends min_ts max_ts = Some w
       \<and> ow_start w \<le> ow_end w \<and> ow_end w \<le> length starts
       \<and> (\<forall>i < ow_start w. prefix_ends ! i < min_ts)
       \<and> (\<forall>i < ow_end w. starts ! i \<le> max_ts)
       \<and> (\<forall>i. ow_start w \<le> i \<longrightarrow> i < ow_end w \<longrightarrow> min_ts \<le> prefix_ends ! i)
       \<and> (\<forall>i. ow_end w \<le> i \<longrightarrow> i < length starts \<longrightarrow> max_ts < starts ! i)"
proof -
  define r1 where "r1 = (\<lambda>m. map_option (\<lambda>s. s \<le> max_ts) (nth_opt starts m))"
  define r2 where "r2 = (\<lambda>m. map_option (\<lambda>e. e < min_ts) (nth_opt prefix_ends m))"
  have "\<exists>r. search_loop r1 0 (length starts) = Some r \<and> 0 \<le> r \<and> r \<le> length starts
      \<and> (\<forall>i. 0 \<le> i \<longrightarrow> i < r \<longrightarrow> starts ! i \<le> max_ts)
      \<and> (\<forall>i. r \<le> i \<longrightarrow> i < length starts \<longrightarrow> \<not> starts ! i \<le> max_ts)"
    using assms(2)
    by (intro search_loop_partition)
      (auto simp: r1_def panic_simps dest: sorted_nth_mono [OF assms(2)])
  then obtain hi where hi: "search_loop r1 0 (length starts) = Some hi" "hi \<le> length starts"
      "\<forall>i < hi. starts ! i \<le> max_ts" "\<forall>i. hi \<le> i \<longrightarrow> i < length starts \<longrightarrow> max_ts < starts ! i"
    by (auto simp: not_le)
  have "\<exists>r. search_loop r2 0 hi = Some r \<and> 0 \<le> r \<and> r \<le> hi
      \<and> (\<forall>i. 0 \<le> i \<longrightarrow> i < r \<longrightarrow> prefix_ends ! i < min_ts)
      \<and> (\<forall>i. r \<le> i \<longrightarrow> i < hi \<longrightarrow> \<not> prefix_ends ! i < min_ts)"
    using assms(1) hi(2)
    by (intro search_loop_partition)
      (auto simp: r2_def panic_simps dest: sorted_nth_mono [OF assms(3)])
  then obtain lo where lo: "search_loop r2 0 hi = Some lo" "lo \<le> hi"
      "\<forall>i < lo. prefix_ends ! i < min_ts" "\<forall>i. lo \<le> i \<longrightarrow> i < hi \<longrightarrow> min_ts \<le> prefix_ends ! i"
    by (auto simp: not_less)
  have "overlap_window starts prefix_ends min_ts max_ts = Some \<lparr>ow_start = lo, ow_end = hi\<rparr>"
    using hi(1) lo(1) by (simp add: overlap_window_def r1_def [symmetric] r2_def [symmetric])
  with hi lo show ?thesis by simp
qed

end
