(* ===== verification/Block_List.thy ===== *)
theory Block_List
  imports Kernels
begin

unbundle bit_operations_syntax

text \<open>
  The block list of one tenant (\<open>crates/blockstore/src/index/block_list.rs\<close>) with the block
  records it keeps (\<open>block.rs\<close>, \<open>compaction/block_level.rs\<close> and \<open>BlockEntry\<close> of \<open>index.rs\<close>).

  A block is registered under an ordinal, which the posting lists refer to.  A removal only
  marks the ordinal dead; the list is renumbered once the dead outnumber the live.  Next to the
  entries the list keeps derived data: the key map, the time order with its positions, and the
  start times and running maximal end times along it.

  Ordinals are \<open>u32\<close> values, modelled as \<^typ>\<open>nat\<close>; the conversions the code checks
  (\<open>u32::try_from(..).expect(..)\<close>) and every vector index are panics where they fail.
\<close>

section \<open>Blocks\<close>

type_synonym fingerprint = u64
type_synonym ordinal = nat
type_synonym block_level = nat

definition ingested :: block_level where
  "ingested = 0"

definition level_next :: "block_level \<Rightarrow> block_level" where
  "level_next l = min u32_max (l + 1)"

record block_meta =
  bm_tenant :: string
  bm_object_key :: string
  bm_min_ts :: i64
  bm_max_ts :: i64
  bm_row_count :: usize
  bm_fingerprints :: "fingerprint list"
  bm_level :: block_level

record block_time_bounds =
  tb_min_ts :: i64
  tb_max_ts :: i64

record block_entry =
  be_object_key :: string
  be_min_ts :: i64
  be_max_ts :: i64
  be_row_count :: usize
  be_fingerprint_count :: usize
  be_fingerprint_digest :: u64
  be_level :: block_level

definition entry_overlaps :: "block_entry \<Rightarrow> i64 \<Rightarrow> i64 \<Rightarrow> bool" where
  "entry_overlaps e min_ts max_ts \<longleftrightarrow> be_min_ts e \<le> max_ts \<and> be_max_ts e \<ge> min_ts"

definition mix_fingerprint :: "fingerprint \<Rightarrow> u64" where
  "mix_fingerprint fp =
     (let m1 = (fp XOR drop_bit 30 fp) * 0xBF58476D1CE4E5B9;
          m2 = (m1 XOR drop_bit 27 m1) * 0x94D049BB133111EB
      in m2 XOR drop_bit 31 m2)"

definition fingerprint_set_digest :: "fingerprint list \<Rightarrow> u64" where
  "fingerprint_set_digest fps = fold (\<lambda>fp digest. digest + mix_fingerprint fp) fps 0"

section \<open>The list\<close>

record block_list_repr =
  br_entries :: "block_entry list"
  br_postings :: "(fingerprint, ordinal list) btree_map"

record block_list =
  bl_entries :: "block_entry list"
  bl_live :: "bool list"
  bl_by_key :: "(string, ordinal) btree_map"
  bl_postings :: "(fingerprint, ordinal list) btree_map"
  bl_order :: "ordinal list"
  bl_min_start :: "i64 list"
  bl_position :: "nat list"
  bl_max_end :: "i64 list"
  bl_dead :: usize

definition empty_list :: block_list where
  "empty_list = \<lparr>bl_entries = [], bl_live = [], bl_by_key = [], bl_postings = [], bl_order = [],
     bl_min_start = [], bl_position = [], bl_max_end = [], bl_dead = 0\<rparr>"

abbreviation no_position :: nat where
  "no_position \<equiv> u32_max"

definition order_key :: "block_entry \<Rightarrow> i64 \<times> i64 \<times> string" where
  "order_key e = (be_min_ts e, be_max_ts e, be_object_key e)"

definition list_len :: "block_list \<Rightarrow> nat" where
  "list_len bl = length (bl_order bl)"

definition refresh_one :: "nat \<Rightarrow> block_list \<Rightarrow> block_list option" where
  "refresh_one index bl = do {
     ordinal \<leftarrow> nth_opt (bl_order bl) index;
     here \<leftarrow> u32_try index;
     position \<leftarrow> upd_opt (bl_position bl) ordinal here;
     entry \<leftarrow> nth_opt (bl_entries bl) ordinal;
     min_start \<leftarrow> upd_opt (bl_min_start bl) index (be_min_ts entry);
     previous \<leftarrow> (if index = 0 then Some i64_min else nth_opt (bl_max_end bl) (index - 1));
     max_end \<leftarrow> upd_opt (bl_max_end bl) index (max previous (be_max_ts entry));
     Some (bl\<lparr>bl_position := position, bl_min_start := min_start, bl_max_end := max_end\<rparr>)
   }"

definition refresh_from :: "nat \<Rightarrow> block_list \<Rightarrow> block_list option" where
  "refresh_from from bl =
     fold_opt refresh_one [from..<length (bl_order bl)]
       (bl\<lparr>bl_min_start := vec_resize (length (bl_order bl)) i64_min (bl_min_start bl),
           bl_max_end := vec_resize (length (bl_order bl)) i64_min (bl_max_end bl)\<rparr>)"

definition detach :: "ordinal \<Rightarrow> block_list \<Rightarrow> (nat \<times> block_list) option" where
  "detach ordinal bl = do {
     position \<leftarrow> nth_opt (bl_position bl) ordinal;
     if position = no_position then Some (length (bl_order bl), bl)
     else do {
       order \<leftarrow> vec_remove position (bl_order bl);
       positions \<leftarrow> upd_opt (bl_position bl) ordinal no_position;
       bl' \<leftarrow> refresh_from position (bl\<lparr>bl_order := order, bl_position := positions\<rparr>);
       Some (position, bl')
     }
   }"

definition attach :: "ordinal \<Rightarrow> block_list \<Rightarrow> block_list option" where
  "attach ordinal bl = do {
     entry \<leftarrow> nth_opt (bl_entries bl) ordinal;
     others \<leftarrow> map_opt (nth_opt (bl_entries bl)) (bl_order bl);
     let position = partition_point (\<lambda>other. order_key other < order_key entry) others;
     order \<leftarrow> vec_insert position ordinal (bl_order bl);
     refresh_from position (bl\<lparr>bl_order := order\<rparr>)
   }"

definition retire :: "ordinal \<Rightarrow> block_list \<Rightarrow> (bool \<times> block_list) option" where
  "retire ordinal bl = do {
     alive \<leftarrow> nth_opt (bl_live bl) ordinal;
     if \<not> alive then Some (False, bl)
     else do {
       live \<leftarrow> upd_opt (bl_live bl) ordinal False;
       (_, bl') \<leftarrow> detach ordinal (bl\<lparr>bl_live := live, bl_dead := bl_dead bl + 1\<rparr>);
       entry \<leftarrow> nth_opt (bl_entries bl') ordinal;
       let key = be_object_key entry;
       Some (True,
         if bt_get (bl_by_key bl') key = Some ordinal
         then bl'\<lparr>bl_by_key := bt_remove key (bl_by_key bl')\<rparr> else bl')
     }
   }"

definition index_live_key :: "ordinal \<Rightarrow> block_list \<Rightarrow> block_list option" where
  "index_live_key i bl = do {
     entry \<leftarrow> nth_opt (bl_entries bl) i;
     ordinal \<leftarrow> u32_try i;
     alive \<leftarrow> nth_opt (bl_live bl) ordinal;
     Some (if alive then bl\<lparr>bl_by_key := bt_insert (be_object_key entry) ordinal (bl_by_key bl)\<rparr>
           else bl)
   }"

definition keep_winner :: "ordinal \<Rightarrow> block_list \<Rightarrow> block_list option" where
  "keep_winner i bl = do {
     entry \<leftarrow> nth_opt (bl_entries bl) i;
     ordinal \<leftarrow> u32_try i;
     if bt_get (bl_by_key bl) (be_object_key entry) = Some ordinal
     then Some (bl\<lparr>bl_order := bl_order bl @ [ordinal]\<rparr>)
     else do {
       live \<leftarrow> upd_opt (bl_live bl) ordinal False;
       Some (bl\<lparr>bl_live := live, bl_dead := bl_dead bl + 1\<rparr>)
     }
   }"

definition rebuild_derived :: "block_list \<Rightarrow> block_list option" where
  "rebuild_derived bl = do {
     let ordinals = [0..<length (bl_entries bl)];
     bl1 \<leftarrow> fold_opt index_live_key ordinals (bl\<lparr>bl_by_key := [], bl_order := []\<rparr>);
     bl2 \<leftarrow> fold_opt keep_winner ordinals (bl1\<lparr>bl_dead := 0\<rparr>);
     _ \<leftarrow> map_opt (nth_opt (bl_entries bl2)) (bl_order bl2);
     let order = sort_key (\<lambda>i. order_key (bl_entries bl2 ! i)) (bl_order bl2);
     refresh_from 0 (bl2\<lparr>bl_order := order,
       bl_position := replicate (length (bl_entries bl2)) no_position,
       bl_min_start := [], bl_max_end := []\<rparr>)
   }"

definition from_repr :: "block_list_repr \<Rightarrow> block_list option" where
  "from_repr repr =
     rebuild_derived
       \<lparr>bl_entries = br_entries repr,
        bl_live = replicate (length (br_entries repr)) True,
        bl_by_key = [],
        bl_postings = br_postings repr,
        bl_order = [], bl_min_start = [],
        bl_position = replicate (length (br_entries repr)) no_position,
        bl_max_end = [], bl_dead = 0\<rparr>"

definition compact_entry ::
  "block_list \<Rightarrow> ordinal \<Rightarrow> (ordinal, ordinal) btree_map \<times> block_entry list
     \<Rightarrow> ((ordinal, ordinal) btree_map \<times> block_entry list) option" where
  "compact_entry bl i acc = do {
     entry \<leftarrow> nth_opt (bl_entries bl) i;
     alive \<leftarrow> nth_opt (bl_live bl) i;
     if \<not> alive then Some acc
     else do {
       ordinal \<leftarrow> u32_try i;
       fresh \<leftarrow> u32_try (length (snd acc));
       Some (bt_insert ordinal fresh (fst acc), snd acc @ [entry])
     }
   }"

definition remap_postings ::
  "(ordinal, ordinal) btree_map \<Rightarrow> (fingerprint, ordinal list) btree_map
     \<Rightarrow> (fingerprint, ordinal list) btree_map" where
  "remap_postings remap postings =
     fold (\<lambda>(fp, ordinals) kept_map.
         let kept = List.map_filter (bt_get remap) ordinals
         in if kept = [] then kept_map else bt_insert fp kept kept_map)
       postings []"

definition compacted :: "block_list \<Rightarrow> block_list option" where
  "compacted bl = do {
     (remap, entries) \<leftarrow> fold_opt (compact_entry bl) [0..<length (bl_entries bl)] ([], []);
     from_repr \<lparr>br_entries = entries, br_postings = remap_postings remap (bl_postings bl)\<rparr>
   }"

definition to_repr :: "block_list \<Rightarrow> block_list_repr option" where
  "to_repr bl = do {
     compact \<leftarrow> compacted bl;
     Some \<lparr>br_entries = bl_entries compact, br_postings = bl_postings compact\<rparr>
   }"

definition compact_if_mostly_dead :: "block_list \<Rightarrow> block_list option" where
  "compact_if_mostly_dead bl =
     (if bl_dead bl > length (bl_order bl) then compacted bl else Some bl)"

section \<open>Registration and removal\<close>

definition entry_of_meta :: "block_meta \<Rightarrow> fingerprint btree_set \<Rightarrow> block_entry" where
  "entry_of_meta meta fingerprints =
     \<lparr>be_object_key = bm_object_key meta, be_min_ts = bm_min_ts meta,
      be_max_ts = bm_max_ts meta, be_row_count = bm_row_count meta,
      be_fingerprint_count = length fingerprints,
      be_fingerprint_digest = fingerprint_set_digest fingerprints,
      be_level = bm_level meta\<rparr>"

text \<open>The tail of \<open>insert\<close>: a new ordinal, its entry and its postings.\<close>

definition append_block ::
  "block_meta \<Rightarrow> fingerprint btree_set \<Rightarrow> block_list \<Rightarrow> block_list option" where
  "append_block meta fingerprints bl = do {
     ordinal \<leftarrow> u32_try (length (bl_entries bl));
     attach ordinal
       (bl\<lparr>bl_entries := bl_entries bl @ [entry_of_meta meta fingerprints],
           bl_live := bl_live bl @ [True],
           bl_position := bl_position bl @ [no_position],
           bl_by_key := bt_insert (bm_object_key meta) ordinal (bl_by_key bl),
           bl_postings := fold (\<lambda>fp. bt_update fp [] (\<lambda>os. os @ [ordinal])) fingerprints
             (bl_postings bl)\<rparr>)
   }"

text \<open>The branch of \<open>insert\<close> that restates a block with the same series set.\<close>

definition restate_block :: "block_meta \<Rightarrow> ordinal \<Rightarrow> block_list \<Rightarrow> block_list option" where
  "restate_block meta ordinal bl = do {
     entry \<leftarrow> nth_opt (bl_entries bl) ordinal;
     let moved = (be_min_ts entry \<noteq> bm_min_ts meta \<or> be_max_ts entry \<noteq> bm_max_ts meta);
     entries \<leftarrow> upd_opt (bl_entries bl) ordinal
       (entry\<lparr>be_min_ts := bm_min_ts meta, be_max_ts := bm_max_ts meta,
              be_row_count := bm_row_count meta, be_level := bm_level meta\<rparr>);
     let bl' = bl\<lparr>bl_entries := entries\<rparr>;
     if moved then do { (_, bl'') \<leftarrow> detach ordinal bl'; attach ordinal bl'' }
     else Some bl'
   }"

definition insert_block :: "block_meta \<Rightarrow> block_list \<Rightarrow> block_list option" where
  "insert_block meta bl =
     (let fingerprints = bs_collect (bm_fingerprints meta);
          digest = fingerprint_set_digest fingerprints
      in case bt_get (bl_by_key bl) (bm_object_key meta) of
           None \<Rightarrow> append_block meta fingerprints bl \<bind> compact_if_mostly_dead
         | Some ordinal \<Rightarrow> do {
             entry \<leftarrow> nth_opt (bl_entries bl) ordinal;
             if be_fingerprint_count entry = length fingerprints
                \<and> be_fingerprint_digest entry = digest
             then restate_block meta ordinal bl
             else do {
               (_, bl') \<leftarrow> retire ordinal bl;
               append_block meta fingerprints bl' \<bind> compact_if_mostly_dead
             }
           })"

definition remove_one :: "string \<Rightarrow> nat \<times> block_list \<Rightarrow> (nat \<times> block_list) option" where
  "remove_one key acc =
     (case bt_get (bl_by_key (snd acc)) key of
        None \<Rightarrow> Some acc
      | Some ordinal \<Rightarrow> do {
          (gone, bl') \<leftarrow> retire ordinal (snd acc);
          Some (if gone then (fst acc + 1, bl') else (fst acc, bl'))
        })"

definition remove_blocks :: "string btree_set \<Rightarrow> block_list \<Rightarrow> (nat \<times> block_list) option" where
  "remove_blocks keys bl = do {
     (removed, bl') \<leftarrow> fold_opt remove_one keys (0, bl);
     bl'' \<leftarrow> compact_if_mostly_dead bl';
     Some (removed, bl'')
   }"

section \<open>Queries\<close>

definition window :: "block_list \<Rightarrow> i64 \<Rightarrow> i64 \<Rightarrow> overlap_bounds option" where
  "window bl min_ts max_ts = overlap_window (bl_min_start bl) (bl_max_end bl) min_ts max_ts"

definition keys_in_window ::
  "block_list \<Rightarrow> nat \<Rightarrow> nat \<Rightarrow> i64 \<Rightarrow> i64 \<Rightarrow> (ordinal \<Rightarrow> bool option) \<Rightarrow> string list option" where
  "keys_in_window bl lo hi min_ts max_ts keep = do {
     span \<leftarrow> slice_opt (bl_order bl) lo hi;
     kept \<leftarrow> filter_opt keep span;
     entries \<leftarrow> map_opt (nth_opt (bl_entries bl)) kept;
     Some (map be_object_key (filter (\<lambda>e. entry_overlaps e min_ts max_ts) entries))
   }"

definition blocks_in_range :: "block_list \<Rightarrow> i64 \<Rightarrow> i64 \<Rightarrow> string list option" where
  "blocks_in_range bl min_ts max_ts = do {
     w \<leftarrow> window bl min_ts max_ts;
     keys_in_window bl (ow_start w) (ow_end w) min_ts max_ts (\<lambda>_. Some True)
   }"

text \<open>
  The marking loop of \<open>candidate_blocks\<close>.  The flag says that the labelled break has left both
  loops because every block of the window is already marked.
\<close>

type_synonym marks = "bool list \<times> nat"

fun mark_ordinals ::
  "block_list \<Rightarrow> nat \<Rightarrow> nat \<Rightarrow> ordinal list \<Rightarrow> marks \<Rightarrow> (bool \<times> marks) option" where
  "mark_ordinals bl lo hi [] st = Some (False, st)"
| "mark_ordinals bl lo hi (ordinal # ordinals) st = do {
     position \<leftarrow> nth_opt (bl_position bl) ordinal;
     if position = no_position then mark_ordinals bl lo hi ordinals st
     else if position < lo \<or> position \<ge> hi then mark_ordinals bl lo hi ordinals st
     else do {
       already \<leftarrow> nth_opt (fst st) ordinal;
       if already then mark_ordinals bl lo hi ordinals st
       else do {
         hit \<leftarrow> upd_opt (fst st) ordinal True;
         let found = snd st + 1;
         if found = hi - lo then Some (True, (hit, found))
         else mark_ordinals bl lo hi ordinals (hit, found)
       }
     }
   }"

fun mark_fingerprints ::
  "block_list \<Rightarrow> nat \<Rightarrow> nat \<Rightarrow> fingerprint list \<Rightarrow> marks \<Rightarrow> marks option" where
  "mark_fingerprints bl lo hi [] st = Some st"
| "mark_fingerprints bl lo hi (fp # fps) st =
     (case bt_get (bl_postings bl) fp of
        None \<Rightarrow> mark_fingerprints bl lo hi fps st
      | Some ordinals \<Rightarrow> do {
          (done, st') \<leftarrow> mark_ordinals bl lo hi ordinals st;
          if done then Some st' else mark_fingerprints bl lo hi fps st'
        })"

definition candidate_blocks ::
  "block_list \<Rightarrow> fingerprint btree_set \<Rightarrow> i64 \<Rightarrow> i64 \<Rightarrow> string list option" where
  "candidate_blocks bl fps min_ts max_ts = do {
     w \<leftarrow> window bl min_ts max_ts;
     let lo = ow_start w;
     let hi = ow_end w;
     if lo \<ge> hi \<or> fps = [] then Some []
     else do {
       (hit, _) \<leftarrow> mark_fingerprints bl lo hi fps (replicate (length (bl_entries bl)) False, 0);
       keys_in_window bl lo hi min_ts max_ts (nth_opt hit)
     }
   }"

definition widen_bounds :: "block_entry \<Rightarrow> block_time_bounds option \<Rightarrow> block_time_bounds option" where
  "widen_bounds e bounds =
     (case bounds of
        Some b \<Rightarrow> Some \<lparr>tb_min_ts = min (tb_min_ts b) (be_min_ts e),
                         tb_max_ts = max (tb_max_ts b) (be_max_ts e)\<rparr>
      | None \<Rightarrow> Some \<lparr>tb_min_ts = be_min_ts e, tb_max_ts = be_max_ts e\<rparr>)"

definition time_bounds :: "block_list \<Rightarrow> i64 \<Rightarrow> i64 \<Rightarrow> block_time_bounds option option" where
  "time_bounds bl min_ts max_ts = do {
     w \<leftarrow> window bl min_ts max_ts;
     span \<leftarrow> slice_opt (bl_order bl) (ow_start w) (ow_end w);
     entries \<leftarrow> map_opt (nth_opt (bl_entries bl)) span;
     Some (fold widen_bounds (filter (\<lambda>e. entry_overlaps e min_ts max_ts) entries) None)
   }"

definition ordinals_overlapping :: "block_list \<Rightarrow> i64 \<Rightarrow> i64 \<Rightarrow> ordinal list option" where
  "ordinals_overlapping bl min_ts max_ts = do {
     w \<leftarrow> window bl min_ts max_ts;
     span \<leftarrow> slice_opt (bl_order bl) (ow_start w) (ow_end w);
     filter_opt (\<lambda>i. map_option (\<lambda>e. entry_overlaps e min_ts max_ts) (nth_opt (bl_entries bl) i))
       span
   }"

definition level_of :: "block_list \<Rightarrow> string \<Rightarrow> block_level option option" where
  "level_of bl key =
     (case bt_get (bl_by_key bl) key of
        None \<Rightarrow> Some None
      | Some ordinal \<Rightarrow> map_option (\<lambda>e. Some (be_level e)) (nth_opt (bl_entries bl) ordinal))"

definition list_entry :: "block_list \<Rightarrow> ordinal \<Rightarrow> block_entry option" where
  "list_entry bl ordinal = nth_opt (bl_entries bl) ordinal"

type_synonym by_ordinal = "(ordinal, fingerprint list) btree_map"

definition note_ordinal ::
  "block_list \<Rightarrow> fingerprint \<Rightarrow> ordinal \<Rightarrow> by_ordinal \<Rightarrow> by_ordinal option" where
  "note_ordinal bl fp ordinal acc = do {
     alive \<leftarrow> nth_opt (bl_live bl) ordinal;
     Some (if alive then bt_update ordinal [] (\<lambda>fps. fps @ [fp]) acc else acc)
   }"

definition fingerprints_by_ordinal :: "block_list \<Rightarrow> by_ordinal option" where
  "fingerprints_by_ordinal bl =
     fold_opt (\<lambda>(fp, ordinals). fold_opt (note_ordinal bl fp) ordinals) (bl_postings bl) []"

fun metas_loop ::
  "string \<Rightarrow> block_list \<Rightarrow> ordinal list \<Rightarrow> by_ordinal \<Rightarrow> block_meta list option" where
  "metas_loop tenant bl [] fingerprints = Some []"
| "metas_loop tenant bl (ordinal # ordinals) fingerprints = do {
     entry \<leftarrow> nth_opt (bl_entries bl) ordinal;
     rest \<leftarrow> metas_loop tenant bl ordinals (bt_remove ordinal fingerprints);
     Some (\<lparr>bm_tenant = tenant, bm_object_key = be_object_key entry,
            bm_min_ts = be_min_ts entry, bm_max_ts = be_max_ts entry,
            bm_row_count = be_row_count entry,
            bm_fingerprints = (case bt_get fingerprints ordinal of None \<Rightarrow> [] | Some fps \<Rightarrow> fps),
            bm_level = be_level entry\<rparr> # rest)
   }"

definition metas :: "block_list \<Rightarrow> string \<Rightarrow> block_meta list option" where
  "metas bl tenant = do {
     fingerprints \<leftarrow> fingerprints_by_ordinal bl;
     metas_loop tenant bl (bl_order bl) fingerprints
   }"

definition postings_for ::
  "block_list \<Rightarrow> ordinal btree_set \<Rightarrow> (fingerprint, ordinal list) btree_map" where
  "postings_for bl ordinals =
     fold (\<lambda>(fp, block_ordinals) selected.
         let kept = filter (\<lambda>i. i \<in> set ordinals) block_ordinals
         in if kept = [] then selected else bt_insert fp kept selected)
       (bl_postings bl) []"

record local_block_shard =
  ls_blocks :: "block_entry list"
  ls_postings :: "(fingerprint, ordinal list) btree_map"

text \<open>
  \<open>binary_search_by_key\<close> over the renumbering, which holds each ordinal once in ascending order:
  the index of the one pair with that key, if there is one.
\<close>

definition local_ordinal :: "(ordinal \<times> ordinal) list \<Rightarrow> ordinal \<Rightarrow> ordinal option" where
  "local_ordinal local ordinal = map_of local ordinal"

definition shard_local :: "block_list \<Rightarrow> ordinal btree_set \<Rightarrow> local_block_shard option" where
  "shard_local bl ordinals = do {
     numbers \<leftarrow> map_opt u32_try [0..<length ordinals];
     let local = zip ordinals numbers;
     let postings = fold (\<lambda>(fp, os). bt_insert fp (List.map_filter (local_ordinal local) os))
       (postings_for bl ordinals) [];
     blocks \<leftarrow> map_opt (list_entry bl) ordinals;
     Some \<lparr>ls_blocks = blocks, ls_postings = postings\<rparr>
   }"

definition live_fingerprints :: "block_list \<Rightarrow> fingerprint btree_set option" where
  "live_fingerprints bl = do {
     marked \<leftarrow> map_opt (\<lambda>(fp, ordinals). do {
         alive \<leftarrow> any_opt (nth_opt (bl_live bl)) ordinals;
         Some (fp, alive) }) (bl_postings bl);
     Some (map fst (filter snd marked))
   }"

end
