(* ===== verification/Block_List_Inv.thy ===== *)
theory Block_List_Inv
  imports Block_List
begin

text \<open>
  The representation invariant of the block list: the derived data agrees with the entries, and
  every operation that changes the list keeps it and does not panic while there are ordinals
  left.
\<close>

section \<open>The derived data along the time order\<close>

abbreviation ent :: "block_list \<Rightarrow> ordinal \<Rightarrow> block_entry" where
  "ent bl i \<equiv> bl_entries bl ! i"

definition cache_at :: "block_list \<Rightarrow> nat \<Rightarrow> bool" where
  "cache_at bl i \<longleftrightarrow>
     bl_position bl ! (bl_order bl ! i) = i
     \<and> bl_min_start bl ! i = be_min_ts (ent bl (bl_order bl ! i))
     \<and> bl_max_end bl ! i = max (if i = 0 then i64_min else bl_max_end bl ! (i - 1))
                              (be_max_ts (ent bl (bl_order bl ! i)))"

definition caches_ok :: "nat \<Rightarrow> block_list \<Rightarrow> bool" where
  "caches_ok n bl \<longleftrightarrow>
     n \<le> length (bl_order bl) \<and> n \<le> length (bl_min_start bl) \<and> n \<le> length (bl_max_end bl)
     \<and> (\<forall>i < n. cache_at bl i)"

definition order_ok :: "block_list \<Rightarrow> bool" where
  "order_ok bl \<longleftrightarrow> distinct (bl_order bl) \<and> (\<forall>i \<in> set (bl_order bl). i < length (bl_entries bl))
     \<and> length (bl_position bl) = length (bl_entries bl) \<and> length (bl_order bl) \<le> u32_max"

text \<open>The refresh changes nothing but the caches, and only the positions of ordered ordinals.\<close>

definition refreshed :: "block_list \<Rightarrow> block_list \<Rightarrow> bool" where
  "refreshed bl bl' \<longleftrightarrow>
     bl_entries bl' = bl_entries bl \<and> bl_live bl' = bl_live bl \<and> bl_by_key bl' = bl_by_key bl
     \<and> bl_postings bl' = bl_postings bl \<and> bl_order bl' = bl_order bl \<and> bl_dead bl' = bl_dead bl
     \<and> length (bl_position bl') = length (bl_position bl)
     \<and> (\<forall>i. i \<notin> set (bl_order bl) \<longrightarrow> bl_position bl' ! i = bl_position bl ! i)"

lemma refreshed_trans: "refreshed a b \<Longrightarrow> refreshed b c \<Longrightarrow> refreshed a c"
  by (auto simp: refreshed_def)

lemma refreshed_frame:
  assumes "refreshed bl bl'"
  shows "bl_entries bl' = bl_entries bl" "bl_live bl' = bl_live bl" "bl_by_key bl' = bl_by_key bl"
    "bl_postings bl' = bl_postings bl" "bl_order bl' = bl_order bl" "bl_dead bl' = bl_dead bl"
    "length (bl_position bl') = length (bl_position bl)"
    "i \<notin> set (bl_order bl) \<Longrightarrow> bl_position bl' ! i = bl_position bl ! i"
  using assms by (auto simp: refreshed_def)

definition caches_full :: "block_list \<Rightarrow> bool" where
  "caches_full bl \<longleftrightarrow> caches_ok (length (bl_order bl)) bl
     \<and> length (bl_min_start bl) = length (bl_order bl)
     \<and> length (bl_max_end bl) = length (bl_order bl)"

lemma caches_update [simp]:
  "caches_ok n (bl\<lparr>bl_live := l\<rparr>) = caches_ok n bl"
  "caches_ok n (bl\<lparr>bl_dead := d\<rparr>) = caches_ok n bl"
  "caches_ok n (bl\<lparr>bl_by_key := k\<rparr>) = caches_ok n bl"
  "caches_ok n (bl\<lparr>bl_postings := ps\<rparr>) = caches_ok n bl"
  "caches_full (bl\<lparr>bl_live := l\<rparr>) = caches_full bl"
  "caches_full (bl\<lparr>bl_dead := d\<rparr>) = caches_full bl"
  "caches_full (bl\<lparr>bl_by_key := k\<rparr>) = caches_full bl"
  "caches_full (bl\<lparr>bl_postings := ps\<rparr>) = caches_full bl"
  by (simp_all add: caches_full_def caches_ok_def cache_at_def)

lemma order_ok_update [simp]:
  "order_ok (bl\<lparr>bl_live := l\<rparr>) = order_ok bl"
  "order_ok (bl\<lparr>bl_dead := d\<rparr>) = order_ok bl"
  "order_ok (bl\<lparr>bl_by_key := k\<rparr>) = order_ok bl"
  "order_ok (bl\<lparr>bl_postings := ps\<rparr>) = order_ok bl"
  by (simp_all add: order_ok_def)

lemma caches_full_prefix: "caches_full bl \<Longrightarrow> n \<le> length (bl_order bl) \<Longrightarrow> caches_ok n bl"
  by (simp add: caches_full_def caches_ok_def)

lemma refresh_one_ok:
  assumes ok: "order_ok bl" and c: "caches_ok index bl" and i: "index < length (bl_order bl)"
    and len: "length (bl_min_start bl) = length (bl_order bl)"
      "length (bl_max_end bl) = length (bl_order bl)"
  shows "\<exists>bl'. refresh_one index bl = Some bl' \<and> refreshed bl bl' \<and> caches_ok (Suc index) bl'
       \<and> length (bl_min_start bl') = length (bl_order bl)
       \<and> length (bl_max_end bl') = length (bl_order bl)"
proof -
  define o' where "o' = bl_order bl ! index"
  define prev where "prev = (if index = 0 then i64_min else bl_max_end bl ! (index - 1))"
  define bl' where "bl' = bl\<lparr>bl_position := (bl_position bl)[o' := index],
      bl_min_start := (bl_min_start bl)[index := be_min_ts (ent bl o')],
      bl_max_end := (bl_max_end bl)[index := max prev (be_max_ts (ent bl o'))]\<rparr>"
  have o': "o' \<in> set (bl_order bl)" "o' < length (bl_entries bl)" "o' < length (bl_position bl)"
    using ok i by (auto simp: order_ok_def o'_def)
  have "index \<le> u32_max"
    using ok i by (simp add: order_ok_def)
  then have "refresh_one index bl = Some bl'"
    using i len o' by (simp add: refresh_one_def panic_simps o'_def bl'_def prev_def)
  moreover have "(bl_position bl)[o' := index] ! j = bl_position bl ! j"
    if "j \<notin> set (bl_order bl)" for j
    using that o'(1) by (cases "j = o'") auto
  then have "refreshed bl bl'"
    by (simp add: refreshed_def bl'_def)
  moreover have "caches_ok (Suc index) bl'"
  proof -
    have ne: "bl_order bl ! j \<noteq> o'" if "j < index" for j
      using that ok i by (simp add: o'_def order_ok_def nth_eq_iff_index_eq)
    have "cache_at bl' j" if "j < Suc index" for j
    proof (cases "j = index")
      case True
      with o' i len show ?thesis
        by (auto simp: bl'_def o'_def prev_def cache_at_def nth_list_update)
    next
      case False
      with that have "j < index" by simp
      moreover from this have "cache_at bl j"
        using c by (simp add: caches_ok_def)
      ultimately show ?thesis
        using ne [of j] by (auto simp: bl'_def cache_at_def nth_list_update_neq)
    qed
    with i len show ?thesis by (simp add: caches_ok_def bl'_def)
  qed
  ultimately show ?thesis
    using len by (simp add: bl'_def)
qed

lemma order_ok_refreshed: "refreshed bl bl' \<Longrightarrow> order_ok bl \<Longrightarrow> order_ok bl'"
  by (auto simp: order_ok_def refreshed_def)

lemma refresh_loop_ok:
  assumes "order_ok bl" and "caches_ok from bl" and "from + k = length (bl_order bl)"
    and "length (bl_min_start bl) = length (bl_order bl)"
    and "length (bl_max_end bl) = length (bl_order bl)"
  shows "\<exists>bl'. fold_opt refresh_one [from..<length (bl_order bl)] bl = Some bl'
       \<and> refreshed bl bl' \<and> caches_full bl'"
  using assms
proof (induction k arbitrary: "from" bl)
  case 0
  then show ?case
    by (simp add: refreshed_def caches_full_def)
next
  case (Suc k)
  have "\<exists>bl'. refresh_one from bl = Some bl' \<and> refreshed bl bl' \<and> caches_ok (Suc from) bl'
      \<and> length (bl_min_start bl') = length (bl_order bl)
      \<and> length (bl_max_end bl') = length (bl_order bl)"
    using Suc.prems by (intro refresh_one_ok) auto
  then obtain bl1 where bl1: "refresh_one from bl = Some bl1" "refreshed bl bl1"
      "caches_ok (Suc from) bl1" "length (bl_min_start bl1) = length (bl_order bl)"
      "length (bl_max_end bl1) = length (bl_order bl)"
    by blast
  have same: "bl_order bl1 = bl_order bl"
    by (rule refreshed_frame(5) [OF bl1(2)])
  have "\<exists>bl'. fold_opt refresh_one [Suc from..<length (bl_order bl1)] bl1 = Some bl'
      \<and> refreshed bl1 bl' \<and> caches_full bl'"
    using bl1 Suc.prems same order_ok_refreshed [OF bl1(2)]
    by (intro Suc.IH) auto
  then obtain bl' where "fold_opt refresh_one [Suc from..<length (bl_order bl)] bl1 = Some bl'"
      "refreshed bl1 bl'" "caches_full bl'"
    using same by auto
  moreover have "[from..<length (bl_order bl)] = from # [Suc from..<length (bl_order bl)]"
    using Suc.prems(3) by (simp add: upt_conv_Cons)
  ultimately show ?case
    using bl1(1) refreshed_trans [OF bl1(2)] by (intro exI [of _ bl']) simp
qed

lemma refresh_from_ok:
  assumes ok: "order_ok bl" and c: "caches_ok from bl"
  shows "\<exists>bl'. refresh_from from bl = Some bl' \<and> refreshed bl bl' \<and> caches_full bl'"
proof -
  let ?n = "length (bl_order bl)"
  let ?bl = "bl\<lparr>bl_min_start := vec_resize ?n i64_min (bl_min_start bl),
      bl_max_end := vec_resize ?n i64_min (bl_max_end bl)\<rparr>"
  have "cache_at ?bl i" if "i < from" for i
  proof -
    have "cache_at bl i" "i < ?n" "i < length (bl_min_start bl)" "i < length (bl_max_end bl)"
      using that c by (simp_all add: caches_ok_def)
    then show ?thesis
      by (simp add: cache_at_def nth_vec_resize)
  qed
  then have "caches_ok from ?bl"
    using c by (simp add: caches_ok_def)
  moreover have "order_ok ?bl"
    using ok by (simp add: order_ok_def)
  ultimately have "\<exists>bl'. fold_opt refresh_one [from..<length (bl_order ?bl)] ?bl = Some bl'
      \<and> refreshed ?bl bl' \<and> caches_full bl'"
    using c by (intro refresh_loop_ok [of _ _ "?n - from"]) (auto simp: caches_ok_def)
  then obtain bl' where "fold_opt refresh_one [from..<?n] ?bl = Some bl'" "refreshed ?bl bl'"
      "caches_full bl'"
    by auto
  moreover from this(2) have "refreshed bl bl'"
    by (auto simp: refreshed_def)
  ultimately show ?thesis
    by (auto simp: refresh_from_def)
qed

section \<open>Taking an ordinal out of the time order and putting it back\<close>

text \<open>The fields that detaching and attaching leave alone.\<close>

definition reordered :: "block_list \<Rightarrow> block_list \<Rightarrow> bool" where
  "reordered bl bl' \<longleftrightarrow>
     bl_entries bl' = bl_entries bl \<and> bl_live bl' = bl_live bl \<and> bl_by_key bl' = bl_by_key bl
     \<and> bl_postings bl' = bl_postings bl \<and> bl_dead bl' = bl_dead bl
     \<and> length (bl_position bl') = length (bl_position bl)"

lemma take_drop_remove1:
  "distinct xs \<Longrightarrow> p < length xs \<Longrightarrow> take p xs @ drop (Suc p) xs = remove1 (xs ! p) xs"
proof -
  assume d: "distinct xs" and p: "p < length xs"
  have "xs = take p xs @ xs ! p # drop (Suc p) xs"
    using p by (rule id_take_nth_drop)
  moreover have "xs ! p \<notin> set (take p xs)"
    using d p by (metis calculation distinct_append disjoint_insert(2) list.set(2) distinct_take
        not_distinct_conv_prefix)
  ultimately show ?thesis
    by (metis append_Nil2 remove1.simps(2) remove1_append)
qed

lemma detach_ok:
  assumes ok: "order_ok bl" and p: "p < length (bl_order bl)" "bl_order bl ! p = ordinal"
    and pos: "bl_position bl ! ordinal = p" and c: "caches_ok p bl"
  shows "\<exists>bl'. detach ordinal bl = Some (p, bl') \<and> reordered bl bl'
       \<and> bl_order bl' = remove1 ordinal (bl_order bl) \<and> caches_full bl'
       \<and> bl_position bl' ! ordinal = no_position
       \<and> (\<forall>i. i \<notin> set (bl_order bl) \<longrightarrow> bl_position bl' ! i = bl_position bl ! i)"
proof -
  define order where "order = take p (bl_order bl) @ drop (Suc p) (bl_order bl)"
  define bl1 where "bl1 = bl\<lparr>bl_order := order,
      bl_position := (bl_position bl)[ordinal := no_position]\<rparr>"
  have ordinal: "ordinal \<in> set (bl_order bl)" "ordinal < length (bl_entries bl)"
      "ordinal < length (bl_position bl)" and d: "distinct (bl_order bl)"
    using ok p by (auto simp: order_ok_def)
  have order: "order = remove1 ordinal (bl_order bl)"
    using take_drop_remove1 [OF d p(1)] p(2) by (simp add: order_def)
  have ne: "bl_order bl ! i \<noteq> ordinal" if "i < p" for i
    using that p d nth_eq_iff_index_eq by fastforce
  have ok1: "order_ok bl1"
    using ok order set_remove1_subset [of ordinal "bl_order bl"] length_remove1 [of ordinal]
    by (auto simp: order_ok_def bl1_def)
  have "cache_at bl1 i" if "i < p" for i
  proof -
    have "cache_at bl i"
      using that c by (simp add: caches_ok_def)
    moreover have "order ! i = bl_order bl ! i"
      using that p by (simp add: order_def nth_append)
    ultimately show ?thesis
      using ne [OF that] by (auto simp: cache_at_def bl1_def)
  qed
  moreover have "p \<le> length order"
    using p by (simp add: order_def)
  ultimately have c1: "caches_ok p bl1"
    using c by (simp add: caches_ok_def bl1_def)
  obtain bl' where bl': "refresh_from p bl1 = Some bl'" "refreshed bl1 bl'" "caches_full bl'"
    using refresh_from_ok [OF ok1 c1] by blast
  have "p \<noteq> no_position"
    using p ok by (simp add: order_ok_def)
  then have "detach ordinal bl = Some (p, bl')"
    using p pos ordinal bl'(1)
    by (simp add: detach_def panic_simps order_def [symmetric] bl1_def [symmetric])
  moreover have "bl_position bl' ! i = bl_position bl1 ! i" if "i \<notin> set order" for i
    using bl'(2) that by (simp add: refreshed_def bl1_def)
  moreover have "ordinal \<notin> set order" and "i \<notin> set (bl_order bl) \<Longrightarrow> i \<notin> set order" for i
    using d by (auto simp: order dest: notin_set_remove1)
  moreover have "reordered bl bl'" "bl_order bl' = order"
    using bl'(2) by (auto simp: refreshed_def reordered_def bl1_def)
  ultimately show ?thesis
    using bl'(3) ordinal order
    by (intro exI [of _ bl']) (auto simp: bl1_def nth_list_update)
qed

abbreviation by_time :: "block_list \<Rightarrow> ordinal \<Rightarrow> ordinal \<Rightarrow> bool" where
  "by_time bl \<equiv> \<lambda>a b. order_key (ent bl a) < order_key (ent bl b)"

lemma attach_ok:
  assumes ok: "order_ok bl" and o: "ordinal < length (bl_entries bl)" "ordinal \<notin> set (bl_order bl)"
    and room: "length (bl_order bl) < u32_max" and c: "caches_full bl"
    and sorted: "sorted_wrt (by_time bl) (bl_order bl)"
    and fresh: "\<And>i. i \<in> set (bl_order bl) \<Longrightarrow> order_key (ent bl i) \<noteq> order_key (ent bl ordinal)"
  shows "\<exists>bl'. attach ordinal bl = Some bl' \<and> reordered bl bl'
       \<and> set (bl_order bl') = insert ordinal (set (bl_order bl)) \<and> distinct (bl_order bl')
       \<and> length (bl_order bl') = Suc (length (bl_order bl))
       \<and> sorted_wrt (by_time bl) (bl_order bl') \<and> caches_full bl'
       \<and> (\<forall>i. i \<notin> set (bl_order bl') \<longrightarrow> bl_position bl' ! i = bl_position bl ! i)"
proof -
  define before where "before = (\<lambda>other. order_key other < order_key (ent bl ordinal))"
  define others where "others = map (ent bl) (bl_order bl)"
  define q where "q = partition_point before others"
  define order where "order = take q (bl_order bl) @ ordinal # drop q (bl_order bl)"
  define bl1 where "bl1 = bl\<lparr>bl_order := order\<rparr>"
  have q: "q \<le> length (bl_order bl)"
    using partition_point_le [of before others] by (simp add: q_def others_def)
  have others: "map_opt (nth_opt (bl_entries bl)) (bl_order bl) = Some others"
    unfolding others_def using ok by (intro map_opt_Some) (simp add: order_ok_def panic_simps)
  have set_order: "set order = insert ordinal (set (bl_order bl))"
    unfolding order_def by (metis append_take_drop_id insert_is_Un list.set(2) set_append
        Un_left_commute Un_commute)
  have len_order: "length order = Suc (length (bl_order bl))"
    using q by (simp add: order_def)
  have "distinct (take q (bl_order bl) @ drop q (bl_order bl))"
    using ok by (simp add: order_ok_def)
  then have dist: "distinct order"
    using o(2) by (auto simp: order_def simp del: append_take_drop_id
        dest: in_set_takeD in_set_dropD)
  have "sorted_wrt (\<lambda>x y. before y \<longrightarrow> before x) others"
    using sorted unfolding others_def sorted_wrt_map
    by (rule sorted_wrt_mono_rel [rotated]) (auto simp: before_def dest: less_trans)
  then have lo: "order_key (ent bl i) < order_key (ent bl ordinal)"
    if "i \<in> set (take q (bl_order bl))" for i
    using that partition_point_before [of "ent bl i" before others]
    by (auto simp: q_def others_def before_def take_map)
  have hi: "order_key (ent bl ordinal) < order_key (ent bl i)"
    if i: "i \<in> set (drop q (bl_order bl))" for i
  proof -
    have "\<not> before (ent bl i)"
      using \<open>sorted_wrt (\<lambda>x y. before y \<longrightarrow> before x) others\<close> i
      by (intro partition_point_after) (auto simp: q_def others_def drop_map)
    moreover have "order_key (ent bl i) \<noteq> order_key (ent bl ordinal)"
      using fresh in_set_dropD [OF i] by blast
    ultimately show ?thesis by (simp add: before_def)
  qed
  have "sorted_wrt (by_time bl) (take q (bl_order bl) @ drop q (bl_order bl))"
    using sorted by simp
  then have sorted': "sorted_wrt (by_time bl) order"
    using lo hi unfolding order_def sorted_wrt_append by auto
  have ok1: "order_ok bl1"
    using ok o set_order len_order dist room by (auto simp: order_ok_def bl1_def)
  have "cache_at bl1 i" if "i < q" for i
  proof -
    have "cache_at bl i"
      using that c q by (simp add: caches_full_def caches_ok_def)
    moreover have "order ! i = bl_order bl ! i"
      using that q by (simp add: order_def nth_append)
    ultimately show ?thesis by (simp add: cache_at_def bl1_def)
  qed
  then have c1: "caches_ok q bl1"
    using c q by (simp add: caches_full_def caches_ok_def bl1_def len_order)
  obtain bl' where bl': "refresh_from q bl1 = Some bl'" "refreshed bl1 bl'" "caches_full bl'"
    using refresh_from_ok [OF ok1 c1] by blast
  have "attach ordinal bl = Some bl'"
    using o(1) q others bl'(1)
    by (simp add: attach_def panic_simps before_def [symmetric] q_def [symmetric]
        order_def [symmetric] bl1_def [symmetric])
  moreover have "reordered bl bl'" "bl_order bl' = order"
      "i \<notin> set order \<Longrightarrow> bl_position bl' ! i = bl_position bl ! i" for i
    using bl'(2) by (auto simp: refreshed_def reordered_def bl1_def)
  ultimately show ?thesis
    using bl'(3) set_order dist sorted' len_order by (intro exI [of _ bl']) auto
qed

section \<open>The invariant\<close>

text \<open>
  The time order lists exactly the live ordinals, sorted, with its caches; a dead ordinal has no
  position; and the dead are counted.
\<close>

definition order_wf :: "block_list \<Rightarrow> bool" where
  "order_wf bl \<longleftrightarrow>
     length (bl_entries bl) \<le> u32_max
     \<and> length (bl_live bl) = length (bl_entries bl)
     \<and> length (bl_position bl) = length (bl_entries bl)
     \<and> distinct (bl_order bl)
     \<and> set (bl_order bl) = {i. i < length (bl_entries bl) \<and> bl_live bl ! i}
     \<and> sorted_wrt (by_time bl) (bl_order bl)
     \<and> caches_full bl
     \<and> (\<forall>i < length (bl_entries bl). \<not> bl_live bl ! i \<longrightarrow> bl_position bl ! i = no_position)
     \<and> length (bl_entries bl) = length (bl_order bl) + bl_dead bl"

text \<open>The key map names the live ordinal of each object key.\<close>

definition keys_wf :: "block_list \<Rightarrow> bool" where
  "keys_wf bl \<longleftrightarrow> bt_ok (bl_by_key bl)
     \<and> (\<forall>k i. bt_get (bl_by_key bl) k = Some i
          \<longleftrightarrow> i < length (bl_entries bl) \<and> bl_live bl ! i \<and> be_object_key (ent bl i) = k)"

text \<open>The postings are an ordered map into ordinals of the list.\<close>

definition postings_in :: "nat \<Rightarrow> (fingerprint, ordinal list) btree_map \<Rightarrow> bool" where
  "postings_in n ps \<longleftrightarrow> bt_ok ps \<and> (\<forall>fp os i. bt_get ps fp = Some os \<longrightarrow> i \<in> set os \<longrightarrow> i < n)"

definition bl_wf :: "block_list \<Rightarrow> bool" where
  "bl_wf bl \<longleftrightarrow> order_wf bl \<and> keys_wf bl \<and> postings_in (length (bl_entries bl)) (bl_postings bl)"

lemma bl_wf_empty: "bl_wf empty_list"
  by (simp add: bl_wf_def order_wf_def keys_wf_def postings_in_def empty_list_def caches_full_def
      caches_ok_def)

lemma order_wf_order_ok: "order_wf bl \<Longrightarrow> order_ok bl"
  by (auto simp: order_wf_def order_ok_def)

lemma order_wf_room: "order_wf bl \<Longrightarrow> length (bl_order bl) \<le> length (bl_entries bl)"
  by (simp add: order_wf_def)

lemma live_order_key_inj:
  assumes "keys_wf bl" and "i < length (bl_entries bl)" "bl_live bl ! i"
    and "j < length (bl_entries bl)" "bl_live bl ! j"
    and "be_object_key (ent bl i) = be_object_key (ent bl j)"
  shows "i = j"
  using assms unfolding keys_wf_def by (metis option.inject)

lemma live_position:
  assumes wf: "order_wf bl" and i: "i < length (bl_entries bl)" "bl_live bl ! i"
  shows "\<exists>p. p < length (bl_order bl) \<and> bl_order bl ! p = i \<and> bl_position bl ! i = p"
proof -
  obtain p where "p < length (bl_order bl)" "bl_order bl ! p = i"
    using wf i by (metis (mono_tags, lifting) in_set_conv_nth mem_Collect_eq order_wf_def)
  moreover from this have "cache_at bl p"
    using wf by (simp add: order_wf_def caches_full_def caches_ok_def)
  ultimately show ?thesis by (auto simp: cache_at_def)
qed

lemma length_remove1_Suc: "x \<in> set xs \<Longrightarrow> Suc (length (remove1 x xs)) = length xs"
  by (metis One_nat_def Suc_pred length_pos_if_in_set length_remove1)

lemma sorted_wrt_remove1: "sorted_wrt r xs \<Longrightarrow> sorted_wrt r (remove1 x xs)"
  by (induction xs) (auto dest: notin_set_remove1)

subsection \<open>Retiring\<close>

lemma retire_ok:
  assumes wf: "bl_wf bl" and i: "ordinal < length (bl_entries bl)" "bl_live bl ! ordinal"
  shows "\<exists>bl'. retire ordinal bl = Some (True, bl') \<and> bl_wf bl'
       \<and> bl_entries bl' = bl_entries bl \<and> bl_postings bl' = bl_postings bl
       \<and> bl_live bl' = (bl_live bl)[ordinal := False]
       \<and> bl_by_key bl' = bt_remove (be_object_key (ent bl ordinal)) (bl_by_key bl)
       \<and> length (bl_order bl') < length (bl_order bl)"
proof -
  have ow: "order_wf bl" and kw: "keys_wf bl"
    using wf by (auto simp: bl_wf_def)
  define key where "key = be_object_key (ent bl ordinal)"
  define bl1 where "bl1 = bl\<lparr>bl_live := (bl_live bl)[ordinal := False], bl_dead := bl_dead bl + 1\<rparr>"
  have live: "ordinal < length (bl_live bl)"
    using ow i by (simp add: order_wf_def)
  obtain p where p: "p < length (bl_order bl)" "bl_order bl ! p = ordinal"
      "bl_position bl ! ordinal = p"
    using live_position [OF ow i] by blast
  have "order_ok bl1"
    using order_wf_order_ok [OF ow] by (simp add: bl1_def)
  moreover have "caches_ok p bl1"
    using ow p(1) by (simp add: order_wf_def caches_full_prefix bl1_def)
  ultimately have "\<exists>bl'. detach ordinal bl1 = Some (p, bl') \<and> reordered bl1 bl'
       \<and> bl_order bl' = remove1 ordinal (bl_order bl1) \<and> caches_full bl'
       \<and> bl_position bl' ! ordinal = no_position
       \<and> (\<forall>i. i \<notin> set (bl_order bl1) \<longrightarrow> bl_position bl' ! i = bl_position bl1 ! i)"
    using p by (intro detach_ok) (auto simp: bl1_def)
  then obtain bl2 where bl2: "detach ordinal bl1 = Some (p, bl2)" "reordered bl1 bl2"
      "bl_order bl2 = remove1 ordinal (bl_order bl)" "caches_full bl2"
      "bl_position bl2 ! ordinal = no_position"
      "\<And>i. i \<notin> set (bl_order bl) \<Longrightarrow> bl_position bl2 ! i = bl_position bl ! i"
    by (auto simp: bl1_def)
  define bl3 where "bl3 = bl2\<lparr>bl_by_key := bt_remove key (bl_by_key bl2)\<rparr>"
  have same: "bl_entries bl2 = bl_entries bl" "bl_by_key bl2 = bl_by_key bl"
      "bl_live bl2 = (bl_live bl)[ordinal := False]" "bl_postings bl2 = bl_postings bl"
      "bl_dead bl2 = bl_dead bl + 1" "length (bl_position bl2) = length (bl_position bl)"
    using bl2(2) by (auto simp: reordered_def bl1_def)
  have "bt_get (bl_by_key bl) key = Some ordinal"
    using kw i by (simp add: keys_wf_def key_def)
  then have "retire ordinal bl = Some (True, bl3)"
    using i live bl2(1) same
    by (simp add: retire_def panic_simps bl1_def bl3_def key_def)
  moreover have "order_wf bl3"
  proof -
    have mem: "ordinal \<in> set (bl_order bl)"
      using ow i by (simp add: order_wf_def)
    then have "set (remove1 ordinal (bl_order bl)) = set (bl_order bl) - {ordinal}"
      using ow by (simp add: order_wf_def)
    moreover have "i \<notin> set (bl_order bl) \<longleftrightarrow> \<not> bl_live bl ! i"
      if "i < length (bl_entries bl)" for i
      using ow that by (auto simp: order_wf_def)
    ultimately show ?thesis
      using ow bl2 same live length_remove1_Suc [OF mem]
      by (auto simp: order_wf_def bl3_def nth_list_update sorted_wrt_remove1 split: if_splits)
  qed
  moreover have "keys_wf bl3"
    using kw i live_order_key_inj [OF kw _ _ i]
    by (auto simp: keys_wf_def bl3_def same key_def bt_ok_remove nth_list_update live)
  ultimately show ?thesis
    using wf same bl2(3) length_remove1_Suc [of ordinal "bl_order bl"] ow i
    by (intro exI [of _ bl3]) (auto simp: bl_wf_def bl3_def key_def order_wf_def)
qed

subsection \<open>Restating a block\<close>

lemma sorted_wrt_cong_on:
  assumes "\<And>x y. x \<in> set xs \<Longrightarrow> y \<in> set xs \<Longrightarrow> r x y = q x y"
  shows "sorted_wrt r xs = sorted_wrt q xs"
  using assms by (induction xs) auto

lemma caches_ok_entries:
  assumes c: "caches_ok n bl"
    and same: "\<And>i. i < n \<Longrightarrow> be_min_ts (e ! (bl_order bl ! i)) = be_min_ts (ent bl (bl_order bl ! i))
        \<and> be_max_ts (e ! (bl_order bl ! i)) = be_max_ts (ent bl (bl_order bl ! i))"
  shows "caches_ok n (bl\<lparr>bl_entries := e\<rparr>)"
proof -
  have "cache_at (bl\<lparr>bl_entries := e\<rparr>) i" if "i < n" for i
  proof -
    have "cache_at bl i" using c that by (simp add: caches_ok_def)
    then show ?thesis using same [OF that] by (simp only: cache_at_def) simp
  qed
  then show ?thesis using c by (simp add: caches_ok_def)
qed

lemma order_wf_attach:
  assumes "order_ok bl" and "caches_full bl" and "sorted_wrt (by_time bl) (bl_order bl)"
    and n: "ordinal < length (bl_entries bl)" "length (bl_entries bl) \<le> u32_max"
    and live: "length (bl_live bl) = length (bl_entries bl)" "bl_live bl ! ordinal"
    and rest: "set (bl_order bl) = {i. i < length (bl_entries bl) \<and> bl_live bl ! i} - {ordinal}"
    and dead: "\<forall>i < length (bl_entries bl). \<not> bl_live bl ! i \<longrightarrow> bl_position bl ! i = no_position"
    and count: "length (bl_entries bl) = Suc (length (bl_order bl)) + bl_dead bl"
    and keys: "\<And>i. i < length (bl_entries bl) \<Longrightarrow> bl_live bl ! i
        \<Longrightarrow> be_object_key (ent bl i) = be_object_key (ent bl ordinal) \<Longrightarrow> i = ordinal"
  shows "\<exists>bl'. attach ordinal bl = Some bl' \<and> reordered bl bl' \<and> order_wf bl'"
proof -
  have "\<exists>bl'. attach ordinal bl = Some bl' \<and> reordered bl bl'
       \<and> set (bl_order bl') = insert ordinal (set (bl_order bl)) \<and> distinct (bl_order bl')
       \<and> length (bl_order bl') = Suc (length (bl_order bl))
       \<and> sorted_wrt (by_time bl) (bl_order bl') \<and> caches_full bl'
       \<and> (\<forall>i. i \<notin> set (bl_order bl') \<longrightarrow> bl_position bl' ! i = bl_position bl ! i)"
  proof (rule attach_ok)
    show "ordinal \<notin> set (bl_order bl)"
      using rest by simp
    show "length (bl_order bl) < u32_max"
      using count n by simp
    show "order_key (ent bl i) \<noteq> order_key (ent bl ordinal)" if "i \<in> set (bl_order bl)" for i
      using that rest keys [of i] by (auto simp: order_key_def)
  qed (use assms in auto)
  then obtain bl' where bl': "attach ordinal bl = Some bl'" "reordered bl bl'"
      "set (bl_order bl') = insert ordinal (set (bl_order bl))" "distinct (bl_order bl')"
      "length (bl_order bl') = Suc (length (bl_order bl))"
      "sorted_wrt (by_time bl) (bl_order bl')" "caches_full bl'"
      "\<forall>i. i \<notin> set (bl_order bl') \<longrightarrow> bl_position bl' ! i = bl_position bl ! i"
    by blast
  have "order_wf bl'"
    using bl' assms(1) n live rest dead count
    by (auto simp: order_wf_def reordered_def order_ok_def)
  with bl' show ?thesis by blast
qed

lemma restate_block_ok:
  assumes wf: "bl_wf bl" and i: "ordinal < length (bl_entries bl)" "bl_live bl ! ordinal"
  shows "\<exists>bl'. restate_block meta ordinal bl = Some bl' \<and> bl_wf bl'
       \<and> bl_entries bl' = (bl_entries bl)[ordinal := (ent bl ordinal)
           \<lparr>be_min_ts := bm_min_ts meta, be_max_ts := bm_max_ts meta,
            be_row_count := bm_row_count meta, be_level := bm_level meta\<rparr>]
       \<and> bl_live bl' = bl_live bl \<and> bl_by_key bl' = bl_by_key bl
       \<and> bl_postings bl' = bl_postings bl"
proof -
  have ow: "order_wf bl" and kw: "keys_wf bl"
    using wf by (auto simp: bl_wf_def)
  define e where "e = (ent bl ordinal)
    \<lparr>be_min_ts := bm_min_ts meta, be_max_ts := bm_max_ts meta,
     be_row_count := bm_row_count meta, be_level := bm_level meta\<rparr>"
  define bl1 where "bl1 = bl\<lparr>bl_entries := (bl_entries bl)[ordinal := e]\<rparr>"
  have key: "be_object_key (ent bl1 j) = be_object_key (ent bl j)" for j
    using i by (cases "j = ordinal") (auto simp: bl1_def e_def)
  have other: "ent bl1 j = ent bl j" if "j \<noteq> ordinal" for j
    using that by (simp add: bl1_def)
  have len1 [simp]: "length (bl_entries bl1) = length (bl_entries bl)"
      "bl_live bl1 = bl_live bl" "bl_by_key bl1 = bl_by_key bl" "bl_postings bl1 = bl_postings bl"
      "bl_order bl1 = bl_order bl" "bl_position bl1 = bl_position bl" "bl_dead bl1 = bl_dead bl"
      "bl_min_start bl1 = bl_min_start bl" "bl_max_end bl1 = bl_max_end bl"
    by (simp_all add: bl1_def)
  have ok1: "order_ok bl1"
    using order_wf_order_ok [OF ow] by (simp add: order_ok_def)
  have kw1: "keys_wf bl1"
    using kw by (simp add: keys_wf_def key)
  show ?thesis
  proof (cases "be_min_ts (ent bl ordinal) \<noteq> bm_min_ts meta \<or> be_max_ts (ent bl ordinal) \<noteq> bm_max_ts meta")
    case False
    then have same: "be_min_ts (ent bl1 j) = be_min_ts (ent bl j)"
        "be_max_ts (ent bl1 j) = be_max_ts (ent bl j)" for j
      using i by (cases "j = ordinal"; simp add: bl1_def e_def)+
    then have "order_key (ent bl1 j) = order_key (ent bl j)" for j
      by (simp add: order_key_def key)
    moreover have "caches_full bl1"
      using ow same caches_ok_entries [of _ bl "bl_entries bl1"]
      by (simp add: order_wf_def caches_full_def) (simp add: bl1_def)
    ultimately have "order_wf bl1"
      using ow by (simp add: order_wf_def)
    moreover have "restate_block meta ordinal bl = Some bl1"
      using False i by (simp add: restate_block_def panic_simps bl1_def e_def)
    ultimately show ?thesis
      using wf kw1 by (intro exI [of _ bl1]) (simp add: bl_wf_def, simp add: bl1_def e_def)
  next
    case True
    obtain p where p: "p < length (bl_order bl)" "bl_order bl ! p = ordinal"
        "bl_position bl ! ordinal = p"
      using live_position [OF ow i] by blast
    have "bl_order bl ! j \<noteq> ordinal" if "j < p" for j
      using that p ow nth_eq_iff_index_eq by (fastforce simp: order_wf_def)
    moreover have "caches_ok p bl"
      using p ow by (simp add: order_wf_def caches_full_def caches_ok_def)
    ultimately have c1: "caches_ok p bl1"
      unfolding bl1_def by (intro caches_ok_entries) (metis nth_list_update_neq)+
    obtain bl2 where bl2: "detach ordinal bl1 = Some (p, bl2)" "reordered bl1 bl2"
        "bl_order bl2 = remove1 ordinal (bl_order bl)" "caches_full bl2"
        "bl_position bl2 ! ordinal = no_position"
        "\<forall>j. j \<notin> set (bl_order bl) \<longrightarrow> bl_position bl2 ! j = bl_position bl ! j"
      using detach_ok [OF ok1 _ _ _ c1, of ordinal] p by auto
    have same2: "bl_entries bl2 = bl_entries bl1" "bl_live bl2 = bl_live bl"
        "bl_by_key bl2 = bl_by_key bl" "bl_postings bl2 = bl_postings bl"
        "bl_dead bl2 = bl_dead bl" "length (bl_position bl2) = length (bl_position bl)"
      using bl2(2) by (auto simp: reordered_def)
    have mem: "ordinal \<in> set (bl_order bl)" and dist: "distinct (bl_order bl)"
      using ow i by (auto simp: order_wf_def)
    have "sorted_wrt (by_time bl1) (remove1 ordinal (bl_order bl))"
    proof -
      have "sorted_wrt (by_time bl) (remove1 ordinal (bl_order bl))"
        using ow by (simp add: order_wf_def sorted_wrt_remove1)
      then show ?thesis
        using dist by (subst sorted_wrt_cong_on [where q = "by_time bl"]) (auto simp: other)
    qed
    moreover have "set (remove1 ordinal (bl_order bl))
        = {j. j < length (bl_entries bl) \<and> bl_live bl ! j} - {ordinal}"
      using ow by (simp add: order_wf_def)
    moreover have "i \<notin> set (bl_order bl)" if "i < length (bl_entries bl)" "\<not> bl_live bl ! i" for i
      using ow that by (auto simp: order_wf_def)
    moreover have "order_ok bl2"
      using ok1 bl2(3) same2 dist set_remove1_subset [of ordinal "bl_order bl"] length_remove1 [of ordinal "bl_order bl"]
      by (auto simp: order_ok_def)
    ultimately have "\<exists>bl'. attach ordinal bl2 = Some bl' \<and> reordered bl2 bl' \<and> order_wf bl'"
      using bl2 same2 ow i length_remove1_Suc [OF mem] live_order_key_inj [OF kw1 _ _ _ _]
      by (intro order_wf_attach) (auto simp: order_wf_def)
    then obtain bl3 where bl3: "attach ordinal bl2 = Some bl3" "reordered bl2 bl3" "order_wf bl3"
      by blast
    have "restate_block meta ordinal bl = Some bl3"
      using True i bl2(1) bl3(1)
      by (auto simp: restate_block_def panic_simps bl1_def [symmetric] e_def [symmetric])
    moreover have "bl_wf bl3"
      using wf kw1 bl3 same2 by (simp add: bl_wf_def keys_wf_def reordered_def)
    ultimately show ?thesis
      using bl3(2) same2 by (intro exI [of _ bl3]) (auto simp: reordered_def bl1_def e_def)
  qed
qed

end
