(* ===== verification/Block_List_Ops.thy ===== *)
theory Block_List_Ops
  imports Block_List_Inv
begin

text \<open>
  The operations of \<open>block_list.rs\<close> that change the list keep its invariant and never panic:
  registering, restating and removing a block, rebuilding the derived fields of a decoded list, and
  dropping the dead ordinals of a mostly dead one.
\<close>

section \<open>Appending a block\<close>

lemma bt_ok_append_ordinal:
  "bt_ok ps \<Longrightarrow> bt_ok (fold (\<lambda>fp. bt_update fp [] (\<lambda>os. os @ [n])) fps ps)"
  by (induction fps arbitrary: ps) (auto simp: bt_ok_update)

lemma bt_get_append_ordinal:
  "distinct fps \<Longrightarrow> bt_get (fold (\<lambda>fp. bt_update fp [] (\<lambda>os. os @ [n])) fps ps) fp =
     (if fp \<in> set fps then Some ((case bt_get ps fp of None \<Rightarrow> [] | Some os \<Rightarrow> os) @ [n])
      else bt_get ps fp)"
  by (induction fps arbitrary: ps) auto

lemma postings_in_append:
  assumes "postings_in n ps" and "distinct fps"
  shows "postings_in (Suc n) (fold (\<lambda>fp. bt_update fp [] (\<lambda>os. os @ [n])) fps ps)"
  unfolding postings_in_def
proof (intro conjI allI impI)
  show "bt_ok (fold (\<lambda>fp. bt_update fp [] (\<lambda>os. os @ [n])) fps ps)"
    using assms by (simp add: postings_in_def bt_ok_append_ordinal)
next
  fix fp os i
  assume "bt_get (fold (\<lambda>fp. bt_update fp [] (\<lambda>os. os @ [n])) fps ps) fp = Some os" and "i \<in> set os"
  then have "i = n \<or> (\<exists>old. bt_get ps fp = Some old \<and> i \<in> set old)"
    using assms(2) by (auto simp: bt_get_append_ordinal split: if_splits option.splits)
  then show "i < Suc n"
    using assms(1) by (auto simp: postings_in_def less_Suc_eq)
qed

lemma append_block_ok:
  assumes wf: "bl_wf bl" and new: "bt_get (bl_by_key bl) (bm_object_key meta) = None"
    and room: "length (bl_entries bl) < u32_max" and fps: "bs_ok fps"
  shows "\<exists>bl'. append_block meta fps bl = Some bl' \<and> bl_wf bl'
       \<and> bl_entries bl' = bl_entries bl @ [entry_of_meta meta fps]
       \<and> bl_live bl' = bl_live bl @ [True]
       \<and> bl_by_key bl' = bt_insert (bm_object_key meta) (length (bl_entries bl)) (bl_by_key bl)
       \<and> bl_postings bl' = fold (\<lambda>fp. bt_update fp [] (\<lambda>os. os @ [length (bl_entries bl)])) fps
           (bl_postings bl)"
proof -
  have ow: "order_wf bl" and kw: "keys_wf bl" and pw: "postings_in (length (bl_entries bl)) (bl_postings bl)"
    using wf by (auto simp: bl_wf_def)
  define n where "n = length (bl_entries bl)"
  define e where "e = entry_of_meta meta fps"
  define bl1 where "bl1 = bl\<lparr>bl_entries := bl_entries bl @ [e], bl_live := bl_live bl @ [True],
     bl_position := bl_position bl @ [no_position],
     bl_by_key := bt_insert (bm_object_key meta) n (bl_by_key bl),
     bl_postings := fold (\<lambda>fp. bt_update fp [] (\<lambda>os. os @ [n])) fps (bl_postings bl)\<rparr>"
  have lens: "length (bl_live bl) = n" "length (bl_position bl) = n"
    using ow by (auto simp: order_wf_def n_def)
  have in_order: "i < n" if "i \<in> set (bl_order bl)" for i
    using that ow by (auto simp: order_wf_def n_def)
  have ent: "ent bl1 i = (if i < n then ent bl i else e)" if "i \<le> n" for i
    using that by (auto simp: bl1_def n_def nth_append)
  have fresh: "be_object_key (ent bl i) \<noteq> bm_object_key meta" if "i < n" "bl_live bl ! i" for i
    using that kw new unfolding keys_wf_def n_def by (metis option.distinct(1))
  have cb: "cache_at bl1 i" if "i < length (bl_order bl)" for i
  proof -
    have "bl_order bl ! i < n" using in_order that by simp
    moreover have "cache_at bl i"
      using that ow by (simp add: order_wf_def caches_full_def caches_ok_def)
    ultimately show ?thesis
      using ent [of "bl_order bl ! i"] lens by (simp only: cache_at_def) (simp add: bl1_def nth_append)
  qed
  have "caches_full bl1"
    using ow cb by (simp add: order_wf_def caches_full_def caches_ok_def) (simp add: bl1_def)
  moreover have "order_ok bl1"
    using order_wf_order_ok [OF ow] by (auto simp: order_ok_def bl1_def less_Suc_eq)
  moreover have "sorted_wrt (by_time bl1) (bl_order bl1)"
    using ow in_order by (subst sorted_wrt_cong_on [where q = "by_time bl"])
      (auto simp: order_wf_def bl1_def nth_append n_def)
  moreover have "set (bl_order bl1) = {i. i < length (bl_entries bl1) \<and> bl_live bl1 ! i} - {n}"
    using ow lens by (auto simp: order_wf_def bl1_def n_def nth_append less_Suc_eq split: if_splits)
  moreover have "\<forall>i < length (bl_entries bl1). \<not> bl_live bl1 ! i \<longrightarrow> bl_position bl1 ! i = no_position"
    using ow lens by (auto simp: order_wf_def bl1_def n_def nth_append less_Suc_eq)
  moreover have "i = n" if "i < length (bl_entries bl1)" "bl_live bl1 ! i"
      "be_object_key (ent bl1 i) = be_object_key (ent bl1 n)" for i
  proof (rule ccontr)
    assume "i \<noteq> n"
    then have "i < n" "bl_live bl ! i" "be_object_key (ent bl i) = bm_object_key meta"
      using that ent [of i] ent [of n] lens
      by (auto simp: bl1_def n_def e_def entry_of_meta_def nth_append)
    then show False using fresh by simp
  qed
  ultimately have "\<exists>bl'. attach n bl1 = Some bl' \<and> reordered bl1 bl' \<and> order_wf bl'"
    using ow lens room by (intro order_wf_attach) (auto simp: order_wf_def bl1_def n_def nth_append)
  then obtain bl' where bl': "attach n bl1 = Some bl'" "reordered bl1 bl'" "order_wf bl'"
    by blast
  have "keys_wf bl1"
    using kw lens fresh unfolding keys_wf_def
    by (auto simp: bl1_def bt_ok_insert n_def e_def entry_of_meta_def nth_append less_Suc_eq)
  moreover have "postings_in (Suc n) (bl_postings bl1)"
    using postings_in_append [OF pw bs_ok_distinct [OF fps]] by (simp add: bl1_def n_def)
  ultimately have "bl_wf bl'"
    using bl' by (simp add: bl_wf_def keys_wf_def reordered_def bl1_def n_def)
  moreover have "append_block meta fps bl = Some bl'"
    using room bl'(1) by (simp add: append_block_def panic_simps bl1_def n_def e_def)
  ultimately show ?thesis
    using bl'(2) by (intro exI [of _ bl']) (auto simp: reordered_def bl1_def n_def e_def)
qed

section \<open>Rebuilding the derived fields\<close>

text \<open>The live ordinal that a key map built in order over the first \<open>n\<close> entries names.\<close>

definition last_live :: "block_list \<Rightarrow> nat \<Rightarrow> string \<Rightarrow> ordinal \<Rightarrow> bool" where
  "last_live bl n k i \<longleftrightarrow> i < n \<and> bl_live bl ! i \<and> be_object_key (ent bl i) = k
     \<and> (\<forall>j. i < j \<longrightarrow> j < n \<longrightarrow> bl_live bl ! j \<longrightarrow> be_object_key (ent bl j) \<noteq> k)"

lemma last_live_Suc:
  "last_live bl (Suc n) k i \<longleftrightarrow>
     (if bl_live bl ! n \<and> be_object_key (ent bl n) = k then i = n else last_live bl n k i)"
  by (auto simp: last_live_def less_Suc_eq)

lemma last_live_unique: "last_live bl n k i \<Longrightarrow> last_live bl n k j \<Longrightarrow> i = j"
  unfolding last_live_def by (metis linorder_cases)

lemma index_live_keys_ok:
  assumes "length (bl_live bl) = length (bl_entries bl)" and "length (bl_entries bl) \<le> u32_max"
    and "m \<le> length (bl_entries bl)" and "bl_by_key bl = []"
  shows "\<exists>ks. fold_opt index_live_key [0..<m] bl = Some (bl\<lparr>bl_by_key := ks\<rparr>) \<and> bt_ok ks
       \<and> (\<forall>k i. bt_get ks k = Some i \<longleftrightarrow> last_live bl m k i)"
  using assms(3)
proof (induction m)
  case 0
  then show ?case using assms(4) by (intro exI [of _ "[]"]) (auto simp: last_live_def)
next
  case (Suc m)
  then obtain ks where ks: "fold_opt index_live_key [0..<m] bl = Some (bl\<lparr>bl_by_key := ks\<rparr>)" "bt_ok ks"
      "\<forall>k i. bt_get ks k = Some i \<longleftrightarrow> last_live bl m k i"
    by auto
  define ks' where "ks' = (if bl_live bl ! m then bt_insert (be_object_key (ent bl m)) m ks else ks)"
  have "fold_opt index_live_key [0..<Suc m] bl = Some (bl\<lparr>bl_by_key := ks'\<rparr>)"
    using ks(1) Suc.prems assms(1,2)
    by (simp add: fold_opt_append index_live_key_def panic_simps ks'_def)
  moreover have "bt_ok ks'"
    using ks(2) by (simp add: ks'_def bt_ok_insert)
  moreover have "\<forall>k i. bt_get ks' k = Some i \<longleftrightarrow> last_live bl (Suc m) k i"
    using ks(3) by (auto simp: ks'_def last_live_Suc)
  ultimately show ?case by blast
qed

abbreviation wins :: "block_list \<Rightarrow> ordinal \<Rightarrow> bool" where
  "wins bl i \<equiv> bt_get (bl_by_key bl) (be_object_key (ent bl i)) = Some i"

lemma keep_winners_ok:
  assumes "length (bl_live bl) = length (bl_entries bl)" and "length (bl_entries bl) \<le> u32_max"
    and "m \<le> length (bl_entries bl)"
  shows "fold_opt keep_winner [0..<m] bl = Some (bl
      \<lparr>bl_order := bl_order bl @ filter (wins bl) [0..<m],
       bl_live := map (\<lambda>i. (i < m \<longrightarrow> wins bl i) \<and> bl_live bl ! i) [0..<length (bl_entries bl)],
       bl_dead := bl_dead bl + length (filter (\<lambda>i. \<not> wins bl i) [0..<m])\<rparr>)"
  using assms(3)
proof (induction m)
  case 0
  have "map (\<lambda>i. bl_live bl ! i) [0..<length (bl_entries bl)] = bl_live bl"
    using assms(1) by (metis map_nth)
  then show ?case by simp
next
  case (Suc m)
  have 1: "map (\<lambda>i. (i < Suc m \<longrightarrow> wins bl i) \<and> bl_live bl ! i) [0..<length (bl_entries bl)]
      = map (\<lambda>i. (i < m \<longrightarrow> wins bl i) \<and> bl_live bl ! i) [0..<length (bl_entries bl)]" if "wins bl m"
    using that by (auto simp: less_Suc_eq)
  have 2: "map (\<lambda>i. (i < Suc m \<longrightarrow> wins bl i) \<and> bl_live bl ! i) [0..<length (bl_entries bl)]
      = (map (\<lambda>i. (i < m \<longrightarrow> wins bl i) \<and> bl_live bl ! i) [0..<length (bl_entries bl)])[m := False]"
    if "\<not> wins bl m"
    using that Suc.prems by (intro nth_equalityI) (auto simp: less_Suc_eq nth_list_update)
  show ?case
    using Suc.IH Suc.prems assms(1,2)
    by (cases "wins bl m") (simp_all add: fold_opt_append keep_winner_def panic_simps 1 2)
qed

lemma sorted_key_strict:
  assumes "distinct xs" and "inj_on f (set xs)"
  shows "sorted_wrt (\<lambda>a b. f a < f b) (sort_key f xs)"
proof -
  have "sorted_wrt (<) (map f (sort_key f xs))"
    using assms by (auto simp: strict_sorted_iff distinct_map)
  then show ?thesis by (simp add: sorted_wrt_map)
qed

lemma rebuild_derived_ok:
  assumes len: "length (bl_live bl) = length (bl_entries bl)" "length (bl_entries bl) \<le> u32_max"
    and ps: "postings_in (length (bl_entries bl)) (bl_postings bl)"
  shows "\<exists>bl'. rebuild_derived bl = Some bl' \<and> bl_wf bl' \<and> bl_entries bl' = bl_entries bl
       \<and> bl_postings bl' = bl_postings bl
       \<and> (\<forall>k i. bt_get (bl_by_key bl') k = Some i \<longleftrightarrow> last_live bl (length (bl_entries bl)) k i)"
proof -
  define n where "n = length (bl_entries bl)"
  obtain ks where ks: "fold_opt index_live_key [0..<n] (bl\<lparr>bl_by_key := [], bl_order := []\<rparr>)
        = Some (bl\<lparr>bl_order := [], bl_by_key := ks\<rparr>)" "bt_ok ks"
      "\<forall>k i. bt_get ks k = Some i \<longleftrightarrow> last_live bl n k i"
    using index_live_keys_ok [of "bl\<lparr>bl_by_key := [], bl_order := []\<rparr>" n] len
    by (auto simp: n_def last_live_def)
  define won where "won = (\<lambda>i. bt_get ks (be_object_key (ent bl i)) = Some i)"
  have won: "won i \<longleftrightarrow> last_live bl n (be_object_key (ent bl i)) i" for i
    using ks(3) by (simp add: won_def)
  define bl2 where "bl2 = bl\<lparr>bl_order := filter won [0..<n], bl_by_key := ks,
      bl_live := map (\<lambda>i. won i \<and> bl_live bl ! i) [0..<n],
      bl_dead := length (filter (\<lambda>i. \<not> won i) [0..<n])\<rparr>"
  define bl3 where "bl3 = bl2\<lparr>bl_order := sort_key (\<lambda>i. order_key (ent bl i)) (filter won [0..<n]),
      bl_position := replicate n no_position, bl_min_start := [], bl_max_end := []\<rparr>"
  have "(\<lambda>i. (i < n \<longrightarrow> won i) \<and> bl_live bl ! i) i = (won i \<and> bl_live bl ! i)" if "i < n" for i
    using that by simp
  then have "fold_opt keep_winner [0..<n] (bl\<lparr>bl_order := [], bl_by_key := ks, bl_dead := 0\<rparr>) = Some bl2"
    using keep_winners_ok [of "bl\<lparr>bl_order := [], bl_by_key := ks, bl_dead := 0\<rparr>" n] len
    by (simp add: n_def bl2_def won_def cong: map_cong)
  moreover have "map_opt (nth_opt (bl_entries bl)) (filter won [0..<n]) = Some (map (ent bl) (filter won [0..<n]))"
    by (rule map_opt_Some) (simp add: n_def panic_simps)
  ultimately have "rebuild_derived bl = refresh_from 0 bl3"
    using ks(1) by (simp add: rebuild_derived_def n_def [symmetric] bl3_def) (simp add: bl2_def n_def)
  moreover have ok: "order_ok bl3"
    using len(2) by (auto simp: order_ok_def bl3_def bl2_def n_def intro: le_trans [OF length_filter_le])
  ultimately obtain bl' where bl': "rebuild_derived bl = Some bl'" "refreshed bl3 bl'" "caches_full bl'"
    using refresh_from_ok [of bl3 0] by (auto simp: caches_ok_def)
  have "inj_on (\<lambda>i. order_key (ent bl i)) (set (filter won [0..<n]))"
  proof (rule inj_onI)
    fix i j
    assume "i \<in> set (filter won [0..<n])" and "j \<in> set (filter won [0..<n])"
      and "order_key (ent bl i) = order_key (ent bl j)"
    then have "won i" "won j" "be_object_key (ent bl i) = be_object_key (ent bl j)"
      by (simp_all add: order_key_def)
    then show "i = j" unfolding won_def by (metis option.inject)
  qed
  then have "sorted_wrt (by_time bl) (bl_order bl3)"
    unfolding bl3_def by (simp add: sorted_key_strict)
  moreover have "set (bl_order bl3) = {i. i < n \<and> won i \<and> bl_live bl ! i}"
    by (auto simp: bl3_def won last_live_def)
  moreover have "n = length (bl_order bl3) + bl_dead bl3"
    using sum_length_filter_compl [of won "[0..<n]"] by (simp add: bl3_def bl2_def)
  moreover have same: "bl_entries bl' = bl_entries bl" "bl_order bl' = bl_order bl3" "bl_by_key bl' = ks"
      "bl_live bl' = map (\<lambda>i. won i \<and> bl_live bl ! i) [0..<n]" "bl_dead bl' = bl_dead bl3"
      "length (bl_position bl') = n" "bl_postings bl' = bl_postings bl"
      "\<forall>i. i \<notin> set (bl_order bl3) \<longrightarrow> bl_position bl' ! i = replicate n no_position ! i"
    using bl'(2) by (simp_all add: refreshed_def bl3_def bl2_def)
  ultimately have "order_wf bl'"
    using bl'(3) ok len(2) unfolding order_wf_def order_ok_def same n_def [symmetric]
    by (simp cong: conj_cong)
  moreover have "keys_wf bl'"
    unfolding keys_wf_def same n_def [symmetric] using ks(2,3) by (auto simp: won last_live_def)
  ultimately have "bl_wf bl'"
    using ps by (simp add: bl_wf_def same)
  then show ?thesis
    using bl' ks(3) by (intro exI [of _ bl']) (simp add: refreshed_def bl3_def bl2_def n_def)
qed

lemma from_repr_ok:
  assumes "length (br_entries repr) \<le> u32_max" and "postings_in (length (br_entries repr)) (br_postings repr)"
  shows "\<exists>bl'. from_repr repr = Some bl' \<and> bl_wf bl' \<and> bl_entries bl' = br_entries repr
       \<and> bl_postings bl' = br_postings repr
       \<and> (\<forall>k i. bt_get (bl_by_key bl') k = Some i \<longleftrightarrow>
            i < length (br_entries repr) \<and> be_object_key (br_entries repr ! i) = k
            \<and> (\<forall>j. i < j \<longrightarrow> j < length (br_entries repr) \<longrightarrow> be_object_key (br_entries repr ! j) \<noteq> k))"
proof -
  define bl where "bl = \<lparr>bl_entries = br_entries repr,
     bl_live = replicate (length (br_entries repr)) True, bl_by_key = [],
     bl_postings = br_postings repr, bl_order = [], bl_min_start = [],
     bl_position = replicate (length (br_entries repr)) no_position, bl_max_end = [], bl_dead = 0\<rparr>"
  have "from_repr repr = rebuild_derived bl"
    by (simp add: from_repr_def bl_def)
  moreover have "last_live bl (length (bl_entries bl)) k i \<longleftrightarrow>
      i < length (br_entries repr) \<and> be_object_key (br_entries repr ! i) = k
      \<and> (\<forall>j. i < j \<longrightarrow> j < length (br_entries repr) \<longrightarrow> be_object_key (br_entries repr ! j) \<noteq> k)" for k i
    by (auto simp: last_live_def bl_def)
  ultimately show ?thesis
    using rebuild_derived_ok [of bl] assms by (simp add: bl_def)
qed

section \<open>Dropping the dead ordinals\<close>

abbreviation live_ordinals :: "block_list \<Rightarrow> ordinal list" where
  "live_ordinals bl \<equiv> filter (\<lambda>i. bl_live bl ! i) [0..<length (bl_entries bl)]"

lemma compact_entries_ok:
  assumes "length (bl_live bl) = length (bl_entries bl)" and "length (bl_entries bl) \<le> u32_max"
    and "m \<le> length (bl_entries bl)"
  shows "\<exists>remap. fold_opt (compact_entry bl) [0..<m] ([], [])
         = Some (remap, map (ent bl) (filter (\<lambda>i. bl_live bl ! i) [0..<m]))
       \<and> (\<forall>i j. bt_get remap i = Some j \<longleftrightarrow>
            j < length (filter (\<lambda>i. bl_live bl ! i) [0..<m]) \<and> filter (\<lambda>i. bl_live bl ! i) [0..<m] ! j = i)"
  using assms(3)
proof (induction m)
  case 0
  then show ?case by simp
next
  case (Suc m)
  let ?kept = "filter (\<lambda>i. bl_live bl ! i) [0..<m]"
  obtain remap where remap: "fold_opt (compact_entry bl) [0..<m] ([], []) = Some (remap, map (ent bl) ?kept)"
      "\<And>i j. bt_get remap i = Some j \<longleftrightarrow> j < length ?kept \<and> ?kept ! j = i"
    using Suc by auto
  have len: "length ?kept \<le> u32_max"
    using length_filter_le [of "\<lambda>i. bl_live bl ! i" "[0..<m]"] Suc.prems assms(2) by simp
  have "?kept ! j \<noteq> m" if "j < length ?kept" for j
    using nth_mem [OF that] by auto
  note other = this
  define remap' where "remap' = (if bl_live bl ! m then bt_insert m (length ?kept) remap else remap)"
  have "compact_entry bl m (remap, map (ent bl) ?kept)
      = Some (remap', map (ent bl) (filter (\<lambda>i. bl_live bl ! i) [0..<Suc m]))"
    using Suc.prems assms(1,2) len by (simp add: compact_entry_def panic_simps remap'_def)
  then have "fold_opt (compact_entry bl) [0..<Suc m] ([], [])
      = Some (remap', map (ent bl) (filter (\<lambda>i. bl_live bl ! i) [0..<Suc m]))"
    using remap(1) by (simp add: fold_opt_append)
  moreover have "bt_get remap' i = Some j \<longleftrightarrow> j < length (filter (\<lambda>i. bl_live bl ! i) [0..<Suc m])
      \<and> filter (\<lambda>i. bl_live bl ! i) [0..<Suc m] ! j = i" for i j
    using other remap(2) by (auto simp: remap'_def nth_append less_Suc_eq)
  ultimately show ?case by blast
qed

text \<open>The postings rewritten entry by entry, those left with no ordinal dropped.\<close>

abbreviation keep_nonempty ::
  "('a \<Rightarrow> 'b list) \<Rightarrow> ('k::linorder, 'a) btree_map \<Rightarrow> ('k, 'b list) btree_map \<Rightarrow> ('k, 'b list) btree_map" where
  "keep_nonempty f \<equiv> fold (\<lambda>(fp, os) kept. if f os = [] then kept else bt_insert fp (f os) kept)"

lemma bt_ok_keep_nonempty: "bt_ok acc \<Longrightarrow> bt_ok (keep_nonempty f ps acc)"
  by (induction ps arbitrary: acc) (auto simp: bt_ok_insert)

lemma bt_get_keep_nonempty:
  "distinct (map fst ps) \<Longrightarrow> bt_get (keep_nonempty f ps acc) fp =
     (case bt_get ps fp of None \<Rightarrow> bt_get acc fp
      | Some os \<Rightarrow> if f os = [] then bt_get acc fp else Some (f os))"
proof (induction ps arbitrary: acc)
  case (Cons p ps)
  then have "bt_get ps (fst p) = None"
    by (auto simp: map_of_eq_None_iff)
  with Cons show ?case
    by (cases p) (auto split: option.splits)
qed simp

lemma bt_ok_remap_postings: "bt_ok (remap_postings remap ps)"
  unfolding remap_postings_def Let_def by (rule bt_ok_keep_nonempty) simp

lemma bt_get_remap_postings:
  "bt_ok ps \<Longrightarrow> bt_get (remap_postings remap ps) fp = (case bt_get ps fp of None \<Rightarrow> None
      | Some os \<Rightarrow> if List.map_filter (bt_get remap) os = [] then None
                    else Some (List.map_filter (bt_get remap) os))"
  unfolding remap_postings_def Let_def
  by (subst bt_get_keep_nonempty) (auto simp: bt_ok_distinct split: option.splits)

lemma compacted_ok:
  assumes wf: "bl_wf bl"
  shows "\<exists>bl' remap. compacted bl = Some bl' \<and> bl_wf bl' \<and> bl_dead bl' = 0
       \<and> bl_entries bl' = map (ent bl) (live_ordinals bl)
       \<and> bl_postings bl' = remap_postings remap (bl_postings bl)
       \<and> (\<forall>i j. bt_get remap i = Some j \<longleftrightarrow> j < length (live_ordinals bl) \<and> live_ordinals bl ! j = i)
       \<and> (\<forall>k j. bt_get (bl_by_key bl') k = Some j \<longleftrightarrow>
            j < length (live_ordinals bl) \<and> bt_get (bl_by_key bl) k = Some (live_ordinals bl ! j))
       \<and> from_repr \<lparr>br_entries = bl_entries bl', br_postings = bl_postings bl'\<rparr> = Some bl'"
proof -
  have ow: "order_wf bl" and kw: "keys_wf bl" and pw: "postings_in (length (bl_entries bl)) (bl_postings bl)"
    using wf by (auto simp: bl_wf_def)
  define kept where "kept = live_ordinals bl"
  obtain remap where remap: "fold_opt (compact_entry bl) [0..<length (bl_entries bl)] ([], [])
        = Some (remap, map (ent bl) kept)"
      "\<And>i j. bt_get remap i = Some j \<longleftrightarrow> j < length kept \<and> kept ! j = i"
    using compact_entries_ok [of bl "length (bl_entries bl)"] ow by (auto simp: order_wf_def kept_def)
  define ps where "ps = remap_postings remap (bl_postings bl)"
  have "j < length kept" if "j \<in> set (List.map_filter (bt_get remap) os)" for j os
    using that remap(2) by (auto simp: set_map_filter)
  then have "postings_in (length kept) ps"
    using pw unfolding ps_def postings_in_def
    by (auto simp: bt_ok_remap_postings bt_get_remap_postings split: option.splits if_splits)
  moreover have "length kept \<le> u32_max"
    using ow length_filter_le [of "\<lambda>i. bl_live bl ! i" "[0..<length (bl_entries bl)]"]
    by (simp add: order_wf_def kept_def)
  ultimately obtain bl' where bl': "compacted bl = Some bl'" "bl_wf bl'"
      "bl_entries bl' = map (ent bl) kept" "bl_postings bl' = ps"
      "\<forall>k i. bt_get (bl_by_key bl') k = Some i \<longleftrightarrow> i < length kept \<and> be_object_key (ent bl (kept ! i)) = k
         \<and> (\<forall>j. i < j \<longrightarrow> j < length kept \<longrightarrow> be_object_key (ent bl (kept ! j)) \<noteq> k)"
      "from_repr \<lparr>br_entries = map (ent bl) kept, br_postings = ps\<rparr> = Some bl'"
    using from_repr_ok [of "\<lparr>br_entries = map (ent bl) kept, br_postings = ps\<rparr>"]
    by (auto simp: compacted_def remap(1) ps_def cong: conj_cong imp_cong)
  have kept: "kept ! j < length (bl_entries bl)" "bl_live bl ! (kept ! j)" if "j < length kept" for j
    using nth_mem [OF that] by (auto simp: kept_def)
  have key: "bt_get (bl_by_key bl) k = Some (kept ! j) \<longleftrightarrow> be_object_key (ent bl (kept ! j)) = k"
    if "j < length kept" for k j
    using kw kept [OF that] by (auto simp: keys_wf_def)
  have uniq: "be_object_key (ent bl (kept ! j)) \<noteq> be_object_key (ent bl (kept ! i))"
    if "i < j" "j < length kept" for i j
    using that kept [of i] kept [of j] live_order_key_inj [OF kw, of "kept ! i" "kept ! j"]
      nth_eq_iff_index_eq [of kept i j] by (auto simp: kept_def)
  have by_key: "bt_get (bl_by_key bl') k = Some j \<longleftrightarrow>
      j < length kept \<and> bt_get (bl_by_key bl) k = Some (kept ! j)" for k j
    using bl'(5) key [of j k] uniq [of j] by fastforce
  have "bl_dead bl' = 0"
  proof -
    have "bl_live bl' ! j" if "j < length kept" for j
      using bl'(2,3) by_key [of "be_object_key (ent bl (kept ! j))" j] key that
      by (auto simp: bl_wf_def keys_wf_def)
    then have "set (bl_order bl') = {..<length kept}"
      using bl'(2,3) by (auto simp: bl_wf_def order_wf_def)
    moreover have "distinct (bl_order bl')"
      using bl'(2) by (simp add: bl_wf_def order_wf_def)
    ultimately have "length (bl_order bl') = length kept"
      using distinct_card [of "bl_order bl'"] by simp
    then show ?thesis using bl'(2,3) by (simp add: bl_wf_def order_wf_def)
  qed
  then show ?thesis
    using bl' by_key remap(2) by (intro exI [of _ bl'] exI [of _ remap]) (simp add: kept_def ps_def)
qed

end
