(* ===== verification/Block_List_Refine.thy ===== *)
theory Block_List_Refine
  imports Block_List_Ops
begin

text \<open>
  What a tenant's block list promises its clients, as a finite map from object keys to the block
  registered under them, and that the operations of \<open>block_list.rs\<close> implement it: registration is
  map update, removal is restriction, compaction and the persisted form change nothing.
\<close>

section \<open>The abstract list\<close>

record block_info =
  bi_min_ts :: i64
  bi_max_ts :: i64
  bi_row_count :: usize
  bi_level :: block_level
  bi_series :: "fingerprint set"

definition series_of :: "block_list \<Rightarrow> ordinal \<Rightarrow> fingerprint set" where
  "series_of bl i = {fp. \<exists>os. bt_get (bl_postings bl) fp = Some os \<and> i \<in> set os}"

definition info_of :: "block_list \<Rightarrow> ordinal \<Rightarrow> block_info" where
  "info_of bl i = \<lparr>bi_min_ts = be_min_ts (ent bl i), bi_max_ts = be_max_ts (ent bl i),
     bi_row_count = be_row_count (ent bl i), bi_level = be_level (ent bl i),
     bi_series = series_of bl i\<rparr>"

definition blocks_abs :: "block_list \<Rightarrow> string \<rightharpoonup> block_info" where
  "blocks_abs bl k = map_option (info_of bl) (bt_get (bl_by_key bl) k)"

definition meta_info :: "block_meta \<Rightarrow> block_info" where
  "meta_info meta = \<lparr>bi_min_ts = bm_min_ts meta, bi_max_ts = bm_max_ts meta,
     bi_row_count = bm_row_count meta, bi_level = bm_level meta,
     bi_series = set (bm_fingerprints meta)\<rparr>"

text \<open>
  The entry of a registered block carries the size and the digest of its series set.  Lists built by
  registration do; a decoded list carries whatever its object says.
\<close>

definition set_digest :: "fingerprint set \<Rightarrow> 64 word" where
  "set_digest fps = fingerprint_set_digest (sorted_list_of_set fps)"

definition faithful_at :: "block_list \<Rightarrow> ordinal \<Rightarrow> bool" where
  "faithful_at bl i \<longleftrightarrow> be_fingerprint_count (ent bl i) = card (series_of bl i)
     \<and> be_fingerprint_digest (ent bl i) = set_digest (series_of bl i)"

definition bl_faithful :: "block_list \<Rightarrow> bool" where
  "bl_faithful bl \<longleftrightarrow> (\<forall>i < length (bl_entries bl). bl_live bl ! i \<longrightarrow> faithful_at bl i)"

text \<open>Two different series sets that the stored size and digest cannot tell apart.\<close>

definition collides :: "fingerprint set \<Rightarrow> fingerprint set \<Rightarrow> bool" where
  "collides a b \<longleftrightarrow> a \<noteq> b \<and> card a = card b \<and> set_digest a = set_digest b"

lemma blocks_abs_Some:
  assumes "bl_wf bl"
  shows "blocks_abs bl k = Some b \<longleftrightarrow>
    (\<exists>i < length (bl_entries bl). bl_live bl ! i \<and> be_object_key (ent bl i) = k \<and> b = info_of bl i)"
  using assms by (auto simp: bl_wf_def keys_wf_def blocks_abs_def)

lemma blocks_abs_live:
  assumes "bl_wf bl" and "i < length (bl_entries bl)" and "bl_live bl ! i"
  shows "blocks_abs bl (be_object_key (ent bl i)) = Some (info_of bl i)"
  using assms by (auto simp: blocks_abs_Some)

lemma blocks_abs_eqI:
  assumes "\<And>k. bt_get (bl_by_key bl') k = map_option f (bt_get (bl_by_key bl) k)"
    and "\<And>k i. bt_get (bl_by_key bl) k = Some i \<Longrightarrow> info_of bl' (f i) = info_of bl i"
  shows "blocks_abs bl' = blocks_abs bl"
proof
  show "blocks_abs bl' k = blocks_abs bl k" for k
    using assms by (cases "bt_get (bl_by_key bl) k") (auto simp: blocks_abs_def)
qed

lemma blocks_abs_empty [simp]: "blocks_abs empty_list = Map.empty"
  by (auto simp: blocks_abs_def empty_list_def)

lemma compacted_abs:
  assumes wf: "bl_wf bl" and eq: "compacted bl = Some bl'"
  shows "bl_wf bl' \<and> bl_dead bl' = 0 \<and> blocks_abs bl' = blocks_abs bl
       \<and> (bl_faithful bl \<longrightarrow> bl_faithful bl') \<and> length (bl_entries bl') \<le> length (bl_entries bl)"
proof -
  define kept where "kept = live_ordinals bl"
  obtain remap where c: "bl_wf bl'" "bl_dead bl' = 0" "bl_entries bl' = map (ent bl) kept"
      "bl_postings bl' = remap_postings remap (bl_postings bl)"
      "\<And>i j. bt_get remap i = Some j \<longleftrightarrow> j < length kept \<and> kept ! j = i"
      "\<And>k j. bt_get (bl_by_key bl') k = Some j \<longleftrightarrow> j < length kept \<and> bt_get (bl_by_key bl) k = Some (kept ! j)"
    using compacted_ok [OF wf] eq unfolding kept_def by auto
  have ps: "bt_ok (bl_postings bl)"
    using wf by (simp add: bl_wf_def postings_in_def)
  have series: "series_of bl' j = series_of bl (kept ! j)" if "j < length kept" for j
  proof -
    have kept_iff: "j \<in> set (List.map_filter (bt_get remap) os) \<longleftrightarrow> kept ! j \<in> set os" for os
      using c(5) that by (auto simp: set_map_filter)
    have "(\<exists>os. bt_get (bl_postings bl') fp = Some os \<and> j \<in> set os)
        \<longleftrightarrow> (\<exists>os. bt_get (bl_postings bl) fp = Some os \<and> kept ! j \<in> set os)" for fp
    proof (cases "bt_get (bl_postings bl) fp")
      case (Some os)
      then show ?thesis
        using kept_iff [of os] by (auto simp: c(4) bt_get_remap_postings [OF ps])
    qed (simp add: c(4) bt_get_remap_postings [OF ps])
    then show ?thesis by (simp add: series_of_def)
  qed
  then have info: "info_of bl' j = info_of bl (kept ! j)" if "j < length kept" for j
    using that c(3) by (simp add: info_of_def)
  have "kept ! j < length (bl_entries bl) \<and> bl_live bl ! (kept ! j)" if "j < length kept" for j
    using nth_mem [OF that] by (auto simp: kept_def)
  then have faithful: "bl_faithful bl \<Longrightarrow> bl_faithful bl'"
    using series c(3) by (auto simp: bl_faithful_def faithful_at_def)
  have "blocks_abs bl' k = blocks_abs bl k" for k
  proof (cases "bt_get (bl_by_key bl) k")
    case None
    then have "bt_get (bl_by_key bl') k = None"
      using c(6) [of k] by (cases "bt_get (bl_by_key bl') k") auto
    then show ?thesis using None by (simp add: blocks_abs_def)
  next
    case (Some i)
    then have "i \<in> set kept"
      using wf by (auto simp: bl_wf_def keys_wf_def kept_def)
    then obtain j where "j < length kept" "kept ! j = i"
      by (auto simp: in_set_conv_nth)
    then show ?thesis
      using Some c(6) [of k j] info by (simp add: blocks_abs_def)
  qed
  moreover have "length (bl_entries bl') \<le> length (bl_entries bl)"
    using length_filter_le [of "\<lambda>i. bl_live bl ! i" "[0..<length (bl_entries bl)]"]
    by (simp add: c(3) kept_def)
  ultimately show ?thesis using c(1,2) faithful by blast
qed

lemma compacted_total: "bl_wf bl \<Longrightarrow> \<exists>bl'. compacted bl = Some bl'"
  using compacted_ok by blast

lemma compact_if_mostly_dead_abs:
  assumes "bl_wf bl"
  shows "\<exists>bl'. compact_if_mostly_dead bl = Some bl' \<and> bl_wf bl' \<and> blocks_abs bl' = blocks_abs bl
       \<and> (bl_faithful bl \<longrightarrow> bl_faithful bl') \<and> bl_dead bl' \<le> length (bl_order bl')
       \<and> length (bl_entries bl') \<le> length (bl_entries bl)"
  using compacted_total [OF assms] compacted_abs [OF assms] assms
  by (auto simp: compact_if_mostly_dead_def not_less)

section \<open>Registration\<close>

lemma bs_collect_sorted: "sorted_list_of_set (set xs) = bs_collect xs"
  by (rule bs_eqI) (simp_all add: bs_ok_extend)

lemma bs_collect_size: "length (bs_collect xs) = card (set xs)"
  using distinct_card [OF bs_ok_distinct, of "bs_collect xs"] by (simp add: bs_ok_extend)

lemma info_of_append:
  assumes "bl_wf bl" and "bs_ok fps" and "fps = bs_collect (bm_fingerprints meta)"
    and "bl_entries bl' = bl_entries bl @ [entry_of_meta meta fps]"
    and "bl_postings bl' = fold (\<lambda>fp. bt_update fp [] (\<lambda>os. os @ [length (bl_entries bl)])) fps
           (bl_postings bl)"
  shows "info_of bl' (length (bl_entries bl)) = meta_info meta"
    and "faithful_at bl' (length (bl_entries bl))"
    and "i < length (bl_entries bl) \<Longrightarrow> info_of bl' i = info_of bl i"
proof -
  let ?n = "length (bl_entries bl)"
  have get: "bt_get (bl_postings bl') fp =
      (if fp \<in> set (bm_fingerprints meta)
       then Some ((case bt_get (bl_postings bl) fp of None \<Rightarrow> [] | Some os \<Rightarrow> os) @ [?n])
       else bt_get (bl_postings bl) fp)" for fp
    using assms(2,3) unfolding assms(5)
    by (subst bt_get_append_ordinal) (simp_all add: bs_ok_distinct)
  have old: "?n \<notin> set os" if "bt_get (bl_postings bl) fp = Some os" for fp os
    using assms(1) that by (auto simp: bl_wf_def postings_in_def)
  have "series_of bl' ?n = set (bm_fingerprints meta)"
    using old by (auto simp: series_of_def get)
  then show "info_of bl' ?n = meta_info meta" and "faithful_at bl' ?n"
    using bs_collect_size [of "bm_fingerprints meta"] bs_collect_sorted [of "bm_fingerprints meta"]
    by (simp_all add: info_of_def meta_info_def faithful_at_def set_digest_def assms(3,4) entry_of_meta_def)
  assume i: "i < ?n"
  then have "series_of bl' i = series_of bl i"
    by (auto simp: series_of_def get split: option.splits)
  then show "info_of bl' i = info_of bl i"
    using i by (simp add: info_of_def assms(4) nth_append)
qed

lemma append_block_abs:
  assumes wf: "bl_wf bl" and new: "bt_get (bl_by_key bl) (bm_object_key meta) = None"
    and room: "length (bl_entries bl) < u32_max"
  shows "\<exists>bl'. append_block meta (bs_collect (bm_fingerprints meta)) bl = Some bl' \<and> bl_wf bl'
       \<and> blocks_abs bl' = (blocks_abs bl)(bm_object_key meta \<mapsto> meta_info meta)
       \<and> (bl_faithful bl \<longrightarrow> bl_faithful bl') \<and> length (bl_entries bl') = Suc (length (bl_entries bl))"
proof -
  let ?fps = "bs_collect (bm_fingerprints meta)"
  have fps: "bs_ok ?fps" by (simp add: bs_ok_extend)
  obtain bl' where bl': "append_block meta ?fps bl = Some bl'" "bl_wf bl'"
      "bl_entries bl' = bl_entries bl @ [entry_of_meta meta ?fps]"
      "bl_live bl' = bl_live bl @ [True]"
      "bl_by_key bl' = bt_insert (bm_object_key meta) (length (bl_entries bl)) (bl_by_key bl)"
      "bl_postings bl' = fold (\<lambda>fp. bt_update fp [] (\<lambda>os. os @ [length (bl_entries bl)])) ?fps
           (bl_postings bl)"
    using append_block_ok [OF wf new room fps] by blast
  note info = info_of_append [OF wf fps refl bl'(3,6)]
  have "i < length (bl_entries bl)" if "bt_get (bl_by_key bl) k = Some i" for k i
    using wf that by (simp add: bl_wf_def keys_wf_def)
  then have "blocks_abs bl' = (blocks_abs bl)(bm_object_key meta \<mapsto> meta_info meta)"
    using info by (auto simp: fun_eq_iff blocks_abs_def bl'(5) map_option_case split: option.splits)
  moreover have "bl_faithful bl \<longrightarrow> bl_faithful bl'"
  proof
    assume f: "bl_faithful bl"
    have len: "length (bl_live bl) = length (bl_entries bl)"
      using wf by (simp add: bl_wf_def order_wf_def)
    have "faithful_at bl' i = faithful_at bl i" if "i < length (bl_entries bl)" for i
      using info(3) [OF that] that
      by (simp add: faithful_at_def info_of_def bl'(3) nth_append)
    with f info(2) show "bl_faithful bl'"
      using len by (auto simp: bl_faithful_def bl'(3,4) less_Suc_eq nth_append)
  qed
  ultimately show ?thesis using bl' by simp
qed

lemma retire_abs:
  assumes wf: "bl_wf bl" and i: "bt_get (bl_by_key bl) k = Some i"
  shows "\<exists>bl'. retire i bl = Some (True, bl') \<and> bl_wf bl' \<and> blocks_abs bl' = (blocks_abs bl)(k := None)
       \<and> bt_get (bl_by_key bl') k = None \<and> bl_entries bl' = bl_entries bl
       \<and> (bl_faithful bl \<longrightarrow> bl_faithful bl')"
proof -
  have live: "i < length (bl_entries bl)" "bl_live bl ! i" "be_object_key (ent bl i) = k"
    using wf i by (simp_all add: bl_wf_def keys_wf_def)
  obtain bl' where bl': "retire i bl = Some (True, bl')" "bl_wf bl'" "bl_entries bl' = bl_entries bl"
      "bl_postings bl' = bl_postings bl" "bl_by_key bl' = bt_remove k (bl_by_key bl)"
      "bl_live bl' = (bl_live bl)[i := False]"
    using retire_ok [OF wf live(1,2)] live(3) by blast
  have "info_of bl' = info_of bl"
    using bl' by (simp add: fun_eq_iff info_of_def series_of_def)
  then have "blocks_abs bl' = (blocks_abs bl)(k := None)"
    by (intro ext) (simp add: blocks_abs_def bl'(5))
  moreover have "bl_faithful bl \<longrightarrow> bl_faithful bl'"
  proof -
    have "faithful_at bl' = faithful_at bl"
      using bl'(3,4) by (simp add: fun_eq_iff faithful_at_def series_of_def)
    moreover have "bl_live bl ! j" if "bl_live bl' ! j" "j < length (bl_entries bl)" for j
      using that bl'(6) by (cases "j = i") (use live wf in \<open>simp_all add: bl_wf_def order_wf_def\<close>)
    ultimately show ?thesis
      using bl'(3) by (simp add: bl_faithful_def)
  qed
  ultimately show ?thesis using bl' by simp
qed

lemma restate_block_abs:
  assumes wf: "bl_wf bl" and i: "bt_get (bl_by_key bl) (bm_object_key meta) = Some i"
  shows "\<exists>bl'. restate_block meta i bl = Some bl' \<and> bl_wf bl'
       \<and> blocks_abs bl' = (blocks_abs bl)
           (bm_object_key meta \<mapsto> (meta_info meta)\<lparr>bi_series := series_of bl i\<rparr>)
       \<and> (bl_faithful bl \<longrightarrow> bl_faithful bl') \<and> length (bl_entries bl') = length (bl_entries bl)"
proof -
  let ?e = "(ent bl i)\<lparr>be_min_ts := bm_min_ts meta, be_max_ts := bm_max_ts meta,
            be_row_count := bm_row_count meta, be_level := bm_level meta\<rparr>"
  have live: "i < length (bl_entries bl)" "bl_live bl ! i" "be_object_key (ent bl i) = bm_object_key meta"
    using wf i by (simp_all add: bl_wf_def keys_wf_def)
  obtain bl' where bl': "restate_block meta i bl = Some bl'" "bl_wf bl'"
      "bl_entries bl' = (bl_entries bl)[i := ?e]" "bl_live bl' = bl_live bl"
      "bl_by_key bl' = bl_by_key bl" "bl_postings bl' = bl_postings bl"
    using restate_block_ok [OF wf live(1,2)] by blast
  have series: "series_of bl' = series_of bl"
    by (simp add: fun_eq_iff series_of_def bl'(6))
  have "info_of bl' i = (meta_info meta)\<lparr>bi_series := series_of bl i\<rparr>"
    using live(1) by (simp add: info_of_def meta_info_def bl'(3) series)
  moreover have "info_of bl' j = info_of bl j" if "j \<noteq> i" for j
    using that by (simp add: info_of_def bl'(3) series)
  ultimately have info: "info_of bl' i = (meta_info meta)\<lparr>bi_series := series_of bl i\<rparr>" "\<And>j. j \<noteq> i \<Longrightarrow> info_of bl' j = info_of bl j"
    by blast+
  have key: "k = bm_object_key meta" if "bt_get (bl_by_key bl) k = Some i" for k
    using that live(3) wf by (simp add: bl_wf_def keys_wf_def)
  have "blocks_abs bl' k = ((blocks_abs bl)
      (bm_object_key meta \<mapsto> (meta_info meta)\<lparr>bi_series := series_of bl i\<rparr>)) k" for k
  proof (cases "k = bm_object_key meta")
    case True
    then show ?thesis using i info(1) by (simp add: blocks_abs_def bl'(5))
  next
    case False
    then show ?thesis
      using key [of k] info(2) by (cases "bt_get (bl_by_key bl) k") (auto simp: blocks_abs_def bl'(5))
  qed
  then have "blocks_abs bl' = (blocks_abs bl)
      (bm_object_key meta \<mapsto> (meta_info meta)\<lparr>bi_series := series_of bl i\<rparr>)"
    by blast
  moreover have "faithful_at bl' j = faithful_at bl j" for j
    using live(1) by (cases "j = i") (simp_all add: faithful_at_def series bl'(3))
  ultimately show ?thesis
    using bl' by (auto simp: bl_faithful_def)
qed

text \<open>
  The series set a registration leaves under its key: the one registered before when the stored size
  and digest match, and the new one otherwise.
\<close>

definition same_digest :: "block_meta \<Rightarrow> block_entry \<Rightarrow> bool" where
  "same_digest meta e \<longleftrightarrow> be_fingerprint_count e = length (bs_collect (bm_fingerprints meta))
     \<and> be_fingerprint_digest e = fingerprint_set_digest (bs_collect (bm_fingerprints meta))"

definition kept_series :: "block_meta \<Rightarrow> block_list \<Rightarrow> fingerprint set" where
  "kept_series meta bl = (case bt_get (bl_by_key bl) (bm_object_key meta) of
       None \<Rightarrow> set (bm_fingerprints meta)
     | Some i \<Rightarrow> if same_digest meta (ent bl i) then series_of bl i else set (bm_fingerprints meta))"

lemma insert_block_exact:
  assumes "bl_wf bl" and "length (bl_entries bl) < u32_max"
  shows "\<exists>bl'. insert_block meta bl = Some bl' \<and> bl_wf bl' \<and> (bl_faithful bl \<longrightarrow> bl_faithful bl')
       \<and> blocks_abs bl' = (blocks_abs bl)
           (bm_object_key meta \<mapsto> (meta_info meta)\<lparr>bi_series := kept_series meta bl\<rparr>)
       \<and> length (bl_entries bl') \<le> Suc (length (bl_entries bl))"
proof (cases "bt_get (bl_by_key bl) (bm_object_key meta)")
  case None
  obtain bl1 where "append_block meta (bs_collect (bm_fingerprints meta)) bl = Some bl1" "bl_wf bl1"
      "blocks_abs bl1 = (blocks_abs bl)(bm_object_key meta \<mapsto> meta_info meta)"
      "bl_faithful bl \<longrightarrow> bl_faithful bl1" "length (bl_entries bl1) = Suc (length (bl_entries bl))"
    using append_block_abs [OF assms(1) None assms(2)] by blast
  then show ?thesis
    using None compact_if_mostly_dead_abs [of bl1]
    by (auto simp: insert_block_def Let_def kept_series_def meta_info_def)
next
  case (Some i)
  let ?fps = "bs_collect (bm_fingerprints meta)"
  have live: "i < length (bl_entries bl)" "bl_live bl ! i"
    using assms(1) Some by (simp_all add: bl_wf_def keys_wf_def)
  show ?thesis
  proof (cases "same_digest meta (ent bl i)")
    case True
    with restate_block_abs [OF assms(1) Some] Some live show ?thesis
      by (auto simp: insert_block_def Let_def panic_simps kept_series_def same_digest_def)
  next
    case False
    obtain bl1 where bl1: "retire i bl = Some (True, bl1)" "bl_wf bl1"
        "blocks_abs bl1 = (blocks_abs bl)(bm_object_key meta := None)"
        "bt_get (bl_by_key bl1) (bm_object_key meta) = None" "bl_entries bl1 = bl_entries bl"
        "bl_faithful bl \<longrightarrow> bl_faithful bl1"
      using retire_abs [OF assms(1) Some] by blast
    obtain bl2 where "append_block meta ?fps bl1 = Some bl2" "bl_wf bl2"
        "blocks_abs bl2 = (blocks_abs bl1)(bm_object_key meta \<mapsto> meta_info meta)"
        "bl_faithful bl1 \<longrightarrow> bl_faithful bl2" "length (bl_entries bl2) = Suc (length (bl_entries bl))"
      using append_block_abs [OF bl1(2,4)] assms(2) bl1(5) by auto
    then show ?thesis
      using False Some live bl1 compact_if_mostly_dead_abs [of bl2]
      by (auto simp: insert_block_def Let_def panic_simps kept_series_def same_digest_def meta_info_def)
  qed
qed

lemma kept_series_new:
  assumes "bl_wf bl" and "bl_faithful bl"
    and "\<And>b. blocks_abs bl (bm_object_key meta) = Some b
           \<Longrightarrow> \<not> collides (bi_series b) (set (bm_fingerprints meta))"
  shows "kept_series meta bl = set (bm_fingerprints meta)"
proof (cases "bt_get (bl_by_key bl) (bm_object_key meta)")
  case (Some i)
  then have "faithful_at bl i"
    using assms(1,2) by (simp add: bl_wf_def keys_wf_def bl_faithful_def)
  moreover have "\<not> collides (series_of bl i) (set (bm_fingerprints meta))"
    using assms(3) [of "info_of bl i"] Some by (simp add: blocks_abs_def info_of_def)
  ultimately show ?thesis
    using Some by (auto simp: kept_series_def same_digest_def faithful_at_def collides_def
        set_digest_def bs_collect_sorted bs_collect_size)
qed (simp add: kept_series_def)

section \<open>Removal\<close>

lemma finite_blocks_abs [simp]: "finite (dom (blocks_abs bl))"
proof (rule finite_subset)
  show "dom (blocks_abs bl) \<subseteq> dom (bt_get (bl_by_key bl))"
    by (auto simp: blocks_abs_def)
qed (simp add: finite_dom_map_of)

lemma remove_loop_abs:
  assumes "bl_wf bl"
  shows "\<exists>bl'. fold_opt remove_one keys (c, bl) = Some (c + card (dom (blocks_abs bl) \<inter> set keys), bl')
       \<and> bl_wf bl' \<and> blocks_abs bl' = blocks_abs bl |` (- set keys)
       \<and> (bl_faithful bl \<longrightarrow> bl_faithful bl')"
  using assms
proof (induction keys arbitrary: c bl)
  case (Cons k keys)
  show ?case
  proof (cases "bt_get (bl_by_key bl) k")
    case None
    then have "dom (blocks_abs bl) \<inter> set (k # keys) = dom (blocks_abs bl) \<inter> set keys"
        "blocks_abs bl |` (- set (k # keys)) = blocks_abs bl |` (- set keys)"
      by (auto simp: blocks_abs_def restrict_map_def fun_eq_iff)
    then show ?thesis
      using Cons.IH [OF Cons.prems, of c] None by (simp add: remove_one_def)
  next
    case (Some i)
    obtain bl1 where bl1: "retire i bl = Some (True, bl1)" "bl_wf bl1"
        "blocks_abs bl1 = (blocks_abs bl)(k := None)" "bl_faithful bl \<longrightarrow> bl_faithful bl1"
      using retire_abs [OF Cons.prems Some] by blast
    have "k \<in> dom (blocks_abs bl)" using Some by (auto simp: blocks_abs_def)
    then have "dom (blocks_abs bl) \<inter> set (k # keys) = insert k (dom (blocks_abs bl1) \<inter> set keys)"
        "k \<notin> dom (blocks_abs bl1) \<inter> set keys"
      by (auto simp: bl1(3))
    then have "card (dom (blocks_abs bl) \<inter> set (k # keys)) = Suc (card (dom (blocks_abs bl1) \<inter> set keys))"
      by simp
    moreover have "blocks_abs bl |` (- set (k # keys)) = blocks_abs bl1 |` (- set keys)"
      by (auto simp: bl1(3) restrict_map_def fun_eq_iff)
    moreover have "remove_one k (c, bl) = Some (c + 1, bl1)"
      using Some bl1(1) by (simp add: remove_one_def)
    ultimately show ?thesis
      using Cons.IH [OF bl1(2), of "c + 1"] bl1(4) by (auto simp del: fun_upd_apply)
  qed
qed (simp add: restrict_map_def)

lemma remove_blocks_abs:
  assumes "bl_wf bl"
  shows "\<exists>bl'. remove_blocks keys bl = Some (card (dom (blocks_abs bl) \<inter> set keys), bl') \<and> bl_wf bl'
       \<and> blocks_abs bl' = blocks_abs bl |` (- set keys) \<and> (bl_faithful bl \<longrightarrow> bl_faithful bl')"
proof -
  obtain bl1 where bl1: "fold_opt remove_one keys (0, bl) = Some (card (dom (blocks_abs bl) \<inter> set keys), bl1)"
      "bl_wf bl1" "blocks_abs bl1 = blocks_abs bl |` (- set keys)" "bl_faithful bl \<longrightarrow> bl_faithful bl1"
    using remove_loop_abs [OF assms, of keys 0] by auto
  then show ?thesis
    using compact_if_mostly_dead_abs [OF bl1(2)] by (auto simp: remove_blocks_def)
qed

end
