(* ===== verification/Block_List_Query.thy ===== *)
theory Block_List_Query
  imports Block_List_Refine
begin

text \<open>
  The time-window queries of \<open>block_list.rs\<close> answer exactly what the abstract list holds: the two
  binary searches cut no overlapping block off, and the marking loop with its early exit finds
  every block that shares a fingerprint with the selector.
\<close>

section \<open>The window\<close>

lemma max_end_bounds:
  assumes c: "caches_full bl" and j: "j \<le> i" and i: "i < length (bl_order bl)"
  shows "be_max_ts (ent bl (bl_order bl ! j)) \<le> bl_max_end bl ! i \<and> bl_max_end bl ! j \<le> bl_max_end bl ! i"
  using j i
proof (induction i)
  case 0
  have "cache_at bl 0" using c 0 by (simp add: caches_full_def caches_ok_def)
  then show ?case using 0 by (simp add: cache_at_def)
next
  case (Suc i)
  have at: "cache_at bl (Suc i)" using c Suc.prems by (simp add: caches_full_def caches_ok_def)
  show ?case
  proof (cases "j = Suc i")
    case True
    then show ?thesis using at by (simp add: cache_at_def)
  next
    case False
    then have "be_max_ts (ent bl (bl_order bl ! j)) \<le> bl_max_end bl ! i \<and> bl_max_end bl ! j \<le> bl_max_end bl ! i"
      using Suc by simp
    moreover have "bl_max_end bl ! i \<le> bl_max_end bl ! Suc i"
      using at by (simp add: cache_at_def)
    ultimately show ?thesis by linarith
  qed
qed

lemma min_start_eq:
  assumes "caches_full bl" and "i < length (bl_order bl)"
  shows "bl_min_start bl ! i = be_min_ts (ent bl (bl_order bl ! i))"
  using assms by (simp add: caches_full_def caches_ok_def cache_at_def)

lemma sorted_min_start:
  assumes "order_wf bl"
  shows "sorted (bl_min_start bl)"
proof -
  have c: "caches_full bl" and s: "sorted_wrt (by_time bl) (bl_order bl)"
    using assms by (simp_all add: order_wf_def)
  have "bl_min_start bl ! i \<le> bl_min_start bl ! j" if "i < j" "j < length (bl_order bl)" for i j
    using sorted_wrt_nth_less [OF s that] that c
    by (auto simp: min_start_eq order_key_def)
  then show ?thesis
    using c by (auto simp: sorted_iff_nth_mono_less caches_full_def)
qed

lemma window_ok:
  assumes "order_wf bl"
  shows "\<exists>w. window bl a b = Some w \<and> ow_start w \<le> ow_end w \<and> ow_end w \<le> length (bl_order bl)
       \<and> (\<forall>i < length (bl_order bl). entry_overlaps (ent bl (bl_order bl ! i)) a b
             \<longrightarrow> ow_start w \<le> i \<and> i < ow_end w)"
proof -
  have c: "caches_full bl" using assms by (simp add: order_wf_def)
  then have len: "length (bl_min_start bl) = length (bl_order bl)"
      "length (bl_max_end bl) = length (bl_order bl)"
    by (simp_all add: caches_full_def)
  have "sorted (bl_max_end bl)"
    using max_end_bounds [OF c] len by (auto simp: sorted_iff_nth_mono)
  then obtain w where w: "window bl a b = Some w" "ow_start w \<le> ow_end w" "ow_end w \<le> length (bl_order bl)"
      "\<forall>i < ow_start w. bl_max_end bl ! i < a"
      "\<forall>i. ow_end w \<le> i \<longrightarrow> i < length (bl_order bl) \<longrightarrow> b < bl_min_start bl ! i"
    using overlap_window_correct [of "bl_min_start bl" "bl_max_end bl" a b] len sorted_min_start [OF assms]
    unfolding window_def by auto
  have "ow_start w \<le> i \<and> i < ow_end w"
    if i: "i < length (bl_order bl)" and o: "entry_overlaps (ent bl (bl_order bl ! i)) a b" for i
  proof -
    have "a \<le> bl_max_end bl ! i"
      using max_end_bounds [OF c _ i, of i] o by (simp add: entry_overlaps_def)
    moreover have "bl_min_start bl ! i \<le> b"
      using o min_start_eq [OF c i] by (simp add: entry_overlaps_def)
    ultimately show ?thesis
      using w(4,5) i by (meson not_less linorder_not_le)
  qed
  then show ?thesis using w(1-3) by blast
qed

lemma filter_window:
  assumes "lo \<le> hi" and "hi \<le> length xs" and "\<And>i. i < length xs \<Longrightarrow> p (xs ! i) \<Longrightarrow> lo \<le> i \<and> i < hi"
  shows "filter p (take (hi - lo) (drop lo xs)) = filter p xs"
proof -
  have "take lo xs @ take (hi - lo) (drop lo xs) @ drop hi xs = xs"
    using assms(1) by (metis append_take_drop_id drop_drop le_add_diff_inverse2)
  then have "filter p xs = filter p (take lo xs) @ filter p (take (hi - lo) (drop lo xs)) @ filter p (drop hi xs)"
    by (metis filter_append)
  moreover have "\<not> p x" if x: "x \<in> set (take lo xs)" for x
  proof -
    obtain i where i: "i < lo" "i < length xs" "x = xs ! i"
      using x by (auto simp: in_set_conv_nth)
    then show ?thesis using assms(3) [of i] by auto
  qed
  moreover have "\<not> p x" if x: "x \<in> set (drop hi xs)" for x
  proof -
    obtain i where "i < length (drop hi xs)" "x = drop hi xs ! i"
      using x by (metis in_set_conv_nth)
    then have i: "hi + i < length xs" "x = xs ! (hi + i)" by auto
    then show ?thesis using assms(3) [of "hi + i"] by auto
  qed
  ultimately show ?thesis
    by simp
qed

text \<open>The window of a well-formed list, as the span the queries walk.\<close>

lemma window_span:
  assumes "order_wf bl"
  obtains w span where "window bl a b = Some w" "ow_start w \<le> ow_end w" "ow_end w \<le> length (bl_order bl)"
    "slice_opt (bl_order bl) (ow_start w) (ow_end w) = Some span"
    "span = take (ow_end w - ow_start w) (drop (ow_start w) (bl_order bl))"
    "\<And>p. filter (\<lambda>i. p i \<and> entry_overlaps (ent bl i) a b) span
        = filter (\<lambda>i. p i \<and> entry_overlaps (ent bl i) a b) (bl_order bl)"
    "\<And>i. i \<in> set span \<Longrightarrow> i < length (bl_entries bl)"
proof -
  obtain w where w: "window bl a b = Some w" "ow_start w \<le> ow_end w" "ow_end w \<le> length (bl_order bl)"
     "\<forall>i < length (bl_order bl). entry_overlaps (ent bl (bl_order bl ! i)) a b
        \<longrightarrow> ow_start w \<le> i \<and> i < ow_end w"
    using window_ok [OF assms] by blast
  let ?span = "take (ow_end w - ow_start w) (drop (ow_start w) (bl_order bl))"
  have "i < length (bl_entries bl)" if "i \<in> set ?span" for i
    using that assms by (auto simp: order_wf_def dest!: in_set_takeD in_set_dropD)
  moreover have "filter (\<lambda>i. p i \<and> entry_overlaps (ent bl i) a b) ?span
      = filter (\<lambda>i. p i \<and> entry_overlaps (ent bl i) a b) (bl_order bl)" for p
    using w(4) by (intro filter_window [OF w(2,3)]) blast
  ultimately show thesis
    using w by (intro that [of w ?span]) (simp_all add: panic_simps)
qed

section \<open>The time order, from the abstract list\<close>

definition time_order :: "(string \<rightharpoonup> block_info) \<Rightarrow> string list" where
  "time_order m = map (snd \<circ> snd)
     (sorted_list_of_set ((\<lambda>k. (bi_min_ts (the (m k)), bi_max_ts (the (m k)), k)) ` dom m))"

definition info_overlaps :: "block_info \<Rightarrow> i64 \<Rightarrow> i64 \<Rightarrow> bool" where
  "info_overlaps b min_ts max_ts \<longleftrightarrow> bi_min_ts b \<le> max_ts \<and> bi_max_ts b \<ge> min_ts"

definition live_where :: "(string \<rightharpoonup> block_info) \<Rightarrow> (block_info \<Rightarrow> bool) \<Rightarrow> string list" where
  "live_where m p = filter (\<lambda>k. case m k of None \<Rightarrow> False | Some b \<Rightarrow> p b) (time_order m)"

lemma order_keys_time_order:
  assumes wf: "bl_wf bl"
  shows "map (\<lambda>i. be_object_key (ent bl i)) (bl_order bl) = time_order (blocks_abs bl)"
proof -
  have ow: "order_wf bl" using wf by (simp add: bl_wf_def)
  let ?ks = "map (\<lambda>i. order_key (ent bl i)) (bl_order bl)"
  let ?live = "{i. i < length (bl_entries bl) \<and> bl_live bl ! i}"
  let ?S = "(\<lambda>k. (bi_min_ts (the (blocks_abs bl k)), bi_max_ts (the (blocks_abs bl k)), k)) ` dom (blocks_abs bl)"
  have "dom (blocks_abs bl) = (\<lambda>i. be_object_key (ent bl i)) ` ?live"
    by (auto simp: dom_def blocks_abs_Some [OF wf])
  then have "?S = (\<lambda>i. order_key (ent bl i)) ` ?live"
    by (simp add: image_image blocks_abs_live [OF wf] order_key_def info_of_def cong: image_cong_simp)
  then have "set ?ks = ?S"
    using ow by (simp add: order_wf_def)
  moreover have "sorted_wrt (<) ?ks"
    using ow by (simp add: order_wf_def sorted_wrt_map)
  ultimately have "?ks = sorted_list_of_set ?S"
    by (intro bs_eqI) simp_all
  then have "map (snd \<circ> snd) ?ks = time_order (blocks_abs bl)"
    by (simp add: time_order_def)
  then show ?thesis
    by (simp add: order_key_def comp_def)
qed

lemma live_where_order:
  assumes wf: "bl_wf bl"
  shows "live_where (blocks_abs bl) p
    = map (\<lambda>i. be_object_key (ent bl i)) (filter (\<lambda>i. p (info_of bl i)) (bl_order bl))"
proof -
  have "blocks_abs bl (be_object_key (ent bl i)) = Some (info_of bl i)" if "i \<in> set (bl_order bl)" for i
    using that wf blocks_abs_live [OF wf] by (auto simp: bl_wf_def order_wf_def)
  then have "filter (\<lambda>i. case blocks_abs bl (be_object_key (ent bl i)) of None \<Rightarrow> False | Some b \<Rightarrow> p b)
        (bl_order bl) = filter (\<lambda>i. p (info_of bl i)) (bl_order bl)"
    by (auto intro: filter_cong)
  then show ?thesis
    unfolding live_where_def order_keys_time_order [OF wf, symmetric]
    by (simp add: filter_map comp_def)
qed

lemma info_overlaps_of [simp]: "info_overlaps (info_of bl i) a b = entry_overlaps (ent bl i) a b"
  by (simp add: info_overlaps_def entry_overlaps_def info_of_def)

lemma bi_series_of [simp]: "bi_series (info_of bl i) = series_of bl i"
  by (simp add: info_of_def)

text \<open>The filtered walk over the window, shared by the two key queries.\<close>

lemma keys_in_window_ok:
  assumes wf: "bl_wf bl" and w: "window bl a b = Some w"
    and keep: "\<And>i. i < length (bl_entries bl) \<Longrightarrow> keep i = Some (kp i)"
  shows "keys_in_window bl (ow_start w) (ow_end w) a b keep
    = Some (map (\<lambda>i. be_object_key (ent bl i))
        (filter (\<lambda>i. kp i \<and> entry_overlaps (ent bl i) a b) (bl_order bl)))"
proof -
  have ow: "order_wf bl" using wf by (simp add: bl_wf_def)
  obtain w' span where "window bl a b = Some w'" "slice_opt (bl_order bl) (ow_start w') (ow_end w') = Some span"
      and span': "\<And>p. filter (\<lambda>i. p i \<and> entry_overlaps (ent bl i) a b) span
        = filter (\<lambda>i. p i \<and> entry_overlaps (ent bl i) a b) (bl_order bl)"
      "\<And>i. i \<in> set span \<Longrightarrow> i < length (bl_entries bl)"
    by (rule window_span [OF ow, of a b]) blast
  then have span: "slice_opt (bl_order bl) (ow_start w) (ow_end w) = Some span"
      "\<And>p. filter (\<lambda>i. p i \<and> entry_overlaps (ent bl i) a b) span
        = filter (\<lambda>i. p i \<and> entry_overlaps (ent bl i) a b) (bl_order bl)"
      "\<And>i. i \<in> set span \<Longrightarrow> i < length (bl_entries bl)"
    using w by auto
  have "filter_opt keep span = Some (filter kp span)"
    using keep span(3) by (intro filter_opt_Some) simp
  moreover have "map_opt (nth_opt (bl_entries bl)) (filter kp span) = Some (map (ent bl) (filter kp span))"
    using span(3) by (intro map_opt_Some) (simp add: panic_simps)
  ultimately show ?thesis
    using span(2) [of kp] by (simp add: keys_in_window_def span(1) filter_map comp_def conj_commute)
qed

lemma blocks_in_range_abs:
  assumes wf: "bl_wf bl"
  shows "blocks_in_range bl a b = Some (live_where (blocks_abs bl) (\<lambda>i. info_overlaps i a b))"
proof -
  have "order_wf bl" using wf by (simp add: bl_wf_def)
  then obtain w where "window bl a b = Some w" using window_ok by blast
  then show ?thesis
    using keys_in_window_ok [OF wf, of a b w "\<lambda>_. Some True" "\<lambda>_. True"]
    by (simp add: blocks_in_range_def live_where_order [OF wf])
qed

section \<open>Marking the candidates\<close>

definition marked :: "marks \<Rightarrow> ordinal set" where
  "marked st = {i. i < length (fst st) \<and> fst st ! i}"

definition in_window :: "block_list \<Rightarrow> nat \<Rightarrow> nat \<Rightarrow> ordinal set" where
  "in_window bl lo hi = {i. i < length (bl_entries bl) \<and> bl_position bl ! i \<noteq> no_position
     \<and> lo \<le> bl_position bl ! i \<and> bl_position bl ! i < hi}"

definition marks_ok :: "block_list \<Rightarrow> nat \<Rightarrow> nat \<Rightarrow> marks \<Rightarrow> bool" where
  "marks_ok bl lo hi st \<longleftrightarrow> length (fst st) = length (bl_entries bl)
     \<and> marked st \<subseteq> in_window bl lo hi \<and> snd st = card (marked st)"

lemma in_window_order:
  assumes "order_wf bl" and "lo \<le> hi" and "hi \<le> length (bl_order bl)"
  shows "in_window bl lo hi = set (take (hi - lo) (drop lo (bl_order bl)))"
    and "card (in_window bl lo hi) = hi - lo"
proof -
  have at: "bl_position bl ! (bl_order bl ! p) = p" "bl_order bl ! p < length (bl_entries bl)"
    if "p < length (bl_order bl)" for p
  proof -
    have "cache_at bl p"
      using assms(1) that by (simp add: order_wf_def caches_full_def caches_ok_def)
    then show "bl_position bl ! (bl_order bl ! p) = p" by (simp add: cache_at_def)
    show "bl_order bl ! p < length (bl_entries bl)"
      using assms(1) nth_mem [OF that] by (auto simp: order_wf_def)
  qed
  have room: "length (bl_order bl) \<le> u32_max"
    using assms(1) by (simp add: order_wf_def)
  have "i \<in> in_window bl lo hi \<longleftrightarrow> (\<exists>p. lo \<le> p \<and> p < hi \<and> bl_order bl ! p = i)" for i
  proof
    assume i: "i \<in> in_window bl lo hi"
    then have "bl_live bl ! i"
      using assms(1) by (auto simp: in_window_def order_wf_def)
    with i show "\<exists>p. lo \<le> p \<and> p < hi \<and> bl_order bl ! p = i"
      using live_position [OF assms(1)] by (auto simp: in_window_def)
  next
    assume "\<exists>p. lo \<le> p \<and> p < hi \<and> bl_order bl ! p = i"
    then obtain p where p: "lo \<le> p" "p < hi" "bl_order bl ! p = i" by blast
    then show "i \<in> in_window bl lo hi"
      using at [of p] room assms(3) by (auto simp: in_window_def)
  qed
  moreover have "i \<in> set (take (hi - lo) (drop lo (bl_order bl)))
      \<longleftrightarrow> (\<exists>p. lo \<le> p \<and> p < hi \<and> bl_order bl ! p = i)" for i
  proof -
    have "i \<in> set (take (hi - lo) (drop lo (bl_order bl))) \<longleftrightarrow> (\<exists>d < hi - lo. bl_order bl ! (lo + d) = i)"
      using assms(2,3) by (auto simp: in_set_conv_nth)
    also have "\<dots> \<longleftrightarrow> (\<exists>p. lo \<le> p \<and> p < hi \<and> bl_order bl ! p = i)"
    proof
      assume "\<exists>d < hi - lo. bl_order bl ! (lo + d) = i"
      then obtain d where "d < hi - lo" "bl_order bl ! (lo + d) = i" by blast
      then show "\<exists>p. lo \<le> p \<and> p < hi \<and> bl_order bl ! p = i" by (intro exI [of _ "lo + d"]) auto
    next
      assume "\<exists>p. lo \<le> p \<and> p < hi \<and> bl_order bl ! p = i"
      then obtain p where "lo \<le> p" "p < hi" "bl_order bl ! p = i" by blast
      then show "\<exists>d < hi - lo. bl_order bl ! (lo + d) = i" by (intro exI [of _ "p - lo"]) auto
    qed
    finally show ?thesis .
  qed
  ultimately show eq: "in_window bl lo hi = set (take (hi - lo) (drop lo (bl_order bl)))"
    by blast
  have "distinct (take (hi - lo) (drop lo (bl_order bl)))"
    using assms(1) by (simp add: order_wf_def)
  then show "card (in_window bl lo hi) = hi - lo"
    using assms(2,3) unfolding eq by (subst distinct_card) simp_all
qed

lemma marks_ok_upd:
  assumes ok: "marks_ok bl lo hi st" and i: "i \<in> in_window bl lo hi" and new: "\<not> fst st ! i"
  shows "marks_ok bl lo hi ((fst st)[i := True], snd st + 1)"
    and "marked ((fst st)[i := True], snd st + 1) = insert i (marked st)"
proof -
  have len: "i < length (fst st)"
    using ok i by (simp add: marks_ok_def in_window_def)
  then show eq: "marked ((fst st)[i := True], snd st + 1) = insert i (marked st)"
    by (auto simp: marked_def nth_list_update split: if_splits)
  have "finite (marked st)" "i \<notin> marked st"
    using new by (simp_all add: marked_def)
  then show "marks_ok bl lo hi ((fst st)[i := True], snd st + 1)"
    using ok i eq by (simp add: marks_ok_def)
qed

definition marked_from ::
  "block_list \<Rightarrow> nat \<Rightarrow> nat \<Rightarrow> ordinal set \<Rightarrow> marks \<Rightarrow> bool \<Rightarrow> marks \<Rightarrow> bool" where
  "marked_from bl lo hi os st stop st' \<longleftrightarrow> marks_ok bl lo hi st'
     \<and> marked st' \<subseteq> marked st \<union> (in_window bl lo hi \<inter> os)
     \<and> (stop \<longrightarrow> marked st' = in_window bl lo hi)
     \<and> (\<not> stop \<longrightarrow> marked st \<union> (in_window bl lo hi \<inter> os) \<subseteq> marked st')"

lemma mark_ordinals_ok:
  assumes "marks_ok bl lo hi st" and "\<And>i. i \<in> set ordinals \<Longrightarrow> i < length (bl_entries bl)"
    and pos: "length (bl_position bl) = length (bl_entries bl)"
    and card: "card (in_window bl lo hi) = hi - lo"
  shows "\<exists>stop st'. mark_ordinals bl lo hi ordinals st = Some (stop, st')
       \<and> marked_from bl lo hi (set ordinals) st stop st'"
  using assms(1,2)
proof (induction ordinals arbitrary: st)
  case Nil
  then show ?case by (intro exI [of _ False] exI [of _ st]) (simp add: marked_from_def)
next
  case (Cons i ordinals)
  have i: "i < length (bl_entries bl)" "i < length (bl_position bl)" "i < length (fst st)"
    using Cons.prems pos by (auto simp: marks_ok_def)
  consider (skip) "i \<notin> in_window bl lo hi \<or> i \<in> marked st"
    | (mark) "i \<in> in_window bl lo hi" "\<not> fst st ! i"
    using i by (auto simp: marked_def)
  then show ?case
  proof cases
    case skip
    then have "mark_ordinals bl lo hi (i # ordinals) st = mark_ordinals bl lo hi ordinals st"
      using i by (auto simp: in_window_def marked_def panic_simps)
    moreover have "marked st \<union> (in_window bl lo hi \<inter> set (i # ordinals))
        = marked st \<union> (in_window bl lo hi \<inter> set ordinals)"
      using skip by auto
    ultimately show ?thesis
      using Cons.IH [of st] Cons.prems unfolding marked_from_def by (metis list.set_intros(2))
  next
    case mark
    let ?st = "((fst st)[i := True], snd st + 1)"
    note upd = marks_ok_upd [OF Cons.prems(1) mark]
    have step: "mark_ordinals bl lo hi (i # ordinals) st =
        (if snd st + 1 = hi - lo then Some (True, ?st) else mark_ordinals bl lo hi ordinals ?st)"
      using mark i by (auto simp: in_window_def panic_simps Let_def)
    show ?thesis
    proof (cases "snd st + 1 = hi - lo")
      case True
      have "finite (in_window bl lo hi)" by (simp add: in_window_def)
      then have "marked ?st = in_window bl lo hi"
        using upd(1) True card by (intro card_subset_eq) (simp_all add: marks_ok_def)
      then have "marked_from bl lo hi (set (i # ordinals)) st True ?st"
        using upd mark(1) by (simp add: marked_from_def)
      then show ?thesis using True step by auto
    next
      case False
      obtain stop st' where "mark_ordinals bl lo hi ordinals ?st = Some (stop, st')"
          "marked_from bl lo hi (set ordinals) ?st stop st'"
        using Cons.IH [OF upd(1)] Cons.prems(2) by auto
      moreover from this(2) have "marked_from bl lo hi (set (i # ordinals)) st stop st'"
        using mark(1) upd(2) by (auto simp: marked_from_def)
      ultimately show ?thesis using False step by auto
    qed
  qed
qed

lemma mark_fingerprints_ok:
  assumes "marks_ok bl lo hi st" and ps: "postings_in (length (bl_entries bl)) (bl_postings bl)"
    and pos: "length (bl_position bl) = length (bl_entries bl)"
    and card: "card (in_window bl lo hi) = hi - lo"
  shows "\<exists>st'. mark_fingerprints bl lo hi fps st = Some st' \<and> marks_ok bl lo hi st'
       \<and> marked st' = marked st \<union> {i \<in> in_window bl lo hi. \<exists>fp \<in> set fps. fp \<in> series_of bl i}"
  using assms(1)
proof (induction fps arbitrary: st)
  case (Cons fp fps)
  show ?case
  proof (cases "bt_get (bl_postings bl) fp")
    case None
    then have "{i \<in> in_window bl lo hi. \<exists>fp' \<in> set (fp # fps). fp' \<in> series_of bl i}
        = {i \<in> in_window bl lo hi. \<exists>fp' \<in> set fps. fp' \<in> series_of bl i}"
      by (auto simp: series_of_def)
    then show ?thesis using Cons None by simp
  next
    case (Some os)
    have "i < length (bl_entries bl)" if "i \<in> set os" for i
      using ps Some that by (auto simp: postings_in_def)
    then obtain stop st1 where st1: "mark_ordinals bl lo hi os st = Some (stop, st1)"
        "marked_from bl lo hi (set os) st stop st1"
      using mark_ordinals_ok [OF Cons.prems _ pos card, of os] by blast
    have hits: "{i \<in> in_window bl lo hi. \<exists>fp' \<in> set (fp # fps). fp' \<in> series_of bl i}
        = (in_window bl lo hi \<inter> set os) \<union> {i \<in> in_window bl lo hi. \<exists>fp' \<in> set fps. fp' \<in> series_of bl i}"
      using Some by (auto simp: series_of_def)
    show ?thesis
    proof (cases stop)
      case True
      then have "marked st1 = marked st \<union> {i \<in> in_window bl lo hi. \<exists>fp' \<in> set (fp # fps). fp' \<in> series_of bl i}"
        using st1(2) Cons.prems unfolding hits marked_from_def marks_ok_def by blast
      then show ?thesis
        using Some st1 True by (simp add: marked_from_def)
    next
      case False
      then have "marked st1 = marked st \<union> (in_window bl lo hi \<inter> set os)" "marks_ok bl lo hi st1"
        using st1(2) unfolding marked_from_def by blast+
      then show ?thesis
        using Cons.IH [of st1] Some st1(1) False unfolding hits by (simp add: Un_assoc)
    qed
  qed
qed simp

lemma candidate_blocks_abs:
  assumes wf: "bl_wf bl"
  shows "candidate_blocks bl fps a b = Some (live_where (blocks_abs bl)
     (\<lambda>i. info_overlaps i a b \<and> bi_series i \<inter> set fps \<noteq> {}))"
proof -
  have ow: "order_wf bl" and ps: "postings_in (length (bl_entries bl)) (bl_postings bl)"
    using wf by (simp_all add: bl_wf_def)
  obtain w span where w: "window bl a b = Some w" "ow_start w \<le> ow_end w" "ow_end w \<le> length (bl_order bl)"
    "span = take (ow_end w - ow_start w) (drop (ow_start w) (bl_order bl))"
    and span: "\<And>p. filter (\<lambda>i. p i \<and> entry_overlaps (ent bl i) a b) span
        = filter (\<lambda>i. p i \<and> entry_overlaps (ent bl i) a b) (bl_order bl)"
    by (rule window_span [OF ow, of a b]) blast
  define hits where "hits = filter (\<lambda>i. (\<exists>fp \<in> set fps. fp \<in> series_of bl i) \<and> entry_overlaps (ent bl i) a b)"
  have spec: "live_where (blocks_abs bl) (\<lambda>i. info_overlaps i a b \<and> bi_series i \<inter> set fps \<noteq> {})
      = map (\<lambda>i. be_object_key (ent bl i)) (hits (bl_order bl))"
    by (auto simp: live_where_order [OF wf] hits_def intro!: arg_cong [where f = "map _"] filter_cong)
  show ?thesis
  proof (cases "ow_end w \<le> ow_start w \<or> fps = []")
    case True
    then have "hits (bl_order bl) = []"
      using span [of "\<lambda>i. \<exists>fp \<in> set fps. fp \<in> series_of bl i"] w(4) by (auto simp: hits_def)
    with True show ?thesis
      by (simp add: candidate_blocks_def w(1) spec)
  next
    case False
    let ?st = "(replicate (length (bl_entries bl)) False, 0 :: nat)"
    have "marks_ok bl (ow_start w) (ow_end w) ?st" and empty: "marked ?st = {}"
      by (auto simp: marks_ok_def marked_def)
    then obtain hit n where hit:
        "mark_fingerprints bl (ow_start w) (ow_end w) fps ?st = Some (hit, n)"
        "length hit = length (bl_entries bl)"
        "marked (hit, n) = {i \<in> in_window bl (ow_start w) (ow_end w). \<exists>fp \<in> set fps. fp \<in> series_of bl i}"
      using mark_fingerprints_ok [of bl "ow_start w" "ow_end w" ?st fps] ps in_window_order(2) [OF ow w(2,3)] ow
      by (auto simp: order_wf_def marks_ok_def)
    have "candidate_blocks bl fps a b = Some (map (\<lambda>i. be_object_key (ent bl i))
        (filter (\<lambda>i. hit ! i \<and> entry_overlaps (ent bl i) a b) (bl_order bl)))"
      using False hit(1,2) keys_in_window_ok [OF wf w(1), of "nth_opt hit" "(!) hit"]
      by (simp add: candidate_blocks_def w(1) Let_def panic_simps)
    also have "filter (\<lambda>i. hit ! i \<and> entry_overlaps (ent bl i) a b) (bl_order bl) = hits (bl_order bl)"
    proof -
      have "hit ! i \<longleftrightarrow> (\<exists>fp \<in> set fps. fp \<in> series_of bl i)" if "i \<in> set span" for i
        using hit(2,3) that in_window_order(1) [OF ow w(2,3)] w(4)
        by (auto simp: marked_def in_window_def)
      then have "filter (\<lambda>i. hit ! i \<and> entry_overlaps (ent bl i) a b) span = hits span"
        unfolding hits_def by (intro filter_cong) auto
      then show ?thesis using span unfolding hits_def by simp
    qed
    finally show ?thesis by (simp add: spec)
  qed
qed

end
