(* ===== verification/Block_List_Spec.thy ===== *)
theory Block_List_Spec
  imports Block_List_Query
begin

text \<open>
  The remaining readers of \<open>block_list.rs\<close>, the contract a client of the block list relies on as a
  locale with its interpretation on the list, and the properties of the component.
\<close>

section \<open>Time bounds\<close>

lemma fold_widen_bounds:
  "fold widen_bounds es (Some b) =
     Some \<lparr>tb_min_ts = Min (insert (tb_min_ts b) (be_min_ts ` set es)),
           tb_max_ts = Max (insert (tb_max_ts b) (be_max_ts ` set es))\<rparr>"
proof (induction es arbitrary: b)
  case (Cons e es)
  let ?b = "\<lparr>tb_min_ts = min (tb_min_ts b) (be_min_ts e), tb_max_ts = max (tb_max_ts b) (be_max_ts e)\<rparr>"
  have "fold widen_bounds (e # es) (Some b) = fold widen_bounds es (Some ?b)"
    by (simp add: widen_bounds_def [of e])
  also have "\<dots> = Some \<lparr>tb_min_ts = Min (insert (tb_min_ts b) (be_min_ts ` set (e # es))),
           tb_max_ts = Max (insert (tb_max_ts b) (be_max_ts ` set (e # es)))\<rparr>"
    unfolding Cons.IH
    by (cases "es = []") (simp_all add: min.assoc max.assoc min.commute max.commute min.left_commute max.left_commute)
  finally show ?case .
qed simp

lemma fold_widen_bounds_None:
  "fold widen_bounds es None =
     (if es = [] then None
      else Some \<lparr>tb_min_ts = Min (be_min_ts ` set es), tb_max_ts = Max (be_max_ts ` set es)\<rparr>)"
  by (cases es) (simp_all add: widen_bounds_def [where bounds = None] fold_widen_bounds)

lemma overlapping_infos:
  assumes wf: "bl_wf bl"
  shows "{i \<in> ran (blocks_abs bl). info_overlaps i a b}
       = info_of bl ` set (filter (\<lambda>i. entry_overlaps (ent bl i) a b) (bl_order bl))"
proof -
  have "ran (blocks_abs bl) = info_of bl ` {i. i < length (bl_entries bl) \<and> bl_live bl ! i}"
    unfolding ran_def by (auto simp: blocks_abs_Some [OF wf])
  then show ?thesis
    using wf by (auto simp: bl_wf_def order_wf_def)
qed

lemma time_bounds_abs:
  assumes wf: "bl_wf bl"
  shows "time_bounds bl a b = Some
     (let hits = {i \<in> ran (blocks_abs bl). info_overlaps i a b}
      in if hits = {} then None
         else Some \<lparr>tb_min_ts = Min (bi_min_ts ` hits), tb_max_ts = Max (bi_max_ts ` hits)\<rparr>)"
proof -
  have ow: "order_wf bl" using wf by (simp add: bl_wf_def)
  obtain w span where w: "window bl a b = Some w"
    "slice_opt (bl_order bl) (ow_start w) (ow_end w) = Some span"
    "\<And>i. i \<in> set span \<Longrightarrow> i < length (bl_entries bl)"
    and span: "\<And>p. filter (\<lambda>i. p i \<and> entry_overlaps (ent bl i) a b) span
        = filter (\<lambda>i. p i \<and> entry_overlaps (ent bl i) a b) (bl_order bl)"
    by (rule window_span [OF ow, of a b]) blast
  let ?hits = "filter (\<lambda>i. entry_overlaps (ent bl i) a b) (bl_order bl)"
  have "map_opt (nth_opt (bl_entries bl)) span = Some (map (ent bl) span)"
    using w(3) by (intro map_opt_Some) (simp add: panic_simps)
  then have "time_bounds bl a b = Some (fold widen_bounds (map (ent bl) ?hits) None)"
    using span [of "\<lambda>_. True"] by (simp add: time_bounds_def w(1,2) filter_map comp_def)
  moreover have "be_min_ts ` set (map (ent bl) ?hits) = bi_min_ts ` info_of bl ` set ?hits"
      "be_max_ts ` set (map (ent bl) ?hits) = bi_max_ts ` info_of bl ` set ?hits"
    by (simp_all add: image_image info_of_def)
  ultimately show ?thesis
    unfolding overlapping_infos [OF wf] Let_def fold_widen_bounds_None by (simp add: filter_empty_conv)
qed

section \<open>Listing the blocks\<close>

abbreviation fps_at :: "by_ordinal \<Rightarrow> ordinal \<Rightarrow> fingerprint list" where
  "fps_at m i \<equiv> (case bt_get m i of None \<Rightarrow> [] | Some fps \<Rightarrow> fps)"

lemma note_ordinals_ok:
  assumes "\<And>i. i \<in> set os \<Longrightarrow> i < length (bl_live bl)"
  shows "\<exists>acc'. fold_opt (note_ordinal bl fp) os acc = Some acc'
       \<and> (\<forall>i. set (fps_at acc' i) = set (fps_at acc i) \<union> (if i \<in> set os \<and> bl_live bl ! i then {fp} else {}))"
  using assms
proof (induction os arbitrary: acc)
  case (Cons j os)
  define acc1 where "acc1 = (if bl_live bl ! j then bt_update j [] (\<lambda>fps. fps @ [fp]) acc else acc)"
  have step: "note_ordinal bl fp j acc = Some acc1"
    using Cons.prems by (simp add: note_ordinal_def panic_simps acc1_def)
  have acc1: "set (fps_at acc1 i) = set (fps_at acc i) \<union> (if i = j \<and> bl_live bl ! i then {fp} else {})" for i
    by (auto simp: acc1_def split: option.splits)
  obtain acc' where "fold_opt (note_ordinal bl fp) os acc1 = Some acc'"
      "\<forall>i. set (fps_at acc' i) = set (fps_at acc1 i) \<union> (if i \<in> set os \<and> bl_live bl ! i then {fp} else {})"
    using Cons.IH [of acc1] Cons.prems by auto
  then show ?case
    using step acc1 by (intro exI [of _ acc']) auto
qed simp

lemma fingerprints_loop_ok:
  assumes "\<And>fp os i. (fp, os) \<in> set ps \<Longrightarrow> i \<in> set os \<Longrightarrow> i < length (bl_live bl)"
  shows "\<exists>acc'. fold_opt (\<lambda>(fp, os). fold_opt (note_ordinal bl fp) os) ps acc = Some acc'
       \<and> (\<forall>i. set (fps_at acc' i) = set (fps_at acc i)
            \<union> {fp. \<exists>os. (fp, os) \<in> set ps \<and> i \<in> set os \<and> bl_live bl ! i})"
  using assms
proof (induction ps arbitrary: acc)
  case (Cons p ps)
  obtain fp os where p: "p = (fp, os)" by force
  obtain acc1 where acc1: "fold_opt (note_ordinal bl fp) os acc = Some acc1"
      "\<forall>i. set (fps_at acc1 i) = set (fps_at acc i) \<union> (if i \<in> set os \<and> bl_live bl ! i then {fp} else {})"
    using note_ordinals_ok [of os bl fp acc] Cons.prems [of fp os] p by (metis list.set_intros(1))
  obtain acc' where "fold_opt (\<lambda>(fp, os). fold_opt (note_ordinal bl fp) os) ps acc1 = Some acc'"
      "\<forall>i. set (fps_at acc' i) = set (fps_at acc1 i)
         \<union> {fp. \<exists>os. (fp, os) \<in> set ps \<and> i \<in> set os \<and> bl_live bl ! i}"
    using Cons.IH [of acc1] Cons.prems by (meson list.set_intros(2))
  then show ?case
    using acc1 by (intro exI [of _ acc']) (auto simp: p)
qed simp

lemma fingerprints_by_ordinal_ok:
  assumes wf: "bl_wf bl"
  shows "\<exists>m. fingerprints_by_ordinal bl = Some m
       \<and> (\<forall>i < length (bl_entries bl). bl_live bl ! i \<longrightarrow> set (fps_at m i) = series_of bl i)"
proof -
  have ok: "bt_ok (bl_postings bl)" and len: "length (bl_live bl) = length (bl_entries bl)"
    using wf by (simp_all add: bl_wf_def postings_in_def order_wf_def)
  have mem: "(fp, os) \<in> set (bl_postings bl) \<longleftrightarrow> bt_get (bl_postings bl) fp = Some os" for fp os
    using bt_ok_distinct [OF ok] by simp
  obtain m where "fingerprints_by_ordinal bl = Some m"
      "\<forall>i. set (fps_at m i) = {fp. \<exists>os. (fp, os) \<in> set (bl_postings bl) \<and> i \<in> set os \<and> bl_live bl ! i}"
    using fingerprints_loop_ok [of "bl_postings bl" bl "[]"] wf
    by (auto simp: fingerprints_by_ordinal_def mem len bl_wf_def postings_in_def)
  then show ?thesis
    by (auto simp: series_of_def mem)
qed

definition meta_of :: "string \<Rightarrow> block_list \<Rightarrow> ordinal \<Rightarrow> fingerprint list \<Rightarrow> block_meta" where
  "meta_of tenant bl i fps = \<lparr>bm_tenant = tenant, bm_object_key = be_object_key (ent bl i),
     bm_min_ts = be_min_ts (ent bl i), bm_max_ts = be_max_ts (ent bl i),
     bm_row_count = be_row_count (ent bl i), bm_fingerprints = fps, bm_level = be_level (ent bl i)\<rparr>"

lemma metas_loop_ok:
  assumes "distinct os" and "\<And>i. i \<in> set os \<Longrightarrow> i < length (bl_entries bl)"
  shows "metas_loop tenant bl os m = Some (map (\<lambda>i. meta_of tenant bl i (fps_at m i)) os)"
  using assms
proof (induction os arbitrary: m)
  case (Cons i os)
  have "map (\<lambda>j. meta_of tenant bl j (fps_at (bt_remove i m) j)) os
      = map (\<lambda>j. meta_of tenant bl j (fps_at m j)) os"
    using Cons.prems(1) by (intro map_cong) auto
  then show ?case
    using Cons by (simp add: meta_of_def panic_simps)
qed simp

lemma metas_abs:
  assumes wf: "bl_wf bl"
  shows "\<exists>ms. metas bl tenant = Some ms \<and> map bm_object_key ms = time_order (blocks_abs bl)
       \<and> (\<forall>m \<in> set ms. bm_tenant m = tenant \<and> blocks_abs bl (bm_object_key m) = Some (meta_info m))"
proof -
  obtain m where m: "fingerprints_by_ordinal bl = Some m"
      "\<forall>i < length (bl_entries bl). bl_live bl ! i \<longrightarrow> set (fps_at m i) = series_of bl i"
    using fingerprints_by_ordinal_ok [OF wf] by blast
  have order: "distinct (bl_order bl)" "\<And>i. i \<in> set (bl_order bl) \<longleftrightarrow> i < length (bl_entries bl) \<and> bl_live bl ! i"
    using wf by (simp_all add: bl_wf_def order_wf_def)
  have "metas bl tenant = Some (map (\<lambda>i. meta_of tenant bl i (fps_at m i)) (bl_order bl))"
    using m(1) metas_loop_ok [OF order(1), of bl tenant m] order(2) by (simp add: metas_def)
  moreover have "blocks_abs bl (be_object_key (ent bl i)) = Some (meta_info (meta_of tenant bl i (fps_at m i)))"
    if "i \<in> set (bl_order bl)" for i
    using that order(2) m(2) blocks_abs_live [OF wf] by (auto simp: meta_of_def meta_info_def info_of_def)
  ultimately show ?thesis
    using order_keys_time_order [OF wf] by (auto simp: meta_of_def comp_def)
qed

section \<open>Renumbered parts of a list\<close>

lemma renumber_abs:
  assumes wf: "bl_wf bl" and dist: "distinct kept"
    and live: "\<And>i. i \<in> set kept \<Longrightarrow> i < length (bl_entries bl) \<and> bl_live bl ! i"
    and ps: "bt_ok (br_postings repr)"
    and es: "br_entries repr = map (ent bl) kept"
    and mem: "\<And>fp j. (\<exists>os. bt_get (br_postings repr) fp = Some os \<and> j \<in> set os)
        \<longleftrightarrow> j < length kept \<and> fp \<in> series_of bl (kept ! j)"
  shows "\<exists>bl'. from_repr repr = Some bl' \<and> bl_wf bl'
       \<and> blocks_abs bl' = blocks_abs bl |` ((\<lambda>i. be_object_key (ent bl i)) ` set kept)"
proof -
  have "card (set kept) \<le> card {..<length (bl_entries bl)}"
    using live by (intro card_mono) auto
  then have "length kept \<le> u32_max"
    using wf distinct_card [OF dist] by (simp add: bl_wf_def order_wf_def)
  moreover have "postings_in (length kept) (br_postings repr)"
    unfolding postings_in_def using ps mem by blast
  ultimately obtain bl' where bl': "from_repr repr = Some bl'" "bl_wf bl'" "bl_entries bl' = map (ent bl) kept"
      "bl_postings bl' = br_postings repr"
      "\<And>k i. bt_get (bl_by_key bl') k = Some i \<Longrightarrow> i < length kept \<and> be_object_key (map (ent bl) kept ! i) = k"
    "\<And>k i. i < length kept \<Longrightarrow> be_object_key (map (ent bl) kept ! i) = k \<Longrightarrow>
       (\<And>j. i < j \<Longrightarrow> j < length kept \<Longrightarrow> be_object_key (map (ent bl) kept ! j) \<noteq> k)
       \<Longrightarrow> bt_get (bl_by_key bl') k = Some i"
    using from_repr_ok [of repr] unfolding es by auto
  have uniq: "be_object_key (ent bl (kept ! j)) \<noteq> be_object_key (ent bl (kept ! i))"
    if "i < j" "j < length kept" for i j
    using that live [of "kept ! i"] live [of "kept ! j"] wf dist
      live_order_key_inj [of bl "kept ! i" "kept ! j"] nth_eq_iff_index_eq [of kept i j]
    by (auto simp: bl_wf_def)
  have key: "bt_get (bl_by_key bl') (be_object_key (ent bl (kept ! j))) = Some j" if "j < length kept" for j
    using bl'(6) [OF that refl] uniq that by auto
  have "series_of bl' j = series_of bl (kept ! j)" if "j < length kept" for j
    using mem that by (auto simp: series_of_def bl'(4))
  then have info: "info_of bl' j = info_of bl (kept ! j)" if "j < length kept" for j
    using that by (simp add: info_of_def bl'(3))
  have "blocks_abs bl' k = (blocks_abs bl |` ((\<lambda>i. be_object_key (ent bl i)) ` set kept)) k" for k
  proof (cases "k \<in> (\<lambda>i. be_object_key (ent bl i)) ` set kept")
    case True
    then obtain j where j: "j < length kept" "k = be_object_key (ent bl (kept ! j))"
      by (auto simp: in_set_conv_nth)
    have "blocks_abs bl' k = Some (info_of bl (kept ! j))"
      using key [OF j(1)] info [OF j(1)] j(2) by (simp add: blocks_abs_def)
    moreover have "blocks_abs bl k = Some (info_of bl (kept ! j))"
      using blocks_abs_live [OF wf, of "kept ! j"] live j by simp
    ultimately show ?thesis using True by (simp add: restrict_map_def)
  next
    case False
    then have "bt_get (bl_by_key bl') k = None"
      using bl'(5) [of k] by (cases "bt_get (bl_by_key bl') k") auto
    then show ?thesis using False by (simp add: blocks_abs_def restrict_map_def)
  qed
  then show ?thesis using bl'(1,2) by blast
qed

lemma bt_get_fold_insert:
  "distinct (map fst ps) \<Longrightarrow> bt_get (fold (\<lambda>(k, v). bt_insert k (f v)) ps acc) k =
     (case bt_get ps k of None \<Rightarrow> bt_get acc k | Some v \<Rightarrow> Some (f v))"
proof (induction ps arbitrary: acc)
  case (Cons p ps)
  then have "bt_get ps (fst p) = None"
    by (auto simp: map_of_eq_None_iff)
  with Cons show ?case
    by (cases p) (auto split: option.splits)
qed simp

lemma bt_ok_fold_insert: "bt_ok acc \<Longrightarrow> bt_ok (fold (\<lambda>(k, v). bt_insert k (f v)) ps acc)"
  by (induction ps arbitrary: acc) (auto simp: bt_ok_insert)

lemma postings_for_ok:
  assumes "bt_ok (bl_postings bl)"
  shows "bt_ok (postings_for bl ordinals)"
    and "bt_get (postings_for bl ordinals) fp = (case bt_get (bl_postings bl) fp of None \<Rightarrow> None
      | Some os \<Rightarrow> if filter (\<lambda>i. i \<in> set ordinals) os = [] then None
                    else Some (filter (\<lambda>i. i \<in> set ordinals) os))"
  unfolding postings_for_def Let_def using assms
  by (simp add: bt_ok_keep_nonempty,
      subst bt_get_keep_nonempty) (auto simp: bt_ok_distinct split: option.splits)

lemma local_ordinal_zip:
  assumes "distinct ordinals"
  shows "local_ordinal (zip ordinals [0..<length ordinals]) i = Some j
    \<longleftrightarrow> j < length ordinals \<and> ordinals ! j = i"
proof -
  have "local_ordinal (zip ordinals [0..<length ordinals]) i = Some j
      \<longleftrightarrow> (i, j) \<in> set (zip ordinals [0..<length ordinals])"
    unfolding local_ordinal_def using assms by (intro map_of_eq_Some_iff) simp
  then show ?thesis by (auto simp: in_set_zip)
qed

lemma shard_local_abs:
  assumes wf: "bl_wf bl" and ok: "bs_ok ordinals"
    and live: "\<And>i. i \<in> set ordinals \<Longrightarrow> i < length (bl_entries bl) \<and> bl_live bl ! i"
  shows "\<exists>s bl'. shard_local bl ordinals = Some s \<and> ls_blocks s = map (ent bl) ordinals
       \<and> from_repr \<lparr>br_entries = ls_blocks s, br_postings = ls_postings s\<rparr> = Some bl' \<and> bl_wf bl'
       \<and> blocks_abs bl' = blocks_abs bl |` ((\<lambda>i. be_object_key (ent bl i)) ` set ordinals)"
proof -
  have dist: "distinct ordinals" and pok: "bt_ok (bl_postings bl)"
    using ok wf by (simp_all add: bs_ok_distinct bl_wf_def postings_in_def)
  let ?local = "zip ordinals [0..<length ordinals]"
  define ps where "ps = fold (\<lambda>(fp, os). bt_insert fp (List.map_filter (local_ordinal ?local) os))
       (postings_for bl ordinals) []"
  have get: "bt_get ps fp = map_option (List.map_filter (local_ordinal ?local))
      (bt_get (postings_for bl ordinals) fp)" for fp
    using bt_ok_distinct [OF postings_for_ok(1) [OF pok]] unfolding ps_def
    by (subst bt_get_fold_insert) (auto split: option.splits)
  have mem: "(\<exists>os. bt_get ps fp = Some os \<and> j \<in> set os)
      \<longleftrightarrow> j < length ordinals \<and> fp \<in> series_of bl (ordinals ! j)" for fp j
  proof (cases "bt_get (bl_postings bl) fp")
    case (Some os)
    have "(\<exists>os. bt_get ps fp = Some os \<and> j \<in> set os)
        \<longleftrightarrow> (\<exists>i \<in> set os \<inter> set ordinals. local_ordinal ?local i = Some j)"
      using Some by (auto simp: get postings_for_ok(2) [OF pok] set_map_filter filter_empty_conv)
    then show ?thesis
      using Some by (auto simp: local_ordinal_zip [OF dist] series_of_def)
  qed (simp add: get postings_for_ok(2) [OF pok] series_of_def)
  have "card (set ordinals) \<le> card {..<length (bl_entries bl)}"
    using live by (intro card_mono) auto
  then have "length ordinals \<le> u32_max"
    using wf distinct_card [OF dist] by (simp add: bl_wf_def order_wf_def)
  then have "map_opt u32_try [0..<length ordinals] = Some (map (\<lambda>i. i) [0..<length ordinals])"
    by (intro map_opt_Some) (simp add: panic_simps)
  moreover have "map_opt (list_entry bl) ordinals = Some (map (ent bl) ordinals)"
    using live by (intro map_opt_Some) (simp add: list_entry_def panic_simps)
  ultimately have "shard_local bl ordinals = Some \<lparr>ls_blocks = map (ent bl) ordinals, ls_postings = ps\<rparr>"
    by (simp add: shard_local_def ps_def Let_def)
  moreover have "bt_ok ps" by (simp add: ps_def bt_ok_fold_insert)
  ultimately show ?thesis
    using renumber_abs [OF wf dist live, of "\<lparr>br_entries = map (ent bl) ordinals, br_postings = ps\<rparr>"] mem
    by simp
qed

lemma ordinals_overlapping_ok:
  assumes wf: "bl_wf bl"
  shows "ordinals_overlapping bl a b
    = Some (filter (\<lambda>i. entry_overlaps (ent bl i) a b) (bl_order bl))"
proof -
  have ow: "order_wf bl" using wf by (simp add: bl_wf_def)
  obtain w span where w: "window bl a b = Some w"
    "slice_opt (bl_order bl) (ow_start w) (ow_end w) = Some span"
    "\<And>i. i \<in> set span \<Longrightarrow> i < length (bl_entries bl)"
    and span: "\<And>p. filter (\<lambda>i. p i \<and> entry_overlaps (ent bl i) a b) span
        = filter (\<lambda>i. p i \<and> entry_overlaps (ent bl i) a b) (bl_order bl)"
    by (rule window_span [OF ow, of a b]) blast
  have "filter_opt (\<lambda>i. map_option (\<lambda>e. entry_overlaps e a b) (nth_opt (bl_entries bl) i)) span
      = Some (filter (\<lambda>i. entry_overlaps (ent bl i) a b) span)"
    using w(3) by (intro filter_opt_Some) (simp add: panic_simps)
  then show ?thesis
    using span [of "\<lambda>_. True"] by (simp add: ordinals_overlapping_def w(1,2))
qed

lemma by_key_bound: "bl_wf bl \<Longrightarrow> bt_get (bl_by_key bl) k = Some i \<Longrightarrow> i < length (bl_entries bl)"
  by (simp add: bl_wf_def keys_wf_def)

lemma level_of_abs: "bl_wf bl \<Longrightarrow> level_of bl k = Some (map_option bi_level (blocks_abs bl k))"
  by (cases "bt_get (bl_by_key bl) k")
    (simp_all add: level_of_def blocks_abs_def info_of_def panic_simps by_key_bound)

lemma live_fingerprints_abs:
  assumes wf: "bl_wf bl"
  shows "live_fingerprints bl = Some (sorted_list_of_set (\<Union> (bi_series ` ran (blocks_abs bl))))"
proof -
  have ok: "bt_ok (bl_postings bl)" and len: "length (bl_live bl) = length (bl_entries bl)"
    using wf by (simp_all add: bl_wf_def postings_in_def order_wf_def)
  have mem: "(fp, os) \<in> set (bl_postings bl) \<longleftrightarrow> bt_get (bl_postings bl) fp = Some os" for fp os
    using bt_ok_distinct [OF ok] by simp
  have inb: "i < length (bl_live bl)" if "(fp, os) \<in> set (bl_postings bl)" "i \<in> set os" for fp os i
    using wf that len unfolding bl_wf_def postings_in_def mem by auto
  let ?alive = "\<lambda>p. \<exists>i \<in> set (snd p). bl_live bl ! i"
  have "map_opt (\<lambda>(fp, os). do { alive \<leftarrow> any_opt (nth_opt (bl_live bl)) os; Some (fp, alive) })
      (bl_postings bl) = Some (map (\<lambda>p. (fst p, ?alive p)) (bl_postings bl))"
    using inb by (intro map_opt_Some) (fastforce simp: any_opt_Some [where q = "\<lambda>i. bl_live bl ! i"] panic_simps)
  then have "live_fingerprints bl = Some (map fst (filter ?alive (bl_postings bl)))"
    by (simp add: live_fingerprints_def filter_map comp_def)
  moreover have "map fst (filter ?alive (bl_postings bl)) = sorted_list_of_set (\<Union> (bi_series ` ran (blocks_abs bl)))"
  proof (rule bs_eqI)
    show "bs_ok (map fst (filter ?alive (bl_postings bl)))"
      using ok by (simp add: sorted_wrt_map sorted_wrt_filter)
    have "ran (blocks_abs bl) = info_of bl ` {i. i < length (bl_entries bl) \<and> bl_live bl ! i}"
      unfolding ran_def by (auto simp: blocks_abs_Some [OF wf])
    then have "\<Union> (bi_series ` ran (blocks_abs bl)) = set (map fst (filter ?alive (bl_postings bl)))"
      using inb len by (force simp: series_of_def mem [symmetric])
    then show "set (map fst (filter ?alive (bl_postings bl)))
        = set (sorted_list_of_set (\<Union> (bi_series ` ran (blocks_abs bl))))"
      by simp
  qed simp
  ultimately show ?thesis by simp
qed

section \<open>The contract of a block registry\<close>

text \<open>
  What the tenant index and the compaction commit rely on: a registration that the registry admits
  is a map update, and a removal is a restriction that reports how many blocks it dropped.
\<close>

locale block_registry =
  fixes inv :: "'s \<Rightarrow> bool"
    and abs :: "'s \<Rightarrow> string \<rightharpoonup> block_info"
    and admits :: "block_meta \<Rightarrow> 's \<Rightarrow> bool"
    and ins :: "block_meta \<Rightarrow> 's \<Rightarrow> 's option"
    and del :: "string list \<Rightarrow> 's \<Rightarrow> (nat \<times> 's) option"
  assumes ins_law: "inv s \<Longrightarrow> admits m s \<Longrightarrow>
      \<exists>s'. ins m s = Some s' \<and> inv s' \<and> abs s' = (abs s)(bm_object_key m \<mapsto> meta_info m)"
    and del_law: "inv s \<Longrightarrow>
      \<exists>s'. del ks s = Some (card (dom (abs s) \<inter> set ks), s') \<and> inv s' \<and> abs s' = abs s |` (- set ks)"
begin

text \<open>Registering the same block again changes nothing a client can see.\<close>

lemma ins_again:
  assumes "inv s" and "admits m s" and "ins m s = Some s1" and "admits m s1"
  shows "\<exists>s2. ins m s1 = Some s2 \<and> inv s2 \<and> abs s2 = abs s1"
  using ins_law [OF assms(1,2)] ins_law [of s1 m] assms by auto

text \<open>Removing the block just registered leaves the rest as it was.\<close>

lemma del_ins:
  assumes "inv s" and "admits m s"
  shows "\<exists>s1 s2. ins m s = Some s1 \<and> del [bm_object_key m] s1 = Some (1, s2) \<and> inv s2
       \<and> abs s2 = (abs s)(bm_object_key m := None)"
proof -
  obtain s1 where s1: "ins m s = Some s1" "inv s1" "abs s1 = (abs s)(bm_object_key m \<mapsto> meta_info m)"
    using ins_law [OF assms] by blast
  moreover have "dom (abs s1) \<inter> set [bm_object_key m] = {bm_object_key m}"
    using s1(3) by auto
  moreover have "abs s1 |` (- set [bm_object_key m]) = (abs s)(bm_object_key m := None)"
    using s1(3) by (auto simp: restrict_map_def)
  ultimately show ?thesis
    using del_law [OF s1(2), of "[bm_object_key m]"] by auto
qed

text \<open>
  The commit of a compaction: the output is registered and the inputs are removed.  The inputs are
  gone, the output is there, and no other block is touched.
\<close>

lemma swap:
  assumes "inv s" and "admits m s" and "bm_object_key m \<notin> set inputs" and "set inputs \<subseteq> dom (abs s)"
  shows "\<exists>s1 s2. ins m s = Some s1 \<and> del inputs s1 = Some (card (set inputs), s2) \<and> inv s2
       \<and> abs s2 = (abs s |` (- set inputs))(bm_object_key m \<mapsto> meta_info m)"
proof -
  obtain s1 where s1: "ins m s = Some s1" "inv s1" "abs s1 = (abs s)(bm_object_key m \<mapsto> meta_info m)"
    using ins_law [OF assms(1,2)] by blast
  moreover have "dom (abs s1) \<inter> set inputs = set inputs"
    using s1(3) assms(4) by auto
  moreover have "abs s1 |` (- set inputs) = (abs s |` (- set inputs))(bm_object_key m \<mapsto> meta_info m)"
    using s1(3) assms(3) by (auto simp: restrict_map_def fun_eq_iff)
  ultimately show ?thesis
    using del_law [OF s1(2), of inputs] by auto
qed

end

definition list_admits :: "block_meta \<Rightarrow> block_list \<Rightarrow> bool" where
  "list_admits meta bl \<longleftrightarrow> length (bl_entries bl) < u32_max
     \<and> (\<forall>b. blocks_abs bl (bm_object_key meta) = Some b
          \<longrightarrow> \<not> collides (bi_series b) (set (bm_fingerprints meta)))"

interpretation blocks: block_registry "\<lambda>bl. bl_wf bl \<and> bl_faithful bl" blocks_abs list_admits
  insert_block remove_blocks
proof
  fix s m
  assume s: "bl_wf s \<and> bl_faithful s" and a: "list_admits m s"
  then have "kept_series m s = set (bm_fingerprints m)"
    by (intro kept_series_new) (auto simp: list_admits_def)
  then show "\<exists>s'. insert_block m s = Some s' \<and> (bl_wf s' \<and> bl_faithful s')
      \<and> blocks_abs s' = (blocks_abs s)(bm_object_key m \<mapsto> meta_info m)"
    using insert_block_exact [of s m] s a by (auto simp: list_admits_def meta_info_def)
next
  fix s :: block_list and ks
  assume "bl_wf s \<and> bl_faithful s"
  then show "\<exists>s'. remove_blocks ks s = Some (card (dom (blocks_abs s) \<inter> set ks), s')
      \<and> (bl_wf s' \<and> bl_faithful s') \<and> blocks_abs s' = blocks_abs s |` (- set ks)"
    using remove_blocks_abs [of s ks] by auto
qed

lemma bl_faithful_empty: "bl_faithful empty_list"
  by (simp add: bl_faithful_def empty_list_def)

lemma empty_list_size: "length (bl_entries empty_list) = 0"
  by (simp add: empty_list_def)

lemma list_admits_empty: "list_admits meta empty_list"
  by (simp add: list_admits_def empty_list_def blocks_abs_def)

section \<open>Properties\<close>

text \<open>Two blocks the witnesses register.\<close>

definition block_a :: block_meta where
  "block_a = \<lparr>bm_tenant = ''t'', bm_object_key = ''a'', bm_min_ts = 10, bm_max_ts = 20,
     bm_row_count = 3, bm_fingerprints = [7, 5, 7], bm_level = 0\<rparr>"

definition block_b :: block_meta where
  "block_b = \<lparr>bm_tenant = ''t'', bm_object_key = ''b'', bm_min_ts = 15, bm_max_ts = 40,
     bm_row_count = 4, bm_fingerprints = [9], bm_level = 0\<rparr>"

lemma registered_a:
  "\<exists>bl. insert_block block_a empty_list = Some bl \<and> bl_wf bl \<and> bl_faithful bl
     \<and> blocks_abs bl = [''a'' \<mapsto> meta_info block_a]"
  using blocks.ins_law [of empty_list block_a] bl_wf_empty bl_faithful_empty list_admits_empty
  by (auto simp: block_a_def)

text \<open>
  C1. Registering a block (\<open>BlockList::insert\<close>) never panics while a tenant holds fewer than
  \<open>2^32 - 1\<close> registrations.  It keeps the list's invariant, it leaves exactly the registered
  metadata under the block's object key, and it touches no other block, provided the series set
  stored before under that key does not collide with the new one in size and digest.
\<close>

theorem insert_block_refines:
  assumes "bl_wf bl" and "bl_faithful bl" and "length (bl_entries bl) < u32_max"
    and "\<forall>b. blocks_abs bl (bm_object_key meta) = Some b
          \<longrightarrow> \<not> collides (bi_series b) (set (bm_fingerprints meta))"
  shows "\<exists>bl'. insert_block meta bl = Some bl' \<and> bl_wf bl' \<and> bl_faithful bl'
       \<and> blocks_abs bl' = (blocks_abs bl)(bm_object_key meta \<mapsto> meta_info meta)"
  using blocks.ins_law [of bl meta] assms by (auto simp: list_admits_def)

theorem insert_block_refines_witness:
  "\<exists>bl. insert_block block_b empty_list = Some bl \<and> blocks_abs bl = [''b'' \<mapsto> meta_info block_b]"
proof -
  have "length (bl_entries empty_list) < u32_max" and "bm_object_key block_b = ''b''"
    by (simp_all add: empty_list_def block_b_def)
  then show ?thesis
    using insert_block_refines [of empty_list block_b] bl_wf_empty bl_faithful_empty by auto
qed

text \<open>
  C3. Removing object keys (\<open>BlockList::remove\<close>) never panics, keeps the invariant, drops exactly
  those keys from the list and returns how many of them were registered.
\<close>

theorem remove_blocks_refines:
  assumes "bl_wf bl"
  shows "\<exists>bl'. remove_blocks keys bl = Some (card (dom (blocks_abs bl) \<inter> set keys), bl') \<and> bl_wf bl'
       \<and> blocks_abs bl' = blocks_abs bl |` (- set keys)"
  using remove_blocks_abs [OF assms, of keys] by blast

theorem remove_blocks_refines_witness:
  "\<exists>bl bl'. insert_block block_a empty_list = Some bl
     \<and> remove_blocks [''a'', ''z''] bl = Some (1, bl') \<and> blocks_abs bl' = Map.empty"
proof -
  obtain bl where bl: "insert_block block_a empty_list = Some bl" "bl_wf bl"
      "blocks_abs bl = [''a'' \<mapsto> meta_info block_a]"
    using registered_a by blast
  have "dom (blocks_abs bl) \<inter> set [''a'', ''z''] = {''a''}"
    using bl(3) by auto
  then show ?thesis
    using remove_blocks_refines [OF bl(2), of "[''a'', ''z'']"] bl
    by (auto simp: restrict_map_def fun_eq_iff)
qed

text \<open>
  C4. Dropping the dead ordinals (\<open>BlockList::compacted\<close>) never panics, leaves no dead ordinal, and
  changes no block: every key keeps its bounds, rows, level and series although all ordinals are
  renumbered.
\<close>

theorem compacted_transparent:
  assumes "bl_wf bl"
  shows "\<exists>bl'. compacted bl = Some bl' \<and> bl_wf bl' \<and> bl_dead bl' = 0 \<and> blocks_abs bl' = blocks_abs bl"
  using compacted_total [OF assms] compacted_abs [OF assms] by blast

theorem compacted_transparent_witness:
  "\<exists>bl bl'. insert_block block_a empty_list = Some bl \<and> compacted bl = Some bl'
     \<and> blocks_abs bl' = [''a'' \<mapsto> meta_info block_a]"
  using registered_a compacted_transparent by metis

text \<open>
  The persisted form of a block list (\<open>Repr\<close>) loses nothing: converting a list to it and back
  never panics and gives a well-formed list of the same blocks.
\<close>

theorem repr_roundtrip:
  assumes "bl_wf bl"
  shows "\<exists>r bl'. to_repr bl = Some r \<and> from_repr r = Some bl' \<and> bl_wf bl' \<and> blocks_abs bl' = blocks_abs bl"
proof -
  obtain bl' where c: "compacted bl = Some bl'"
      "from_repr \<lparr>br_entries = bl_entries bl', br_postings = bl_postings bl'\<rparr> = Some bl'"
    using compacted_ok [OF assms] by blast
  then show ?thesis
    using compacted_abs [OF assms c(1)] by (simp add: to_repr_def)
qed

theorem repr_roundtrip_witness:
  "\<exists>bl r bl'. insert_block block_a empty_list = Some bl \<and> to_repr bl = Some r \<and> from_repr r = Some bl'
     \<and> blocks_abs bl' = [''a'' \<mapsto> meta_info block_a]"
proof -
  obtain bl where bl: "insert_block block_a empty_list = Some bl" "bl_wf bl"
      "blocks_abs bl = [''a'' \<mapsto> meta_info block_a]"
    using registered_a by blast
  then show ?thesis
    using repr_roundtrip [OF bl(2)] by auto
qed

lemma time_order_sorted:
  assumes "finite (dom m)"
  shows "distinct (time_order m)" and "set (time_order m) = dom m"
    and "sorted_wrt (<) (map (\<lambda>k. (bi_min_ts (the (m k)), bi_max_ts (the (m k)), k)) (time_order m))"
proof -
  let ?f = "\<lambda>k. (bi_min_ts (the (m k)), bi_max_ts (the (m k)), k)"
  let ?ks = "sorted_list_of_set (?f ` dom m)"
  have mem: "set ?ks = ?f ` dom m" and sorted: "sorted_wrt (<) ?ks"
    using assms by simp_all
  have "map ?f (time_order m) = map (\<lambda>x. x) ?ks"
    unfolding time_order_def map_map using mem by (intro map_cong) auto
  then show 1: "sorted_wrt (<) (map ?f (time_order m))" using sorted by simp
  then have "distinct (map ?f (time_order m))" using strict_sorted_iff by blast
  then show "distinct (time_order m)" by (simp add: distinct_map)
  show "set (time_order m) = dom m"
    unfolding time_order_def set_map mem by force
qed

lemma live_where_set:
  assumes "finite (dom m)"
  shows "distinct (live_where m p)" and "set (live_where m p) = {k. \<exists>b. m k = Some b \<and> p b}"
    and "sorted_wrt (<) (map (\<lambda>k. (bi_min_ts (the (m k)), bi_max_ts (the (m k)), k)) (live_where m p))"
proof -
  show "distinct (live_where m p)"
    using time_order_sorted(1) [OF assms] by (simp add: live_where_def)
  show "set (live_where m p) = {k. \<exists>b. m k = Some b \<and> p b}"
    using time_order_sorted(2) [OF assms] by (auto simp: live_where_def split: option.splits)
  show "sorted_wrt (<) (map (\<lambda>k. (bi_min_ts (the (m k)), bi_max_ts (the (m k)), k)) (live_where m p))"
    using time_order_sorted(3) [OF assms] by (simp add: live_where_def sorted_wrt_map sorted_wrt_filter)
qed

text \<open>
  C2. \<open>BlockList::candidate_blocks\<close> returns exactly the object keys of the blocks that overlap the
  time range and carry one of the fingerprints, each once, in ascending order of start, end and key.
  Neither the binary-searched window nor the early exit of the marking loop loses a block.
\<close>

theorem candidate_blocks_exact:
  assumes "bl_wf bl"
  shows "\<exists>ks. candidate_blocks bl fps min_ts max_ts = Some ks \<and> distinct ks
       \<and> set ks = {k. \<exists>b. blocks_abs bl k = Some b \<and> bi_min_ts b \<le> max_ts \<and> min_ts \<le> bi_max_ts b
                         \<and> bi_series b \<inter> set fps \<noteq> {}}
       \<and> sorted_wrt (<) (map (\<lambda>k. (bi_min_ts (the (blocks_abs bl k)), bi_max_ts (the (blocks_abs bl k)), k)) ks)"
  using candidate_blocks_abs [OF assms] live_where_set [OF finite_blocks_abs]
  by (simp add: info_overlaps_def conj_assoc)

theorem candidate_blocks_exact_witness:
  "\<exists>bl ks. insert_block block_a empty_list = Some bl \<and> candidate_blocks bl [5, 6] 20 30 = Some ks
     \<and> set ks = {''a''}"
proof -
  obtain bl where bl: "insert_block block_a empty_list = Some bl" "bl_wf bl"
      "blocks_abs bl = [''a'' \<mapsto> meta_info block_a]"
    using registered_a by blast
  have "{k. \<exists>b. blocks_abs bl k = Some b \<and> bi_min_ts b \<le> 30 \<and> 20 \<le> bi_max_ts b
      \<and> bi_series b \<inter> set [5, 6] \<noteq> {}} = {''a''}"
    using bl(3) by (auto simp: meta_info_def block_a_def split: if_splits)
  then show ?thesis
    using candidate_blocks_exact [OF bl(2), of "[5, 6]" 20 30] bl(1) by auto
qed

text \<open>
  \<open>BlockList::time_bounds\<close> returns the tightest bounds over the blocks that overlap the range:
  the least start and the greatest end of those blocks, and nothing when no block overlaps.
\<close>

theorem time_bounds_tight:
  assumes "bl_wf bl"
  shows "time_bounds bl min_ts max_ts = Some
     (let hits = {b \<in> ran (blocks_abs bl). bi_min_ts b \<le> max_ts \<and> min_ts \<le> bi_max_ts b}
      in if hits = {} then None
         else Some \<lparr>tb_min_ts = Min (bi_min_ts ` hits), tb_max_ts = Max (bi_max_ts ` hits)\<rparr>)"
  using time_bounds_abs [OF assms, of min_ts max_ts] by (simp add: info_overlaps_def)

theorem time_bounds_tight_witness:
  "\<exists>bl. insert_block block_a empty_list = Some bl
     \<and> time_bounds bl 0 15 = Some (Some \<lparr>tb_min_ts = 10, tb_max_ts = 20\<rparr>)"
proof -
  obtain bl where bl: "insert_block block_a empty_list = Some bl" "bl_wf bl"
      "blocks_abs bl = [''a'' \<mapsto> meta_info block_a]"
    using registered_a by blast
  have "{b \<in> ran (blocks_abs bl). bi_min_ts b \<le> 15 \<and> 0 \<le> bi_max_ts b} = {meta_info block_a}"
    by (auto simp: bl(3) meta_info_def block_a_def)
  then show ?thesis
    using time_bounds_tight [OF bl(2), of 0 15] bl(1)
    by (simp add: Let_def) (simp add: meta_info_def block_a_def)
qed

text \<open>
  \<open>BlockList::metas\<close> lists every block once, in time order, with the metadata it was registered
  with, the series inverted back from the postings included.
\<close>

theorem metas_complete:
  assumes "bl_wf bl"
  shows "\<exists>ms. metas bl tenant = Some ms \<and> distinct (map bm_object_key ms)
       \<and> set (map bm_object_key ms) = dom (blocks_abs bl)
       \<and> (\<forall>m. m \<in> set ms \<longrightarrow> bm_tenant m = tenant \<and> blocks_abs bl (bm_object_key m) = Some (meta_info m))"
proof -
  obtain ms where "metas bl tenant = Some ms" "map bm_object_key ms = time_order (blocks_abs bl)"
      "\<forall>m \<in> set ms. bm_tenant m = tenant \<and> blocks_abs bl (bm_object_key m) = Some (meta_info m)"
    using metas_abs [OF assms] by blast
  then show ?thesis
    using time_order_sorted [OF finite_blocks_abs, of bl] by metis
qed

theorem metas_complete_witness:
  "\<exists>bl ms. insert_block block_a empty_list = Some bl \<and> metas bl ''t'' = Some ms
     \<and> set (map bm_object_key ms) = {''a''}"
proof -
  obtain bl where bl: "insert_block block_a empty_list = Some bl" "bl_wf bl"
      "blocks_abs bl = [''a'' \<mapsto> meta_info block_a]"
    using registered_a by blast
  then show ?thesis
    using metas_complete [OF bl(2), of "''t''"] by auto
qed

text \<open>
  C5. A decoded list is safe: rebuilding a list from any persisted form whose postings stay in range
  never panics and gives a well-formed list, so no query on it panics either, and where the object
  names a key twice the later registration wins.
\<close>

theorem from_repr_safe:
  assumes "length (br_entries r) \<le> u32_max" and "postings_in (length (br_entries r)) (br_postings r)"
  shows "\<exists>bl. from_repr r = Some bl \<and> bl_wf bl
       \<and> dom (blocks_abs bl) = be_object_key ` set (br_entries r)
       \<and> (\<forall>i k. i < length (br_entries r)
            \<longrightarrow> k = be_object_key (br_entries r ! i) \<longrightarrow> k \<notin> be_object_key ` set (drop (Suc i) (br_entries r))
            \<longrightarrow> blocks_abs bl k = Some (info_of bl i))"
proof -
  let ?n = "length (br_entries r)"
  obtain bl where bl: "from_repr r = Some bl" "bl_wf bl"
      "\<And>k i. bt_get (bl_by_key bl) k = Some i \<longleftrightarrow> i < ?n \<and> be_object_key (br_entries r ! i) = k
         \<and> (\<forall>j. i < j \<longrightarrow> j < ?n \<longrightarrow> be_object_key (br_entries r ! j) \<noteq> k)"
    using from_repr_ok [OF assms] by blast
  have "k \<in> be_object_key ` set (br_entries r)" if "bt_get (bl_by_key bl) k = Some i" for k i
    using that bl(3) by force
  moreover have "\<exists>i. bt_get (bl_by_key bl) k = Some i" if "k \<in> be_object_key ` set (br_entries r)" for k
  proof -
    let ?S = "{i. i < ?n \<and> be_object_key (br_entries r ! i) = k}"
    have S: "finite ?S" "?S \<noteq> {}" using that by (auto simp: in_set_conv_nth)
    have "j \<notin> ?S" if "Max ?S < j" for j
      using Max_ge [OF S(1), of j] that by (meson leD)
    then have "bt_get (bl_by_key bl) k = Some (Max ?S)"
      unfolding bl(3) using Max_in [OF S] by blast
    then show ?thesis by blast
  qed
  ultimately have "dom (blocks_abs bl) = be_object_key ` set (br_entries r)"
    by (auto simp: blocks_abs_def dom_def)
  moreover have "blocks_abs bl k = Some (info_of bl i)"
    if "i < ?n" "k = be_object_key (br_entries r ! i)"
       "k \<notin> be_object_key ` set (drop (Suc i) (br_entries r))" for i k
  proof -
    have later: "be_object_key (br_entries r ! j) \<noteq> k" if "i < j" "j < ?n" for j
    proof -
      have "drop (Suc i) (br_entries r) ! (j - Suc i) = br_entries r ! j"
          "j - Suc i < length (drop (Suc i) (br_entries r))"
        using that by auto
      then have "br_entries r ! j \<in> set (drop (Suc i) (br_entries r))"
        by (metis nth_mem)
      then show ?thesis using \<open>k \<notin> _\<close> by auto
    qed
    have "bt_get (bl_by_key bl) k = Some i"
      unfolding bl(3) using that(1) that(2) [symmetric] later by simp
    then show ?thesis by (simp add: blocks_abs_def)
  qed
  ultimately show ?thesis using bl(1,2) by blast
qed

theorem from_repr_safe_witness:
  "\<exists>bl. from_repr \<lparr>br_entries = [entry_of_meta block_a [5, 7]], br_postings = [(5, [0]), (7, [0, 0])]\<rparr>
       = Some bl \<and> dom (blocks_abs bl) = {''a''}"
proof -
  let ?r = "\<lparr>br_entries = [entry_of_meta block_a [5, 7]], br_postings = [(5, [0]), (7, [0, 0])]\<rparr>"
  have "length (br_entries ?r) \<le> u32_max" "postings_in (length (br_entries ?r)) (br_postings ?r)"
    by (auto simp: postings_in_def split: if_splits)
  moreover have "be_object_key ` set (br_entries ?r) = {''a''}"
    by (simp add: entry_of_meta_def block_a_def)
  ultimately show ?thesis
    using from_repr_safe [of ?r] by auto
qed

lemma colliding_pairs:
  "fingerprint_set_digest [0, 2651054813318291086] = fingerprint_set_digest [3232317374596615093, 10839530715563148754]"
  by (simp add: fingerprint_set_digest_def mix_fingerprint_def)

definition collide_a :: block_meta where
  "collide_a = block_a\<lparr>bm_fingerprints := [0, 2651054813318291086]\<rparr>"

definition collide_b :: block_meta where
  "collide_b = block_a\<lparr>bm_fingerprints := [3232317374596615093, 10839530715563148754]\<rparr>"

lemma collides_ab:
  "card (set (bm_fingerprints collide_a)) = 2" "card (set (bm_fingerprints collide_b)) = 2"
  "set_digest (set (bm_fingerprints collide_a)) = set_digest (set (bm_fingerprints collide_b))"
  unfolding set_digest_def bs_collect_sorted
  by (simp_all add: collide_a_def collide_b_def bs_extend_def colliding_pairs)

text \<open>
  C6. The stored size and digest do not determine the series set: two different pairs of
  fingerprints collide.  \<open>insert\<close> documents that restating a block with a different series set
  retires the old ordinal.  For a colliding set it keeps the old postings under the new metadata, so
  the restated block is not a candidate for a fingerprint it carries.
\<close>

theorem digest_collision_keeps_postings:
  "\<exists>bl bl'. insert_block collide_a empty_list = Some bl \<and> insert_block collide_b bl = Some bl'
     \<and> set (bm_fingerprints collide_a) \<noteq> set (bm_fingerprints collide_b)
     \<and> blocks_abs bl' (bm_object_key collide_b)
         = Some ((meta_info collide_b)\<lparr>bi_series := set (bm_fingerprints collide_a)\<rparr>)
     \<and> candidate_blocks bl' (bs_collect (bm_fingerprints collide_b)) 10 20 = Some []"
proof -
  have keys: "bm_object_key collide_a = ''a''" "bm_object_key collide_b = ''a''"
    by (simp_all add: collide_a_def collide_b_def block_a_def)
  have "kept_series collide_a empty_list = set (bm_fingerprints collide_a)"
    by (simp add: kept_series_def empty_list_def)
  then obtain bl where bl: "insert_block collide_a empty_list = Some bl" "bl_wf bl" "bl_faithful bl"
      "blocks_abs bl = [''a'' \<mapsto> meta_info collide_a]" "length (bl_entries bl) \<le> 1"
    using insert_block_exact [OF bl_wf_empty, of collide_a] bl_faithful_empty
    by (auto simp: keys empty_list_size meta_info_def)
  obtain i where i: "bt_get (bl_by_key bl) ''a'' = Some i" "info_of bl i = meta_info collide_a"
    using bl(4) by (auto simp: blocks_abs_def fun_eq_iff split: if_splits)
  then have series: "series_of bl i = set (bm_fingerprints collide_a)"
    by (metis bi_series_of block_info.select_convs(5) meta_info_def)
  have "faithful_at bl i"
    using bl(2,3) i(1) by (simp add: bl_wf_def keys_wf_def bl_faithful_def)
  then have "same_digest collide_b (ent bl i)"
    using collides_ab series
    by (simp add: same_digest_def faithful_at_def set_digest_def bs_collect_sorted bs_collect_size)
  then have "kept_series collide_b bl = set (bm_fingerprints collide_a)"
    using i(1) series by (simp add: kept_series_def keys)
  then obtain bl' where bl': "insert_block collide_b bl = Some bl'" "bl_wf bl'"
      "blocks_abs bl' = [''a'' \<mapsto> (meta_info collide_b)\<lparr>bi_series := set (bm_fingerprints collide_a)\<rparr>]"
    using insert_block_exact [OF bl(2), of collide_b] bl(4,5) by (auto simp: keys)
  have differ: "set (bm_fingerprints collide_a) \<inter> set (bm_fingerprints collide_b) = {}"
      "set (bm_fingerprints collide_a) \<noteq> {}"
    by (simp_all add: collide_a_def collide_b_def)
  have "set (live_where (blocks_abs bl') (\<lambda>b. info_overlaps b 10 20
      \<and> bi_series b \<inter> set (bs_collect (bm_fingerprints collide_b)) \<noteq> {})) = {}"
    using differ(1) by (simp add: live_where_set bl'(3))
  then show ?thesis
    using bl(1) bl' differ candidate_blocks_abs [OF bl'(2)] by (intro exI [of _ bl] exI [of _ bl']) (auto simp: keys)
qed

end
