(* ===== verification/Wire.thy ===== *)
theory Wire
  imports O11y_Prelude
begin

text \<open>
  The byte layer of an index shard: the writers of \<open>index/shard_wire.rs\<close> and the bounds-checked
  reader of \<open>index/byte_reader.rs\<close>.  A byte is an \<open>8 word\<close>, an unsigned varint a \<open>64 word\<close>.  A
  reader operation returns an error value or the value read with the advanced reader.
\<close>

unbundle bit_operations_syntax

type_synonym byte = "8 word"

datatype shard_error =
    Ends_inside string
  | Varint_overflow string
  | Too_long string
  | Not_utf8 string
  | Count_too_wide string
  | Declares nat string nat
  | Level_beyond_u32
  | Not_a_shard string
  | Wrong_version nat nat
  | No_dictionary_entry u64
  | Ordinal_beyond_shard
  | Names_ordinal nat nat
  | Trailing_bytes
  | Hash_count_beyond_u32
  | Corrupt_bloom string

type_synonym 'a result = "shard_error + 'a"

definition res_bind :: "'e + 'a \<Rightarrow> ('a \<Rightarrow> 'e + 'b) \<Rightarrow> 'e + 'b" where
  "res_bind r f = (case r of Inl e \<Rightarrow> Inl e | Inr x \<Rightarrow> f x)"

lemma res_bind_simps [simp]: "res_bind (Inl e) f = Inl e" "res_bind (Inr x) f = f x"
  by (simp_all add: res_bind_def)

lemma res_bind_Inr: "res_bind r f = Inr y \<longleftrightarrow> (\<exists>x. r = Inr x \<and> f x = Inr y)"
  by (cases r) auto

section \<open>Writers\<close>

function push_uvarint :: "u64 \<Rightarrow> byte list" where
  "push_uvarint rest =
     (if rest \<ge> 0x80 then (ucast (rest AND 0x7f) OR 0x80) # push_uvarint (drop_bit 7 rest)
      else [ucast rest])"
  by pat_completeness auto

termination push_uvarint
proof (relation "measure unat")
  fix rest :: u64
  assume "rest \<ge> 0x80"
  then have "0 < unat rest" by (simp add: word_le_nat_alt)
  moreover have "unat (drop_bit 7 rest) = unat rest div 128"
    by (simp add: drop_bit_eq_div unat_div)
  ultimately show "(drop_bit 7 rest, rest) \<in> measure unat"
    by simp
qed simp

declare push_uvarint.simps [simp del]

definition zigzag :: "i64 \<Rightarrow> u64" where
  "zigzag v = (let w = word_of_int v in push_bit 1 w XOR signed_drop_bit 63 w)"

definition push_ivarint :: "i64 \<Rightarrow> byte list" where
  "push_ivarint v = push_uvarint (zigzag v)"

definition push_len :: "usize \<Rightarrow> byte list" where
  "push_len n = push_uvarint (of_nat n)"

definition string_bytes :: "string \<Rightarrow> byte list" where
  "string_bytes s = map (\<lambda>c. of_nat (of_char c)) s"

definition push_string :: "string \<Rightarrow> byte list" where
  "push_string s = push_len (length s) @ string_bytes s"

definition le_bytes :: "u64 \<Rightarrow> byte list" where
  "le_bytes w = map (\<lambda>i. ucast (drop_bit (8 * i) w)) [0..<8]"

text \<open>A string missing from the dictionary panics.\<close>

definition push_dictionary_id :: "(string, nat) btree_map \<Rightarrow> string \<Rightarrow> byte list option" where
  "push_dictionary_id ids text = map_option push_len (bt_get ids text)"

text \<open>The bytes of the prefix, and the start the next block is coded against.\<close>

definition push_shard_block_prefix ::
  "string \<Rightarrow> i64 \<Rightarrow> i64 \<Rightarrow> usize \<Rightarrow> nat \<Rightarrow> i64 \<Rightarrow> byte list \<times> i64" where
  "push_shard_block_prefix object_key min_ts max_ts row_count level previous_min =
     (push_string object_key
        @ push_ivarint (wrap_i64 (min_ts - previous_min))
        @ push_ivarint (wrap_i64 (max_ts - min_ts))
        @ push_len row_count
        @ push_uvarint (of_nat level),
      min_ts)"

section \<open>The reader\<close>

record byte_reader =
  rd_bytes :: "byte list"
  rd_at :: usize

definition reader_new :: "byte list \<Rightarrow> byte_reader" where
  "reader_new bytes = \<lparr>rd_bytes = bytes, rd_at = 0\<rparr>"

definition take_bytes :: "nat \<Rightarrow> string \<Rightarrow> byte_reader \<Rightarrow> (byte list \<times> byte_reader) result" where
  "take_bytes len what r =
     (let end_at = rd_at r + len
      in if end_at > usize_max then Inl (Ends_inside what)
         else case slice_opt (rd_bytes r) (rd_at r) end_at of
                None \<Rightarrow> Inl (Ends_inside what)
              | Some part \<Rightarrow> Inr (part, r\<lparr>rd_at := end_at\<rparr>))"

definition read_u8 :: "string \<Rightarrow> byte_reader \<Rightarrow> (byte \<times> byte_reader) result" where
  "read_u8 what r = res_bind (take_bytes 1 what r) (\<lambda>(bs, r'). Inr (hd bs, r'))"

definition from_le_bytes :: "byte list \<Rightarrow> u64" where
  "from_le_bytes bs = foldr (\<lambda>b acc. ucast b OR push_bit 8 acc) bs 0"

definition read_u64_le :: "string \<Rightarrow> byte_reader \<Rightarrow> (u64 \<times> byte_reader) result" where
  "read_u64_le what r = res_bind (take_bytes 8 what r) (\<lambda>(bs, r'). Inr (from_le_bytes bs, r'))"

function uvarint_loop :: "string \<Rightarrow> u64 \<Rightarrow> nat \<Rightarrow> byte_reader \<Rightarrow> (u64 \<times> byte_reader) result" where
  "uvarint_loop what value shift r =
     (case read_u8 what r of
        Inl e \<Rightarrow> Inl e
      | Inr (b, r') \<Rightarrow>
          if shift \<ge> 64 \<or> shift = 63 \<and> b > 1 then Inl (Varint_overflow what)
          else let value' = value OR push_bit shift (ucast (b AND 0x7f))
               in if b AND 0x80 = 0 then Inr (value', r')
                  else uvarint_loop what value' (shift + 7) r')"
  by pat_completeness auto

termination uvarint_loop
  by (relation "measure (\<lambda>(what, value, shift, r). 71 - shift)") auto

declare uvarint_loop.simps [simp del]

definition read_uvarint :: "string \<Rightarrow> byte_reader \<Rightarrow> (u64 \<times> byte_reader) result" where
  "read_uvarint what r = uvarint_loop what 0 0 r"

definition unzigzag :: "u64 \<Rightarrow> i64" where
  "unzigzag raw = sint (drop_bit 1 raw XOR (- (raw AND 1)))"

definition read_ivarint :: "string \<Rightarrow> byte_reader \<Rightarrow> (i64 \<times> byte_reader) result" where
  "read_ivarint what r = res_bind (read_uvarint what r) (\<lambda>(raw, r'). Inr (unzigzag raw, r'))"

text \<open>
  \<open>String::from_utf8\<close> accepts the well-formed sequences of the Unicode standard: no overlong
  form, no surrogate, nothing above \<open>U+10FFFF\<close>.
\<close>

definition utf8_tail :: "byte \<Rightarrow> bool" where
  "utf8_tail b \<longleftrightarrow> 0x80 \<le> b \<and> b \<le> 0xBF"

fun utf8_valid :: "byte list \<Rightarrow> bool" where
  "utf8_valid [] \<longleftrightarrow> True"
| "utf8_valid (a # bs) \<longleftrightarrow>
     (if a \<le> 0x7F then utf8_valid bs
      else case bs of
        b # bs1 \<Rightarrow>
          if 0xC2 \<le> a \<and> a \<le> 0xDF then utf8_tail b \<and> utf8_valid bs1
          else (case bs1 of
            c # bs2 \<Rightarrow>
              if 0xE0 \<le> a \<and> a \<le> 0xEF
              then (if a = 0xE0 then 0xA0 \<le> b \<and> b \<le> 0xBF
                    else if a = 0xED then 0x80 \<le> b \<and> b \<le> 0x9F else utf8_tail b)
                   \<and> utf8_tail c \<and> utf8_valid bs2
              else (case bs2 of
                d # bs3 \<Rightarrow>
                  0xF0 \<le> a \<and> a \<le> 0xF4
                  \<and> (if a = 0xF0 then 0x90 \<le> b \<and> b \<le> 0xBF
                     else if a = 0xF4 then 0x80 \<le> b \<and> b \<le> 0x8F else utf8_tail b)
                  \<and> utf8_tail c \<and> utf8_tail d \<and> utf8_valid bs3
              | [] \<Rightarrow> False)
          | [] \<Rightarrow> False)
      | [] \<Rightarrow> False)"

definition bytes_string :: "byte list \<Rightarrow> string" where
  "bytes_string bs = map (\<lambda>b. char_of (unat b)) bs"

definition usize_try :: "u64 \<Rightarrow> usize option" where
  "usize_try w = (if unat w \<le> usize_max then Some (unat w) else None)"

definition read_string :: "string \<Rightarrow> byte_reader \<Rightarrow> (string \<times> byte_reader) result" where
  "read_string what r =
     res_bind (read_uvarint what r) (\<lambda>(raw, r1).
       case usize_try raw of
         None \<Rightarrow> Inl (Too_long what)
       | Some len \<Rightarrow> res_bind (take_bytes len what r1) (\<lambda>(bs, r2).
           if utf8_valid bs then Inr (bytes_string bs, r2) else Inl (Not_utf8 what)))"

definition bytes_left :: "byte_reader \<Rightarrow> nat" where
  "bytes_left r = length (rd_bytes r) - rd_at r"

definition read_count :: "string \<Rightarrow> byte_reader \<Rightarrow> (usize \<times> byte_reader) result" where
  "read_count what r =
     res_bind (read_uvarint what r) (\<lambda>(raw, r').
       case usize_try raw of
         None \<Rightarrow> Inl (Count_too_wide what)
       | Some n \<Rightarrow> if n > bytes_left r' then Inl (Declares n what (bytes_left r')) else Inr (n, r'))"

definition read_count_unbounded :: "string \<Rightarrow> byte_reader \<Rightarrow> (usize \<times> byte_reader) result" where
  "read_count_unbounded what r =
     res_bind (read_uvarint what r) (\<lambda>(raw, r').
       case usize_try raw of None \<Rightarrow> Inl (Count_too_wide what) | Some n \<Rightarrow> Inr (n, r'))"

record shard_block_bounds =
  sb_min_ts :: i64
  sb_max_ts :: i64

definition read_block_bounds :: "i64 \<Rightarrow> byte_reader \<Rightarrow> (shard_block_bounds \<times> byte_reader) result" where
  "read_block_bounds previous_min_ts r =
     res_bind (read_ivarint ''a block start'' r) (\<lambda>(start, r1).
       let min_ts = wrap_i64 (previous_min_ts + start)
       in res_bind (read_ivarint ''a block span'' r1) (\<lambda>(span, r2).
            Inr (\<lparr>sb_min_ts = min_ts, sb_max_ts = wrap_i64 (min_ts + span)\<rparr>, r2)))"

definition read_block_level :: "byte_reader \<Rightarrow> (nat \<times> byte_reader) result" where
  "read_block_level r =
     res_bind (read_uvarint ''a block level'' r) (\<lambda>(raw, r').
       case u32_try (unat raw) of None \<Rightarrow> Inl Level_beyond_u32 | Some level \<Rightarrow> Inr (level, r'))"

definition is_exhausted :: "byte_reader \<Rightarrow> bool" where
  "is_exhausted r \<longleftrightarrow> rd_at r \<ge> length (rd_bytes r)"

record shard_block_prefix =
  sp_object_key :: string
  sp_bounds :: shard_block_bounds
  sp_row_count :: usize
  sp_level :: nat

definition read_shard_block_prefix ::
  "i64 \<Rightarrow> byte_reader \<Rightarrow> (shard_block_prefix \<times> byte_reader) result" where
  "read_shard_block_prefix previous_min r =
     res_bind (read_string ''a block object key'' r) (\<lambda>(object_key, r1).
     res_bind (read_block_bounds previous_min r1) (\<lambda>(bounds, r2).
     res_bind (read_count_unbounded ''a block row count'' r2) (\<lambda>(row_count, r3).
     res_bind (read_block_level r3) (\<lambda>(level, r4).
       Inr (\<lparr>sp_object_key = object_key, sp_bounds = bounds, sp_row_count = row_count,
             sp_level = level\<rparr>, r4)))))"

text \<open>The \<open>for _ in 0..n\<close> loops of the decoders, over an accumulator.\<close>

fun read_times ::
  "nat \<Rightarrow> ('s \<Rightarrow> byte_reader \<Rightarrow> ('s \<times> byte_reader) result) \<Rightarrow> 's \<Rightarrow> byte_reader
     \<Rightarrow> ('s \<times> byte_reader) result" where
  "read_times 0 f s r = Inr (s, r)"
| "read_times (Suc n) f s r = res_bind (f s r) (\<lambda>(s', r'). read_times n f s' r')"

definition read_dictionary_string ::
  "string list \<Rightarrow> byte_reader \<Rightarrow> (string list \<times> byte_reader) result" where
  "read_dictionary_string dictionary r =
     res_bind (read_string ''a dictionary entry'' r) (\<lambda>(text, r'). Inr (dictionary @ [text], r'))"

record decoded_shard_header =
  dh_reader :: byte_reader
  dh_tenant :: string
  dh_dictionary :: "string list"

definition decode_shard_header ::
  "byte list \<Rightarrow> byte list \<Rightarrow> byte \<Rightarrow> string \<Rightarrow> decoded_shard_header result" where
  "decode_shard_header bytes magic expected_version shard_name =
     res_bind (take_bytes (length magic) ''the magic'' (reader_new bytes)) (\<lambda>(found, r1).
     if found \<noteq> magic then Inl (Not_a_shard shard_name)
     else res_bind (read_u8 ''the format version'' r1) (\<lambda>(version, r2).
     if version \<noteq> expected_version then Inl (Wrong_version (unat version) (unat expected_version))
     else res_bind (read_string ''the tenant name'' r2) (\<lambda>(tenant, r3).
     res_bind (read_count ''dictionary entries'' r3) (\<lambda>(n, r4).
     res_bind (read_times n read_dictionary_string [] r4) (\<lambda>(dictionary, r5).
       Inr \<lparr>dh_reader = r5, dh_tenant = tenant, dh_dictionary = dictionary\<rparr>)))))"

end
