(* ===== verification/Wire_Codec.thy ===== *)
theory Wire_Codec
  imports Wire
begin

text \<open>
  The readers undo the writers.  The contract of one wire element is a locale: what a writer
  appends, the matching reader takes off the front, whatever follows.
\<close>

section \<open>Readers and the bytes that remain\<close>

definition reader_ok :: "byte_reader \<Rightarrow> bool" where
  "reader_ok r \<longleftrightarrow> rd_at r \<le> length (rd_bytes r) \<and> length (rd_bytes r) \<le> usize_max"

definition rest_of :: "byte_reader \<Rightarrow> byte list" where
  "rest_of r = drop (rd_at r) (rd_bytes r)"

text \<open>The reader stands before \<open>xs\<close>; after it, \<open>advance\<close> stands before what follows.\<close>

definition advance :: "nat \<Rightarrow> byte_reader \<Rightarrow> byte_reader" where
  "advance n r = r\<lparr>rd_at := rd_at r + n\<rparr>"

definition ahead :: "byte_reader \<Rightarrow> byte list \<Rightarrow> byte list \<Rightarrow> bool" where
  "ahead r xs ys \<longleftrightarrow> reader_ok r \<and> rest_of r = xs @ ys"

lemma advance_simps [simp]: "advance 0 r = r" "advance m (advance n r) = advance (n + m) r"
  by (simp_all add: advance_def add.assoc)

lemma ahead_append: "ahead r (xs @ ys) zs \<longleftrightarrow> ahead r xs (ys @ zs)"
  by (simp add: ahead_def)

lemma ahead_advance:
  assumes "ahead r xs (ys @ zs)"
  shows "ahead (advance (length xs) r) ys zs"
proof -
  have "drop (length xs) (drop (rd_at r) (rd_bytes r)) = ys @ zs"
    using assms by (simp add: ahead_def rest_of_def)
  moreover have "length xs \<le> length (drop (rd_at r) (rd_bytes r))"
    using assms by (simp add: ahead_def rest_of_def)
  ultimately show ?thesis
    using assms by (auto simp: ahead_def rest_of_def reader_ok_def advance_def add.commute)
qed

lemma take_bytes_ahead:
  assumes "ahead r xs ys"
  shows "take_bytes (length xs) what r = Inr (xs, advance (length xs) r)"
proof -
  have eq: "drop (rd_at r) (rd_bytes r) = xs @ ys" and ok: "reader_ok r"
    using assms by (simp_all add: ahead_def rest_of_def)
  have len: "rd_at r + length xs \<le> length (rd_bytes r)"
    using arg_cong [OF eq, of length] ok unfolding reader_ok_def length_drop length_append by arith
  moreover have "take (length xs) (drop (rd_at r) (rd_bytes r)) = xs"
    by (simp add: eq)
  ultimately show ?thesis
    using ok by (simp add: take_bytes_def slice_opt_def advance_def reader_ok_def Let_def)
qed

lemma read_u8_ahead: "ahead r [b] ys \<Longrightarrow> read_u8 what r = Inr (b, advance 1 r)"
  using take_bytes_ahead [of r "[b]" ys what] by (simp add: read_u8_def)

section \<open>The contract of a wire element\<close>

locale codec =
  fixes enc :: "'a \<Rightarrow> byte list"
    and dec :: "byte_reader \<Rightarrow> ('a \<times> byte_reader) result"
    and valid :: "'a \<Rightarrow> bool"
  assumes dec_enc: "valid v \<Longrightarrow> ahead r (enc v) ys \<Longrightarrow> dec r = Inr (v, advance (length (enc v)) r)"
begin

text \<open>The encoding is a prefix code: what follows an element never changes what is read.\<close>

lemma enc_prefix_free:
  assumes "valid v" and "valid w" and "enc v @ xs = enc w @ ys" and "length (enc v @ xs) \<le> usize_max"
  shows "v = w \<and> xs = ys"
proof -
  have "ahead (reader_new (enc v @ xs)) (enc v) xs" "ahead (reader_new (enc v @ xs)) (enc w) ys"
    using assms(3,4) by (simp_all add: ahead_def reader_ok_def rest_of_def reader_new_def)
  from dec_enc [OF assms(1) this(1)] dec_enc [OF assms(2) this(2)]
  show ?thesis using assms(3) by simp
qed

text \<open>A loop that reads one element per iteration into an accumulator reads the whole run.\<close>

lemma read_times_enc:
  assumes "\<And>v. v \<in> set vs \<Longrightarrow> valid v" and "ahead r (concat (map enc vs)) ys"
    and "\<And>s r. f s r = res_bind (dec r) (\<lambda>(v, r'). Inr (step s v, r'))"
  shows "read_times (length vs) f s r
    = Inr (foldl step s vs, advance (length (concat (map enc vs))) r)"
  using assms(1,2)
proof (induction vs arbitrary: s r)
  case (Cons v vs)
  have "ahead r (enc v) (concat (map enc vs) @ ys)"
    using Cons.prems(2) by (simp add: ahead_def)
  then have "dec r = Inr (v, advance (length (enc v)) r)"
      and "ahead (advance (length (enc v)) r) (concat (map enc vs)) ys"
    using Cons.prems(1) dec_enc ahead_advance by auto
  then show ?case
    using Cons by (simp add: assms(3))
qed simp

end

section \<open>Varints\<close>

lemma and_7f: "x AND 0x7f = take_bit 7 (x :: 'a::len word)"
proof -
  have "(0x7f :: 'a word) = mask 7" by (simp add: mask_eq_exp_minus_1)
  then show ?thesis by (simp add: take_bit_eq_mask)
qed

lemma bit_80 [simp]: "bit (0x80 :: byte) n \<longleftrightarrow> n = 7"
proof -
  have "(0x80 :: byte) = push_bit 7 1" by simp
  then show ?thesis by (simp only: bit_push_bit_iff) (auto simp: bit_1_iff)
qed

lemma uvarint_step:
  "(acc OR push_bit s (ucast ((ucast (rest AND 0x7f) OR 0x80 :: byte) AND 0x7f)))
     OR push_bit (s + 7) (drop_bit 7 rest) = acc OR push_bit s (rest :: u64)"
  unfolding and_7f
proof (rule bit_word_eqI)
  fix n
  assume "n < LENGTH(64)"
  moreover have "7 + (n - (s + 7)) = n - s" if "s + 7 \<le> n" using that by simp
  ultimately show "bit ((acc OR push_bit s (ucast (take_bit 7 (ucast (take_bit 7 rest) OR 0x80 :: byte))))
      OR push_bit (s + 7) (drop_bit 7 rest)) n = bit (acc OR push_bit s rest) n"
    by (cases "s + 7 \<le> n") (auto simp: bit_simps)
qed

lemma push_uvarint_continues:
  "((ucast (rest AND 0x7f) OR 0x80 :: byte) AND 0x80) \<noteq> 0"
proof -
  have "bit ((ucast (rest AND 0x7f) OR 0x80 :: byte) AND 0x80) 7"
    by (simp add: bit_simps)
  then show ?thesis by auto
qed

lemma small_byte:
  assumes "(rest :: u64) < 0x80"
  shows "(ucast rest :: byte) AND 0x80 = 0" and "ucast ((ucast rest :: byte) AND 0x7f) = rest"
    and "unat (ucast rest :: byte) = unat rest"
proof -
  have small: "take_bit 7 rest = rest"
  proof -
    have "unat (drop_bit 7 rest) = 0"
      using assms by (simp add: drop_bit_eq_div unat_div word_less_nat_alt)
    then show ?thesis by (simp add: take_bit_eq_self_iff_drop_bit_eq_0 unat_eq_0)
  qed
  then have "\<not> bit rest 7" by (metis bit_take_bit_iff less_irrefl)
  then have "\<not> bit (ucast rest :: byte) 7" by (simp add: bit_simps)
  then have "\<not> bit ((ucast rest :: byte) AND 0x80) n" for n
    unfolding bit_and_iff bit_80 by blast
  then show "(ucast rest :: byte) AND 0x80 = 0"
    by (intro bit_word_eqI) simp
  show "ucast ((ucast rest :: byte) AND 0x7f) = rest"
    unfolding and_7f by (subst small [symmetric], rule bit_word_eqI) (auto simp: bit_simps)
  show "unat (ucast rest :: byte) = unat rest"
    using assms by (simp add: unsigned_ucast_eq take_bit_nat_eq_self word_less_nat_alt)
qed

lemma uvarint_loop_enc:
  assumes "unat rest < 2 ^ (64 - shift)" and "shift \<le> 63" and "ahead r (push_uvarint rest) ys"
  shows "uvarint_loop what acc shift r
    = Inr (acc OR push_bit shift rest, advance (length (push_uvarint rest)) r)"
  using assms
proof (induction rest arbitrary: acc shift r rule: push_uvarint.induct)
  case (1 rest)
  show ?case
  proof (cases "rest \<ge> 0x80")
    case True
    let ?b = "ucast (rest AND 0x7f) OR 0x80 :: byte"
    have enc: "push_uvarint rest = ?b # push_uvarint (drop_bit 7 rest)"
      using True by (simp add: push_uvarint.simps [of rest])
    have "unat rest \<ge> 2 ^ 7" using True by (simp add: word_le_nat_alt)
    then have "(2 :: nat) ^ 7 < 2 ^ (64 - shift)" using "1.prems"(1) by linarith
    then have "7 < 64 - shift" by (rule power_less_imp_less_exp [rotated]) simp
    then have s: "shift + 7 \<le> 63" "64 - shift = (64 - (shift + 7)) + 7" by simp_all
    have "unat (drop_bit 7 rest) = unat rest div 2 ^ 7"
      by (simp add: drop_bit_eq_div unat_div)
    also have "\<dots> < 2 ^ (64 - (shift + 7))"
      using "1.prems"(1) unfolding s(2) power_add by (simp add: less_mult_imp_div_less)
    finally have small: "unat (drop_bit 7 rest) < 2 ^ (64 - (shift + 7))" .
    have "ahead r [?b] (push_uvarint (drop_bit 7 rest) @ ys)"
      using "1.prems"(3) by (simp add: enc ahead_def)
    then have r: "read_u8 what r = Inr (?b, advance 1 r)"
        "ahead (advance 1 r) (push_uvarint (drop_bit 7 rest)) ys"
      using read_u8_ahead ahead_advance [of r "[?b]"] by auto
    have "uvarint_loop what acc shift r
        = uvarint_loop what (acc OR push_bit shift (ucast (?b AND 0x7f))) (shift + 7) (advance 1 r)"
      using s(1) r(1) push_uvarint_continues [of rest]
      by (subst uvarint_loop.simps) (simp add: Let_def)
    also have "\<dots> = Inr (acc OR push_bit shift rest, advance (length (push_uvarint rest)) r)"
      using "1.IH" [OF True small s(1) r(2)] uvarint_step [of acc shift rest] by (simp add: enc)
    finally show ?thesis .
  next
    case False
    then have enc: "push_uvarint rest = [ucast rest]"
      by (simp add: push_uvarint.simps [of rest])
    have small: "rest < 0x80" using False by simp
    have "\<not> (shift = 63 \<and> (ucast rest :: byte) > 1)"
      using "1.prems"(1) small_byte(3) [OF small] by (auto simp: word_less_nat_alt)
    moreover have "read_u8 what r = Inr (ucast rest, advance 1 r)"
      using "1.prems"(3) by (intro read_u8_ahead) (simp add: enc)
    ultimately show ?thesis
      using "1.prems"(2) small_byte [OF small]
      by (subst uvarint_loop.simps) (simp add: Let_def enc)
  qed
qed

interpretation uvarint: codec push_uvarint "read_uvarint what" "\<lambda>_. True"
proof
  fix v r ys
  assume "ahead r (push_uvarint v) ys"
  moreover have "unat v < 2 ^ (64 - 0)"
    using unsigned_less [of v] by simp
  ultimately show "read_uvarint what r = Inr (v, advance (length (push_uvarint v)) r)"
    using uvarint_loop_enc [of v 0 r ys what 0] by (simp add: read_uvarint_def)
qed


lemma unzigzag_word: "drop_bit 1 z XOR (- (z AND 1)) = w"
  if "z = push_bit 1 w XOR signed_drop_bit 63 w" for z w :: u64
proof -
  have bit_z: "bit z m \<longleftrightarrow> m < 64 \<and> ((m \<noteq> 0 \<and> bit w (m - 1)) \<noteq> bit w 63)" for m
    unfolding that bit_xor_iff bit_push_bit_iff bit_signed_drop_bit_iff
    by (cases "m = 0") (auto simp: possible_bit_word dest: bit_imp_le_length)
  then have "odd z \<longleftrightarrow> bit w 63" by (simp flip: bit_0)
  then have sign: "- (z AND 1) = (if bit w 63 then - 1 else 0)"
    by (auto simp: and_one_eq mod_2_eq_odd)
  show ?thesis
  proof (rule bit_word_eqI)
    fix m
    assume m: "m < LENGTH(64)"
    have "bit w m = bit w 63" if "\<not> Suc m < 64"
    proof -
      have "m = 63" using m that by simp
      then show ?thesis by simp
    qed
    then show "bit (drop_bit 1 z XOR - (z AND 1)) m = bit w m"
      using m unfolding sign by (auto simp: bit_simps bit_z)
  qed
qed

lemma unzigzag_zigzag:
  assumes "is_i64 v"
  shows "unzigzag (zigzag v) = v"
proof -
  have "unzigzag (zigzag v) = sint (word_of_int v :: u64)"
    using unzigzag_word [OF refl, of "word_of_int v"] by (simp only: unzigzag_def zigzag_def Let_def)
  also have "\<dots> = signed_take_bit 63 v"
    by (simp add: sint_sbintrunc')
  also have "\<dots> = v"
    using assms by (simp add: is_i64_def signed_take_bit_int_eq_self)
  finally show ?thesis .
qed

lemma read_uvarint_ahead:
  "ahead r (push_uvarint v) ys \<Longrightarrow> read_uvarint what r = Inr (v, advance (length (push_uvarint v)) r)"
  by (rule uvarint.dec_enc [OF TrueI])

interpretation ivarint: codec push_ivarint "read_ivarint what" is_i64
  by unfold_locales (simp add: push_ivarint_def read_ivarint_def read_uvarint_ahead unzigzag_zigzag)

section \<open>Lengths, strings and fixed-width words\<close>

lemma unat_of_usize: "n \<le> usize_max \<Longrightarrow> unat (of_nat n :: u64) = n"
  by (simp add: unsigned_of_nat take_bit_nat_eq_self)

lemma usize_try_of_nat [simp]: "n \<le> usize_max \<Longrightarrow> usize_try (of_nat n) = Some n"
  by (simp add: usize_try_def unat_of_usize)

lemma read_count_ahead:
  assumes "ahead r (push_len n) ys" and "n \<le> length ys"
  shows "read_count what r = Inr (n, advance (length (push_len n)) r)"
proof -
  have "ahead (advance (length (push_len n)) r) [] ys"
    using ahead_advance [of r "push_len n" "[]" ys] assms(1) by simp
  then have "bytes_left (advance (length (push_len n)) r) = length ys" "length ys \<le> usize_max"
    by (auto simp: ahead_def rest_of_def bytes_left_def reader_ok_def dest!: arg_cong [where f = length])
  then show ?thesis
    using assms by (simp add: read_count_def push_len_def read_uvarint_ahead)
qed

interpretation count: codec push_len "read_count_unbounded what" "\<lambda>n. n \<le> usize_max"
  by unfold_locales (simp add: push_len_def read_count_unbounded_def read_uvarint_ahead)

lemma bytes_string_bytes: "bytes_string (string_bytes s) = s"
proof -
  have "char_of (unat (of_nat (of_char c) :: byte)) = c" for c
  proof -
    have "of_char c < (256 :: nat)"
      by (metis char_of_char of_char_of mod_less_divisor zero_less_numeral)
    then have "unat (of_nat (of_char c) :: byte) = (of_char c :: nat)"
      by (simp add: unsigned_of_nat take_bit_nat_eq_self)
    then show ?thesis by simp
  qed
  then show ?thesis by (simp add: bytes_string_def string_bytes_def comp_def)
qed

text \<open>A Rust string: UTF-8 bytes, and no longer than memory.\<close>

definition utf8_string :: "string \<Rightarrow> bool" where
  "utf8_string s \<longleftrightarrow> utf8_valid (string_bytes s) \<and> length s \<le> usize_max"

lemma length_string_bytes [simp]: "length (string_bytes s) = length s"
  by (simp add: string_bytes_def)

interpretation str: codec push_string "read_string what" utf8_string
proof
  fix v r ys
  assume v: "utf8_string v" and a: "ahead r (push_string v) ys"
  have a1: "ahead r (push_len (length v)) (string_bytes v @ ys)"
    using a by (simp add: push_string_def ahead_append)
  then have a2: "ahead (advance (length (push_len (length v))) r) (string_bytes v) ys"
    by (rule ahead_advance)
  show "read_string what r = Inr (v, advance (length (push_string v)) r)"
    using read_uvarint_ahead [OF a1 [unfolded push_len_def], of what] v take_bytes_ahead [OF a2, of what]
    by (simp add: read_string_def push_len_def push_string_def utf8_string_def bytes_string_bytes)
qed

lemma bit_from_le_bytes:
  "n < 64 \<Longrightarrow> bit (from_le_bytes bs) n \<longleftrightarrow> n div 8 < length bs \<and> bit (bs ! (n div 8)) (n mod 8)"
proof (induction bs arbitrary: n)
  case (Cons b bs)
  show ?case
  proof (cases "n < 8")
    case True
    then show ?thesis
      using Cons.prems by (simp add: from_le_bytes_def bit_or_iff bit_push_bit_iff bit_ucast_iff)
  next
    case False
    then have n: "n div 8 = Suc ((n - 8) div 8)" "n mod 8 = (n - 8) mod 8" "n - 8 < 64"
      using Cons.prems by (simp_all add: le_div_geq le_mod_geq)
    have "\<not> bit b n" using False bit_imp_le_length [of b n] by auto
    then have "bit (from_le_bytes (b # bs)) n = bit (from_le_bytes bs) (n - 8)"
      using False Cons.prems by (simp add: from_le_bytes_def bit_or_iff bit_push_bit_iff bit_ucast_iff)
    then show ?thesis
      using Cons.IH [OF n(3)] n(1,2) by simp
  qed
qed (simp add: from_le_bytes_def)

lemma from_le_bytes_le_bytes: "from_le_bytes (le_bytes w) = w"
proof (rule bit_word_eqI)
  fix n
  assume n: "n < LENGTH(64)"
  then have "n div 8 < 8" "8 * (n div 8) + n mod 8 = n" by auto
  then show "bit (from_le_bytes (le_bytes w)) n = bit w n"
    using n by (simp add: bit_from_le_bytes le_bytes_def bit_ucast_iff bit_drop_bit_eq)
qed

lemma length_le_bytes [simp]: "length (le_bytes w) = 8"
  by (simp add: le_bytes_def)

interpretation fixed: codec le_bytes "read_u64_le what" "\<lambda>_. True"
proof
  fix v r ys
  assume "ahead r (le_bytes v) ys"
  then show "read_u64_le what r = Inr (v, advance (length (le_bytes v)) r)"
    using take_bytes_ahead [of r "le_bytes v" ys what] by (simp add: read_u64_le_def from_le_bytes_le_bytes)
qed

section \<open>Block prefixes\<close>

text \<open>
  The prefix of one block, for an object key that is a string and bounds and counts that fit their
  widths, whatever start the previous block had: the wrapping deltas are undone exactly.
\<close>

definition prefix_valid :: "shard_block_prefix \<Rightarrow> bool" where
  "prefix_valid p \<longleftrightarrow> utf8_string (sp_object_key p) \<and> is_i64 (sb_min_ts (sp_bounds p))
     \<and> is_i64 (sb_max_ts (sp_bounds p)) \<and> sp_row_count p \<le> usize_max \<and> sp_level p \<le> u32_max"

definition prefix_bytes :: "i64 \<Rightarrow> shard_block_prefix \<Rightarrow> byte list" where
  "prefix_bytes previous_min p = fst (push_shard_block_prefix (sp_object_key p)
     (sb_min_ts (sp_bounds p)) (sb_max_ts (sp_bounds p)) (sp_row_count p) (sp_level p) previous_min)"

lemma unat_of_u32: "n \<le> u32_max \<Longrightarrow> unat (of_nat n :: u64) = n"
  by (rule unat_of_usize) simp

interpretation level: codec "\<lambda>n. push_uvarint (of_nat n)" read_block_level "\<lambda>n. n \<le> u32_max"
  by unfold_locales (simp add: read_block_level_def read_uvarint_ahead unat_of_u32 panic_simps)

definition bounds_bytes :: "i64 \<Rightarrow> shard_block_bounds \<Rightarrow> byte list" where
  "bounds_bytes previous_min b = push_ivarint (wrap_i64 (sb_min_ts b - previous_min))
     @ push_ivarint (wrap_i64 (sb_max_ts b - sb_min_ts b))"

interpretation bounds: codec "bounds_bytes previous_min" "read_block_bounds previous_min"
  "\<lambda>b. is_i64 (sb_min_ts b) \<and> is_i64 (sb_max_ts b)"
proof
  fix v r ys
  assume v: "is_i64 (sb_min_ts v) \<and> is_i64 (sb_max_ts v)" and a: "ahead r (bounds_bytes previous_min v) ys"
  let ?start = "push_ivarint (wrap_i64 (sb_min_ts v - previous_min))"
  have a1: "ahead r ?start (push_ivarint (wrap_i64 (sb_max_ts v - sb_min_ts v)) @ ys)"
    using a by (simp add: bounds_bytes_def ahead_append)
  note a2 = ahead_advance [OF a1]
  show "read_block_bounds previous_min r = Inr (v, advance (length (bounds_bytes previous_min v)) r)"
    using ivarint.dec_enc [OF _ a1, of "''a block start''"] ivarint.dec_enc [OF _ a2, of "''a block span''"] v
      wrap_i64_add_sub [of "sb_min_ts v" previous_min] wrap_i64_add_sub [of "sb_max_ts v" "sb_min_ts v"]
    by (simp add: read_block_bounds_def bounds_bytes_def Let_def)
qed

interpretation prefix: codec "prefix_bytes previous_min" "read_shard_block_prefix previous_min" prefix_valid
proof
  fix v r ys
  assume v: "prefix_valid v" and a: "ahead r (prefix_bytes previous_min v) ys"
  let ?key = "push_string (sp_object_key v)" and ?bounds = "bounds_bytes previous_min (sp_bounds v)"
    and ?rows = "push_len (sp_row_count v)" and ?level = "push_uvarint (of_nat (sp_level v)) :: byte list"
  have bytes: "prefix_bytes previous_min v = ?key @ ?bounds @ ?rows @ ?level"
    by (simp add: prefix_bytes_def push_shard_block_prefix_def bounds_bytes_def)
  have a1: "ahead r ?key (?bounds @ ?rows @ ?level @ ys)"
    using a by (simp add: bytes ahead_append)
  note a2 = ahead_advance [OF a1]
  note a3 = ahead_advance [OF a2]
  note a4 = ahead_advance [OF a3]
  have valid: "utf8_string (sp_object_key v)" "is_i64 (sb_min_ts (sp_bounds v)) \<and> is_i64 (sb_max_ts (sp_bounds v))"
      "sp_row_count v \<le> usize_max" "sp_level v \<le> u32_max"
    using v by (simp_all add: prefix_valid_def)
  show "read_shard_block_prefix previous_min r = Inr (v, advance (length (prefix_bytes previous_min v)) r)"
    using str.dec_enc [OF valid(1) a1, of "''a block object key''"] bounds.dec_enc [OF valid(2) a2]
      count.dec_enc [OF valid(3) a3, of "''a block row count''"] level.dec_enc [OF valid(4) a4]
    by (simp add: read_shard_block_prefix_def bytes add.assoc)
qed

end
