(* ===== verification/Labels.thy ===== *)
theory Labels
  imports Wire_Codec
begin

text \<open>
  Label sets and their fingerprint (\<open>labels/labels_type.rs\<close>): an ordered map from label names to
  values, hashed with FNV-1a over a length-prefixed encoding.
\<close>

type_synonym labels = "(string, string) btree_map"

record label_pair =
  lp_name :: string
  lp_value :: string

text \<open>The derived order of \<open>LabelPair\<close>: by name, then by value.\<close>

instantiation label_pair_ext :: (linorder) linorder
begin

definition less_eq_label_pair_ext :: "'a label_pair_ext \<Rightarrow> 'a label_pair_ext \<Rightarrow> bool" where
  "less_eq_label_pair_ext p q \<longleftrightarrow>
     (lp_name p, lp_value p, label_pair.more p) \<le> (lp_name q, lp_value q, label_pair.more q)"

definition less_label_pair_ext :: "'a label_pair_ext \<Rightarrow> 'a label_pair_ext \<Rightarrow> bool" where
  "less_label_pair_ext p q \<longleftrightarrow>
     (lp_name p, lp_value p, label_pair.more p) < (lp_name q, lp_value q, label_pair.more q)"

instance
proof
  fix p q r :: "'a label_pair_ext"
  show "p < q \<longleftrightarrow> p \<le> q \<and> \<not> q \<le> p"
    unfolding less_label_pair_ext_def less_eq_label_pair_ext_def by (rule less_le_not_le)
  show "p \<le> p"
    unfolding less_eq_label_pair_ext_def by (rule order_refl)
  show "p \<le> q \<Longrightarrow> q \<le> r \<Longrightarrow> p \<le> r"
    unfolding less_eq_label_pair_ext_def by (rule order_trans)
  show "p \<le> q \<Longrightarrow> q \<le> p \<Longrightarrow> p = q"
    unfolding less_eq_label_pair_ext_def by (drule (1) order_antisym) (simp add: label_pair.equality)
  show "p \<le> q \<or> q \<le> p"
    unfolding less_eq_label_pair_ext_def by (rule linear)
qed

end

definition labels_new :: labels where
  "labels_new = []"

definition labels_insert :: "string \<Rightarrow> string \<Rightarrow> labels \<Rightarrow> labels" where
  "labels_insert name v ls = bt_insert name v ls"

definition from_pairs :: "label_pair list \<Rightarrow> labels" where
  "from_pairs pairs = fold (\<lambda>pair. labels_insert (lp_name pair) (lp_value pair)) pairs labels_new"

definition labels_get :: "labels \<Rightarrow> string \<Rightarrow> string option" where
  "labels_get ls name = bt_get ls name"

definition labels_iter :: "labels \<Rightarrow> label_pair list" where
  "labels_iter ls = map (\<lambda>entry. \<lparr>lp_name = fst entry, lp_value = snd entry\<rparr>) ls"

definition labels_len :: "labels \<Rightarrow> nat" where
  "labels_len ls = length ls"

definition fnv_offset :: u64 where
  "fnv_offset = 0xcbf29ce484222325"

definition fnv_prime :: u64 where
  "fnv_prime = 0x00000100000001b3"

definition fnv_step :: "u64 \<Rightarrow> byte \<Rightarrow> u64" where
  "fnv_step hash b = (hash XOR ucast b) * fnv_prime"

definition entry_bytes :: "string \<times> string \<Rightarrow> byte list" where
  "entry_bytes entry = le_bytes (of_nat (length (fst entry))) @ string_bytes (fst entry)
     @ le_bytes (of_nat (length (snd entry))) @ string_bytes (snd entry)"

definition label_bytes :: "labels \<Rightarrow> byte list" where
  "label_bytes ls = concat (map entry_bytes ls)"

definition labels_fingerprint :: "labels \<Rightarrow> u64" where
  "labels_fingerprint ls = foldl (\<lambda>hash entry. foldl fnv_step hash (entry_bytes entry)) fnv_offset ls"

section \<open>Properties\<close>

lemma labels_fingerprint_bytes: "labels_fingerprint ls = foldl fnv_step fnv_offset (label_bytes ls)"
proof -
  have "foldl (\<lambda>hash entry. foldl fnv_step hash (entry_bytes entry)) h ls = foldl fnv_step h (label_bytes ls)" for h
    by (induction ls arbitrary: h) (simp_all add: label_bytes_def)
  then show ?thesis by (simp add: labels_fingerprint_def)
qed

lemma from_pairs_ok: "bt_ok (from_pairs pairs)"
proof -
  have "bt_ok acc \<Longrightarrow> bt_ok (fold (\<lambda>pair. labels_insert (lp_name pair) (lp_value pair)) pairs acc)" for acc
    by (induction pairs arbitrary: acc) (simp_all add: labels_insert_def bt_ok_insert)
  then show ?thesis by (simp add: from_pairs_def labels_new_def)
qed

lemma from_pairs_get:
  "bt_get (from_pairs pairs) = map_of (rev (map (\<lambda>pair. (lp_name pair, lp_value pair)) pairs))"
proof -
  have "bt_get (fold (\<lambda>pair. labels_insert (lp_name pair) (lp_value pair)) pairs acc)
      = bt_get acc ++ map_of (rev (map (\<lambda>pair. (lp_name pair, lp_value pair)) pairs))" for acc
    by (induction pairs arbitrary: acc) (simp_all add: labels_insert_def)
  then show ?thesis by (simp add: from_pairs_def labels_new_def)
qed

lemma map_of_rev_distinct: "distinct (map fst xs) \<Longrightarrow> map_of (rev xs) = map_of xs"
  by (rule map_of_eqI) (auto simp: rev_map [symmetric] intro: map_of_is_SomeI dest: map_of_SomeD
      simp del: rev_map intro!: map_of_is_SomeI [THEN trans])

lemma from_pairs_iter:
  assumes "bt_ok ls"
  shows "from_pairs (labels_iter ls) = ls"
proof (rule bt_eqI)
  show "bt_get (from_pairs (labels_iter ls)) = bt_get ls"
    using bt_ok_distinct [OF assms]
    by (simp add: from_pairs_get labels_iter_def comp_def map_of_rev_distinct)
qed (simp_all add: from_pairs_ok assms)

lemma append_same_length: "length a = length b \<Longrightarrow> a @ x = b @ y \<longleftrightarrow> a = b \<and> x = y"
  by simp

lemma le_bytes_inj: "le_bytes v = le_bytes w \<longleftrightarrow> v = w"
  by (metis from_le_bytes_le_bytes)

lemma string_bytes_inj: "string_bytes s = string_bytes t \<longleftrightarrow> s = t"
  by (metis bytes_string_bytes)

lemma framed_string_inj:
  assumes "length s \<le> usize_max" and "length t \<le> usize_max"
  shows "le_bytes (of_nat (length s)) @ string_bytes s @ x = le_bytes (of_nat (length t)) @ string_bytes t @ y
    \<longleftrightarrow> s = t \<and> x = y"
proof
  assume eq: "le_bytes (of_nat (length s)) @ string_bytes s @ x = le_bytes (of_nat (length t)) @ string_bytes t @ y"
  then have "le_bytes (of_nat (length s)) = le_bytes (of_nat (length t))" "string_bytes s @ x = string_bytes t @ y"
    by (simp_all add: append_same_length)
  moreover from this(1) have "length s = length t"
    using assms by (metis le_bytes_inj unat_of_usize)
  ultimately show "s = t \<and> x = y"
    by (simp add: append_same_length string_bytes_inj)
qed simp

definition labels_fit :: "labels \<Rightarrow> bool" where
  "labels_fit ls \<longleftrightarrow> (\<forall>(name, v) \<in> set ls. length name \<le> usize_max \<and> length v \<le> usize_max)"

lemma label_bytes_inj:
  "labels_fit ls \<Longrightarrow> labels_fit ms \<Longrightarrow> label_bytes ls = label_bytes ms \<Longrightarrow> ls = ms"
proof (induction ls arbitrary: ms)
  case Nil
  then show ?case
    by (cases ms) (auto simp: label_bytes_def entry_bytes_def dest: arg_cong [where f = length])
next
  case (Cons e ls)
  show ?case
  proof (cases ms)
    case Nil
    then show ?thesis
      using Cons.prems(3) by (auto simp: label_bytes_def entry_bytes_def dest: arg_cong [where f = length])
  next
    case (Cons f ms')
    have fits: "length (fst e) \<le> usize_max" "length (snd e) \<le> usize_max"
        "length (fst f) \<le> usize_max" "length (snd f) \<le> usize_max" "labels_fit ls" "labels_fit ms'"
      using Cons.prems(1,2) Cons by (auto simp: labels_fit_def split_beta)
    have "entry_bytes e @ label_bytes ls = entry_bytes f @ label_bytes ms'"
      using Cons.prems(3) Cons by (simp add: label_bytes_def)
    then have "fst e = fst f \<and> snd e = snd f \<and> label_bytes ls = label_bytes ms'"
      unfolding entry_bytes_def append_assoc
      using fits by (simp only: framed_string_inj [OF fits(1,3)] framed_string_inj [OF fits(2,4)])
    then show ?thesis
      using Cons.IH [OF fits(5,6)] Cons by (simp add: prod_eq_iff)
  qed
qed

text \<open>
  The series fingerprint (\<open>Labels::fingerprint\<close>) is the FNV-1a hash of one byte string per label
  set, and no two label sets share that byte string: neither a delimiter inside a name or a value nor
  the order in which labels were inserted can make two different sets hash the same bytes.
\<close>

theorem fingerprint_encoding_injective:
  assumes "labels_fit ls" and "labels_fit ms"
  shows "labels_fingerprint ls = foldl fnv_step fnv_offset (label_bytes ls)
       \<and> (label_bytes ls = label_bytes ms \<longleftrightarrow> ls = ms)
       \<and> (set pairs = set pairs' \<and> distinct (map lp_name pairs) \<and> distinct (map lp_name pairs')
            \<longrightarrow> labels_fingerprint (from_pairs pairs) = labels_fingerprint (from_pairs pairs'))"
proof -
  have "from_pairs pairs = from_pairs pairs'"
    if p: "set pairs = set pairs'" "distinct (map lp_name pairs)" "distinct (map lp_name pairs')"
  proof (rule bt_eqI)
    let ?f = "\<lambda>pair. (lp_name pair, lp_value pair)"
    have "map_of (map ?f pairs) = map_of (map ?f pairs')"
      using p by (intro map_of_inject_set [THEN iffD2]) (simp_all add: comp_def)
    then show "bt_get (from_pairs pairs) = bt_get (from_pairs pairs')"
      using p by (simp add: from_pairs_get map_of_rev_distinct comp_def)
  qed (simp_all add: from_pairs_ok)
  then show ?thesis
    using label_bytes_inj [OF assms] labels_fingerprint_bytes by auto
qed

theorem fingerprint_encoding_injective_witness:
  "label_bytes [(''a'', ''b=c'')] \<noteq> label_bytes [(''a=b'', ''c'')]"
  using fingerprint_encoding_injective [of "[(''a'', ''b=c'')]" "[(''a=b'', ''c'')]" "[]" "[]"]
  by (simp add: labels_fit_def)

end
