(* ===== verification/Tenant_Index.thy ===== *)
theory Tenant_Index
  imports Labels Block_List_Spec
begin

text \<open>
  Label matchers (\<open>matcher.rs\<close>) and one tenant's series index (\<open>index/tenant_index.rs\<close>,
  \<open>index/resolve_selective.rs\<close>): series by fingerprint, and the label postings and value sets that
  are derived from them.  The regular expression engine is the parameter \<open>regex_new\<close>: the compiled
  matcher of a pattern, or \<open>None\<close> for a pattern that does not compile.
\<close>

type_synonym regex_engine = "string \<Rightarrow> (string \<Rightarrow> bool) option"

section \<open>Matchers\<close>

datatype match_op = Match_Eq | Match_Neq | Match_Re | Match_Nre

record label_matcher =
  mt_name :: string
  mt_op :: match_op
  mt_value :: string

record query_shard_selector =
  qs_index :: usize
  qs_total :: usize

datatype index_error =
    Bad_selector string
  | Bad_regex string
  | Shard_matcher_op
  | No_matcher
  | No_nonempty_matcher

abbreviation query_shard_label :: string where
  "query_shard_label \<equiv> ''__query_shard__''"

definition match_op_of_int :: "int \<Rightarrow> int + match_op" where
  "match_op_of_int n = (if n = 0 then Inr Match_Eq else if n = 1 then Inr Match_Neq
     else if n = 2 then Inr Match_Re else if n = 3 then Inr Match_Nre else Inl n)"

text \<open>\<open>str::find\<close> of a literal, and \<open>str::parse::<usize>\<close>.\<close>

fun find_sub :: "string \<Rightarrow> string \<Rightarrow> nat option" where
  "find_sub pat [] = (if pat = [] then Some 0 else None)"
| "find_sub pat (c # cs) =
     (if take (length pat) (c # cs) = pat then Some 0 else map_option Suc (find_sub pat cs))"

definition digit_value :: "char \<Rightarrow> nat option" where
  "digit_value c = (let n = of_char c in if 48 \<le> n \<and> n \<le> 57 then Some (n - 48) else None)"

fun parse_digits :: "nat \<Rightarrow> string \<Rightarrow> nat option" where
  "parse_digits acc [] = Some acc"
| "parse_digits acc (c # cs) =
     (case digit_value c of
        None \<Rightarrow> None
      | Some d \<Rightarrow> if acc * 10 + d > usize_max then None else parse_digits (acc * 10 + d) cs)"

definition parse_usize :: "string \<Rightarrow> nat option" where
  "parse_usize s =
     (let digits = (if take 1 s = ''+'' then drop 1 s else s)
      in if digits = [] then None else parse_digits 0 digits)"

definition parse_query_shard_selector :: "string \<Rightarrow> index_error + query_shard_selector" where
  "parse_query_shard_selector v =
     (case find_sub ''_of_'' v of
        None \<Rightarrow> Inl (Bad_selector v)
      | Some separator \<Rightarrow>
          (case parse_usize (take separator v) of
             None \<Rightarrow> Inl (Bad_selector v)
           | Some index \<Rightarrow>
               (case parse_usize (drop (separator + 4) v) of
                  None \<Rightarrow> Inl (Bad_selector v)
                | Some shards \<Rightarrow>
                    if index = 0 \<or> shards = 0 \<or> index > shards then Inl (Bad_selector v)
                    else Inr \<lparr>qs_index = index, qs_total = shards\<rparr>)))"

definition selector_matches :: "query_shard_selector \<Rightarrow> fingerprint \<Rightarrow> bool" where
  "selector_matches sel fp \<longleftrightarrow> unat fp mod qs_total sel = qs_index sel - 1"

definition anchored_regex :: "string \<Rightarrow> string" where
  "anchored_regex pattern = ''^(?:'' @ pattern @ '')$''"

definition compile_matcher :: "regex_engine \<Rightarrow> label_matcher \<Rightarrow> index_error + (string \<Rightarrow> bool)" where
  "compile_matcher regex_new m =
     (case regex_new (anchored_regex (mt_value m)) of
        None \<Rightarrow> Inl (Bad_regex (mt_value m))
      | Some is_match \<Rightarrow> Inr is_match)"

definition matcher_matches_empty :: "regex_engine \<Rightarrow> label_matcher \<Rightarrow> index_error + bool" where
  "matcher_matches_empty regex_new m =
     (case mt_op m of
        Match_Eq \<Rightarrow> Inr (mt_value m = [])
      | Match_Neq \<Rightarrow> Inr (mt_value m \<noteq> [])
      | Match_Re \<Rightarrow> map_sum id (\<lambda>is_match. is_match []) (compile_matcher regex_new m)
      | Match_Nre \<Rightarrow> map_sum id (\<lambda>is_match. \<not> is_match []) (compile_matcher regex_new m))"

section \<open>One tenant's index\<close>

record tenant_index =
  ti_series :: "(fingerprint, labels) btree_map"
  ti_postings :: "(string, (string, fingerprint btree_set) btree_map) btree_map"
  ti_values :: "(string, string btree_set) btree_map"
  ti_blocks :: block_list

definition tenant_default :: tenant_index where
  "tenant_default = \<lparr>ti_series = [], ti_postings = [], ti_values = [], ti_blocks = empty_list\<rparr>"

definition all_fingerprints :: "tenant_index \<Rightarrow> fingerprint btree_set" where
  "all_fingerprints ti = bs_collect (bt_keys (ti_series ti))"

definition add_pair :: "fingerprint \<Rightarrow> label_pair \<Rightarrow> tenant_index \<Rightarrow> tenant_index" where
  "add_pair fp pair ti =
     ti\<lparr>ti_postings := bt_update (lp_name pair) []
          (bt_update (lp_value pair) [] (bs_insert fp)) (ti_postings ti),
        ti_values := bt_update (lp_name pair) [] (bs_insert (lp_value pair)) (ti_values ti)\<rparr>"

definition tenant_add_series :: "fingerprint \<Rightarrow> labels \<Rightarrow> tenant_index \<Rightarrow> tenant_index" where
  "tenant_add_series fp ls ti =
     (if bt_get (ti_series ti) fp \<noteq> None then ti
      else fold (add_pair fp) (labels_iter ls) (ti\<lparr>ti_series := bt_insert fp ls (ti_series ti)\<rparr>))"

definition posting_of :: "tenant_index \<Rightarrow> string \<Rightarrow> string \<Rightarrow> fingerprint btree_set option" where
  "posting_of ti name v =
     (case bt_get (ti_postings ti) name of None \<Rightarrow> None | Some vs \<Rightarrow> bt_get vs v)"

definition exact_posting :: "tenant_index \<Rightarrow> string \<Rightarrow> string \<Rightarrow> fingerprint btree_set" where
  "exact_posting ti name v = (case posting_of ti name v of None \<Rightarrow> [] | Some fps \<Rightarrow> fps)"

definition present_fingerprints :: "tenant_index \<Rightarrow> string \<Rightarrow> fingerprint btree_set" where
  "present_fingerprints ti name =
     (case bt_get (ti_postings ti) name of
        None \<Rightarrow> []
      | Some vs \<Rightarrow> bs_collect (concat (map snd vs)))"

definition absent_fingerprints :: "tenant_index \<Rightarrow> string \<Rightarrow> fingerprint list" where
  "absent_fingerprints ti name =
     (let present = present_fingerprints ti name
      in filter (\<lambda>fp. fp \<notin> set present) (bt_keys (ti_series ti)))"

definition resolve_eq_empty :: "tenant_index \<Rightarrow> string \<Rightarrow> fingerprint btree_set" where
  "resolve_eq_empty ti name =
     bs_extend (exact_posting ti name []) (bs_collect (absent_fingerprints ti name))"

definition resolve_regex ::
  "regex_engine \<Rightarrow> tenant_index \<Rightarrow> label_matcher \<Rightarrow> index_error + fingerprint btree_set" where
  "resolve_regex regex_new ti m =
     (case compile_matcher regex_new m of
        Inl e \<Rightarrow> Inl e
      | Inr is_match \<Rightarrow>
          let absent = (if is_match [] then absent_fingerprints ti (mt_name m) else []);
              matched0 = bs_collect absent;
              matched = (case bt_get (ti_postings ti) (mt_name m) of
                  None \<Rightarrow> matched0
                | Some vs \<Rightarrow> fold (\<lambda>(v, fps) acc. if is_match v then bs_extend fps acc else acc) vs matched0)
          in if mt_op m = Match_Re then Inr matched
             else Inr (bs_diff (all_fingerprints ti) matched))"

definition resolve_query_shard ::
  "tenant_index \<Rightarrow> label_matcher \<Rightarrow> index_error + fingerprint btree_set" where
  "resolve_query_shard ti m =
     (case parse_query_shard_selector (mt_value m) of
        Inl e \<Rightarrow> Inl e
      | Inr sel \<Rightarrow>
          (case mt_op m of
             Match_Eq \<Rightarrow> Inr (bs_collect (filter (selector_matches sel) (bt_keys (ti_series ti))))
           | Match_Neq \<Rightarrow> Inr (bs_collect (filter (\<lambda>fp. \<not> selector_matches sel fp) (bt_keys (ti_series ti))))
           | _ \<Rightarrow> Inl Shard_matcher_op))"

definition resolve_one ::
  "regex_engine \<Rightarrow> tenant_index \<Rightarrow> label_matcher \<Rightarrow> index_error + fingerprint btree_set" where
  "resolve_one regex_new ti m =
     (if mt_name m = query_shard_label then resolve_query_shard ti m
      else case mt_op m of
        Match_Eq \<Rightarrow>
          if mt_value m = [] then Inr (resolve_eq_empty ti (mt_name m))
          else Inr (exact_posting ti (mt_name m) (mt_value m))
      | Match_Neq \<Rightarrow>
          let excluded = (if mt_value m = [] then resolve_eq_empty ti (mt_name m)
                          else exact_posting ti (mt_name m) (mt_value m))
          in Inr (bs_collect (filter (\<lambda>fp. fp \<notin> set excluded) (bt_keys (ti_series ti))))
      | _ \<Rightarrow> resolve_regex regex_new ti m)"

section \<open>Selective resolution\<close>

record selective_seed =
  sd_position :: nat
  sd_posting :: "fingerprint btree_set option"

definition posting_len :: "fingerprint btree_set option \<Rightarrow> nat" where
  "posting_len p = (case p of None \<Rightarrow> 0 | Some fps \<Rightarrow> length fps)"

definition seed_step ::
  "tenant_index \<Rightarrow> nat \<times> label_matcher \<Rightarrow> selective_seed option \<Rightarrow> selective_seed option" where
  "seed_step ti pm seed =
     (case pm of (position, m) \<Rightarrow>
        if mt_op m \<noteq> Match_Eq \<or> mt_value m = [] \<or> mt_name m = query_shard_label then seed
        else let candidate = \<lparr>sd_position = position,
                              sd_posting = posting_of ti (mt_name m) (mt_value m)\<rparr>
             in case seed of
                  None \<Rightarrow> Some candidate
                | Some best \<Rightarrow>
                    if posting_len (sd_posting candidate) < posting_len (sd_posting best)
                    then Some candidate else seed)"

definition is_regex_op :: "match_op \<Rightarrow> bool" where
  "is_regex_op op \<longleftrightarrow> op = Match_Re \<or> op = Match_Nre"

definition label_or_empty :: "tenant_index \<Rightarrow> string \<Rightarrow> fingerprint \<Rightarrow> string" where
  "label_or_empty ti name fp =
     (case bt_get (ti_series ti) fp of
        None \<Rightarrow> []
      | Some ls \<Rightarrow> (case labels_get ls name of None \<Rightarrow> [] | Some v \<Rightarrow> v))"

text \<open>\<open>None\<close> sends the query to sequential resolution.\<close>

definition retain_matching ::
  "regex_engine \<Rightarrow> tenant_index \<Rightarrow> label_matcher \<Rightarrow> fingerprint btree_set \<Rightarrow> fingerprint btree_set option" where
  "retain_matching regex_new ti m candidates =
     (if mt_name m = query_shard_label then
        (case parse_query_shard_selector (mt_value m) of
           Inl _ \<Rightarrow> None
         | Inr sel \<Rightarrow>
             (case mt_op m of
                Match_Eq \<Rightarrow> Some (filter (selector_matches sel) candidates)
              | Match_Neq \<Rightarrow> Some (filter (\<lambda>fp. \<not> selector_matches sel fp) candidates)
              | _ \<Rightarrow> None))
      else if is_regex_op (mt_op m) then
        (case compile_matcher regex_new m of
           Inl _ \<Rightarrow> None
         | Inr is_match \<Rightarrow>
             Some (filter (\<lambda>fp. is_match (label_or_empty ti (mt_name m) fp) = (mt_op m = Match_Re))
               candidates))
      else if mt_value m = [] then
        Some (filter (\<lambda>fp. (label_or_empty ti (mt_name m) fp = []) = (mt_op m = Match_Eq)) candidates)
      else
        (let posting = posting_of ti (mt_name m) (mt_value m)
         in Some (filter (\<lambda>fp. (case posting of None \<Rightarrow> False | Some p \<Rightarrow> fp \<in> set p)
                                 = (mt_op m = Match_Eq)) candidates)))"

definition retain_all ::
  "regex_engine \<Rightarrow> tenant_index \<Rightarrow> (nat \<Rightarrow> bool) \<Rightarrow> label_matcher list \<Rightarrow> fingerprint btree_set
     \<Rightarrow> fingerprint btree_set option" where
  "retain_all regex_new ti skip matchers candidates =
     fold_opt (\<lambda>(position, m) c. if skip position then Some c else retain_matching regex_new ti m c)
       (enumerate 0 matchers) candidates"

definition values_len :: "tenant_index \<Rightarrow> string \<Rightarrow> nat option" where
  "values_len ti name = map_option length (bt_get (ti_postings ti) name)"

definition regex_step ::
  "tenant_index \<Rightarrow> nat \<times> label_matcher \<Rightarrow> nat option \<Rightarrow> nat option option" where
  "regex_step ti pm regex_position =
     (case pm of (position, m) \<Rightarrow>
        if mt_name m \<noteq> query_shard_label \<and> is_regex_op (mt_op m)
           \<and> (case values_len ti (mt_name m) of None \<Rightarrow> False | Some n \<Rightarrow> length (ti_series ti) > n)
        then (if regex_position \<noteq> None then None else Some (Some position))
        else Some regex_position)"

definition resolve_tenantwide_regex ::
  "regex_engine \<Rightarrow> tenant_index \<Rightarrow> label_matcher list \<Rightarrow> nat \<Rightarrow> fingerprint btree_set option" where
  "resolve_tenantwide_regex regex_new ti matchers seed_position = do {
     found \<leftarrow> fold_opt (regex_step ti) (enumerate 0 matchers) None;
     regex_position \<leftarrow> found;
     if regex_position = seed_position then None
     else do {
       m \<leftarrow> nth_opt matchers regex_position;
       candidates \<leftarrow> (case resolve_regex regex_new ti m of Inl _ \<Rightarrow> None | Inr c \<Rightarrow> Some c);
       retain_all regex_new ti (\<lambda>position. position = seed_position \<or> position = regex_position)
         matchers candidates
     }
   }"

definition resolve_selective ::
  "regex_engine \<Rightarrow> tenant_index \<Rightarrow> label_matcher list \<Rightarrow> fingerprint btree_set option" where
  "resolve_selective regex_new ti matchers = do {
     seed \<leftarrow> fold (seed_step ti) (enumerate 0 matchers) None;
     let seed_len = posting_len (sd_posting seed);
     if (\<exists>m \<in> set matchers. is_regex_op (mt_op m)
           \<and> (case values_len ti (mt_name m) of None \<Rightarrow> False | Some n \<Rightarrow> seed_len > n))
     then (if seed_len \<noteq> length (ti_series ti) then None
           else resolve_tenantwide_regex regex_new ti matchers (sd_position seed))
     else retain_all regex_new ti (\<lambda>position. position = sd_position seed) matchers
            (case sd_posting seed of None \<Rightarrow> [] | Some p \<Rightarrow> p)
   }"

end
