(* ===== verification/Series_Index.thy ===== *)
theory Series_Index
  imports Tenant_Index
begin

text \<open>
  The multi-tenant index of \<open>index/index_type.rs\<close>: every operation of \<open>Index\<close> that does not touch
  the object store.  An operation that reaches a block list returns an option, \<open>None\<close> being a
  panic; a selector that cannot be resolved is an error value.
\<close>

record series_index =
  ix_tenants :: "(string, tenant_index) btree_map"

definition index_new :: series_index where
  "index_new = \<lparr>ix_tenants = []\<rparr>"

definition index_add_series :: "string \<Rightarrow> fingerprint \<Rightarrow> labels \<Rightarrow> series_index \<Rightarrow> series_index" where
  "index_add_series tenant fp ls ix =
     ix\<lparr>ix_tenants := bt_update tenant tenant_default (tenant_add_series fp ls) (ix_tenants ix)\<rparr>"

text \<open>\<open>entry(tenant).or_default()\<close>, then a fallible update of its block list.\<close>

definition update_blocks ::
  "string \<Rightarrow> (block_list \<Rightarrow> block_list option) \<Rightarrow> series_index \<Rightarrow> series_index option" where
  "update_blocks tenant f ix =
     (let ti = (case bt_get (ix_tenants ix) tenant of None \<Rightarrow> tenant_default | Some ti \<Rightarrow> ti)
      in do {
        blocks \<leftarrow> f (ti_blocks ti);
        Some (ix\<lparr>ix_tenants := bt_insert tenant (ti\<lparr>ti_blocks := blocks\<rparr>) (ix_tenants ix)\<rparr>)
      })"

definition index_add_block :: "block_meta \<Rightarrow> series_index \<Rightarrow> series_index option" where
  "index_add_block meta ix = update_blocks (bm_tenant meta) (insert_block meta) ix"

section \<open>Resolution\<close>

fun has_non_empty_matcher :: "regex_engine \<Rightarrow> label_matcher list \<Rightarrow> index_error + bool" where
  "has_non_empty_matcher regex_new [] = Inr False"
| "has_non_empty_matcher regex_new (m # ms) =
     (if mt_name m = query_shard_label then has_non_empty_matcher regex_new ms
      else case matcher_matches_empty regex_new m of
        Inl e \<Rightarrow> Inl e
      | Inr matches_empty \<Rightarrow> if \<not> matches_empty then Inr True else has_non_empty_matcher regex_new ms)"

fun resolve_rest ::
  "regex_engine \<Rightarrow> tenant_index \<Rightarrow> fingerprint btree_set \<Rightarrow> label_matcher list
     \<Rightarrow> index_error + fingerprint btree_set" where
  "resolve_rest regex_new ti resolved [] = Inr resolved"
| "resolve_rest regex_new ti resolved (m # ms) =
     (case resolve_one regex_new ti m of
        Inl e \<Rightarrow> Inl e
      | Inr matched \<Rightarrow>
          let resolved' = bs_inter resolved matched
          in if resolved' = [] then Inr resolved' else resolve_rest regex_new ti resolved' ms)"

fun resolve_in_order ::
  "regex_engine \<Rightarrow> tenant_index \<Rightarrow> label_matcher list \<Rightarrow> index_error + fingerprint btree_set" where
  "resolve_in_order regex_new ti [] = Inl No_matcher"
| "resolve_in_order regex_new ti (m # ms) =
     (case resolve_one regex_new ti m of
        Inl e \<Rightarrow> Inl e
      | Inr resolved \<Rightarrow> resolve_rest regex_new ti resolved ms)"

definition resolve ::
  "regex_engine \<Rightarrow> series_index \<Rightarrow> string \<Rightarrow> label_matcher list \<Rightarrow> index_error + fingerprint btree_set" where
  "resolve regex_new ix tenant matchers =
     (if matchers = [] then Inl No_matcher
      else case has_non_empty_matcher regex_new matchers of
        Inl e \<Rightarrow> Inl e
      | Inr False \<Rightarrow> Inl No_nonempty_matcher
      | Inr True \<Rightarrow>
          (case bt_get (ix_tenants ix) tenant of
             None \<Rightarrow> Inr []
           | Some ti \<Rightarrow>
               (case (if length matchers > 1 then resolve_selective regex_new ti matchers else None) of
                  Some resolved \<Rightarrow> Inr resolved
                | None \<Rightarrow> resolve_in_order regex_new ti matchers)))"

definition matching_fingerprints ::
  "regex_engine \<Rightarrow> series_index \<Rightarrow> string \<Rightarrow> label_matcher list \<Rightarrow> index_error + fingerprint btree_set" where
  "matching_fingerprints regex_new ix tenant matchers =
     (case bt_get (ix_tenants ix) tenant of
        None \<Rightarrow> Inr []
      | Some ti \<Rightarrow> if matchers = [] then Inr (all_fingerprints ti)
                   else resolve regex_new ix tenant matchers)"

section \<open>Series and labels\<close>

definition index_series ::
  "regex_engine \<Rightarrow> series_index \<Rightarrow> string \<Rightarrow> label_matcher list \<Rightarrow> index_error + labels list" where
  "index_series regex_new ix tenant matchers =
     (case bt_get (ix_tenants ix) tenant of
        None \<Rightarrow> Inr []
      | Some ti \<Rightarrow>
          map_sum id (List.map_filter (bt_get (ti_series ti)))
            (if matchers = [] then Inr (all_fingerprints ti) else resolve regex_new ix tenant matchers))"

definition label_names :: "series_index \<Rightarrow> string \<Rightarrow> string list" where
  "label_names ix tenant =
     (case bt_get (ix_tenants ix) tenant of None \<Rightarrow> [] | Some ti \<Rightarrow> bt_keys (ti_values ti))"

definition label_values :: "series_index \<Rightarrow> string \<Rightarrow> string \<Rightarrow> string list" where
  "label_values ix tenant name =
     (case bt_get (ix_tenants ix) tenant of
        None \<Rightarrow> []
      | Some ti \<Rightarrow> (case bt_get (ti_values ti) name of None \<Rightarrow> [] | Some vs \<Rightarrow> vs))"

definition label_names_for_fingerprints ::
  "series_index \<Rightarrow> string \<Rightarrow> fingerprint btree_set \<Rightarrow> string list" where
  "label_names_for_fingerprints ix tenant fps =
     (case bt_get (ix_tenants ix) tenant of
        None \<Rightarrow> []
      | Some ti \<Rightarrow>
          fold (\<lambda>fp names. case bt_get (ti_series ti) fp of
              None \<Rightarrow> names
            | Some ls \<Rightarrow> bs_extend (map lp_name (labels_iter ls)) names) fps [])"

definition label_names_for ::
  "regex_engine \<Rightarrow> series_index \<Rightarrow> string \<Rightarrow> label_matcher list \<Rightarrow> index_error + string list" where
  "label_names_for regex_new ix tenant matchers =
     map_sum id (label_names_for_fingerprints ix tenant) (matching_fingerprints regex_new ix tenant matchers)"

definition label_values_for_fingerprints ::
  "series_index \<Rightarrow> string \<Rightarrow> string \<Rightarrow> fingerprint btree_set \<Rightarrow> string list" where
  "label_values_for_fingerprints ix tenant name fps =
     (case bt_get (ix_tenants ix) tenant of
        None \<Rightarrow> []
      | Some ti \<Rightarrow>
          fold (\<lambda>fp vs. case bt_get (ti_series ti) fp of
              None \<Rightarrow> vs
            | Some ls \<Rightarrow> (case labels_get ls name of None \<Rightarrow> vs | Some v \<Rightarrow> bs_insert v vs)) fps [])"

definition label_values_for ::
  "regex_engine \<Rightarrow> series_index \<Rightarrow> string \<Rightarrow> string \<Rightarrow> label_matcher list \<Rightarrow> index_error + string list" where
  "label_values_for regex_new ix tenant name matchers =
     map_sum id (label_values_for_fingerprints ix tenant name)
       (matching_fingerprints regex_new ix tenant matchers)"

definition project_labels :: "string list \<Rightarrow> labels \<Rightarrow> label_pair list" where
  "project_labels names ls =
     sort (if names = [] then labels_iter ls
           else List.map_filter (\<lambda>name. map_option (\<lambda>v. \<lparr>lp_name = name, lp_value = v\<rparr>)
                  (labels_get ls name)) names)"

definition series_for_fingerprints ::
  "series_index \<Rightarrow> string \<Rightarrow> fingerprint btree_set \<Rightarrow> string list \<Rightarrow> label_pair list list" where
  "series_for_fingerprints ix tenant fps names =
     (case bt_get (ix_tenants ix) tenant of
        None \<Rightarrow> []
      | Some ti \<Rightarrow>
          fold (\<lambda>fp out. case bt_get (ti_series ti) fp of
              None \<Rightarrow> out
            | Some ls \<Rightarrow>
                let projected = project_labels names ls
                in if projected = [] then out else bs_insert projected out) fps [])"

definition series_projected ::
  "regex_engine \<Rightarrow> series_index \<Rightarrow> string \<Rightarrow> label_matcher list \<Rightarrow> string list
     \<Rightarrow> index_error + label_pair list list" where
  "series_projected regex_new ix tenant matchers names =
     map_sum id (\<lambda>fps. series_for_fingerprints ix tenant fps names)
       (matching_fingerprints regex_new ix tenant matchers)"

section \<open>Blocks\<close>

definition with_blocks :: "series_index \<Rightarrow> string \<Rightarrow> 'a \<Rightarrow> (block_list \<Rightarrow> 'a option) \<Rightarrow> 'a option" where
  "with_blocks ix tenant none f =
     (case bt_get (ix_tenants ix) tenant of None \<Rightarrow> Some none | Some ti \<Rightarrow> f (ti_blocks ti))"

definition index_candidate_blocks ::
  "series_index \<Rightarrow> string \<Rightarrow> fingerprint btree_set \<Rightarrow> i64 \<Rightarrow> i64 \<Rightarrow> string list option" where
  "index_candidate_blocks ix tenant fps min_ts max_ts =
     with_blocks ix tenant [] (\<lambda>bl. candidate_blocks bl fps min_ts max_ts)"

definition candidate_blocks_for_series ::
  "series_index \<Rightarrow> string \<Rightarrow> fingerprint btree_set \<Rightarrow> i64 \<Rightarrow> i64 \<Rightarrow> string list option" where
  "candidate_blocks_for_series ix tenant fps min_ts max_ts =
     index_candidate_blocks ix tenant fps min_ts max_ts"

definition all_blocks :: "series_index \<Rightarrow> string \<Rightarrow> block_meta list option" where
  "all_blocks ix tenant = with_blocks ix tenant [] (\<lambda>bl. metas bl tenant)"

definition index_block_time_bounds ::
  "series_index \<Rightarrow> string \<Rightarrow> i64 \<Rightarrow> i64 \<Rightarrow> block_time_bounds option option" where
  "index_block_time_bounds ix tenant min_ts max_ts =
     with_blocks ix tenant None (\<lambda>bl. time_bounds bl min_ts max_ts)"

definition index_blocks_in_range :: "series_index \<Rightarrow> string \<Rightarrow> i64 \<Rightarrow> i64 \<Rightarrow> string list option" where
  "index_blocks_in_range ix tenant min_ts max_ts =
     with_blocks ix tenant [] (\<lambda>bl. blocks_in_range bl min_ts max_ts)"

definition block_count :: "series_index \<Rightarrow> string \<Rightarrow> nat" where
  "block_count ix tenant =
     (case bt_get (ix_tenants ix) tenant of None \<Rightarrow> 0 | Some ti \<Rightarrow> list_len (ti_blocks ti))"

fun find_level :: "string \<Rightarrow> tenant_index list \<Rightarrow> block_level option option" where
  "find_level key [] = Some None"
| "find_level key (ti # tis) = do {
     found \<leftarrow> level_of (ti_blocks ti) key;
     case found of Some level \<Rightarrow> Some (Some level) | None \<Rightarrow> find_level key tis
   }"

definition index_block_level :: "series_index \<Rightarrow> string \<Rightarrow> block_level option option" where
  "index_block_level ix key = find_level key (map snd (ix_tenants ix))"

definition all_blocks_unscoped :: "series_index \<Rightarrow> block_meta list option" where
  "all_blocks_unscoped ix =
     map_option concat (map_opt (\<lambda>(tenant, ti). metas (ti_blocks ti) tenant) (ix_tenants ix))"

definition replace_blocks :: "string \<Rightarrow> string list \<Rightarrow> block_meta list \<Rightarrow> series_index \<Rightarrow> series_index option" where
  "replace_blocks tenant remove_keys add ix =
     update_blocks tenant (\<lambda>bl. do {
       (_, bl') \<leftarrow> remove_blocks (bs_collect remove_keys) bl;
       fold_opt insert_block add bl'
     }) ix"

definition index_remove_blocks :: "string \<Rightarrow> string list \<Rightarrow> series_index \<Rightarrow> (nat \<times> series_index) option" where
  "index_remove_blocks tenant keys ix =
     (case bt_get (ix_tenants ix) tenant of
        None \<Rightarrow> Some (0, ix)
      | Some ti \<Rightarrow> do {
          (removed, blocks) \<leftarrow> remove_blocks (bs_collect keys) (ti_blocks ti);
          Some (removed, ix\<lparr>ix_tenants := bt_insert tenant (ti\<lparr>ti_blocks := blocks\<rparr>) (ix_tenants ix)\<rparr>)
        })"

definition merge_tenant :: "string \<times> tenant_index \<Rightarrow> series_index \<Rightarrow> series_index option" where
  "merge_tenant entry ix =
     (case entry of (tenant, ti) \<Rightarrow>
        let ix' = fold (\<lambda>(fp, ls). index_add_series tenant fp ls) (ti_series ti) ix
        in do {
          ms \<leftarrow> metas (ti_blocks ti) tenant;
          fold_opt index_add_block ms ix'
        })"

definition merge_from :: "series_index \<Rightarrow> series_index \<Rightarrow> series_index option" where
  "merge_from other ix = fold_opt merge_tenant (ix_tenants other) ix"

section \<open>Per-tenant readers\<close>

definition series_count :: "series_index \<Rightarrow> string \<Rightarrow> nat" where
  "series_count ix tenant =
     (case bt_get (ix_tenants ix) tenant of None \<Rightarrow> 0 | Some ti \<Rightarrow> length (ti_series ti))"

definition tenant_names :: "series_index \<Rightarrow> string list" where
  "tenant_names ix = bt_keys (ix_tenants ix)"

definition series_pairs :: "series_index \<Rightarrow> string \<Rightarrow> (fingerprint \<times> labels) list" where
  "series_pairs ix tenant =
     (case bt_get (ix_tenants ix) tenant of None \<Rightarrow> [] | Some ti \<Rightarrow> ti_series ti)"

definition series_labels :: "series_index \<Rightarrow> string \<Rightarrow> fingerprint \<Rightarrow> labels option" where
  "series_labels ix tenant fp =
     (case bt_get (ix_tenants ix) tenant of None \<Rightarrow> None | Some ti \<Rightarrow> bt_get (ti_series ti) fp)"

definition unbound_series :: "series_index \<Rightarrow> string \<Rightarrow> (fingerprint \<times> labels) list option" where
  "unbound_series ix tenant =
     (case bt_get (ix_tenants ix) tenant of
        None \<Rightarrow> Some []
      | Some ti \<Rightarrow> do {
          bound \<leftarrow> live_fingerprints (ti_blocks ti);
          Some (filter (\<lambda>(fp, ls). fp \<notin> set bound) (ti_series ti))
        })"

end
