(* ===== verification/Tenant_Index_Spec.thy ===== *)
theory Tenant_Index_Spec
  imports Tenant_Index
begin

text \<open>
  The label postings and value sets of a tenant follow its series, and every resolver of
  \<open>tenant_index.rs\<close> and \<open>resolve_selective.rs\<close> returns the series a matcher selects.
\<close>

section \<open>The invariant\<close>

definition carries :: "tenant_index \<Rightarrow> fingerprint \<Rightarrow> string \<Rightarrow> string \<Rightarrow> bool" where
  "carries ti fp name v \<longleftrightarrow> (\<exists>ls. bt_get (ti_series ti) fp = Some ls \<and> bt_get ls name = Some v)"

definition postings_ok :: "(string, (string, fingerprint btree_set) btree_map) btree_map \<Rightarrow> bool" where
  "postings_ok ps \<longleftrightarrow> bt_ok ps \<and> (\<forall>name vs. bt_get ps name = Some vs \<longrightarrow>
     bt_ok vs \<and> (\<forall>v fps. bt_get vs v = Some fps \<longrightarrow> bs_ok fps))"

definition values_ok :: "(string, string btree_set) btree_map \<Rightarrow> bool" where
  "values_ok vals \<longleftrightarrow> bt_ok vals \<and> (\<forall>name vs. bt_get vals name = Some vs \<longrightarrow> bs_ok vs \<and> vs \<noteq> [])"

definition value_set :: "tenant_index \<Rightarrow> string \<Rightarrow> string set" where
  "value_set ti name = (case bt_get (ti_values ti) name of None \<Rightarrow> {} | Some vs \<Rightarrow> set vs)"

definition series_wf :: "tenant_index \<Rightarrow> bool" where
  "series_wf ti \<longleftrightarrow> bt_ok (ti_series ti)
     \<and> (\<forall>fp ls. bt_get (ti_series ti) fp = Some ls \<longrightarrow> bt_ok ls)
     \<and> postings_ok (ti_postings ti) \<and> values_ok (ti_values ti)
     \<and> (\<forall>fp name v. fp \<in> set (exact_posting ti name v) \<longleftrightarrow> carries ti fp name v)
     \<and> (\<forall>name v. v \<in> value_set ti name \<longleftrightarrow> (\<exists>fp. carries ti fp name v))"

lemma series_wf_default: "series_wf tenant_default"
  by (simp add: series_wf_def tenant_default_def postings_ok_def values_ok_def exact_posting_def
      posting_of_def carries_def value_set_def)

lemma add_pair_ok:
  assumes "postings_ok (ti_postings ti)" and "values_ok (ti_values ti)"
  shows "postings_ok (ti_postings (add_pair fp pair ti))" and "values_ok (ti_values (add_pair fp pair ti))"
    and "ti_series (add_pair fp pair ti) = ti_series ti"
    and "ti_blocks (add_pair fp pair ti) = ti_blocks ti"
    and "set (exact_posting (add_pair fp pair ti) name v) = set (exact_posting ti name v)
           \<union> (if name = lp_name pair \<and> v = lp_value pair then {fp} else {})"
    and "value_set (add_pair fp pair ti) name = value_set ti name
           \<union> (if name = lp_name pair then {lp_value pair} else {})"
proof -
  show "ti_series (add_pair fp pair ti) = ti_series ti" "ti_blocks (add_pair fp pair ti) = ti_blocks ti"
    by (simp_all add: add_pair_def)
  show "postings_ok (ti_postings (add_pair fp pair ti))"
    using assms(1) by (auto simp: add_pair_def postings_ok_def bt_ok_update bs_ok_insert split: option.splits if_splits)
  show "values_ok (ti_values (add_pair fp pair ti))"
    using assms(2)
    by (auto simp: add_pair_def values_ok_def bt_ok_update bs_ok_insert split: option.splits if_splits
        dest: arg_cong [where f = set])
  show "set (exact_posting (add_pair fp pair ti) name v) = set (exact_posting ti name v)
      \<union> (if name = lp_name pair \<and> v = lp_value pair then {fp} else {})"
    by (auto simp: exact_posting_def posting_of_def add_pair_def split: option.splits if_splits)
  show "value_set (add_pair fp pair ti) name = value_set ti name
      \<union> (if name = lp_name pair then {lp_value pair} else {})"
    by (auto simp: value_set_def add_pair_def split: option.splits)
qed

lemma add_pairs_ok:
  assumes "postings_ok (ti_postings ti)" and "values_ok (ti_values ti)"
  shows "postings_ok (ti_postings (fold (add_pair fp) pairs ti))
    \<and> values_ok (ti_values (fold (add_pair fp) pairs ti))
    \<and> ti_series (fold (add_pair fp) pairs ti) = ti_series ti
    \<and> ti_blocks (fold (add_pair fp) pairs ti) = ti_blocks ti
    \<and> (\<forall>name v. set (exact_posting (fold (add_pair fp) pairs ti) name v) = set (exact_posting ti name v)
          \<union> (if \<lparr>lp_name = name, lp_value = v\<rparr> \<in> set pairs then {fp} else {}))
    \<and> (\<forall>name. value_set (fold (add_pair fp) pairs ti) name = value_set ti name
          \<union> {v. \<lparr>lp_name = name, lp_value = v\<rparr> \<in> set pairs})"
  using assms
proof (induction pairs arbitrary: ti)
  case (Cons pair pairs)
  have pair: "pair = \<lparr>lp_name = name, lp_value = v\<rparr> \<longleftrightarrow> name = lp_name pair \<and> v = lp_value pair" for name v
    by (cases pair) auto
  show ?case
    using Cons.IH [OF add_pair_ok(1,2) [OF Cons.prems], of fp pair] add_pair_ok(3-6) [OF Cons.prems]
    by (auto simp: pair eq_commute [of _ pair])
qed simp

lemma labels_iter_mem:
  assumes "bt_ok ls"
  shows "\<lparr>lp_name = name, lp_value = v\<rparr> \<in> set (labels_iter ls) \<longleftrightarrow> bt_get ls name = Some v"
  using bt_ok_distinct [OF assms] by (force simp: labels_iter_def)

lemma tenant_add_series_ok:
  assumes wf: "series_wf ti" and ls: "bt_ok ls"
  shows "series_wf (tenant_add_series fp ls ti)"
    and "bt_get (ti_series (tenant_add_series fp ls ti))
       = (if bt_get (ti_series ti) fp = None then (bt_get (ti_series ti))(fp \<mapsto> ls) else bt_get (ti_series ti))"
    and "ti_blocks (tenant_add_series fp ls ti) = ti_blocks ti"
proof -
  let ?ti = "ti\<lparr>ti_series := bt_insert fp ls (ti_series ti)\<rparr>"
  have "postings_ok (ti_postings ?ti)" "values_ok (ti_values ?ti)"
    using wf by (simp_all add: series_wf_def)
  note fold = add_pairs_ok [OF this, of fp "labels_iter ls"]
  show "bt_get (ti_series (tenant_add_series fp ls ti))
      = (if bt_get (ti_series ti) fp = None then (bt_get (ti_series ti))(fp \<mapsto> ls) else bt_get (ti_series ti))"
    "ti_blocks (tenant_add_series fp ls ti) = ti_blocks ti"
    using fold by (simp_all add: tenant_add_series_def)
  show "series_wf (tenant_add_series fp ls ti)"
  proof (cases "bt_get (ti_series ti) fp = None")
    case True
    let ?new = "fold (add_pair fp) (labels_iter ls) ?ti"
    have series: "bt_get (ti_series ?new) = (bt_get (ti_series ti))(fp \<mapsto> ls)"
      using fold by simp
    have carries: "carries ?new f name v \<longleftrightarrow> carries ti f name v \<or> f = fp \<and> bt_get ls name = Some v" for f name v
      using True by (auto simp: carries_def series)
    have old: "set (exact_posting ?ti name v) = set (exact_posting ti name v)" "value_set ?ti name = value_set ti name"
      for name v by (simp_all add: exact_posting_def posting_of_def value_set_def)
    have "series_wf ?new"
      unfolding series_wf_def carries series
      using wf ls fold by (auto simp: series_wf_def bt_ok_insert labels_iter_mem [OF ls] old split: if_splits)
    then show ?thesis using True by (simp add: tenant_add_series_def)
  qed (use wf in \<open>simp add: tenant_add_series_def\<close>)
qed

section \<open>What a matcher selects\<close>

definition value_or_empty :: "labels \<Rightarrow> string \<Rightarrow> string" where
  "value_or_empty ls name = (case bt_get ls name of None \<Rightarrow> [] | Some v \<Rightarrow> v)"

lemma value_or_empty_iff:
  "f (value_or_empty ls name) \<longleftrightarrow>
     f [] \<and> bt_get ls name = None \<or> (\<exists>v. f v \<and> bt_get ls name = Some v)"
  by (cases "bt_get ls name") (auto simp: value_or_empty_def)

text \<open>Prometheus semantics: an absent label has the empty value.\<close>

definition matcher_holds :: "regex_engine \<Rightarrow> label_matcher \<Rightarrow> fingerprint \<Rightarrow> labels \<Rightarrow> bool" where
  "matcher_holds regex_new m fp ls =
     (if mt_name m = query_shard_label then
        (case parse_query_shard_selector (mt_value m) of
           Inl _ \<Rightarrow> False
         | Inr sel \<Rightarrow> selector_matches sel fp = (mt_op m = Match_Eq))
      else (case mt_op m of
          Match_Eq \<Rightarrow> value_or_empty ls (mt_name m) = mt_value m
        | Match_Neq \<Rightarrow> value_or_empty ls (mt_name m) \<noteq> mt_value m
        | _ \<Rightarrow> (case regex_new (anchored_regex (mt_value m)) of
             None \<Rightarrow> False
           | Some is_match \<Rightarrow> is_match (value_or_empty ls (mt_name m)) = (mt_op m = Match_Re))))"

definition matcher_valid :: "regex_engine \<Rightarrow> label_matcher \<Rightarrow> bool" where
  "matcher_valid regex_new m =
     (if mt_name m = query_shard_label
      then (\<exists>sel. parse_query_shard_selector (mt_value m) = Inr sel) \<and> \<not> is_regex_op (mt_op m)
      else is_regex_op (mt_op m) \<longrightarrow> regex_new (anchored_regex (mt_value m)) \<noteq> None)"

definition selected :: "regex_engine \<Rightarrow> tenant_index \<Rightarrow> label_matcher \<Rightarrow> fingerprint set" where
  "selected regex_new ti m =
     {fp. \<exists>ls. bt_get (ti_series ti) fp = Some ls \<and> matcher_holds regex_new m fp ls}"

lemma set_bt_keys: "fst ` set m = dom (bt_get m)"
  by (simp add: dom_map_of_conv_image_fst)

lemma all_fingerprints_ok:
  "bs_ok (all_fingerprints ti)" "set (all_fingerprints ti) = dom (bt_get (ti_series ti))"
  by (simp_all add: all_fingerprints_def bs_ok_extend set_bt_keys)

lemma mem_exact_posting:
  "fp \<in> set (exact_posting ti name v) \<longleftrightarrow>
     (\<exists>vs fps. bt_get (ti_postings ti) name = Some vs \<and> bt_get vs v = Some fps \<and> fp \<in> set fps)"
proof (cases "bt_get (ti_postings ti) name")
  case (Some vs)
  then show ?thesis
    by (cases "bt_get vs v") (simp_all add: exact_posting_def posting_of_def)
qed (simp add: exact_posting_def posting_of_def)

lemma exact_posting_set:
  "series_wf ti \<Longrightarrow> set (exact_posting ti name v)
     = {fp. \<exists>ls. bt_get (ti_series ti) fp = Some ls \<and> bt_get ls name = Some v}"
  unfolding series_wf_def carries_def by blast

lemma exact_posting_bs_ok: "series_wf ti \<Longrightarrow> bs_ok (exact_posting ti name v)"
  by (auto simp: series_wf_def postings_ok_def exact_posting_def posting_of_def split: option.splits)

lemma present_fingerprints_set:
  assumes wf: "series_wf ti"
  shows "set (present_fingerprints ti name)
     = {fp. \<exists>ls v. bt_get (ti_series ti) fp = Some ls \<and> bt_get ls name = Some v}"
proof -
  have "set (present_fingerprints ti name) = (\<Union>v. set (exact_posting ti name v))"
  proof (cases "bt_get (ti_postings ti) name")
    case (Some vs)
    then have "bt_ok vs" using wf by (auto simp: series_wf_def postings_ok_def)
    then have mem: "(v, fps) \<in> set vs \<longleftrightarrow> bt_get vs v = Some fps" for v fps
      using bt_ok_distinct by fastforce
    have "fp \<in> set (present_fingerprints ti name) \<longleftrightarrow> (\<exists>v fps. (v, fps) \<in> set vs \<and> fp \<in> set fps)" for fp
      using Some by (force simp: present_fingerprints_def)
    then show ?thesis
      using Some by (simp add: set_eq_iff mem mem_exact_posting)
  qed (simp add: present_fingerprints_def exact_posting_def posting_of_def)
  then show ?thesis using exact_posting_set [OF wf] by auto
qed

lemma absent_fingerprints_set:
  "series_wf ti \<Longrightarrow> set (absent_fingerprints ti name)
     = {fp. \<exists>ls. bt_get (ti_series ti) fp = Some ls \<and> bt_get ls name = None}"
  by (auto simp: absent_fingerprints_def Let_def present_fingerprints_set set_bt_keys)

lemma resolve_eq_empty_ok:
  assumes wf: "series_wf ti"
  shows "bs_ok (resolve_eq_empty ti name)"
    and "set (resolve_eq_empty ti name)
       = {fp. \<exists>ls. bt_get (ti_series ti) fp = Some ls \<and> value_or_empty ls name = []}"
  by (auto simp: resolve_eq_empty_def bs_ok_extend absent_fingerprints_set [OF wf]
      exact_posting_set [OF wf] value_or_empty_def split: option.splits)

lemma fold_matching_values:
  "bs_ok acc \<Longrightarrow> bs_ok (fold (\<lambda>(v, fps) acc. if f v then bs_extend fps acc else acc) vs acc)
     \<and> set (fold (\<lambda>(v, fps) acc. if f v then bs_extend fps acc else acc) vs acc)
         = set acc \<union> {fp. \<exists>v fps. (v, fps) \<in> set vs \<and> f v \<and> fp \<in> set fps}"
proof (induction vs arbitrary: acc)
  case (Cons p vs)
  then show ?case
    by (cases p) (auto simp: bs_ok_extend)
qed simp

lemma resolve_regex_ok:
  assumes wf: "series_wf ti" and f: "regex_new (anchored_regex (mt_value m)) = Some f"
  shows "\<exists>r. resolve_regex regex_new ti m = Inr r \<and> bs_ok r
       \<and> set r = {fp. \<exists>ls. bt_get (ti_series ti) fp = Some ls
            \<and> f (value_or_empty ls (mt_name m)) = (mt_op m = Match_Re)}"
proof -
  let ?m0 = "bs_collect (if f [] then absent_fingerprints ti (mt_name m) else [])"
  define matched where "matched = (case bt_get (ti_postings ti) (mt_name m) of
      None \<Rightarrow> ?m0
    | Some vs \<Rightarrow> fold (\<lambda>(v, fps) acc. if f v then bs_extend fps acc else acc) vs ?m0)"
  have ok: "bs_ok matched"
    by (auto simp: matched_def bs_ok_extend fold_matching_values split: option.splits)
  have "set matched = set ?m0 \<union> (\<Union>v \<in> {v. f v}. set (exact_posting ti (mt_name m) v))"
  proof (cases "bt_get (ti_postings ti) (mt_name m)")
    case (Some vs)
    then have "bt_ok vs" using wf by (auto simp: series_wf_def postings_ok_def)
    then have mem: "(v, fps) \<in> set vs \<longleftrightarrow> bt_get vs v = Some fps" for v fps
      using bt_ok_distinct by fastforce
    have "{fp. \<exists>v fps. (v, fps) \<in> set vs \<and> f v \<and> fp \<in> set fps}
        = (\<Union>v \<in> {v. f v}. set (exact_posting ti (mt_name m) v))"
      by (simp add: set_eq_iff mem mem_exact_posting Some) blast
    then show ?thesis
      using Some fold_matching_values [of ?m0 f vs] by (simp add: matched_def bs_ok_extend)
  qed (simp add: matched_def exact_posting_def posting_of_def)
  then have mem: "fp \<in> set matched \<longleftrightarrow> (\<exists>ls. bt_get (ti_series ti) fp = Some ls
      \<and> (f [] \<and> bt_get ls (mt_name m) = None \<or> (\<exists>v. f v \<and> bt_get ls (mt_name m) = Some v)))" for fp
    by (auto simp: absent_fingerprints_set [OF wf] exact_posting_set [OF wf])
  have "fp \<in> set matched \<longleftrightarrow> (\<exists>ls. bt_get (ti_series ti) fp = Some ls \<and> f (value_or_empty ls (mt_name m)))" for fp
    unfolding mem by (simp add: value_or_empty_iff [of f])
  then have set_matched: "set matched
      = {fp. \<exists>ls. bt_get (ti_series ti) fp = Some ls \<and> f (value_or_empty ls (mt_name m))}"
    by blast
  have "resolve_regex regex_new ti m = Inr (if mt_op m = Match_Re then matched
      else bs_diff (all_fingerprints ti) matched)"
    by (simp add: resolve_regex_def compile_matcher_def f Let_def matched_def)
  then show ?thesis
    using ok set_matched by (auto simp: all_fingerprints_ok bs_ok_diff)
qed

lemma resolve_one_ok:
  assumes wf: "series_wf ti" and valid: "matcher_valid regex_new m"
  shows "\<exists>r. resolve_one regex_new ti m = Inr r \<and> bs_ok r \<and> set r = selected regex_new ti m"
proof (cases "mt_name m = query_shard_label")
  case True
  then obtain sel where "parse_query_shard_selector (mt_value m) = Inr sel" "\<not> is_regex_op (mt_op m)"
    using valid by (auto simp: matcher_valid_def)
  then show ?thesis
    using True by (cases "mt_op m")
      (auto simp: resolve_one_def resolve_query_shard_def selected_def matcher_holds_def bs_ok_extend
        is_regex_op_def set_bt_keys)
next
  case False
  show ?thesis
  proof (cases "is_regex_op (mt_op m)")
    case True
    then obtain f where f: "regex_new (anchored_regex (mt_value m)) = Some f"
      using valid False by (auto simp: matcher_valid_def)
    have "resolve_one regex_new ti m = resolve_regex regex_new ti m"
      using True False by (auto simp: resolve_one_def is_regex_op_def)
    moreover have "selected regex_new ti m = {fp. \<exists>ls. bt_get (ti_series ti) fp = Some ls
        \<and> f (value_or_empty ls (mt_name m)) = (mt_op m = Match_Re)}"
      using True False f by (auto simp: selected_def matcher_holds_def is_regex_op_def)
    ultimately show ?thesis
      using resolve_regex_ok [OF wf, of regex_new m f] f by simp
  next
    case plain: False
    have eq: "value_or_empty ls name = v \<longleftrightarrow> bt_get ls name = Some v" if "v \<noteq> []" for ls name v
      using that by (auto simp: value_or_empty_def split: option.splits)
    show ?thesis
      using False plain
      by (cases "mt_op m"; cases "mt_value m = []")
        (auto simp: resolve_one_def selected_def matcher_holds_def is_regex_op_def Let_def eq
          resolve_eq_empty_ok [OF wf] exact_posting_bs_ok [OF wf] exact_posting_set [OF wf] bs_ok_extend
          set_bt_keys)
  qed
qed

lemma resolve_one_invalid:
  "\<not> matcher_valid regex_new m \<Longrightarrow> \<exists>e. resolve_one regex_new ti m = Inl e"
  by (cases "parse_query_shard_selector (mt_value m)"; cases "mt_op m")
    (auto simp: matcher_valid_def resolve_one_def resolve_query_shard_def resolve_regex_def
      compile_matcher_def is_regex_op_def split: if_splits)

section \<open>Selective resolution\<close>

lemma selected_subset: "selected regex_new ti m \<subseteq> dom (bt_get (ti_series ti))"
  by (auto simp: selected_def)

lemma retain_matching_invalid:
  "\<not> matcher_valid regex_new m \<Longrightarrow> retain_matching regex_new ti m c = None"
  by (cases "parse_query_shard_selector (mt_value m)"; cases "mt_op m")
    (auto simp: matcher_valid_def retain_matching_def compile_matcher_def is_regex_op_def split: if_splits)

lemma label_or_empty_series:
  "bt_get (ti_series ti) fp = Some ls \<Longrightarrow> label_or_empty ti name fp = value_or_empty ls name"
  by (simp add: label_or_empty_def value_or_empty_def labels_get_def)

lemma mem_posting_of:
  assumes "series_wf ti" and "bt_get (ti_series ti) fp = Some ls" and "v \<noteq> []"
  shows "(case posting_of ti name v of None \<Rightarrow> False | Some p \<Rightarrow> fp \<in> set p) \<longleftrightarrow> value_or_empty ls name = v"
proof -
  have "(case posting_of ti name v of None \<Rightarrow> False | Some p \<Rightarrow> fp \<in> set p) \<longleftrightarrow> fp \<in> set (exact_posting ti name v)"
    by (simp add: exact_posting_def split: option.split)
  also have "\<dots> \<longleftrightarrow> bt_get ls name = Some v"
    using assms by (simp add: exact_posting_set)
  also have "\<dots> \<longleftrightarrow> value_or_empty ls name = v"
    using assms(3) by (auto simp: value_or_empty_def split: option.splits)
  finally show ?thesis .
qed

lemma retain_matching_ok:
  assumes wf: "series_wf ti" and valid: "matcher_valid regex_new m"
    and c: "set c \<subseteq> dom (bt_get (ti_series ti))"
  shows "retain_matching regex_new ti m c = Some (filter (\<lambda>fp. fp \<in> selected regex_new ti m) c)"
proof -
  have holds: "fp \<in> selected regex_new ti m \<longleftrightarrow> matcher_holds regex_new m fp ls"
    if "bt_get (ti_series ti) fp = Some ls" for fp ls
    using that by (simp add: selected_def)
  have in_series: "\<exists>ls. bt_get (ti_series ti) fp = Some ls" if "fp \<in> set c" for fp
    using c that by blast
  have filter: "filter p c = filter (\<lambda>fp. fp \<in> selected regex_new ti m) c"
    if "\<And>fp ls. bt_get (ti_series ti) fp = Some ls \<Longrightarrow> p fp = matcher_holds regex_new m fp ls" for p
    by (rule filter_cong [OF refl]) (metis that in_series holds)
  show ?thesis
  proof (cases "mt_name m = query_shard_label")
    case True
    then obtain sel where sel: "parse_query_shard_selector (mt_value m) = Inr sel" "\<not> is_regex_op (mt_op m)"
      using valid by (auto simp: matcher_valid_def)
    then show ?thesis
      using True by (cases "mt_op m")
        (auto simp: retain_matching_def is_regex_op_def matcher_holds_def intro!: filter)
  next
    case False
    show ?thesis
    proof (cases "is_regex_op (mt_op m)")
      case True
      then obtain f where "regex_new (anchored_regex (mt_value m)) = Some f"
        using valid False by (auto simp: matcher_valid_def)
      then show ?thesis
        using True False
        by (cases "mt_op m") (auto simp: retain_matching_def compile_matcher_def is_regex_op_def
            matcher_holds_def label_or_empty_series intro!: filter)
    next
      case plain: False
      then show ?thesis
        using False mem_posting_of [OF wf]
        by (cases "mt_op m"; cases "mt_value m = []")
          (auto simp: retain_matching_def is_regex_op_def matcher_holds_def label_or_empty_series
            Let_def intro!: filter)
    qed
  qed
qed

lemma retain_all_ok:
  assumes wf: "series_wf ti" and "bs_ok c" and "set c \<subseteq> dom (bt_get (ti_series ti))"
    and r: "fold_opt (\<lambda>(position, m) c. if skip position then Some c else retain_matching regex_new ti m c)
       (enumerate k ms) c = Some r"
  shows "bs_ok r \<and> set r = {fp \<in> set c. \<forall>i < length ms. \<not> skip (k + i) \<longrightarrow> fp \<in> selected regex_new ti (ms ! i)}
     \<and> (\<forall>i < length ms. \<not> skip (k + i) \<longrightarrow> matcher_valid regex_new (ms ! i))"
  using assms(2-4)
proof (induction ms arbitrary: k c)
  case Nil
  then show ?case by simp
next
  case (Cons m ms)
  obtain c1 where c1: "(if skip k then Some c else retain_matching regex_new ti m c) = Some c1"
      "fold_opt (\<lambda>(position, m) c. if skip position then Some c else retain_matching regex_new ti m c)
         (enumerate (Suc k) ms) c1 = Some r"
    using Cons.prems(3) by (auto simp: bind_eq_Some_conv)
  have valid: "\<not> skip k \<longrightarrow> matcher_valid regex_new m"
    using c1(1) retain_matching_invalid by (metis option.distinct(1))
  have "c1 = (if skip k then c else filter (\<lambda>fp. fp \<in> selected regex_new ti m) c)"
    using c1(1) valid retain_matching_ok [OF wf _ Cons.prems(2)] by (auto split: if_splits)
  then have "bs_ok c1" "set c1 = {fp \<in> set c. \<not> skip k \<longrightarrow> fp \<in> selected regex_new ti m}"
    using Cons.prems(1) by (auto simp: bs_ok_filter)
  moreover from this have "set c1 \<subseteq> dom (bt_get (ti_series ti))"
    using Cons.prems(2) by auto
  ultimately show ?case
    using Cons.IH [of c1 "Suc k"] c1(2) valid by (auto simp: less_Suc_eq_0_disj all_conj_distrib)
qed

definition exact_matcher :: "label_matcher \<Rightarrow> bool" where
  "exact_matcher m \<longleftrightarrow> mt_op m = Match_Eq \<and> mt_value m \<noteq> [] \<and> mt_name m \<noteq> query_shard_label"

lemma seed_ok:
  "fold (seed_step ti) (enumerate k ms) s0 = Some s \<Longrightarrow> s0 = Some s \<or>
     (\<exists>i < length ms. sd_position s = k + i \<and> exact_matcher (ms ! i)
        \<and> sd_posting s = posting_of ti (mt_name (ms ! i)) (mt_value (ms ! i)))"
proof (induction ms arbitrary: k s0)
  case (Cons m ms)
  let ?s1 = "seed_step ti (k, m) s0"
  consider "?s1 = Some s"
    | i where "i < length ms" "sd_position s = Suc k + i" "exact_matcher (ms ! i)"
        "sd_posting s = posting_of ti (mt_name (ms ! i)) (mt_value (ms ! i))"
    using Cons.IH [of "Suc k" ?s1] Cons.prems by auto
  then show ?case
  proof cases
    case 1
    then have "s0 = Some s \<or> sd_position s = k \<and> exact_matcher m
        \<and> sd_posting s = posting_of ti (mt_name m) (mt_value m)"
      by (auto simp: seed_step_def exact_matcher_def Let_def split: if_splits option.splits)
    then show ?thesis by (intro disj_forward [OF _ _ exI [of _ 0]]) auto
  next
    case (2 i)
    then show ?thesis by (intro disjI2 exI [of _ "Suc i"]) simp
  qed
qed simp

lemma exact_matcher_selected:
  assumes "series_wf ti" and "exact_matcher m"
  shows "matcher_valid regex_new m" and "set (exact_posting ti (mt_name m) (mt_value m)) = selected regex_new ti m"
proof -
  show valid: "matcher_valid regex_new m"
    using assms(2) by (simp add: matcher_valid_def exact_matcher_def is_regex_op_def)
  show "set (exact_posting ti (mt_name m) (mt_value m)) = selected regex_new ti m"
    using resolve_one_ok [OF assms(1) valid] assms(2) by (simp add: resolve_one_def exact_matcher_def)
qed

lemma regex_position_ok:
  "fold_opt (regex_step ti) (enumerate k ms) p0 = Some (Some p) \<Longrightarrow> p0 = Some p \<or>
     (\<exists>i < length ms. p = k + i \<and> is_regex_op (mt_op (ms ! i)) \<and> mt_name (ms ! i) \<noteq> query_shard_label)"
proof (induction ms arbitrary: k p0)
  case (Cons m ms)
  obtain p1 where p1: "regex_step ti (k, m) p0 = Some p1"
      "fold_opt (regex_step ti) (enumerate (Suc k) ms) p1 = Some (Some p)"
    using Cons.prems by (auto simp: bind_eq_Some_conv)
  consider "p1 = Some p"
    | i where "i < length ms" "p = Suc k + i" "is_regex_op (mt_op (ms ! i))" "mt_name (ms ! i) \<noteq> query_shard_label"
    using Cons.IH [OF p1(2)] by auto
  then show ?case
  proof cases
    case 1
    then have "p0 = Some p \<or> p = k \<and> is_regex_op (mt_op m) \<and> mt_name m \<noteq> query_shard_label"
      using p1(1) by (auto simp: regex_step_def split: if_splits)
    then show ?thesis by (intro disj_forward [OF _ _ exI [of _ 0]]) auto
  next
    case (2 i)
    then show ?thesis by (intro disjI2 exI [of _ "Suc i"]) simp
  qed
qed simp

definition selects_all :: "regex_engine \<Rightarrow> tenant_index \<Rightarrow> label_matcher list \<Rightarrow> fingerprint btree_set \<Rightarrow> bool" where
  "selects_all regex_new ti ms r \<longleftrightarrow> bs_ok r
     \<and> set r = {fp \<in> dom (bt_get (ti_series ti)). \<forall>m \<in> set ms. fp \<in> selected regex_new ti m}"

lemma all_positions: "(\<forall>m \<in> set ms. P m) \<longleftrightarrow> (\<forall>i < length ms. P (ms ! i))"
  by (metis in_set_conv_nth)

lemma retain_rest:
  assumes wf: "series_wf ti" and c: "bs_ok c" "set c = {fp \<in> dom (bt_get (ti_series ti)).
      \<forall>i < length ms. skip i \<longrightarrow> fp \<in> selected regex_new ti (ms ! i)}"
    and valid: "\<And>i. i < length ms \<Longrightarrow> skip i \<Longrightarrow> matcher_valid regex_new (ms ! i)"
    and r: "retain_all regex_new ti skip ms c = Some r"
  shows "selects_all regex_new ti ms r \<and> (\<forall>m \<in> set ms. matcher_valid regex_new m)"
proof -
  have "bs_ok r \<and> set r = {fp \<in> set c. \<forall>i < length ms. \<not> skip i \<longrightarrow> fp \<in> selected regex_new ti (ms ! i)}
     \<and> (\<forall>i < length ms. \<not> skip i \<longrightarrow> matcher_valid regex_new (ms ! i))"
    using retain_all_ok [OF wf c(1), of skip regex_new 0 ms r] c(2) r by (simp add: retain_all_def)
  then show ?thesis
    unfolding selects_all_def all_positions using c(2) valid by auto
qed

lemma resolve_selective_ok:
  assumes wf: "series_wf ti" and r: "resolve_selective regex_new ti ms = Some r"
  shows "selects_all regex_new ti ms r \<and> (\<forall>m \<in> set ms. matcher_valid regex_new m)"
proof -
  obtain seed where seed: "fold (seed_step ti) (enumerate 0 ms) None = Some seed"
    using r by (auto simp: resolve_selective_def bind_eq_Some_conv)
  then obtain sp where sp: "sp < length ms" "sd_position seed = sp" "exact_matcher (ms ! sp)"
      "sd_posting seed = posting_of ti (mt_name (ms ! sp)) (mt_value (ms ! sp))"
    using seed_ok [OF seed] by auto
  define p where "p = exact_posting ti (mt_name (ms ! sp)) (mt_value (ms ! sp))"
  have p: "set p = selected regex_new ti (ms ! sp)" "bs_ok p" "matcher_valid regex_new (ms ! sp)"
      "length p = posting_len (sd_posting seed)" "p = (case sd_posting seed of None \<Rightarrow> [] | Some p \<Rightarrow> p)"
    using exact_matcher_selected [OF wf sp(3)] exact_posting_bs_ok [OF wf]
    by (simp_all add: p_def sp(4) posting_len_def exact_posting_def split: option.split)
  define broad where "broad \<longleftrightarrow> (\<exists>m \<in> set ms. is_regex_op (mt_op m)
      \<and> (case values_len ti (mt_name m) of None \<Rightarrow> False | Some n \<Rightarrow> posting_len (sd_posting seed) > n))"
  have r': "(if broad then (if length p \<noteq> length (ti_series ti) then None
        else resolve_tenantwide_regex regex_new ti ms sp)
      else retain_all regex_new ti (\<lambda>position. position = sp) ms p) = Some r"
    using r seed unfolding resolve_selective_def broad_def p(4) sp(2) [symmetric]
    by (subst p(5)) (simp add: Let_def split del: if_split)
  show ?thesis
  proof (cases broad)
    case False
    then have "retain_all regex_new ti (\<lambda>position. position = sp) ms p = Some r"
      using r' by simp
    then show ?thesis
      using p sp(1) selected_subset [of regex_new ti "ms ! sp"]
      by (intro retain_rest [OF wf]) auto
  next
    case True
    then have tw: "length p = length (ti_series ti)" "resolve_tenantwide_regex regex_new ti ms sp = Some r"
      using r' by (auto split: if_splits)
    have whole: "set p = dom (bt_get (ti_series ti))"
    proof (rule card_subset_eq)
      have "distinct (bt_keys (ti_series ti))" using wf by (simp add: series_wf_def bt_ok_distinct)
      then have "card (dom (bt_get (ti_series ti))) = length (ti_series ti)"
        by (metis dom_map_of_conv_image_fst distinct_card length_map set_map)
      then show "card (set p) = card (dom (bt_get (ti_series ti)))"
        using tw(1) distinct_card [OF bs_ok_distinct [OF p(2)]] by simp
    qed (use p(1) selected_subset in \<open>auto simp: finite_dom_map_of\<close>)
    obtain rp m c where rp: "rp \<noteq> sp" "rp < length ms" "m = ms ! rp" "is_regex_op (mt_op m)"
        "mt_name m \<noteq> query_shard_label" "resolve_regex regex_new ti m = Inr c"
        "retain_all regex_new ti (\<lambda>position. position = sp \<or> position = rp) ms c = Some r"
      using tw(2) regex_position_ok [of ti 0 ms None]
      by (fastforce simp: resolve_tenantwide_regex_def bind_eq_Some_conv nth_opt_def
          split: if_splits sum.splits)
    obtain f where f: "regex_new (anchored_regex (mt_value m)) = Some f"
      using rp(6) by (auto simp: resolve_regex_def compile_matcher_def split: option.splits)
    then have valid: "matcher_valid regex_new m" using rp(4,5) by (simp add: matcher_valid_def)
    have "resolve_one regex_new ti m = resolve_regex regex_new ti m"
      using rp(4,5) by (auto simp: resolve_one_def is_regex_op_def)
    then have "bs_ok c" "set c = selected regex_new ti (ms ! rp)"
      using resolve_one_ok [OF wf valid] rp(3,6) by auto
    then show ?thesis
      using rp(3,7) valid p(1,3) whole selected_subset [of regex_new ti "ms ! rp"] sp(1) rp(2)
      by (intro retain_rest [OF wf, of c]) auto
  qed
qed

end
