(* ===== verification/Series_Index_Spec.thy ===== *)
theory Series_Index_Spec
  imports Series_Index Tenant_Index_Spec
begin

text \<open>
  What the multi-tenant index promises: resolution is the Prometheus matcher semantics whichever
  plan it takes, the label readers list what the series carry, and every block operation acts on the
  named tenant only, as an update of its abstract block map.
\<close>

section \<open>Resolution\<close>

definition index_wf :: "series_index \<Rightarrow> bool" where
  "index_wf ix \<longleftrightarrow> bt_ok (ix_tenants ix)
     \<and> (\<forall>t ti. bt_get (ix_tenants ix) t = Some ti \<longrightarrow>
          series_wf ti \<and> bl_wf (ti_blocks ti) \<and> bl_faithful (ti_blocks ti))"

lemma resolve_rest_ok:
  assumes wf: "series_wf ti" and valid: "\<And>m. m \<in> set ms \<Longrightarrow> matcher_valid regex_new m"
    and r0: "bs_ok r0" "set r0 \<subseteq> dom (bt_get (ti_series ti))"
  shows "\<exists>r. resolve_rest regex_new ti r0 ms = Inr r \<and> bs_ok r
       \<and> set r = {fp \<in> set r0. \<forall>m \<in> set ms. fp \<in> selected regex_new ti m}"
  using valid r0
proof (induction ms arbitrary: r0)
  case (Cons m ms)
  obtain r1 where r1: "resolve_one regex_new ti m = Inr r1" "bs_ok r1" "set r1 = selected regex_new ti m"
    using resolve_one_ok [OF wf] Cons.prems(1) by (meson list.set_intros(1))
  have inter: "bs_ok (bs_inter r0 r1)" "set (bs_inter r0 r1) = {fp \<in> set r0. fp \<in> selected regex_new ti m}"
    using Cons.prems(2) r1(3) by (auto simp: bs_ok_inter)
  show ?case
  proof (cases "bs_inter r0 r1 = []")
    case True
    then have "{fp \<in> set r0. fp \<in> selected regex_new ti m} = {}" using inter(2) by simp
    then show ?thesis using True r1(1) by auto
  next
    case False
    obtain r where "resolve_rest regex_new ti (bs_inter r0 r1) ms = Inr r" "bs_ok r"
        "set r = {fp \<in> set (bs_inter r0 r1). \<forall>m \<in> set ms. fp \<in> selected regex_new ti m}"
      using Cons.IH [of "bs_inter r0 r1"] Cons.prems inter by auto
    then show ?thesis using False r1(1) inter(2) by auto
  qed
qed simp

lemma resolve_in_order_ok:
  assumes wf: "series_wf ti" and "ms \<noteq> []" and valid: "\<forall>m \<in> set ms. matcher_valid regex_new m"
  shows "\<exists>r. resolve_in_order regex_new ti ms = Inr r \<and> selects_all regex_new ti ms r"
proof -
  obtain m rest where ms: "ms = m # rest" using assms(2) by (cases ms) auto
  obtain r0 where r0: "resolve_one regex_new ti m = Inr r0" "bs_ok r0" "set r0 = selected regex_new ti m"
    using resolve_one_ok [OF wf] valid ms by (meson list.set_intros(1))
  then obtain r where "resolve_rest regex_new ti r0 rest = Inr r" "bs_ok r"
      "set r = {fp \<in> set r0. \<forall>m \<in> set rest. fp \<in> selected regex_new ti m}"
    using resolve_rest_ok [OF wf, of rest regex_new r0] valid ms selected_subset by auto
  then show ?thesis
    using r0 selected_subset [of regex_new ti m] by (auto simp: ms selects_all_def)
qed

lemma selects_all_unique: "selects_all regex_new ti ms r \<Longrightarrow> selects_all regex_new ti ms r' \<Longrightarrow> r = r'"
  unfolding selects_all_def by (metis bs_eqI)

lemma selective_in_order:
  assumes wf: "series_wf ti" and "ms \<noteq> []" and r: "resolve_selective regex_new ti ms = Some r"
  shows "resolve_in_order regex_new ti ms = Inr r"
  using resolve_selective_ok [OF wf r] resolve_in_order_ok [OF wf assms(2)] selects_all_unique by metis

text \<open>The reference: every selector resolved matcher by matcher, in the order it is written.\<close>

definition resolve_plain ::
  "regex_engine \<Rightarrow> series_index \<Rightarrow> string \<Rightarrow> label_matcher list \<Rightarrow> index_error + fingerprint btree_set" where
  "resolve_plain regex_new ix tenant matchers =
     (if matchers = [] then Inl No_matcher
      else case has_non_empty_matcher regex_new matchers of
        Inl e \<Rightarrow> Inl e
      | Inr False \<Rightarrow> Inl No_nonempty_matcher
      | Inr True \<Rightarrow>
          (case bt_get (ix_tenants ix) tenant of
             None \<Rightarrow> Inr []
           | Some ti \<Rightarrow> resolve_in_order regex_new ti matchers))"

lemma resolve_is_plain:
  assumes "index_wf ix"
  shows "resolve regex_new ix tenant matchers = resolve_plain regex_new ix tenant matchers"
proof -
  have "series_wf ti" if "bt_get (ix_tenants ix) tenant = Some ti" for ti
    using assms that by (auto simp: index_wf_def)
  then show ?thesis
    using selective_in_order [of _ matchers regex_new]
    by (auto simp: resolve_def resolve_plain_def split: sum.split bool.split option.split)
qed

definition restricting :: "regex_engine \<Rightarrow> label_matcher \<Rightarrow> bool" where
  "restricting regex_new m \<longleftrightarrow> mt_name m \<noteq> query_shard_label \<and> \<not> matcher_holds regex_new m 0 []"

lemma matcher_matches_empty_holds:
  assumes "matcher_valid regex_new m" and "mt_name m \<noteq> query_shard_label"
  shows "matcher_matches_empty regex_new m = Inr (matcher_holds regex_new m 0 [])"
  using assms
  by (cases "mt_op m")
    (auto simp: matcher_matches_empty_def matcher_holds_def value_or_empty_def compile_matcher_def
      matcher_valid_def is_regex_op_def)

lemma has_non_empty_matcher_ok:
  "\<forall>m \<in> set ms. matcher_valid regex_new m \<Longrightarrow>
     has_non_empty_matcher regex_new ms = Inr (\<exists>m \<in> set ms. restricting regex_new m)"
  by (induction ms) (auto simp: matcher_matches_empty_holds restricting_def)

section \<open>Registering several blocks\<close>

definition run_admits :: "block_meta list \<Rightarrow> block_list \<Rightarrow> bool" where
  "run_admits ms bl \<longleftrightarrow> length (bl_entries bl) + length ms \<le> u32_max
     \<and> (\<forall>m \<in> set ms. \<forall>b. blocks_abs bl (bm_object_key m) = Some b
          \<longrightarrow> \<not> collides (bi_series b) (set (bm_fingerprints m)))
     \<and> (\<forall>m \<in> set ms. \<forall>m' \<in> set ms. bm_object_key m = bm_object_key m'
          \<longrightarrow> \<not> collides (set (bm_fingerprints m)) (set (bm_fingerprints m')))"

definition put_metas :: "block_meta list \<Rightarrow> (string \<rightharpoonup> block_info) \<Rightarrow> (string \<rightharpoonup> block_info)" where
  "put_metas ms m = m ++ map_of (rev (map (\<lambda>meta. (bm_object_key meta, meta_info meta)) ms))"

lemma put_metas_Cons: "put_metas (m # ms) a = put_metas ms (a(bm_object_key m \<mapsto> meta_info m))"
  by (simp add: put_metas_def)

lemma insert_run:
  assumes "bl_wf bl" and "bl_faithful bl" and "run_admits ms bl"
  shows "\<exists>bl'. fold_opt insert_block ms bl = Some bl' \<and> bl_wf bl' \<and> bl_faithful bl'
       \<and> blocks_abs bl' = put_metas ms (blocks_abs bl)"
  using assms
proof (induction ms arbitrary: bl)
  case Nil
  then show ?case by (simp add: put_metas_def)
next
  case (Cons m ms)
  have kept: "kept_series m bl = set (bm_fingerprints m)"
    using Cons.prems by (intro kept_series_new) (auto simp: run_admits_def)
  have "length (bl_entries bl) < u32_max" using Cons.prems(3) by (simp add: run_admits_def)
  then obtain bl1 where bl1: "insert_block m bl = Some bl1" "bl_wf bl1" "bl_faithful bl1"
      "blocks_abs bl1 = (blocks_abs bl)(bm_object_key m \<mapsto> meta_info m)"
      "length (bl_entries bl1) \<le> Suc (length (bl_entries bl))"
    using insert_block_exact [OF Cons.prems(1), of m] Cons.prems(2) kept by (auto simp: meta_info_def)
  have "run_admits ms bl1"
    using Cons.prems(3) bl1(4,5) by (auto simp: run_admits_def meta_info_def split: if_splits)
  then show ?case
    using Cons.IH [OF bl1(2,3)] by (simp add: put_metas_Cons bl1(1) bl1(4) [symmetric])
qed

section \<open>The index as maps\<close>

definition blocks_in :: "series_index \<Rightarrow> string \<Rightarrow> string \<rightharpoonup> block_info" where
  "blocks_in ix t = (case bt_get (ix_tenants ix) t of None \<Rightarrow> Map.empty | Some ti \<Rightarrow> blocks_abs (ti_blocks ti))"

definition series_in :: "series_index \<Rightarrow> string \<Rightarrow> fingerprint \<rightharpoonup> labels" where
  "series_in ix t = (case bt_get (ix_tenants ix) t of None \<Rightarrow> Map.empty | Some ti \<Rightarrow> bt_get (ti_series ti))"

definition list_in :: "series_index \<Rightarrow> string \<Rightarrow> block_list" where
  "list_in ix t = (case bt_get (ix_tenants ix) t of None \<Rightarrow> empty_list | Some ti \<Rightarrow> ti_blocks ti)"

lemma blocks_in_list: "blocks_in ix t = blocks_abs (list_in ix t)"
  by (simp add: blocks_in_def list_in_def split: option.split)

lemma list_in_wf:
  assumes "index_wf ix"
  shows "bl_wf (list_in ix t)" "bl_faithful (list_in ix t)"
  using assms bl_wf_empty bl_faithful_empty
  by (auto simp: list_in_def index_wf_def split: option.splits)

lemma update_blocks_ok:
  assumes wf: "index_wf ix" and f: "f (list_in ix t) = Some bl'" and bl': "bl_wf bl'" "bl_faithful bl'"
  shows "\<exists>ix'. update_blocks t f ix = Some ix' \<and> index_wf ix' \<and> series_in ix' = series_in ix
       \<and> list_in ix' = (list_in ix)(t := bl')"
proof -
  define ti where "ti = (case bt_get (ix_tenants ix) t of None \<Rightarrow> tenant_default | Some ti \<Rightarrow> ti)"
  define ix' where "ix' = ix\<lparr>ix_tenants := bt_insert t (ti\<lparr>ti_blocks := bl'\<rparr>) (ix_tenants ix)\<rparr>"
  have "ti_blocks ti = list_in ix t"
    by (simp add: ti_def list_in_def tenant_default_def split: option.split)
  then have "update_blocks t f ix = Some ix'"
    using f by (simp add: update_blocks_def Let_def ti_def [symmetric] ix'_def)
  moreover have "series_wf ti"
    using wf series_wf_default by (auto simp: ti_def index_wf_def split: option.split)
  then have "series_wf (ti\<lparr>ti_blocks := bl'\<rparr>)"
    by (simp add: series_wf_def carries_def exact_posting_def posting_of_def value_set_def)
  then have "index_wf ix'"
    using wf bl' by (auto simp: index_wf_def ix'_def bt_ok_insert split: if_splits)
  moreover have "series_in ix' = series_in ix"
    by (auto simp: fun_eq_iff series_in_def ix'_def ti_def tenant_default_def split: option.split)
  moreover have "list_in ix' = (list_in ix)(t := bl')"
    by (auto simp: fun_eq_iff list_in_def ix'_def)
  ultimately show ?thesis by blast
qed

lemma index_add_series_ok:
  assumes wf: "index_wf ix" and ls: "bt_ok ls"
  shows "index_wf (index_add_series t fp ls ix)"
    and "series_in (index_add_series t fp ls ix)
       = (series_in ix)(t := (if series_in ix t fp = None then (series_in ix t)(fp \<mapsto> ls) else series_in ix t))"
    and "list_in (index_add_series t fp ls ix) = list_in ix"
proof -
  define ti where "ti = (case bt_get (ix_tenants ix) t of None \<Rightarrow> tenant_default | Some ti \<Rightarrow> ti)"
  have ti: "series_wf ti" "ti_blocks ti = list_in ix t" "bt_get (ti_series ti) = series_in ix t"
    using wf series_wf_default
    by (auto simp: ti_def index_wf_def list_in_def series_in_def tenant_default_def split: option.split)
  note new = tenant_add_series_ok [OF ti(1) ls, of fp]
  have tenants: "bt_get (ix_tenants (index_add_series t fp ls ix))
      = (bt_get (ix_tenants ix))(t \<mapsto> tenant_add_series fp ls ti)"
    by (simp add: index_add_series_def ti_def)
  show "index_wf (index_add_series t fp ls ix)"
    using wf new list_in_wf [OF wf, of t] ti(2) unfolding index_wf_def tenants
    by (auto simp: index_add_series_def bt_ok_update)
  show "series_in (index_add_series t fp ls ix)
      = (series_in ix)(t := (if series_in ix t fp = None then (series_in ix t)(fp \<mapsto> ls) else series_in ix t))"
    by (intro ext) (simp add: series_in_def [of "index_add_series t fp ls ix"] tenants new(2) ti(3) series_in_def [of ix])
  show "list_in (index_add_series t fp ls ix) = list_in ix"
    by (intro ext) (simp add: list_in_def [of "index_add_series t fp ls ix"] tenants new(3) ti(2) list_in_def [of ix])
qed

section \<open>Merging\<close>

lemma add_series_run:
  assumes "index_wf ix" and "\<And>fp ls. (fp, ls) \<in> set ps \<Longrightarrow> bt_ok ls" and "distinct (map fst ps)"
  shows "index_wf (fold (\<lambda>(fp, ls). index_add_series t fp ls) ps ix)
    \<and> series_in (fold (\<lambda>(fp, ls). index_add_series t fp ls) ps ix)
       = (series_in ix)(t := bt_get ps ++ series_in ix t)
    \<and> list_in (fold (\<lambda>(fp, ls). index_add_series t fp ls) ps ix) = list_in ix"
  using assms
proof (induction ps arbitrary: ix)
  case (Cons p ps)
  obtain fp ls where p: "p = (fp, ls)" by force
  note step = index_add_series_ok [OF Cons.prems(1), of ls t fp]
  have ls: "bt_ok ls" using Cons.prems(2) p by (meson list.set_intros(1))
  have "bt_get ps fp = None" using Cons.prems(3) p by (auto simp: map_of_eq_None_iff)
  then have "bt_get ps ++ (if series_in ix t fp = None then (series_in ix t)(fp \<mapsto> ls) else series_in ix t)
      = (bt_get ps)(fp \<mapsto> ls) ++ series_in ix t"
    by (auto simp: map_add_def fun_eq_iff split: option.splits)
  moreover have "\<And>fp ls. (fp, ls) \<in> set ps \<Longrightarrow> bt_ok ls" "distinct (map fst ps)"
    using Cons.prems(2,3) by (auto simp: p)
  ultimately show ?case
    using Cons.IH [OF step(1) [OF ls]] step(2,3) [OF ls]
    by (simp add: p fun_upd_same del: fun_upd_apply split del: if_split)
qed simp

lemma index_add_block_run:
  assumes "index_wf ix" and "run_admits ms (list_in ix t)" and "\<And>m. m \<in> set ms \<Longrightarrow> bm_tenant m = t"
  shows "\<exists>ix'. fold_opt index_add_block ms ix = Some ix' \<and> index_wf ix' \<and> series_in ix' = series_in ix
       \<and> (\<forall>t'. t' \<noteq> t \<longrightarrow> list_in ix' t' = list_in ix t')
       \<and> blocks_abs (list_in ix' t) = put_metas ms (blocks_abs (list_in ix t))"
proof -
  have eq: "ms \<noteq> [] \<Longrightarrow> fold_opt insert_block ms (list_in ix t) = Some bl' \<Longrightarrow>
      \<exists>ix'. fold_opt index_add_block ms ix = Some ix' \<and> series_in ix' = series_in ix
        \<and> list_in ix' = (list_in ix)(t := bl') \<and> (index_wf ix')" for bl'
    using assms
  proof (induction ms arbitrary: ix)
    case (Cons m ms)
    obtain bl1 where bl1: "insert_block m (list_in ix t) = Some bl1" "fold_opt insert_block ms bl1 = Some bl'"
      using Cons.prems(2) by (auto simp: bind_eq_Some_conv)
    have "run_admits [m] (list_in ix t)"
      using Cons.prems(4) by (auto simp: run_admits_def)
    then have bl1_wf: "bl_wf bl1" "bl_faithful bl1" "blocks_abs bl1 = put_metas [m] (blocks_abs (list_in ix t))"
      using insert_run [of "list_in ix t" "[m]"] list_in_wf [OF Cons.prems(3)] bl1(1) by auto
    have len: "length (bl_entries bl1) \<le> Suc (length (bl_entries (list_in ix t)))"
      using insert_block_exact [OF list_in_wf(1) [OF Cons.prems(3)], of t m] bl1(1) Cons.prems(4)
      by (auto simp: run_admits_def)
    obtain ix1 where ix1: "index_add_block m ix = Some ix1" "index_wf ix1" "series_in ix1 = series_in ix"
        "list_in ix1 = (list_in ix)(t := bl1)"
      using update_blocks_ok [OF Cons.prems(3), of "insert_block m" t bl1] bl1(1) bl1_wf Cons.prems(5) [of m]
      by (auto simp: index_add_block_def)
    have "run_admits ms (list_in ix1 t)"
      using Cons.prems(4) bl1_wf(3) len
      by (auto simp: ix1(4) run_admits_def put_metas_def meta_info_def split: if_splits)
    then show ?case
      using Cons.IH [of ix1] ix1 bl1(2) Cons.prems(5) by (cases "ms = []") (auto simp: fun_eq_iff)
  qed simp
  show ?thesis
  proof (cases "ms = []")
    case False
    obtain bl' where bl': "fold_opt insert_block ms (list_in ix t) = Some bl'"
        "blocks_abs bl' = put_metas ms (blocks_abs (list_in ix t))"
      using insert_run [OF list_in_wf [OF assms(1)] assms(2)] by blast
    then show ?thesis
      using eq [OF False bl'(1)] by auto
  qed (use assms(1) in \<open>simp add: put_metas_def\<close>)
qed

text \<open>What a merge may assume of the two sides: room for the blocks, and no digest collision.\<close>

definition mergeable :: "series_index \<Rightarrow> series_index \<Rightarrow> bool" where
  "mergeable other ix \<longleftrightarrow> (\<forall>t.
     length (bl_entries (list_in ix t)) + card (dom (blocks_in other t)) \<le> u32_max
     \<and> (\<forall>k b b'. blocks_in other t k = Some b \<and> blocks_in ix t k = Some b'
          \<longrightarrow> \<not> collides (bi_series b') (bi_series b)))"

lemma put_all_metas:
  assumes "distinct (map bm_object_key ms)" and "set (map bm_object_key ms) = dom m"
    and "\<forall>meta \<in> set ms. m (bm_object_key meta) = Some (meta_info meta)"
  shows "put_metas ms a = a ++ m"
proof -
  let ?ps = "map (\<lambda>meta. (bm_object_key meta, meta_info meta)) ms"
  have dist: "distinct (map fst ?ps)" using assms(1) by (simp add: comp_def)
  have "map_of ?ps k = m k" for k
  proof (cases "m k")
    case None
    then have "k \<notin> set (map bm_object_key ms)" using assms(2) by auto
    then show ?thesis using None by (auto simp: map_of_eq_None_iff)
  next
    case (Some b)
    then have "k \<in> set (map bm_object_key ms)" using assms(2) by auto
    then have "(k, b) \<in> set ?ps" using assms(3) Some by force
    then show ?thesis using dist Some by simp
  qed
  then have "map_of (rev ?ps) = m"
    using map_of_rev_distinct [OF dist] by (metis ext)
  then show ?thesis by (simp add: put_metas_def)
qed

lemma metas_admitted:
  assumes bl: "bl_wf bl" and ms: "metas bl t = Some ms"
    and room: "length (bl_entries bl0) + card (dom (blocks_abs bl)) \<le> u32_max"
    and apart: "\<And>k b b'. blocks_abs bl k = Some b \<Longrightarrow> blocks_abs bl0 k = Some b'
                 \<Longrightarrow> \<not> collides (bi_series b') (bi_series b)"
  shows "run_admits ms bl0" and "put_metas ms a = a ++ blocks_abs bl" and "\<forall>m \<in> set ms. bm_tenant m = t"
proof -
  have keys: "distinct (map bm_object_key ms)" "set (map bm_object_key ms) = dom (blocks_abs bl)"
    and of_t: "\<forall>m \<in> set ms. bm_tenant m = t \<and> blocks_abs bl (bm_object_key m) = Some (meta_info m)"
    using metas_abs [OF bl, of t] ms time_order_sorted [OF finite_blocks_abs, of bl] by auto
  show "put_metas ms a = a ++ blocks_abs bl" and "\<forall>m \<in> set ms. bm_tenant m = t"
    using keys of_t put_all_metas by blast+
  have "length ms = card (dom (blocks_abs bl))"
    using distinct_card [OF keys(1)] unfolding keys(2) by simp
  moreover have "\<not> collides (bi_series b) (set (bm_fingerprints m))"
    if "m \<in> set ms" "blocks_abs bl0 (bm_object_key m) = Some b" for m b
    using apart [of _ "meta_info m"] of_t that by (auto simp: meta_info_def)
  moreover have "m = m'" if "m \<in> set ms" "m' \<in> set ms" "bm_object_key m = bm_object_key m'" for m m'
    using keys(1) that by (auto simp: distinct_map dest: inj_onD)
  ultimately show "run_admits ms bl0"
    using room unfolding run_admits_def by (force simp: collides_def)
qed

lemma merge_tenant_ok:
  assumes wf: "index_wf ix" and ti: "series_wf ti" "bl_wf (ti_blocks ti)"
    and room: "length (bl_entries (list_in ix t)) + card (dom (blocks_abs (ti_blocks ti))) \<le> u32_max"
    and apart: "\<And>k b b'. blocks_abs (ti_blocks ti) k = Some b \<Longrightarrow> blocks_in ix t k = Some b'
                 \<Longrightarrow> \<not> collides (bi_series b') (bi_series b)"
  shows "\<exists>ix'. merge_tenant (t, ti) ix = Some ix' \<and> index_wf ix'
       \<and> series_in ix' = (series_in ix)(t := bt_get (ti_series ti) ++ series_in ix t)
       \<and> (\<forall>t'. t' \<noteq> t \<longrightarrow> list_in ix' t' = list_in ix t')
       \<and> blocks_in ix' t = blocks_in ix t ++ blocks_abs (ti_blocks ti)"
proof -
  define ix1 where "ix1 = fold (\<lambda>(fp, ls). index_add_series t fp ls) (ti_series ti) ix"
  have "bt_ok ls" if "(fp, ls) \<in> set (ti_series ti)" for fp ls
    using ti(1) that bt_ok_distinct [of "ti_series ti"] by (auto simp: series_wf_def)
  then have ix1: "index_wf ix1" "series_in ix1 = (series_in ix)(t := bt_get (ti_series ti) ++ series_in ix t)"
      "list_in ix1 = list_in ix"
    using add_series_run [OF wf, of "ti_series ti" t] ti(1) bt_ok_distinct [of "ti_series ti"]
    by (auto simp: ix1_def series_wf_def)
  obtain ms where ms: "metas (ti_blocks ti) t = Some ms" using metas_abs [OF ti(2)] by blast
  note adm = metas_admitted [OF ti(2) ms room apart [unfolded blocks_in_list]]
  then show ?thesis
    using index_add_block_run [OF ix1(1), of ms t] ix1(2,3) ms
    by (auto simp: merge_tenant_def ix1_def [symmetric] blocks_in_list)
qed

lemma merge_run:
  assumes "index_wf ix" and "distinct (map fst ts)"
    and "\<And>t ti. (t, ti) \<in> set ts \<Longrightarrow> series_wf ti \<and> bl_wf (ti_blocks ti)
       \<and> length (bl_entries (list_in ix t)) + card (dom (blocks_abs (ti_blocks ti))) \<le> u32_max
       \<and> (\<forall>k b b'. blocks_abs (ti_blocks ti) k = Some b \<longrightarrow> blocks_in ix t k = Some b'
            \<longrightarrow> \<not> collides (bi_series b') (bi_series b))"
  shows "\<exists>ix'. fold_opt merge_tenant ts ix = Some ix' \<and> index_wf ix'
       \<and> (\<forall>t. series_in ix' t = (case map_of ts t of None \<Rightarrow> series_in ix t
                                  | Some ti \<Rightarrow> bt_get (ti_series ti) ++ series_in ix t))
       \<and> (\<forall>t. blocks_in ix' t = (case map_of ts t of None \<Rightarrow> blocks_in ix t
                                  | Some ti \<Rightarrow> blocks_in ix t ++ blocks_abs (ti_blocks ti)))"
  using assms
proof (induction ts arbitrary: ix)
  case (Cons p ts)
  obtain t ti where p: "p = (t, ti)" by force
  have fresh: "map_of ts t = None" "\<And>t' ti'. (t', ti') \<in> set ts \<Longrightarrow> t' \<noteq> t"
    using Cons.prems(2) p by (auto simp: map_of_eq_None_iff rev_image_eqI)
  have head: "(t, ti) \<in> set (p # ts)" by (simp add: p)
  obtain ix1 where ix1: "merge_tenant (t, ti) ix = Some ix1" "index_wf ix1"
      "series_in ix1 = (series_in ix)(t := bt_get (ti_series ti) ++ series_in ix t)"
      "\<And>t'. t' \<noteq> t \<Longrightarrow> list_in ix1 t' = list_in ix t'"
      "blocks_in ix1 t = blocks_in ix t ++ blocks_abs (ti_blocks ti)"
    using merge_tenant_ok [OF Cons.prems(1), of ti t] Cons.prems(3) [OF head] by blast
  have other: "blocks_in ix1 t' = blocks_in ix t'" if "t' \<noteq> t" for t'
    using ix1(4) [OF that] by (simp add: blocks_in_list)
  have rest: "series_wf ti' \<and> bl_wf (ti_blocks ti')
       \<and> length (bl_entries (list_in ix1 t')) + card (dom (blocks_abs (ti_blocks ti'))) \<le> u32_max
       \<and> (\<forall>k b b'. blocks_abs (ti_blocks ti') k = Some b \<longrightarrow> blocks_in ix1 t' k = Some b'
            \<longrightarrow> \<not> collides (bi_series b') (bi_series b))" if "(t', ti') \<in> set ts" for t' ti'
    using Cons.prems(3) [of t' ti'] that fresh(2) [OF that] ix1(4) [of t'] other [of t'] by simp
  obtain ix' where "fold_opt merge_tenant ts ix1 = Some ix'" "index_wf ix'"
       "\<forall>t. series_in ix' t = (case map_of ts t of None \<Rightarrow> series_in ix1 t
                                  | Some ti \<Rightarrow> bt_get (ti_series ti) ++ series_in ix1 t)"
       "\<forall>t. blocks_in ix' t = (case map_of ts t of None \<Rightarrow> blocks_in ix1 t
                                  | Some ti \<Rightarrow> blocks_in ix1 t ++ blocks_abs (ti_blocks ti))"
    using Cons.IH [OF ix1(2) _ rest] Cons.prems(2) by auto
  then show ?case
    using ix1(1,3,5) other fresh(1) by (auto simp: p split: option.split)
qed simp

lemma merge_from_ok:
  assumes wf: "index_wf ix" and wf': "index_wf other" and "mergeable other ix"
  shows "\<exists>ix'. merge_from other ix = Some ix' \<and> index_wf ix'
       \<and> (\<forall>t. series_in ix' t = series_in other t ++ series_in ix t)
       \<and> (\<forall>t. blocks_in ix' t = blocks_in ix t ++ blocks_in other t)"
proof -
  have dist: "distinct (map fst (ix_tenants other))"
    using wf' by (simp add: index_wf_def bt_ok_distinct)
  have of_get: "bt_get (ix_tenants other) t = Some ti" if "(t, ti) \<in> set (ix_tenants other)" for t ti
    using dist that by simp
  have "\<exists>ix'. fold_opt merge_tenant (ix_tenants other) ix = Some ix' \<and> index_wf ix'
       \<and> (\<forall>t. series_in ix' t = (case map_of (ix_tenants other) t of None \<Rightarrow> series_in ix t
                                  | Some ti \<Rightarrow> bt_get (ti_series ti) ++ series_in ix t))
       \<and> (\<forall>t. blocks_in ix' t = (case map_of (ix_tenants other) t of None \<Rightarrow> blocks_in ix t
                                  | Some ti \<Rightarrow> blocks_in ix t ++ blocks_abs (ti_blocks ti)))"
  proof (rule merge_run [OF wf dist])
    fix t ti assume "(t, ti) \<in> set (ix_tenants other)"
    then have ti: "bt_get (ix_tenants other) t = Some ti" by (rule of_get)
    then have "blocks_in other t = blocks_abs (ti_blocks ti)" by (simp add: blocks_in_def)
    then show "series_wf ti \<and> bl_wf (ti_blocks ti)
       \<and> length (bl_entries (list_in ix t)) + card (dom (blocks_abs (ti_blocks ti))) \<le> u32_max
       \<and> (\<forall>k b b'. blocks_abs (ti_blocks ti) k = Some b \<longrightarrow> blocks_in ix t k = Some b'
            \<longrightarrow> \<not> collides (bi_series b') (bi_series b))"
      using wf' ti assms(3) unfolding index_wf_def mergeable_def by metis
  qed
  then show ?thesis
    by (auto simp: merge_from_def series_in_def [of other] blocks_in_def [of other] split: option.split)
qed

end
