(* ===== verification/Series_Index_Props.thy ===== *)
theory Series_Index_Props
  imports Series_Index_Spec
begin

text \<open>
  The properties of the multi-tenant index: what a selector resolves to, what a query is pointed at,
  what a compaction swap and a merge do, and the invariant that every sequence of index operations
  keeps.
\<close>

section \<open>Replacing and removing\<close>

lemma refresh_run_entries:
  "fold_opt refresh_one is bl = Some bl' \<Longrightarrow> bl_entries bl' = bl_entries bl"
proof (induction "is" arbitrary: bl)
  case (Cons i is')
  obtain bl1 where bl1: "refresh_one i bl = Some bl1" "fold_opt refresh_one is' bl1 = Some bl'"
    using Cons.prems by (auto simp: bind_eq_Some_conv)
  have "bl_entries bl1 = bl_entries bl"
    using bl1(1) by (auto simp: refresh_one_def bind_eq_Some_conv)
  then show ?case using Cons.IH [OF bl1(2)] by simp
qed simp

lemma detach_entries: "detach i bl = Some (n, bl') \<Longrightarrow> bl_entries bl' = bl_entries bl"
  by (auto simp: detach_def refresh_from_def bind_eq_Some_conv dest!: refresh_run_entries split: if_splits)

lemma retire_entries: "retire i bl = Some (gone, bl') \<Longrightarrow> bl_entries bl' = bl_entries bl"
  by (auto simp: retire_def bind_eq_Some_conv Let_def dest!: detach_entries split: if_splits)

lemma remove_loop_len:
  "fold_opt remove_one keys acc = Some (n, bl') \<Longrightarrow> length (bl_entries bl') = length (bl_entries (snd acc))"
proof (induction keys arbitrary: acc)
  case (Cons k keys)
  obtain acc' where acc': "remove_one k acc = Some acc'" "fold_opt remove_one keys acc' = Some (n, bl')"
    using Cons.prems by (auto simp: bind_eq_Some_conv)
  have "length (bl_entries (snd acc')) = length (bl_entries (snd acc))"
    using acc'(1)
    by (auto simp: remove_one_def bind_eq_Some_conv dest!: retire_entries split: option.splits if_splits)
  then show ?case using Cons.IH [OF acc'(2)] by simp
qed auto

lemma remove_blocks_len:
  assumes "bl_wf bl" and "remove_blocks keys bl = Some (n, bl')"
  shows "length (bl_entries bl') \<le> length (bl_entries bl)"
proof -
  obtain bl1 where bl1: "fold_opt remove_one keys (0, bl) = Some (n, bl1)" "compact_if_mostly_dead bl1 = Some bl'"
    using assms(2) by (auto simp: remove_blocks_def bind_eq_Some_conv)
  then have "bl_wf bl1" using remove_loop_abs [OF assms(1), of keys 0] by auto
  then show ?thesis
    using compact_if_mostly_dead_abs [of bl1] remove_loop_len [OF bl1(1)] bl1(2) by auto
qed

lemma replace_blocks_ok:
  assumes wf: "index_wf ix"
    and room: "length (bl_entries (list_in ix t)) + length add \<le> u32_max"
    and apart: "\<forall>m \<in> set add. bm_object_key m \<notin> set keys \<longrightarrow>
        (\<forall>b. blocks_in ix t (bm_object_key m) = Some b \<longrightarrow> \<not> collides (bi_series b) (set (bm_fingerprints m)))"
    and once: "distinct (map bm_object_key add)"
  shows "\<exists>ix'. replace_blocks t keys add ix = Some ix' \<and> index_wf ix' \<and> series_in ix' = series_in ix
       \<and> (\<forall>t'. t' \<noteq> t \<longrightarrow> list_in ix' t' = list_in ix t')
       \<and> blocks_in ix' t = put_metas add (blocks_in ix t |` (- set keys))"
proof -
  let ?bl = "list_in ix t"
  obtain n bl1 where bl1: "remove_blocks (bs_collect keys) ?bl = Some (n, bl1)" "bl_wf bl1" "bl_faithful bl1"
      "blocks_abs bl1 = blocks_abs ?bl |` (- set keys)"
    using remove_blocks_abs [OF list_in_wf(1) [OF wf, of t], of "bs_collect keys"] list_in_wf(2) [OF wf, of t]
    by auto
  have len: "length (bl_entries bl1) \<le> length (bl_entries ?bl)"
    using remove_blocks_len [OF list_in_wf(1) [OF wf, of t] bl1(1)] .
  have "m = m'" if "m \<in> set add" "m' \<in> set add" "bm_object_key m = bm_object_key m'" for m m'
    using once that by (auto simp: distinct_map dest: inj_onD)
  then have "run_admits add bl1"
    using room len apart unfolding run_admits_def bl1(4) blocks_in_list
    by (force simp: collides_def restrict_map_def)
  then obtain bl2 where "fold_opt insert_block add bl1 = Some bl2" "bl_wf bl2" "bl_faithful bl2"
      "blocks_abs bl2 = put_metas add (blocks_abs bl1)"
    using insert_run [OF bl1(2,3)] by blast
  then show ?thesis
    using update_blocks_ok [OF wf, of "\<lambda>bl. remove_blocks (bs_collect keys) bl \<bind> (\<lambda>(_, bl'). fold_opt insert_block add bl')" t bl2]
    by (auto simp: replace_blocks_def bl1(1,4) blocks_in_list)
qed

lemma index_remove_blocks_ok:
  assumes wf: "index_wf ix"
  shows "\<exists>ix'. index_remove_blocks t keys ix = Some (card (dom (blocks_in ix t) \<inter> set keys), ix')
       \<and> index_wf ix' \<and> series_in ix' = series_in ix
       \<and> (\<forall>t'. t' \<noteq> t \<longrightarrow> list_in ix' t' = list_in ix t')
       \<and> blocks_in ix' t = blocks_in ix t |` (- set keys) \<and> tenant_names ix' = tenant_names ix"
proof (cases "bt_get (ix_tenants ix) t")
  case None
  then show ?thesis using wf by (simp add: index_remove_blocks_def blocks_in_def)
next
  case (Some ti)
  define bl where "bl = ti_blocks ti"
  have bl: "list_in ix t = bl" using Some by (simp add: list_in_def bl_def)
  obtain bl1 where bl1: "remove_blocks (bs_collect keys) bl
      = Some (card (dom (blocks_abs bl) \<inter> set keys), bl1)" "bl_wf bl1" "bl_faithful bl1"
      "blocks_abs bl1 = blocks_abs bl |` (- set keys)"
    using remove_blocks_abs [OF list_in_wf(1) [OF wf, of t], of "bs_collect keys"] list_in_wf(2) [OF wf, of t] bl
    by auto
  define ix' where "ix' = ix\<lparr>ix_tenants := bt_insert t (ti\<lparr>ti_blocks := bl1\<rparr>) (ix_tenants ix)\<rparr>"
  have "update_blocks t (\<lambda>_. Some bl1) ix = Some ix'"
    using Some by (simp add: update_blocks_def ix'_def)
  then have "index_wf ix'" "series_in ix' = series_in ix" "list_in ix' = (list_in ix)(t := bl1)"
    using update_blocks_ok [OF wf, of "\<lambda>_. Some bl1" t bl1] bl1(2,3) by auto
  moreover have "index_remove_blocks t keys ix = Some (card (dom (blocks_in ix t) \<inter> set keys), ix')"
    using Some bl1(1) bl by (simp add: index_remove_blocks_def ix'_def bl_def blocks_in_list)
  moreover have "tenant_names ix' = tenant_names ix"
    using wf Some unfolding tenant_names_def ix'_def index_wf_def
    by (intro bs_eqI) (auto simp: bt_ok_insert fst_bt_insert rev_image_eqI dest: map_of_SomeD)
  ultimately show ?thesis by (simp add: blocks_in_list bl1(4) bl)
qed

section \<open>Reachable indexes\<close>

inductive index_step :: "series_index \<Rightarrow> series_index \<Rightarrow> bool" where
  Step_series: "bt_ok ls \<Longrightarrow> index_step ix (index_add_series t fp ls ix)"
| Step_block: "run_admits [m] (list_in ix (bm_tenant m)) \<Longrightarrow> index_add_block m ix = Some ix' \<Longrightarrow> index_step ix ix'"
| Step_remove: "index_remove_blocks t keys ix = Some (n, ix') \<Longrightarrow> index_step ix ix'"
| Step_replace: "length (bl_entries (list_in ix t)) + length add \<le> u32_max \<Longrightarrow>
    \<forall>m \<in> set add. bm_object_key m \<notin> set keys \<longrightarrow>
      (\<forall>b. blocks_in ix t (bm_object_key m) = Some b \<longrightarrow> \<not> collides (bi_series b) (set (bm_fingerprints m))) \<Longrightarrow>
    distinct (map bm_object_key add) \<Longrightarrow> replace_blocks t keys add ix = Some ix' \<Longrightarrow> index_step ix ix'"
| Step_merge: "index_step\<^sup>*\<^sup>* index_new other \<Longrightarrow> mergeable other ix \<Longrightarrow> merge_from other ix = Some ix'
    \<Longrightarrow> index_step ix ix'"

lemma index_wf_new: "index_wf index_new"
  by (simp add: index_wf_def index_new_def)

lemma index_add_block_ok:
  assumes "index_wf ix" and "run_admits [m] (list_in ix (bm_tenant m))"
  shows "\<exists>ix'. index_add_block m ix = Some ix' \<and> index_wf ix' \<and> series_in ix' = series_in ix
       \<and> (\<forall>t. t \<noteq> bm_tenant m \<longrightarrow> blocks_in ix' t = blocks_in ix t)
       \<and> blocks_in ix' (bm_tenant m) = (blocks_in ix (bm_tenant m))(bm_object_key m \<mapsto> meta_info m)"
proof -
  obtain ix' where "index_add_block m ix = Some ix'" "index_wf ix'" "series_in ix' = series_in ix"
      "\<forall>t'. t' \<noteq> bm_tenant m \<longrightarrow> list_in ix' t' = list_in ix t'"
      "blocks_abs (list_in ix' (bm_tenant m)) = put_metas [m] (blocks_abs (list_in ix (bm_tenant m)))"
    using index_add_block_run [OF assms] by (auto simp: bind_eq_Some_conv)
  then show ?thesis by (simp add: blocks_in_list put_metas_def)
qed

lemma index_steps_wf: "index_step ix ix' \<Longrightarrow> index_wf ix \<Longrightarrow> index_wf ix'"
proof (induction rule: index_step.induct)
  case (Step_block m ix ix')
  then show ?case using index_add_block_ok [of ix m] by auto
next
  case (Step_remove t keys ix n ix')
  then show ?case using index_remove_blocks_ok [of ix t keys] by auto
next
  case (Step_replace ix t add keys ix')
  then show ?case
    using replace_blocks_ok [OF Step_replace.prems Step_replace.hyps(1-3)] by (elim exE conjE) simp
next
  case (Step_merge other ix ix')
  have "index_wf other"
    using Step_merge(1) index_wf_new by (induction rule: rtranclp_induct) auto
  then show ?case using merge_from_ok [of ix other] Step_merge by auto
qed (auto intro: index_add_series_ok(1))

lemma reachable_wf: "index_step\<^sup>*\<^sup>* index_new ix \<Longrightarrow> index_wf ix"
  by (induction rule: rtranclp_induct) (auto intro: index_wf_new index_steps_wf)

lemma resolve_ok:
  assumes wf: "index_wf ix" and valid: "\<forall>m \<in> set ms. matcher_valid regex_new m"
    and some: "\<exists>m \<in> set ms. restricting regex_new m"
  shows "\<exists>r. resolve regex_new ix t ms = Inr r \<and> bs_ok r
       \<and> set r = {fp. \<exists>ls. series_in ix t fp = Some ls \<and> (\<forall>m \<in> set ms. matcher_holds regex_new m fp ls)}"
proof (cases "bt_get (ix_tenants ix) t")
  case None
  then show ?thesis
    using some unfolding resolve_is_plain [OF wf]
    by (auto simp: resolve_plain_def has_non_empty_matcher_ok [OF valid] series_in_def)
next
  case (Some ti)
  then have "series_wf ti" using wf by (auto simp: index_wf_def)
  moreover have "ms \<noteq> []" using some by auto
  ultimately obtain r where "resolve_in_order regex_new ti ms = Inr r" "selects_all regex_new ti ms r"
    using resolve_in_order_ok [of ti ms regex_new] valid by blast
  then show ?thesis
    using some Some unfolding resolve_is_plain [OF wf]
    by (auto simp: resolve_plain_def has_non_empty_matcher_ok [OF valid] series_in_def selects_all_def selected_def)
qed

lemma index_candidate_blocks_ok:
  assumes "index_wf ix"
  shows "index_candidate_blocks ix t fps a b = Some (live_where (blocks_in ix t)
     (\<lambda>i. info_overlaps i a b \<and> bi_series i \<inter> set fps \<noteq> {}))"
proof (cases "bt_get (ix_tenants ix) t")
  case None
  then show ?thesis
    by (simp add: index_candidate_blocks_def with_blocks_def blocks_in_def live_where_def time_order_def)
next
  case (Some ti)
  then have "bl_wf (ti_blocks ti)" using assms by (auto simp: index_wf_def)
  then show ?thesis
    using Some by (simp add: index_candidate_blocks_def with_blocks_def blocks_in_def candidate_blocks_abs)
qed

section \<open>A small index\<close>

text \<open>One series of tenant \<open>t\<close> and the block \<open>a\<close> that holds its rows.\<close>

definition demo_labels :: labels where
  "demo_labels = [(''env'', ''prod''), (''job'', ''api'')]"

definition demo_index :: series_index where
  "demo_index = index_add_series ''t'' 5 demo_labels index_new"

definition demo_matcher :: label_matcher where
  "demo_matcher = \<lparr>mt_name = ''job'', mt_op = Match_Eq, mt_value = ''api''\<rparr>"

lemma demo_index_reachable: "index_step\<^sup>*\<^sup>* index_new demo_index"
  unfolding demo_index_def by (intro r_into_rtranclp Step_series) (simp add: demo_labels_def)

lemma demo_index_state:
  "index_wf demo_index" "series_in demo_index ''t'' = [5 \<mapsto> demo_labels]" "blocks_in demo_index ''t'' = Map.empty"
  "list_in demo_index ''t'' = empty_list"
proof -
  have "bt_ok demo_labels" by (simp add: demo_labels_def)
  note new = index_add_series_ok [OF index_wf_new this, of "''t''" 5]
  show "index_wf demo_index" using new(1) by (simp add: demo_index_def)
  show "series_in demo_index ''t'' = [5 \<mapsto> demo_labels]"
    using new(2) by (simp add: demo_index_def series_in_def index_new_def)
  show "list_in demo_index ''t'' = empty_list"
    using new(3) by (simp add: demo_index_def list_in_def index_new_def)
  then show "blocks_in demo_index ''t'' = Map.empty"
    by (simp add: blocks_in_list)
qed

lemma demo_matcher_state:
  shows "matcher_valid regex_new demo_matcher" and "restricting regex_new demo_matcher"
    and "matcher_holds regex_new demo_matcher 5 demo_labels"
proof -
  have m: "mt_name demo_matcher = ''job''" "mt_op demo_matcher = Match_Eq" "mt_value demo_matcher = ''api''"
    and other: "''job'' \<noteq> query_shard_label"
    by (simp_all add: demo_matcher_def)
  have "value_or_empty demo_labels ''job'' = ''api''" "value_or_empty [] ''job'' = []"
    by (simp_all add: value_or_empty_def demo_labels_def)
  then show "matcher_valid regex_new demo_matcher" and "restricting regex_new demo_matcher"
    and "matcher_holds regex_new demo_matcher 5 demo_labels"
    unfolding matcher_valid_def restricting_def matcher_holds_def m is_regex_op_def
    using other by simp_all
qed

lemma demo_block:
  "\<exists>ix. index_add_block block_a demo_index = Some ix \<and> index_step\<^sup>*\<^sup>* index_new ix
     \<and> series_in ix ''t'' = [5 \<mapsto> demo_labels] \<and> blocks_in ix ''t'' = [''a'' \<mapsto> meta_info block_a]"
proof -
  have t: "bm_tenant block_a = ''t''" "bm_object_key block_a = ''a''" by (simp_all add: block_a_def)
  have adm: "run_admits [block_a] (list_in demo_index (bm_tenant block_a))"
    by (simp add: run_admits_def t(1) demo_index_state(4) collides_def empty_list_size)
  obtain ix where ix: "index_add_block block_a demo_index = Some ix" "series_in ix = series_in demo_index"
      "blocks_in ix ''t'' = (blocks_in demo_index ''t'')(''a'' \<mapsto> meta_info block_a)"
    using index_add_block_ok [OF demo_index_state(1) adm] by (auto simp: t)
  moreover have "index_step\<^sup>*\<^sup>* index_new ix"
    using demo_index_reachable Step_block [OF adm ix(1)] by (rule rtranclp.rtrancl_into_rtrancl)
  ultimately show ?thesis by (simp add: demo_index_state(2,3))
qed

section \<open>Properties\<close>

text \<open>
  C7. A selector resolves to exactly the series that satisfy it: on an index built by its own
  operations, when every regex compiles and some matcher rejects the empty value, \<open>Index::resolve\<close>
  returns, in ascending order, the fingerprints of the tenant's series whose labels satisfy every
  matcher, a missing label counting as the empty string.
\<close>

theorem resolve_exact:
  assumes "index_step\<^sup>*\<^sup>* index_new ix" and "\<forall>m \<in> set ms. matcher_valid regex_new m"
    and "\<exists>m \<in> set ms. restricting regex_new m"
  shows "\<exists>r. resolve regex_new ix tenant ms = Inr r \<and> bs_ok r
       \<and> set r = {fp. \<exists>ls. series_in ix tenant fp = Some ls \<and> (\<forall>m \<in> set ms. matcher_holds regex_new m fp ls)}"
  using resolve_ok [OF reachable_wf] assms by blast

theorem resolve_exact_witness:
  "\<exists>r. resolve (\<lambda>_. None) demo_index ''t'' [demo_matcher] = Inr r \<and> set r = {5}"
proof -
  have "{fp. \<exists>ls. series_in demo_index ''t'' fp = Some ls
      \<and> (\<forall>m \<in> set [demo_matcher]. matcher_holds (\<lambda>_. None) m fp ls)} = {5}"
    using demo_matcher_state(3) by (auto simp: demo_index_state split: if_splits)
  then show ?thesis
    using resolve_exact [OF demo_index_reachable, of "[demo_matcher]" "\<lambda>_. None" "''t''"] demo_matcher_state
    by auto
qed

text \<open>
  C8. The selective plan is an optimisation only: whatever seed matcher \<open>resolve_selective\<close> picks, and
  whether it applies at all, \<open>Index::resolve\<close> returns what resolving the matchers one by one in the
  order they are written returns, errors included.
\<close>

theorem resolve_plan_irrelevant:
  assumes "index_step\<^sup>*\<^sup>* index_new ix"
  shows "resolve regex_new ix tenant ms = resolve_plain regex_new ix tenant ms"
  using resolve_is_plain [OF reachable_wf [OF assms]] .

theorem resolve_plan_irrelevant_witness:
  "resolve (\<lambda>_. None) demo_index ''t'' [demo_matcher, demo_matcher]
     = resolve_plain (\<lambda>_. None) demo_index ''t'' [demo_matcher, demo_matcher]"
  by (rule resolve_plan_irrelevant [OF demo_index_reachable])

text \<open>
  C9. A query reads exactly the blocks it needs: resolving the selector and asking for the candidate
  blocks of the result names every registered block of the tenant that overlaps the range and holds
  a series that satisfies the selector, and no other block.
\<close>

theorem query_blocks_exact:
  assumes "index_step\<^sup>*\<^sup>* index_new ix" and "\<forall>m \<in> set ms. matcher_valid regex_new m"
    and "\<exists>m \<in> set ms. restricting regex_new m"
  shows "\<exists>r ks. resolve regex_new ix tenant ms = Inr r
       \<and> candidate_blocks_for_series ix tenant r min_ts max_ts = Some ks \<and> distinct ks
       \<and> set ks = {k. \<exists>b fp ls. blocks_in ix tenant k = Some b \<and> bi_min_ts b \<le> max_ts \<and> min_ts \<le> bi_max_ts b
            \<and> fp \<in> bi_series b \<and> series_in ix tenant fp = Some ls \<and> (\<forall>m \<in> set ms. matcher_holds regex_new m fp ls)}"
proof -
  have wf: "index_wf ix" by (rule reachable_wf [OF assms(1)])
  obtain r where r: "resolve regex_new ix tenant ms = Inr r"
      "set r = {fp. \<exists>ls. series_in ix tenant fp = Some ls \<and> (\<forall>m \<in> set ms. matcher_holds regex_new m fp ls)}"
    using resolve_ok [OF wf assms(2,3)] by blast
  define ks where "ks = live_where (blocks_in ix tenant)
      (\<lambda>i. info_overlaps i min_ts max_ts \<and> bi_series i \<inter> set r \<noteq> {})"
  have fin: "finite (dom (blocks_in ix tenant))" by (simp add: blocks_in_list finite_blocks_abs)
  have hit: "bi_series b \<inter> set r \<noteq> {} \<longleftrightarrow> (\<exists>fp ls. fp \<in> bi_series b \<and> series_in ix tenant fp = Some ls
      \<and> (\<forall>m \<in> set ms. matcher_holds regex_new m fp ls))" for b
    unfolding r(2) by blast
  have "distinct ks" and "set ks = {k. \<exists>b fp ls. blocks_in ix tenant k = Some b \<and> bi_min_ts b \<le> max_ts
      \<and> min_ts \<le> bi_max_ts b \<and> fp \<in> bi_series b \<and> series_in ix tenant fp = Some ls
      \<and> (\<forall>m \<in> set ms. matcher_holds regex_new m fp ls)}"
    unfolding ks_def live_where_set(2) [OF fin] hit info_overlaps_def
    using live_where_set(1) [OF fin] by blast+
  then show ?thesis
    using r(1) index_candidate_blocks_ok [OF wf, of tenant r min_ts max_ts]
    unfolding candidate_blocks_for_series_def ks_def [symmetric] by blast
qed

theorem query_blocks_exact_witness:
  "\<exists>ix r. index_add_block block_a demo_index = Some ix
     \<and> resolve (\<lambda>_. None) ix ''t'' [demo_matcher] = Inr r
     \<and> (\<exists>ks. candidate_blocks_for_series ix ''t'' r 20 30 = Some ks \<and> set ks = {''a''})"
proof -
  obtain ix where ix: "index_add_block block_a demo_index = Some ix" "index_step\<^sup>*\<^sup>* index_new ix"
      "series_in ix ''t'' = [5 \<mapsto> demo_labels]" "blocks_in ix ''t'' = [''a'' \<mapsto> meta_info block_a]"
    using demo_block by blast
  have hits: "{k. \<exists>b fp ls. blocks_in ix ''t'' k = Some b \<and> bi_min_ts b \<le> 30 \<and> 20 \<le> bi_max_ts b
      \<and> fp \<in> bi_series b \<and> series_in ix ''t'' fp = Some ls
      \<and> (\<forall>m \<in> set [demo_matcher]. matcher_holds (\<lambda>_. None) m fp ls)} = {''a''}"
    using demo_matcher_state(3) by (auto simp: ix meta_info_def block_a_def split: if_splits)
  have "\<forall>m \<in> set [demo_matcher]. matcher_valid (\<lambda>_. None) m"
      "\<exists>m \<in> set [demo_matcher]. restricting (\<lambda>_. None) m"
    using demo_matcher_state by simp_all
  from query_blocks_exact [OF ix(2) this, where tenant = "''t''" and min_ts = 20 and max_ts = 30]
  obtain r ks where "resolve (\<lambda>_. None) ix ''t'' [demo_matcher] = Inr r"
      "candidate_blocks_for_series ix ''t'' r 20 30 = Some ks" "set ks = {''a''}"
    unfolding hits by (elim exE conjE)
  then show ?thesis using ix(1) by (intro exI conjI)
qed

text \<open>
  The compaction swap is exact: \<open>Index::replace_blocks\<close> drops the input blocks, registers the
  outputs with their metadata, keeps every other block of the tenant, every other tenant and every
  series, and keeps the index well formed.
\<close>

theorem replace_blocks_swaps:
  assumes "index_wf ix" and "length (bl_entries (list_in ix t)) + length add \<le> u32_max"
    and "\<forall>m \<in> set add. bm_object_key m \<notin> set keys \<longrightarrow>
        (\<forall>b. blocks_in ix t (bm_object_key m) = Some b \<longrightarrow> \<not> collides (bi_series b) (set (bm_fingerprints m)))"
    and "distinct (map bm_object_key add)"
  shows "\<exists>ix'. replace_blocks t keys add ix = Some ix' \<and> index_wf ix' \<and> series_in ix' = series_in ix
       \<and> (\<forall>t'. blocks_in ix' t' = (if t' = t then put_metas add (blocks_in ix t |` (- set keys)) else blocks_in ix t'))"
  using replace_blocks_ok [OF assms] by (auto simp: blocks_in_list)

theorem replace_blocks_swaps_witness:
  "\<exists>ix ix'. index_add_block block_a demo_index = Some ix \<and> replace_blocks ''t'' [''a''] [] ix = Some ix'
     \<and> blocks_in ix' ''t'' = Map.empty"
proof -
  obtain ix where ix: "index_add_block block_a demo_index = Some ix" "index_step\<^sup>*\<^sup>* index_new ix"
      "blocks_in ix ''t'' = [''a'' \<mapsto> meta_info block_a]"
    using demo_block by blast
  have "length (bl_entries (list_in ix ''t'')) + length [] \<le> u32_max"
    using list_in_wf(1) [OF reachable_wf [OF ix(2)], of "''t''"] by (simp add: bl_wf_def order_wf_def)
  then obtain ix' where "replace_blocks ''t'' [''a''] [] ix = Some ix'"
      "blocks_in ix' ''t'' = put_metas [] (blocks_in ix ''t'' |` (- set [''a'']))"
    using replace_blocks_swaps [OF reachable_wf [OF ix(2)], of "''t''" "[]" "[''a'']"] by auto
  then show ?thesis using ix(1,3) by (auto simp: put_metas_def restrict_map_def fun_eq_iff)
qed

text \<open>
  Merging is a union: \<open>Index::merge_from\<close> never panics on two well-formed indexes with room for
  the union, keeps this index's labels for a series both know, takes the other index's metadata for
  a block both know, and loses nothing of either side.
\<close>

theorem merge_from_union:
  assumes "index_wf ix" and "index_wf other" and "mergeable other ix"
  shows "\<exists>ix'. merge_from other ix = Some ix' \<and> index_wf ix'
       \<and> (\<forall>t. series_in ix' t = series_in other t ++ series_in ix t)
       \<and> (\<forall>t. blocks_in ix' t = blocks_in ix t ++ blocks_in other t)"
  using merge_from_ok [OF assms] .

theorem merge_from_union_witness:
  "\<exists>ix'. merge_from demo_index index_new = Some ix' \<and> series_in ix' ''t'' = [5 \<mapsto> demo_labels]"
proof -
  have none: "blocks_in index_new t = Map.empty" "list_in index_new t = empty_list"
    "series_in index_new t = Map.empty" for t
    by (simp_all add: blocks_in_def list_in_def series_in_def index_new_def)
  have "list_in demo_index = list_in index_new"
    unfolding demo_index_def by (rule index_add_series_ok(3) [OF index_wf_new]) (simp add: demo_labels_def)
  then have "mergeable demo_index index_new"
    by (simp add: mergeable_def none blocks_in_list empty_list_size)
  then show ?thesis
    using merge_from_union [OF index_wf_new demo_index_state(1)] demo_index_state(2) none(3) by auto
qed

text \<open>
  C10. The index invariant holds throughout: every index that its operations can build keeps each
  tenant's postings and value sets in step with its series and each block list well formed, so no
  candidate query on it panics.
\<close>

theorem index_invariant:
  assumes "index_step\<^sup>*\<^sup>* index_new ix"
  shows "index_wf ix \<and> index_candidate_blocks ix tenant fps min_ts max_ts \<noteq> None"
  using reachable_wf [OF assms] index_candidate_blocks_ok by simp

theorem index_invariant_witness:
  "index_wf demo_index \<and> index_candidate_blocks demo_index ''t'' [5] 0 9 \<noteq> None"
  by (rule index_invariant [OF demo_index_reachable])

end
