(* ===== verification/Shard_Codec.thy ===== *)
theory Shard_Codec
  imports Series_Index Wire
begin

text \<open>
  One index shard: \<open>encode_index_shard\<close> of \<open>index.rs\<close>, \<open>index/shard_string_dictionary.rs\<close>,
  \<open>Index::encode_tenant_as_shard\<close> and the decoder of \<open>index/decode_index_shard.rs\<close>.  The option layer
  of an operation is a panic, the sum layer of the decoder an \<open>InvalidBlock\<close> error.
\<close>

definition index_shard_magic :: "byte list" where
  "index_shard_magic = string_bytes ''KBIX''"

definition index_shard_format_version :: byte where
  "index_shard_format_version = 2"

section \<open>Encoding\<close>

record index_shard_payload =
  ip_tenant :: string
  ip_series :: "(fingerprint, labels) btree_map"
  ip_selected :: "fingerprint btree_set"
  ip_blocks :: "block_entry list"
  ip_postings :: "(fingerprint, ordinal list) btree_map"

record shard_string_dictionary =
  dc_strings :: "string list"
  dc_ids :: "(string, usize) btree_map"

definition assign_sorted_string_ids :: "(string, usize) btree_map \<Rightarrow> shard_string_dictionary" where
  "assign_sorted_string_ids entries =
     (let strings = bt_keys entries
      in \<lparr>dc_strings = strings,
          dc_ids = fold (\<lambda>(id, text). bt_insert text id) (enumerate 0 strings) []\<rparr>)"

definition or_insert :: "'k::linorder \<Rightarrow> 'v \<Rightarrow> ('k, 'v) btree_map \<Rightarrow> ('k, 'v) btree_map" where
  "or_insert k v m = (case bt_get m k of None \<Rightarrow> bt_insert k v m | Some _ \<Rightarrow> m)"

definition note_pair :: "label_pair \<Rightarrow> (string, usize) btree_map \<Rightarrow> (string, usize) btree_map" where
  "note_pair pair dictionary =
     (let d1 = or_insert (lp_name pair) (length dictionary) dictionary
      in or_insert (lp_value pair) (length d1) d1)"

definition collect_strings ::
  "(fingerprint, labels) btree_map \<Rightarrow> fingerprint btree_set \<Rightarrow> (string, usize) btree_map" where
  "collect_strings series selected =
     fold (\<lambda>fp d. case bt_get series fp of None \<Rightarrow> d | Some ls \<Rightarrow> fold note_pair (labels_iter ls) d) selected []"

definition push_label :: "(string, usize) btree_map \<Rightarrow> label_pair \<Rightarrow> byte list option" where
  "push_label ids pair = do {
     name \<leftarrow> push_dictionary_id ids (lp_name pair);
     val \<leftarrow> push_dictionary_id ids (lp_value pair);
     Some (name @ val)
   }"

definition push_series ::
  "(string, usize) btree_map \<Rightarrow> (fingerprint, labels) btree_map \<Rightarrow> fingerprint \<Rightarrow> byte list option" where
  "push_series ids series fp = do {
     pairs \<leftarrow> (case bt_get series fp of None \<Rightarrow> Some [] | Some ls \<Rightarrow> map_opt (push_label ids) (labels_iter ls));
     Some (le_bytes fp @ push_len (case bt_get series fp of None \<Rightarrow> 0 | Some ls \<Rightarrow> labels_len ls) @ concat pairs)
   }"

fun push_entries :: "i64 \<Rightarrow> block_entry list \<Rightarrow> byte list" where
  "push_entries previous_min [] = []"
| "push_entries previous_min (block # blocks) =
     (case push_shard_block_prefix (be_object_key block) (be_min_ts block) (be_max_ts block)
             (be_row_count block) (be_level block) previous_min of
        (bytes, previous_min') \<Rightarrow>
          bytes @ push_len (be_fingerprint_count block) @ le_bytes (be_fingerprint_digest block)
            @ push_entries previous_min' blocks)"

text \<open>\<open>u32::wrapping_sub\<close> on ordinals.\<close>

definition ordinal_delta :: "ordinal \<Rightarrow> ordinal \<Rightarrow> nat" where
  "ordinal_delta ordinal previous = (ordinal + 2 ^ 32 - previous) mod 2 ^ 32"

fun push_ordinals :: "ordinal \<Rightarrow> ordinal list \<Rightarrow> byte list" where
  "push_ordinals previous [] = []"
| "push_ordinals previous (ordinal # ordinals) =
     push_uvarint (of_nat (ordinal_delta ordinal previous)) @ push_ordinals ordinal ordinals"

definition push_posting :: "fingerprint \<times> ordinal list \<Rightarrow> byte list" where
  "push_posting posting =
     (case posting of (fp, ordinals) \<Rightarrow> le_bytes fp @ push_len (length ordinals) @ push_ordinals 0 ordinals)"

definition encode_index_shard :: "index_shard_payload \<Rightarrow> byte list option" where
  "encode_index_shard payload =
     (let dictionary = assign_sorted_string_ids (collect_strings (ip_series payload) (ip_selected payload));
          strings = dc_strings dictionary
      in do {
        series \<leftarrow> map_opt (push_series (dc_ids dictionary) (ip_series payload)) (ip_selected payload);
        Some (index_shard_magic @ [index_shard_format_version] @ push_string (ip_tenant payload)
          @ push_len (length strings) @ concat (map push_string strings)
          @ push_len (length (ip_selected payload)) @ concat series
          @ push_len (length (ip_blocks payload)) @ push_entries 0 (ip_blocks payload)
          @ push_len (length (ip_postings payload)) @ concat (map push_posting (ip_postings payload)))
      })"

definition encode_tenant_as_shard :: "series_index \<Rightarrow> string \<Rightarrow> byte list option" where
  "encode_tenant_as_shard ix tenant =
     (let ti = (case bt_get (ix_tenants ix) tenant of None \<Rightarrow> tenant_default | Some ti \<Rightarrow> ti)
      in do {
        ordinals \<leftarrow> ordinals_overlapping (ti_blocks ti) i64_min i64_max;
        local \<leftarrow> shard_local (ti_blocks ti) (bs_collect ordinals);
        encode_index_shard
          \<lparr>ip_tenant = tenant, ip_series = ti_series ti, ip_selected = bs_collect (bt_keys (ti_series ti)),
           ip_blocks = ls_blocks local, ip_postings = ls_postings local\<rparr>
      })"

section \<open>Decoding\<close>

definition dictionary_entry :: "string list \<Rightarrow> u64 \<Rightarrow> string result" where
  "dictionary_entry dictionary entry =
     (case usize_try entry of
        None \<Rightarrow> Inl (No_dictionary_entry entry)
      | Some i \<Rightarrow> (case nth_opt dictionary i of None \<Rightarrow> Inl (No_dictionary_entry entry) | Some text \<Rightarrow> Inr text))"

definition read_label :: "string list \<Rightarrow> byte_reader \<Rightarrow> (label_pair \<times> byte_reader) result" where
  "read_label dictionary r =
     res_bind (read_uvarint ''a label name id'' r) (\<lambda>(name_id, r1).
     res_bind (dictionary_entry dictionary name_id) (\<lambda>name.
     res_bind (read_uvarint ''a label value id'' r1) (\<lambda>(value_id, r2).
     res_bind (dictionary_entry dictionary value_id) (\<lambda>val.
       Inr (\<lparr>lp_name = name, lp_value = val\<rparr>, r2)))))"

definition read_series :: "string list \<Rightarrow> byte_reader \<Rightarrow> ((fingerprint \<times> labels) \<times> byte_reader) result" where
  "read_series dictionary r =
     res_bind (read_u64_le ''a series fingerprint'' r) (\<lambda>(fp, r1).
     res_bind (read_count ''labels of a series'' r1) (\<lambda>(n, r2).
     res_bind (read_times n (\<lambda>ls r. res_bind (read_label dictionary r)
         (\<lambda>(pair, r'). Inr (labels_insert (lp_name pair) (lp_value pair) ls, r'))) labels_new r2) (\<lambda>(ls, r3).
       Inr ((fp, ls), r3))))"

definition read_series_into ::
  "string list \<Rightarrow> tenant_index \<Rightarrow> byte_reader \<Rightarrow> (tenant_index \<times> byte_reader) result" where
  "read_series_into dictionary ti r =
     res_bind (read_series dictionary r) (\<lambda>((fp, ls), r'). Inr (tenant_add_series fp ls ti, r'))"

definition read_entry ::
  "block_entry list \<times> i64 \<Rightarrow> byte_reader \<Rightarrow> ((block_entry list \<times> i64) \<times> byte_reader) result" where
  "read_entry acc r =
     (case acc of (entries, previous_min) \<Rightarrow>
       res_bind (read_shard_block_prefix previous_min r) (\<lambda>(block, r1).
       res_bind (read_count_unbounded ''a block fingerprint count'' r1) (\<lambda>(fingerprint_count, r2).
       res_bind (read_u64_le ''a block fingerprint digest'' r2) (\<lambda>(digest, r3).
         Inr ((entries @ [\<lparr>be_object_key = sp_object_key block, be_min_ts = sb_min_ts (sp_bounds block),
                           be_max_ts = sb_max_ts (sp_bounds block), be_row_count = sp_row_count block,
                           be_fingerprint_count = fingerprint_count, be_fingerprint_digest = digest,
                           be_level = sp_level block\<rparr>],
               sb_min_ts (sp_bounds block)), r3)))))"

definition read_ordinal ::
  "nat \<Rightarrow> ordinal list \<times> ordinal \<Rightarrow> byte_reader \<Rightarrow> ((ordinal list \<times> ordinal) \<times> byte_reader) result" where
  "read_ordinal total_blocks acc r =
     (case acc of (ordinals, previous) \<Rightarrow>
       res_bind (read_uvarint ''a posting ordinal'' r) (\<lambda>(raw, r').
         case u32_try (unat raw) of
           None \<Rightarrow> Inl Ordinal_beyond_shard
         | Some delta \<Rightarrow>
             (case u32_try (previous + delta) of
                None \<Rightarrow> Inl Ordinal_beyond_shard
              | Some ordinal \<Rightarrow>
                  if ordinal \<ge> total_blocks then Inl (Names_ordinal ordinal total_blocks)
                  else Inr ((ordinals @ [ordinal], ordinal), r'))))"

definition read_posting ::
  "nat \<Rightarrow> byte_reader \<Rightarrow> ((fingerprint \<times> ordinal list) \<times> byte_reader) result" where
  "read_posting total_blocks r =
     res_bind (read_u64_le ''a posting fingerprint'' r) (\<lambda>(fp, r1).
     res_bind (read_count ''ordinals of a posting'' r1) (\<lambda>(n, r2).
     res_bind (read_times n (read_ordinal total_blocks) ([], 0) r2) (\<lambda>((ordinals, _), r3).
       Inr ((fp, ordinals), r3))))"

definition read_posting_into ::
  "nat \<Rightarrow> (fingerprint, ordinal list) btree_map \<Rightarrow> byte_reader
     \<Rightarrow> ((fingerprint, ordinal list) btree_map \<times> byte_reader) result" where
  "read_posting_into total_blocks postings r =
     res_bind (read_posting total_blocks r) (\<lambda>((fp, ordinals), r'). Inr (bt_insert fp ordinals postings, r'))"

text \<open>
  The decoder up to the block count conversion, the only step that can panic before the list is
  rebuilt: the tenant, its series, the block entries, and the reader at the postings count.
\<close>

definition decode_front ::
  "byte list \<Rightarrow> (string \<times> tenant_index \<times> block_entry list \<times> nat \<times> byte_reader) result" where
  "decode_front bytes =
     res_bind (decode_shard_header bytes index_shard_magic index_shard_format_version ''an index shard'') (\<lambda>header.
     res_bind (read_count ''series'' (dh_reader header)) (\<lambda>(series_count, r1).
     res_bind (read_times series_count (read_series_into (dh_dictionary header)) tenant_default r1) (\<lambda>(ti, r2).
     res_bind (read_count ''blocks'' r2) (\<lambda>(total_blocks, r3).
     res_bind (read_times total_blocks read_entry ([], 0) r3) (\<lambda>((entries, _), r4).
     res_bind (read_count ''postings'' r4) (\<lambda>(posting_count, r5).
       Inr (dh_tenant header, ti, entries, posting_count, r5)))))))"

definition decode_back ::
  "nat \<Rightarrow> nat \<Rightarrow> byte_reader \<Rightarrow> (fingerprint, ordinal list) btree_map result" where
  "decode_back total_blocks posting_count r =
     res_bind (read_times posting_count (read_posting_into total_blocks) [] r) (\<lambda>(postings, r').
       if \<not> is_exhausted r' then Inl Trailing_bytes else Inr postings)"

definition decode :: "byte list \<Rightarrow> series_index result option" where
  "decode bytes =
     (case decode_front bytes of
        Inl e \<Rightarrow> Some (Inl e)
      | Inr (tenant, ti, entries, posting_count, r) \<Rightarrow> do {
          total_blocks \<leftarrow> u32_try (length entries);
          case decode_back total_blocks posting_count r of
            Inl e \<Rightarrow> Some (Inl e)
          | Inr postings \<Rightarrow> do {
              blocks \<leftarrow> from_repr \<lparr>br_entries = entries, br_postings = postings\<rparr>;
              Some (Inr \<lparr>ix_tenants = [(tenant, ti\<lparr>ti_blocks := blocks\<rparr>)]\<rparr>)
            }
        })"

definition decode_index_shard :: "string \<Rightarrow> byte list \<Rightarrow> ((string \<times> shard_error) + series_index) option" where
  "decode_index_shard object_key bytes = map_option (map_sum (Pair object_key) id) (decode bytes)"

end
