(* ===== verification/Shard_Codec_Spec.thy ===== *)
theory Shard_Codec_Spec
  imports Shard_Codec Wire_Codec Series_Index_Props
begin

text \<open>
  Decoding an index shard undoes encoding it, and decoding any bytes either fails with an error or
  gives a well-formed index.
\<close>

section \<open>Runs of elements\<close>

lemma push_uvarint_ne [simp]: "push_uvarint v \<noteq> []"
  by (subst push_uvarint.simps) simp

lemma push_len_ne [simp]: "push_len n \<noteq> []"
  by (simp add: push_len_def)

lemma push_string_ne [simp]: "push_string s \<noteq> []"
  by (simp add: push_string_def)

lemma le_bytes_ne [simp]: "le_bytes w \<noteq> []"
  by (metis length_le_bytes list.size(3) zero_neq_numeral)

lemma run_length: "(\<And>x. x \<in> set xs \<Longrightarrow> enc x \<noteq> []) \<Longrightarrow> length xs \<le> length (concat (map enc xs))"
proof (induction xs)
  case (Cons x xs)
  have "length (enc x) \<ge> 1" using Cons.prems [of x] by (cases "enc x") auto
  then show ?case using Cons by simp
qed simp

lemma codec_run:
  assumes codec: "codec enc dec valid" and valid: "\<And>v. v \<in> set vs \<Longrightarrow> valid v \<and> enc v \<noteq> []"
    and a: "ahead r (push_len (length vs) @ concat (map enc vs)) ys"
    and f: "\<And>s r. f s r = res_bind (dec r) (\<lambda>(v, r'). Inr (step s v, r'))"
  shows "read_count what r = Inr (length vs, advance (length (push_len (length vs))) r)"
    and "read_times (length vs) f s (advance (length (push_len (length vs))) r)
      = Inr (foldl step s vs, advance (length (push_len (length vs) @ concat (map enc vs))) r)"
proof -
  have a1: "ahead r (push_len (length vs)) (concat (map enc vs) @ ys)"
    using a by (simp add: ahead_append)
  moreover have "length vs \<le> length (concat (map enc vs) @ ys)"
    using run_length [of vs enc] valid by simp
  ultimately show "read_count what r = Inr (length vs, advance (length (push_len (length vs))) r)"
    by (rule read_count_ahead)
  show "read_times (length vs) f s (advance (length (push_len (length vs))) r)
      = Inr (foldl step s vs, advance (length (push_len (length vs) @ concat (map enc vs))) r)"
    using codec.read_times_enc [OF codec, of vs "advance (length (push_len (length vs))) r" ys f step s]
      ahead_advance [OF a1] valid f by simp
qed

section \<open>The dictionary\<close>

definition dict_ids :: "string list \<Rightarrow> (string, usize) btree_map \<Rightarrow> bool" where
  "dict_ids strings ids \<longleftrightarrow> (\<forall>s i. bt_get ids s = Some i \<longleftrightarrow> i < length strings \<and> strings ! i = s)"

definition dict_ok :: "string list \<Rightarrow> (string, usize) btree_map \<Rightarrow> bool" where
  "dict_ok strings ids \<longleftrightarrow> length strings \<le> usize_max \<and> dict_ids strings ids"

lemma dict_ok_id:
  assumes "dict_ok strings ids" and "s \<in> set strings"
  shows "\<exists>i. bt_get ids s = Some i \<and> i \<le> usize_max \<and> dictionary_entry strings (of_nat i) = Inr s"
proof -
  obtain i where i: "i < length strings" "strings ! i = s"
    using assms(2) by (meson in_set_conv_nth)
  then show ?thesis
    using assms(1) by (intro exI [of _ i]) (simp add: dict_ok_def dict_ids_def dictionary_entry_def panic_simps)
qed

lemma set_keys_or_insert: "set (bt_keys (or_insert k v m)) = insert k (set (bt_keys m))"
  by (auto simp: or_insert_def fst_bt_insert rev_image_eqI dest: map_of_SomeD split: option.split)

lemma bt_ok_or_insert: "bt_ok m \<Longrightarrow> bt_ok (or_insert k v m)"
  by (simp add: or_insert_def bt_ok_insert split: option.split)

lemma note_pairs:
  "bt_ok d \<Longrightarrow> bt_ok (fold note_pair ps d)"
  "set (bt_keys (fold note_pair ps d)) = set (bt_keys d) \<union> lp_name ` set ps \<union> lp_value ` set ps"
  by (induction ps arbitrary: d)
    (auto simp: note_pair_def Let_def bt_ok_or_insert set_keys_or_insert simp del: set_map)

lemma collect_strings_ok:
  "bt_ok (collect_strings series sel)"
  "set (bt_keys (collect_strings series sel)) = (\<Union>fp \<in> set sel. case bt_get series fp of
      None \<Rightarrow> {} | Some ls \<Rightarrow> lp_name ` set (labels_iter ls) \<union> lp_value ` set (labels_iter ls))"
proof -
  let ?f = "\<lambda>fp d. case bt_get series fp of None \<Rightarrow> d | Some ls \<Rightarrow> fold note_pair (labels_iter ls) d"
  have "bt_ok d \<Longrightarrow> bt_ok (fold ?f sel d)" for d
    by (induction sel arbitrary: d) (auto simp: note_pairs(1) split: option.split)
  then show "bt_ok (collect_strings series sel)" by (simp add: collect_strings_def)
  have "set (bt_keys (fold ?f sel d)) = set (bt_keys d) \<union> (\<Union>fp \<in> set sel. case bt_get series fp of
      None \<Rightarrow> {} | Some ls \<Rightarrow> lp_name ` set (labels_iter ls) \<union> lp_value ` set (labels_iter ls))" for d
    by (induction sel arbitrary: d) (auto simp: note_pairs(2) simp del: set_map split: option.split)
  then show "set (bt_keys (collect_strings series sel)) = (\<Union>fp \<in> set sel. case bt_get series fp of
      None \<Rightarrow> {} | Some ls \<Rightarrow> lp_name ` set (labels_iter ls) \<union> lp_value ` set (labels_iter ls))"
    by (simp add: collect_strings_def)
qed

lemma assigned_ids:
  assumes "bt_ok entries"
  shows "dict_ids (dc_strings (assign_sorted_string_ids entries)) (dc_ids (assign_sorted_string_ids entries))"
proof -
  have ids: "bt_get (fold (\<lambda>(i, s). bt_insert s i) (enumerate n ks) m) s = Some i
      \<longleftrightarrow> n \<le> i \<and> i - n < length ks \<and> ks ! (i - n) = s \<or> s \<notin> set ks \<and> bt_get m s = Some i"
    if "distinct ks" for ks :: "string list" and n m s i
    using that
  proof (induction ks arbitrary: n m)
    case (Cons k ks)
    have "n \<le> i \<and> i - n < length (k # ks) \<and> (k # ks) ! (i - n) = s
        \<longleftrightarrow> i = n \<and> k = s \<or> Suc n \<le> i \<and> i - Suc n < length ks \<and> ks ! (i - Suc n) = s"
    proof (cases "i - n")
      case (Suc j)
      then have "i - Suc n = j" "n \<le> i" "Suc n \<le> i" "i \<noteq> n" by arith+
      then show ?thesis using Suc by simp
    qed auto
    moreover have "k \<noteq> s" if "j < length ks" "ks ! j = s" for j
      using Cons.prems that by auto
    ultimately show ?case using Cons by auto
  qed simp
  show ?thesis
    using ids [OF bt_ok_distinct [OF assms], of 0 "[]"]
    by (simp add: dict_ids_def assign_sorted_string_ids_def Let_def)
qed

section \<open>Series\<close>

abbreviation label_enc :: "(string, usize) btree_map \<Rightarrow> label_pair \<Rightarrow> byte list" where
  "label_enc ids pair \<equiv> the (push_label ids pair)"

definition series_enc :: "(string, usize) btree_map \<Rightarrow> fingerprint \<times> labels \<Rightarrow> byte list" where
  "series_enc ids s = le_bytes (fst s) @ push_len (length (labels_iter (snd s)))
     @ concat (map (label_enc ids) (labels_iter (snd s)))"

definition in_dict :: "string list \<Rightarrow> label_pair \<Rightarrow> bool" where
  "in_dict strings pair \<longleftrightarrow> lp_name pair \<in> set strings \<and> lp_value pair \<in> set strings"

lemma push_label_Some:
  assumes "dict_ok strings ids" and "in_dict strings pair"
  shows "\<exists>i j. push_label ids pair = Some (push_len i @ push_len j)
     \<and> dictionary_entry strings (of_nat i) = Inr (lp_name pair)
     \<and> dictionary_entry strings (of_nat j) = Inr (lp_value pair)"
proof -
  obtain i j where "bt_get ids (lp_name pair) = Some i" "dictionary_entry strings (of_nat i) = Inr (lp_name pair)"
      "bt_get ids (lp_value pair) = Some j" "dictionary_entry strings (of_nat j) = Inr (lp_value pair)"
    using dict_ok_id [OF assms(1)] assms(2) unfolding in_dict_def by blast
  then show ?thesis
    by (intro exI [of _ i] exI [of _ j]) (simp add: push_label_def push_dictionary_id_def)
qed

lemma label_codec:
  assumes d: "dict_ok strings ids"
  shows "codec (label_enc ids) (read_label strings) (in_dict strings)"
proof
  fix pair r ys
  assume "in_dict strings pair" and a: "ahead r (label_enc ids pair) ys"
  then obtain i j where ij: "push_label ids pair = Some (push_len i @ push_len j)"
      "dictionary_entry strings (of_nat i) = Inr (lp_name pair)"
      "dictionary_entry strings (of_nat j) = Inr (lp_value pair)"
    using push_label_Some [OF d] by blast
  have a1: "ahead r (push_len i) (push_len j @ ys)" using a ij(1) by (simp add: ahead_append)
  note a2 = ahead_advance [OF a1]
  show "read_label strings r = Inr (pair, advance (length (label_enc ids pair)) r)"
    using read_uvarint_ahead [OF a1 [unfolded push_len_def], of "''a label name id''"]
      read_uvarint_ahead [OF a2 [unfolded push_len_def], of "''a label value id''"] ij
    by (simp add: read_label_def push_len_def)
qed

lemma bt_rebuild:
  assumes "bt_ok m"
  shows "fold (\<lambda>(k, v). bt_insert k v) m [] = m"
proof (rule bt_eqI)
  show "bt_ok (fold (\<lambda>(k, v). bt_insert k v) m [])"
    using bt_ok_fold_insert [of "[]" "\<lambda>v. v" m] by simp
  show "bt_get (fold (\<lambda>(k, v). bt_insert k v) m []) = bt_get m"
    using bt_get_fold_insert [OF bt_ok_distinct [OF assms], of "\<lambda>v. v" "[]"]
    by (auto simp: fun_eq_iff split: option.splits)
qed (rule assms)

lemma labels_rebuild:
  assumes "bt_ok ls"
  shows "foldl (\<lambda>ls pair. labels_insert (lp_name pair) (lp_value pair) ls) labels_new (labels_iter ls) = ls"
proof -
  have "foldl (\<lambda>ls pair. labels_insert (lp_name pair) (lp_value pair) ls) acc (labels_iter ls)
      = fold (\<lambda>(k, v). bt_insert k v) ls acc" for acc
    by (induction ls arbitrary: acc) (auto simp: labels_iter_def labels_insert_def)
  then show ?thesis using bt_rebuild [OF assms] by (simp add: labels_new_def)
qed

definition series_valid :: "string list \<Rightarrow> fingerprint \<times> labels \<Rightarrow> bool" where
  "series_valid strings s \<longleftrightarrow> bt_ok (snd s) \<and> (\<forall>pair \<in> set (labels_iter (snd s)). in_dict strings pair)"

lemma label_enc_ne: "dict_ok strings ids \<Longrightarrow> in_dict strings pair \<Longrightarrow> label_enc ids pair \<noteq> []"
  using push_label_Some by fastforce

lemma series_codec:
  assumes d: "dict_ok strings ids"
  shows "codec (series_enc ids) (read_series strings) (series_valid strings)"
proof
  fix s r ys
  assume v: "series_valid strings s" and a: "ahead r (series_enc ids s) ys"
  obtain fp ls where s: "s = (fp, ls)" by force
  let ?body = "push_len (length (labels_iter ls)) @ concat (map (label_enc ids) (labels_iter ls))"
  have a1: "ahead r (le_bytes fp) (?body @ ys)" using a by (simp add: s series_enc_def ahead_append)
  note a2 = ahead_advance [OF a1]
  have "in_dict strings pair \<and> label_enc ids pair \<noteq> []" if "pair \<in> set (labels_iter ls)" for pair
    using v that label_enc_ne [OF d] by (simp add: s series_valid_def)
  note run = codec_run [OF label_codec [OF d] this a2,
      of "\<lambda>ls r. res_bind (read_label strings r) (\<lambda>(pair, r'). Inr (labels_insert (lp_name pair) (lp_value pair) ls, r'))"
         "\<lambda>ls pair. labels_insert (lp_name pair) (lp_value pair) ls"]
  have "bt_ok ls" using v by (simp add: s series_valid_def)
  then show "read_series strings r = Inr (s, advance (length (series_enc ids s)) r)"
    using fixed.dec_enc [OF TrueI a1, of "''a series fingerprint''"] run(1) [of "''labels of a series''"]
      run(2) [of labels_new] labels_rebuild
    by (simp add: read_series_def s series_enc_def add.assoc)
qed

section \<open>Blocks\<close>

definition entry_valid :: "block_entry \<Rightarrow> bool" where
  "entry_valid e \<longleftrightarrow> utf8_string (be_object_key e) \<and> is_i64 (be_min_ts e) \<and> is_i64 (be_max_ts e)
     \<and> be_row_count e \<le> usize_max \<and> be_level e \<le> u32_max \<and> be_fingerprint_count e \<le> usize_max"

definition prefix_of :: "block_entry \<Rightarrow> shard_block_prefix" where
  "prefix_of e = \<lparr>sp_object_key = be_object_key e,
     sp_bounds = \<lparr>sb_min_ts = be_min_ts e, sb_max_ts = be_max_ts e\<rparr>, sp_row_count = be_row_count e,
     sp_level = be_level e\<rparr>"

lemma push_entries_Cons:
  "push_entries p (e # es) = prefix_bytes p (prefix_of e) @ push_len (be_fingerprint_count e)
     @ le_bytes (be_fingerprint_digest e) @ push_entries (be_min_ts e) es"
  by (simp add: prefix_bytes_def prefix_of_def push_shard_block_prefix_def)

declare push_entries.simps(2) [simp del]

lemma push_entries_length: "length es \<le> length (push_entries p es)"
proof (induction es arbitrary: p)
  case (Cons e es)
  have "length (push_len (be_fingerprint_count e)) \<ge> 1" by (simp add: Suc_le_eq)
  then show ?case using Cons [of "be_min_ts e"] by (simp add: push_entries_Cons)
qed simp

lemma entries_run:
  assumes "\<And>e. e \<in> set es \<Longrightarrow> entry_valid e" and "ahead r (push_entries p es) ys"
  shows "\<exists>q. read_times (length es) read_entry (acc, p) r
       = Inr ((acc @ es, q), advance (length (push_entries p es)) r)"
  using assms
proof (induction es arbitrary: acc p r)
  case (Cons e es)
  have v: "prefix_valid (prefix_of e)" "be_fingerprint_count e \<le> usize_max"
    using Cons.prems(1) [of e] by (simp_all add: entry_valid_def prefix_valid_def prefix_of_def)
  let ?rest = "push_entries (be_min_ts e) es"
  have a1: "ahead r (prefix_bytes p (prefix_of e))
      (push_len (be_fingerprint_count e) @ le_bytes (be_fingerprint_digest e) @ ?rest @ ys)"
    using Cons.prems(2) by (simp add: push_entries_Cons ahead_append)
  note a2 = ahead_advance [OF a1]
  note a3 = ahead_advance [OF a2]
  note a4 = ahead_advance [OF a3]
  let ?r = "advance (length (prefix_bytes p (prefix_of e) @ push_len (be_fingerprint_count e)
      @ le_bytes (be_fingerprint_digest e))) r"
  have "read_entry (acc, p) r = Inr ((acc @ [e], be_min_ts e), ?r)"
    using prefix.dec_enc [OF v(1) a1] count.dec_enc [OF v(2) a2, of "''a block fingerprint count''"]
      fixed.dec_enc [OF TrueI a3, of "''a block fingerprint digest''"]
    by (simp add: read_entry_def prefix_of_def add.assoc)
  moreover have "ahead ?r ?rest ys" using a4 by (simp add: add.assoc)
  then obtain q where "read_times (length es) read_entry (acc @ [e], be_min_ts e) ?r
      = Inr (((acc @ [e]) @ es, q), advance (length ?rest) ?r)"
    using Cons.IH [of ?r "be_min_ts e" "acc @ [e]"] Cons.prems(1) by (meson list.set_intros(2))
  ultimately show ?case by (simp add: push_entries_Cons add.assoc)
qed simp

section \<open>Postings\<close>

definition posting_valid :: "nat \<Rightarrow> fingerprint \<times> ordinal list \<Rightarrow> bool" where
  "posting_valid n p \<longleftrightarrow> sorted (snd p) \<and> (\<forall>i \<in> set (snd p). i < n)"

lemma ordinal_delta_ascending:
  "previous \<le> ordinal \<Longrightarrow> ordinal \<le> u32_max \<Longrightarrow> ordinal_delta ordinal previous = ordinal - previous"
proof -
  assume "previous \<le> ordinal" "ordinal \<le> u32_max"
  then have eq: "ordinal + 2 ^ 32 - previous = (ordinal - previous) + 2 ^ 32" and "ordinal - previous < 2 ^ 32"
    by simp_all
  then show ?thesis unfolding ordinal_delta_def eq by (simp only: mod_add_self2 mod_less)
qed

lemma push_ordinals_length: "length os \<le> length (push_ordinals p os)"
proof (induction os arbitrary: p)
  case (Cons i os)
  have "length (push_uvarint (of_nat (ordinal_delta i p))) \<ge> 1" by (simp add: Suc_le_eq)
  then show ?case using Cons [of i] by simp
qed simp

lemma ordinals_run:
  assumes n: "n \<le> u32_max" and "sorted (p # os)" and "\<And>i. i \<in> set os \<Longrightarrow> i < n"
    and "ahead r (push_ordinals p os) ys"
  shows "\<exists>q. read_times (length os) (read_ordinal n) (acc, p) r
       = Inr ((acc @ os, q), advance (length (push_ordinals p os)) r)"
  using assms(2-)
proof (induction os arbitrary: acc p r)
  case (Cons i os)
  have i: "p \<le> i" "i < n" using Cons.prems(1,2) by auto
  then have "i \<le> u32_max" using n by linarith
  note i = i this
  let ?d = "push_uvarint (of_nat (i - p)) :: byte list"
  have bytes: "push_ordinals p (i # os) = ?d @ push_ordinals i os"
    using i by (simp add: ordinal_delta_ascending)
  have a1: "ahead r ?d (push_ordinals i os @ ys)"
    using Cons.prems(3) unfolding bytes by (simp add: ahead_append)
  have "unat (of_nat (i - p) :: u64) = i - p" using i by (intro unat_of_u32) simp
  then have "read_ordinal n (acc, p) r = Inr ((acc @ [i], i), advance (length ?d) r)"
    using read_uvarint_ahead [OF a1, of "''a posting ordinal''"] i by (simp add: read_ordinal_def panic_simps)
  moreover have "ahead (advance (length ?d) r) (push_ordinals i os) ys"
    using ahead_advance [OF a1] by simp
  then obtain q where "read_times (length os) (read_ordinal n) (acc @ [i], i) (advance (length ?d) r)
      = Inr (((acc @ [i]) @ os, q), advance (length (push_ordinals i os)) (advance (length ?d) r))"
    using Cons.IH [of i "advance (length ?d) r" "acc @ [i]"] Cons.prems(1,2) by auto
  ultimately show ?case unfolding bytes by simp
qed simp

lemma posting_codec:
  assumes n: "n \<le> u32_max"
  shows "codec push_posting (read_posting n) (posting_valid n)"
proof
  fix p r ys
  assume v: "posting_valid n p" and a: "ahead r (push_posting p) ys"
  obtain fp os where p: "p = (fp, os)" by force
  have a1: "ahead r (le_bytes fp) (push_len (length os) @ push_ordinals 0 os @ ys)"
    using a by (simp add: p push_posting_def ahead_append)
  note a2 = ahead_advance [OF a1]
  note a3 = ahead_advance [OF a2]
  have "length os \<le> length (push_ordinals 0 os @ ys)" using push_ordinals_length [of os 0] by simp
  note c = read_count_ahead [OF a2 this, of "''ordinals of a posting''"]
  have "sorted (0 # os)" "\<And>i. i \<in> set os \<Longrightarrow> i < n" using v by (auto simp: p posting_valid_def)
  from ordinals_run [OF n this a3, of "[]"]
  show "read_posting n r = Inr (p, advance (length (push_posting p)) r)"
    using fixed.dec_enc [OF TrueI a1, of "''a posting fingerprint''"] c
    by (auto simp: read_posting_def p push_posting_def add.assoc)
qed

section \<open>The header\<close>

lemma collect_run: "foldl (\<lambda>d s. d @ [s]) acc ss = acc @ ss"
  by (induction ss arbitrary: acc) auto

lemma header_ahead:
  assumes bytes: "bytes = magic @ [version] @ push_string tenant @ push_len (length strings)
      @ concat (map push_string strings) @ rest"
    and size: "length bytes \<le> usize_max" and "utf8_string tenant" and strings: "\<And>s. s \<in> set strings \<Longrightarrow> utf8_string s"
  shows "\<exists>r. decode_shard_header bytes magic version name
        = Inr \<lparr>dh_reader = r, dh_tenant = tenant, dh_dictionary = strings\<rparr> \<and> ahead r rest []"
proof -
  let ?r = "reader_new bytes"
  let ?dict = "push_len (length strings) @ concat (map push_string strings)"
  have a1: "ahead ?r magic ([version] @ push_string tenant @ ?dict @ rest)"
    using size by (simp add: ahead_def reader_ok_def rest_of_def reader_new_def bytes)
  note a2 = ahead_advance [OF a1]
  note a3 = ahead_advance [OF a2]
  note a4 = ahead_advance [OF a3]
  have a5: "ahead (advance (length ?dict) (advance (length (push_string tenant)) (advance (length [version])
      (advance (length magic) ?r)))) rest []"
    using a4 ahead_advance [where xs = ?dict and ys = rest and zs = "[]"] by (simp only: append_Nil2)
  have "utf8_string s \<and> push_string s \<noteq> []" if "s \<in> set strings" for s using strings that by simp
  note run = codec_run [OF str.codec_axioms [of "''a dictionary entry''"] this a4,
      where f = read_dictionary_string and step = "\<lambda>d s. d @ [s]"]
  show ?thesis
    using take_bytes_ahead [OF a1, of "''the magic''"] read_u8_ahead [OF a2, of "''the format version''"]
      str.dec_enc [OF assms(3) a3, of "''the tenant name''"] run(1) [of "''dictionary entries''"] run(2) [of "[]"] a5
    by (simp add: decode_shard_header_def read_dictionary_string_def collect_run add.assoc)
qed

section \<open>The payload\<close>

definition labels_valid :: "labels \<Rightarrow> bool" where
  "labels_valid ls \<longleftrightarrow> bt_ok ls
     \<and> (\<forall>pair \<in> set (labels_iter ls). utf8_string (lp_name pair) \<and> utf8_string (lp_value pair))"

text \<open>
  What the types of the code give a payload (strings are UTF-8, numbers fit their widths, maps and
  sets ascend), the selected series are present, and the postings ascend inside the shard.
\<close>

definition payload_ok :: "index_shard_payload \<Rightarrow> bool" where
  "payload_ok p \<longleftrightarrow> utf8_string (ip_tenant p)
     \<and> (\<forall>fp \<in> set (ip_selected p). \<exists>ls. bt_get (ip_series p) fp = Some ls \<and> labels_valid ls)
     \<and> (\<forall>e \<in> set (ip_blocks p). entry_valid e) \<and> length (ip_blocks p) \<le> u32_max
     \<and> bt_ok (ip_postings p) \<and> (\<forall>q \<in> set (ip_postings p). posting_valid (length (ip_blocks p)) q)"

definition picked :: "index_shard_payload \<Rightarrow> (fingerprint \<times> labels) list" where
  "picked p = map (\<lambda>fp. (fp, the (bt_get (ip_series p) fp))) (ip_selected p)"

definition shard_strings :: "index_shard_payload \<Rightarrow> string list" where
  "shard_strings p = dc_strings (assign_sorted_string_ids (collect_strings (ip_series p) (ip_selected p)))"

definition shard_ids :: "index_shard_payload \<Rightarrow> (string, usize) btree_map" where
  "shard_ids p = dc_ids (assign_sorted_string_ids (collect_strings (ip_series p) (ip_selected p)))"

lemma shard_strings_set:
  assumes "payload_ok p"
  shows "set (shard_strings p) = (\<Union>s \<in> set (picked p).
      lp_name ` set (labels_iter (snd s)) \<union> lp_value ` set (labels_iter (snd s)))"
proof -
  have "set (shard_strings p) = (\<Union>fp \<in> set (ip_selected p). case bt_get (ip_series p) fp of
      None \<Rightarrow> {} | Some ls \<Rightarrow> lp_name ` set (labels_iter ls) \<union> lp_value ` set (labels_iter ls))"
    using collect_strings_ok(2) [of "ip_series p" "ip_selected p"]
    by (simp add: shard_strings_def assign_sorted_string_ids_def Let_def)
  also have "\<dots> = (\<Union>fp \<in> set (ip_selected p). lp_name ` set (labels_iter (the (bt_get (ip_series p) fp)))
      \<union> lp_value ` set (labels_iter (the (bt_get (ip_series p) fp))))"
    using assms by (intro SUP_cong) (force simp: payload_ok_def)+
  finally show ?thesis by (simp add: picked_def)
qed

lemma picked_valid:
  assumes "payload_ok p" and "s \<in> set (picked p)"
  shows "series_valid (shard_strings p) s" and "labels_valid (snd s)" and "bt_get (ip_series p) (fst s) = Some (snd s)"
proof -
  obtain fp ls where s: "s = (fp, ls)" "fp \<in> set (ip_selected p)" "bt_get (ip_series p) fp = Some ls" "labels_valid ls"
    using assms by (force simp: picked_def payload_ok_def)
  then show "labels_valid (snd s)" "bt_get (ip_series p) (fst s) = Some (snd s)" by simp_all
  show "series_valid (shard_strings p) s"
    using s assms(2) unfolding series_valid_def labels_valid_def in_dict_def shard_strings_set [OF assms(1)]
    by force
qed

lemma shard_strings_utf8: "payload_ok p \<Longrightarrow> s \<in> set (shard_strings p) \<Longrightarrow> utf8_string s"
  using picked_valid(2) by (fastforce simp: shard_strings_set labels_valid_def)

lemma push_series_picked:
  assumes "payload_ok p" and "fp \<in> set (ip_selected p)"
  shows "push_series (shard_ids p) (ip_series p) fp
    = Some (series_enc (shard_ids p) (fp, the (bt_get (ip_series p) fp)))"
proof -
  have s: "(fp, the (bt_get (ip_series p) fp)) \<in> set (picked p)"
    using assms(2) by (simp add: picked_def)
  note v = picked_valid [OF assms(1) s]
  have ids: "dict_ids (shard_strings p) (shard_ids p)"
    unfolding shard_strings_def shard_ids_def by (rule assigned_ids [OF collect_strings_ok(1)])
  have get: "\<exists>i. bt_get (shard_ids p) t = Some i" if "t \<in> set (shard_strings p)" for t
    using ids that by (metis dict_ids_def in_set_conv_nth)
  have "push_label (shard_ids p) pair = Some (label_enc (shard_ids p) pair)"
    if "pair \<in> set (labels_iter (the (bt_get (ip_series p) fp)))" for pair
    using v(1) that get [of "lp_name pair"] get [of "lp_value pair"]
    by (auto simp: series_valid_def in_dict_def push_label_def push_dictionary_id_def)
  then have "map_opt (push_label (shard_ids p)) (labels_iter (the (bt_get (ip_series p) fp)))
      = Some (map (label_enc (shard_ids p)) (labels_iter (the (bt_get (ip_series p) fp))))"
    by (rule map_opt_Some)
  moreover obtain ls where "bt_get (ip_series p) fp = Some ls" using v(3) by simp
  ultimately show ?thesis
    by (simp add: push_series_def series_enc_def labels_len_def) (simp add: labels_iter_def)
qed

lemma encode_layout:
  assumes "payload_ok p"
  shows "encode_index_shard p = Some (index_shard_magic @ [index_shard_format_version] @ push_string (ip_tenant p)
      @ push_len (length (shard_strings p)) @ concat (map push_string (shard_strings p))
      @ push_len (length (picked p)) @ concat (map (series_enc (shard_ids p)) (picked p))
      @ push_len (length (ip_blocks p)) @ push_entries 0 (ip_blocks p)
      @ push_len (length (ip_postings p)) @ concat (map push_posting (ip_postings p)))"
proof -
  have "map_opt (push_series (shard_ids p) (ip_series p)) (ip_selected p)
      = Some (map (\<lambda>fp. series_enc (shard_ids p) (fp, the (bt_get (ip_series p) fp))) (ip_selected p))"
    using push_series_picked [OF assms] by (rule map_opt_Some)
  then show ?thesis
    by (simp add: encode_index_shard_def Let_def shard_ids_def [symmetric] shard_strings_def [symmetric]
        picked_def comp_def)
qed

section \<open>Decoding what was encoded\<close>

definition replay_series :: "(fingerprint \<times> labels) list \<Rightarrow> tenant_index \<Rightarrow> tenant_index" where
  "replay_series ps ti = foldl (\<lambda>ti (fp, ls). tenant_add_series fp ls ti) ti ps"

lemma posting_ne: "push_posting q \<noteq> []"
  by (simp add: push_posting_def split: prod.split)

lemma series_enc_ne: "series_enc ids s \<noteq> []"
  by (simp add: series_enc_def)

lemma decode_front_ahead:
  assumes ok: "payload_ok p" and enc: "encode_index_shard p = Some bytes" and size: "length bytes \<le> usize_max"
  shows "\<exists>r. decode_front bytes = Inr (ip_tenant p, replay_series (picked p) tenant_default, ip_blocks p,
        length (ip_postings p), r) \<and> ahead r (concat (map push_posting (ip_postings p))) []"
proof -
  let ?S = "shard_strings p" and ?ids = "shard_ids p"
  let ?series = "push_len (length (picked p)) @ concat (map (series_enc ?ids) (picked p))"
  let ?blocks = "push_len (length (ip_blocks p))" and ?entries = "push_entries 0 (ip_blocks p)"
  let ?count = "push_len (length (ip_postings p))"
  let ?ps = "concat (map push_posting (ip_postings p))"
  have bytes: "bytes = index_shard_magic @ [index_shard_format_version] @ push_string (ip_tenant p)
      @ push_len (length ?S) @ concat (map push_string ?S) @ (?series @ ?blocks @ ?entries @ ?count @ ?ps)"
    using encode_layout [OF ok] enc by simp
  have "length ?S \<le> length (concat (map push_string ?S))" by (rule run_length) simp
  then have "length ?S \<le> usize_max" using size unfolding bytes length_append by linarith
  then have d: "dict_ok ?S ?ids"
    unfolding dict_ok_def shard_strings_def shard_ids_def using assigned_ids [OF collect_strings_ok(1)] by simp
  obtain r where r: "decode_shard_header bytes index_shard_magic index_shard_format_version ''an index shard''
        = Inr \<lparr>dh_reader = r, dh_tenant = ip_tenant p, dh_dictionary = ?S\<rparr>"
      "ahead r (?series @ ?blocks @ ?entries @ ?count @ ?ps) []"
    using header_ahead [OF bytes size _ shard_strings_utf8 [OF ok]] ok unfolding payload_ok_def by blast
  have a1: "ahead r ?series (?blocks @ ?entries @ ?count @ ?ps)"
    using r(2) by (simp add: ahead_append)
  note a2 = ahead_advance [OF a1]
  note a3 = ahead_advance [OF a2]
  note a4 = ahead_advance [OF a3]
  note run = codec_run [OF series_codec [OF d] _ a1, where f = "read_series_into ?S"
      and step = "\<lambda>ti (fp, ls). tenant_add_series fp ls ti"]
  have v: "v \<in> set (picked p) \<Longrightarrow> series_valid ?S v \<and> series_enc ?ids v \<noteq> []" for v
    using picked_valid(1) [OF ok] series_enc_ne by blast
  have step: "read_series_into ?S ti r = res_bind (read_series ?S r)
      (\<lambda>(v, r'). Inr ((case v of (fp, ls) \<Rightarrow> tenant_add_series fp ls ti), r'))" for ti r
    by (simp add: read_series_into_def case_prod_unfold)
  have n1: "length (ip_blocks p) \<le> length (?entries @ ?count @ ?ps)"
    using push_entries_length [of "ip_blocks p" 0] by simp
  have n2: "length (ip_postings p) \<le> length ?ps" using run_length [of "ip_postings p"] posting_ne by blast
  obtain q where q: "read_times (length (ip_blocks p)) read_entry ([], 0) (advance (length ?blocks) (advance (length ?series) r))
      = Inr ((ip_blocks p, q), advance (length ?entries) (advance (length ?blocks) (advance (length ?series) r)))"
    using entries_run [OF _ a3, of "[]"] ok by (auto simp: payload_ok_def)
  have a5: "ahead (advance (length ?count) (advance (length ?entries) (advance (length ?blocks) (advance (length ?series) r)))) ?ps []"
    using a4 ahead_advance [where xs = ?count and ys = ?ps and zs = "[]"] by (simp only: append_Nil2)
  show ?thesis
    using r(1) run(1) [OF v step, of "''series''"] run(2) [OF v step, of tenant_default]
      read_count_ahead [OF a2 n1, of "''blocks''"] q read_count_ahead [OF a4 n2, of "''postings''"] a5
    by (simp add: decode_front_def replay_series_def)
qed

lemma decode_encode:
  assumes ok: "payload_ok p" and enc: "encode_index_shard p = Some bytes" and size: "length bytes \<le> usize_max"
    and blocks: "from_repr \<lparr>br_entries = ip_blocks p, br_postings = ip_postings p\<rparr> = Some bl"
  shows "decode bytes = Some (Inr \<lparr>ix_tenants =
      [(ip_tenant p, (replay_series (picked p) tenant_default)\<lparr>ti_blocks := bl\<rparr>)]\<rparr>)"
proof -
  obtain r where front: "decode_front bytes = Inr (ip_tenant p, replay_series (picked p) tenant_default,
      ip_blocks p, length (ip_postings p), r)" and a: "ahead r (concat (map push_posting (ip_postings p))) []"
    using decode_front_ahead [OF ok enc size] by blast
  have n: "length (ip_blocks p) \<le> u32_max" and ps: "bt_ok (ip_postings p)"
      "\<And>v. v \<in> set (ip_postings p) \<Longrightarrow> posting_valid (length (ip_blocks p)) v"
    using ok by (auto simp: payload_ok_def)
  let ?r = "advance (length (concat (map push_posting (ip_postings p)))) r"
  have "foldl (\<lambda>ps (fp, os). bt_insert fp os ps) acc qs = fold (\<lambda>(k, v). bt_insert k v) qs acc"
    for qs :: "(fingerprint \<times> ordinal list) list" and acc
    by (induction qs arbitrary: acc) auto
  then have "read_times (length (ip_postings p)) (read_posting_into (length (ip_blocks p))) [] r = Inr (ip_postings p, ?r)"
    using codec.read_times_enc [OF posting_codec [OF n] ps(2) a, where f = "read_posting_into (length (ip_blocks p))"
        and step = "\<lambda>ps (fp, os). bt_insert fp os ps" and s = "[]"] bt_rebuild [OF ps(1)]
    by (simp add: read_posting_into_def case_prod_unfold)
  moreover have "is_exhausted ?r"
    using ahead_advance [of r "concat (map push_posting (ip_postings p))" "[]" "[]"] a
    by (simp add: ahead_def rest_of_def is_exhausted_def)
  ultimately show ?thesis
    using front n blocks by (simp add: decode_def decode_back_def panic_simps)
qed

end
