(* ===== verification/Shard_Roundtrip.thy ===== *)
theory Shard_Roundtrip
  imports Shard_Codec_Spec
begin

text \<open>
  A tenant encoded as one shard and decoded again is the same tenant.  The encoding writes the
  ordinals of a posting as ascending deltas, so this rests on an invariant of the block list: every
  posting ascends.
\<close>

section \<open>Ascending postings\<close>

definition ascending :: "(fingerprint, ordinal list) btree_map \<Rightarrow> bool" where
  "ascending ps \<longleftrightarrow> (\<forall>fp os. bt_get ps fp = Some os \<longrightarrow> sorted os)"

definition codable :: "block_list \<Rightarrow> bool" where
  "codable bl \<longleftrightarrow> (\<forall>e \<in> set (bl_entries bl). entry_valid e) \<and> ascending (bl_postings bl)"

definition meta_valid :: "block_meta \<Rightarrow> bool" where
  "meta_valid m \<longleftrightarrow> utf8_string (bm_object_key m) \<and> is_i64 (bm_min_ts m) \<and> is_i64 (bm_max_ts m)
     \<and> bm_row_count m \<le> usize_max \<and> bm_level m \<le> u32_max \<and> length (bm_fingerprints m) \<le> usize_max"

lemma sorted_map_filter:
  assumes "sorted xs" and "\<And>x y a b. x \<le> y \<Longrightarrow> f x = Some a \<Longrightarrow> f y = Some b \<Longrightarrow> a \<le> b"
  shows "sorted (List.map_filter f xs)"
  using assms(1)
proof (induction xs)
  case (Cons x xs)
  have "a \<le> b" if "f x = Some a" "b \<in> set (List.map_filter f xs)" for a b
    using that Cons.prems assms(2) by (auto simp: set_map_filter)
  then show ?case using Cons by (auto simp: map_filter_simps split: option.split)
qed (simp add: map_filter_simps)

lemma positions_mono:
  assumes "sorted_wrt (<) ks" and "\<And>i j. f i = Some j \<longleftrightarrow> j < length ks \<and> ks ! j = (i :: nat)"
    and "x \<le> y" and "f x = Some a" and "f y = Some b"
  shows "a \<le> b"
proof (rule ccontr)
  assume "\<not> a \<le> b"
  then have "b < a" by simp
  moreover have ab: "a < length ks" "ks ! a = x" "b < length ks" "ks ! b = y"
    using assms(2,4,5) by auto
  ultimately have "ks ! b < ks ! a" using assms(1) unfolding sorted_wrt_iff_nth_less by blast
  then show False using ab assms(3) by simp
qed

lemma compacted_codable:
  assumes wf: "bl_wf bl" and c: "codable bl" and eq: "compacted bl = Some bl'"
  shows "codable bl'"
proof -
  obtain remap where b: "bl_entries bl' = map (ent bl) (live_ordinals bl)"
      "bl_postings bl' = remap_postings remap (bl_postings bl)"
      "\<And>i j. bt_get remap i = Some j \<longleftrightarrow> j < length (live_ordinals bl) \<and> live_ordinals bl ! j = i"
    using compacted_ok [OF wf] eq by auto
  have asc: "sorted_wrt (<) (live_ordinals bl)"
    by (simp add: sorted_wrt_filter)
  have "sorted (List.map_filter (bt_get remap) os)" if "sorted os" for os
    using that by (rule sorted_map_filter) (rule positions_mono [OF asc b(3)])
  moreover have "bt_ok (bl_postings bl)" using wf by (simp add: bl_wf_def postings_in_def)
  ultimately have "ascending (bl_postings bl')"
    using c by (auto simp: codable_def ascending_def b(2) bt_get_remap_postings split: option.splits if_splits)
  moreover have "ent bl i \<in> set (bl_entries bl)" if "i \<in> set (live_ordinals bl)" for i
    using that by auto
  ultimately show ?thesis
    using c by (auto simp: codable_def b(1))
qed

lemma compact_if_codable:
  "bl_wf bl \<Longrightarrow> codable bl \<Longrightarrow> compact_if_mostly_dead bl = Some bl' \<Longrightarrow> codable bl'"
  by (auto simp: compact_if_mostly_dead_def compacted_codable split: if_splits)

lemma ascending_append:
  assumes "postings_in n ps" and "ascending ps" and "distinct fps"
  shows "ascending (fold (\<lambda>fp. bt_update fp [] (\<lambda>os. os @ [n])) fps ps)"
  using assms(1,2) unfolding ascending_def
  by (auto simp: bt_get_append_ordinal [OF assms(3)] postings_in_def sorted_append less_imp_le
      split: if_splits option.splits)

lemma append_block_codable:
  assumes wf: "bl_wf bl" and c: "codable bl" and m: "meta_valid m" and fps: "bs_ok fps" "length fps \<le> usize_max"
    and new: "bt_get (bl_by_key bl) (bm_object_key m) = None" and room: "length (bl_entries bl) < u32_max"
    and eq: "append_block m fps bl = Some bl'"
  shows "bl_wf bl' \<and> codable bl'"
proof -
  have b: "bl_wf bl'" "bl_entries bl' = bl_entries bl @ [entry_of_meta m fps]"
      "bl_postings bl' = fold (\<lambda>fp. bt_update fp [] (\<lambda>os. os @ [length (bl_entries bl)])) fps (bl_postings bl)"
    using append_block_ok [OF wf new room fps(1)] eq by auto
  have "entry_valid (entry_of_meta m fps)"
    using m fps(2) by (simp add: entry_valid_def meta_valid_def entry_of_meta_def)
  moreover have "ascending (bl_postings bl')"
    unfolding b(3) using wf c bs_ok_distinct [OF fps(1)]
    by (intro ascending_append) (simp_all add: bl_wf_def codable_def)
  ultimately show ?thesis using b(1,2) c by (auto simp: codable_def)
qed


lemma insert_block_codable:
  assumes wf: "bl_wf bl" and c: "codable bl" and m: "meta_valid m" and room: "length (bl_entries bl) < u32_max"
    and eq: "insert_block m bl = Some bl'"
  shows "codable bl'"
proof -
  define fps where "fps = bs_collect (bm_fingerprints m)"
  have fps: "bs_ok fps" unfolding fps_def by (simp add: bs_ok_extend)
  have "card (set fps) \<le> length (bm_fingerprints m)"
    using card_length [of "bm_fingerprints m"] by (simp add: fps_def)
  then have size: "length fps \<le> usize_max"
    using distinct_card [OF bs_ok_distinct [OF fps]] m by (simp add: meta_valid_def)
  show ?thesis
  proof (cases "bt_get (bl_by_key bl) (bm_object_key m)")
    case None
    then obtain bl1 where "append_block m fps bl = Some bl1" "compact_if_mostly_dead bl1 = Some bl'"
      using eq by (auto simp: insert_block_def Let_def fps_def bind_eq_Some_conv)
    then show ?thesis
      using append_block_codable [OF wf c m fps size None room] compact_if_codable by blast
  next
    case (Some i)
    have i: "i < length (bl_entries bl)" "bl_live bl ! i" "be_object_key (ent bl i) = bm_object_key m"
      using wf Some by (auto simp: bl_wf_def keys_wf_def)
    show ?thesis
    proof (cases "be_fingerprint_count (ent bl i) = length fps \<and> be_fingerprint_digest (ent bl i) = fingerprint_set_digest fps")
      case True
      then have "restate_block m i bl = Some bl'"
        using eq Some i by (simp add: insert_block_def Let_def fps_def panic_simps)
      then have b: "bl_entries bl' = (bl_entries bl)[i := (ent bl i)\<lparr>be_min_ts := bm_min_ts m, be_max_ts := bm_max_ts m,
            be_row_count := bm_row_count m, be_level := bm_level m\<rparr>]" "bl_postings bl' = bl_postings bl"
        using restate_block_ok [OF wf i(1,2), of m] by auto
      have "entry_valid (ent bl i)" using c i(1) by (simp add: codable_def)
      then show ?thesis
        using c m i(3) by (auto simp: codable_def b entry_valid_def meta_valid_def dest!: subsetD [OF set_update_subset_insert])
    next
      case False
      then obtain bl1 bl2 where bl1: "retire i bl = Some (True, bl1)" "bl_wf bl1" "bl_entries bl1 = bl_entries bl"
          "bl_postings bl1 = bl_postings bl" "bl_by_key bl1 = bt_remove (be_object_key (ent bl i)) (bl_by_key bl)"
        and bl2: "append_block m fps bl1 = Some bl2" "compact_if_mostly_dead bl2 = Some bl'"
        using eq Some i(1) retire_ok [OF wf i(1,2)]
        by (auto simp: insert_block_def Let_def fps_def panic_simps bind_eq_Some_conv)
      have "codable bl1" using c bl1(3,4) by (simp add: codable_def)
      moreover have "bt_get (bl_by_key bl1) (bm_object_key m) = None" using i(3) by (simp add: bl1(5))
      moreover have "length (bl_entries bl1) < u32_max" using room bl1(3) by simp
      ultimately show ?thesis
        using append_block_codable [OF bl1(2) _ m fps size _ _ bl2(1)] compact_if_codable bl2(2) by blast
    qed
  qed
qed

lemma refresh_run_postings:
  "fold_opt refresh_one is bl = Some bl' \<Longrightarrow> bl_postings bl' = bl_postings bl"
proof (induction "is" arbitrary: bl)
  case (Cons i is')
  obtain bl1 where bl1: "refresh_one i bl = Some bl1" "fold_opt refresh_one is' bl1 = Some bl'"
    using Cons.prems by (auto simp: bind_eq_Some_conv)
  have "bl_postings bl1 = bl_postings bl"
    using bl1(1) by (auto simp: refresh_one_def bind_eq_Some_conv)
  then show ?case using Cons.IH [OF bl1(2)] by simp
qed simp

lemma detach_postings: "detach i bl = Some (n, bl') \<Longrightarrow> bl_postings bl' = bl_postings bl"
  by (auto simp: detach_def refresh_from_def bind_eq_Some_conv dest!: refresh_run_postings split: if_splits)

lemma retire_postings: "retire i bl = Some (gone, bl') \<Longrightarrow> bl_postings bl' = bl_postings bl"
  by (auto simp: retire_def bind_eq_Some_conv Let_def dest!: detach_postings split: if_splits)

lemma retire_keeps:
  "retire i bl = Some (gone, bl') \<Longrightarrow> bl_entries bl' = bl_entries bl \<and> bl_postings bl' = bl_postings bl"
  using retire_entries retire_postings by blast

lemma remove_loop_codable:
  "fold_opt remove_one keys acc = Some (n, bl') \<Longrightarrow> codable (snd acc) \<Longrightarrow> codable bl'"
proof (induction keys arbitrary: acc)
  case (Cons k keys)
  obtain acc' where acc': "remove_one k acc = Some acc'" "fold_opt remove_one keys acc' = Some (n, bl')"
    using Cons.prems(1) by (auto simp: bind_eq_Some_conv)
  have "codable (snd acc')"
    using acc'(1) Cons.prems(2) unfolding remove_one_def codable_def
    by (auto simp: bind_eq_Some_conv dest!: retire_keeps split: option.splits if_splits)
  then show ?case using Cons.IH [OF acc'(2)] by simp
qed auto

lemma remove_blocks_codable:
  assumes "bl_wf bl" and "codable bl" and "remove_blocks keys bl = Some (n, bl')"
  shows "codable bl'"
proof -
  obtain bl1 where bl1: "fold_opt remove_one keys (0, bl) = Some (n, bl1)" "compact_if_mostly_dead bl1 = Some bl'"
    using assms(3) by (auto simp: remove_blocks_def bind_eq_Some_conv)
  then have "bl_wf bl1" using remove_loop_abs [OF assms(1), of keys 0] by auto
  then show ?thesis
    using compact_if_codable [of bl1] remove_loop_codable [OF bl1(1)] assms(2) bl1(2) by simp
qed

section \<open>The local shard\<close>

lemma numbers_same: "map_opt u32_try xs = Some ys \<Longrightarrow> ys = xs"
  by (induction xs arbitrary: ys) (auto simp: u32_try_def bind_eq_Some_conv split: if_splits)

lemma shard_local_postings:
  assumes wf: "bl_wf bl" and asc: "ascending (bl_postings bl)" and os: "bs_ok ordinals"
    and eq: "shard_local bl ordinals = Some s"
  shows "postings_in (length ordinals) (ls_postings s)" and "ascending (ls_postings s)"
proof -
  let ?f = "local_ordinal (zip ordinals [0..<length ordinals])"
  have pok: "bt_ok (bl_postings bl)" using wf by (simp add: bl_wf_def postings_in_def)
  have dist: "distinct ordinals" using os by (rule bs_ok_distinct)
  have ps: "ls_postings s = fold (\<lambda>(fp, os). bt_insert fp (List.map_filter ?f os)) (postings_for bl ordinals) []"
    using eq by (auto simp: shard_local_def bind_eq_Some_conv Let_def dest!: numbers_same)
  have get: "bt_get (ls_postings s) fp = map_option (List.map_filter ?f) (bt_get (postings_for bl ordinals) fp)" for fp
    using bt_ok_distinct [OF postings_for_ok(1) [OF pok]] unfolding ps
    by (subst bt_get_fold_insert) (auto split: option.splits)
  show "postings_in (length ordinals) (ls_postings s)"
    unfolding postings_in_def get
    by (auto simp: ps bt_ok_fold_insert set_map_filter local_ordinal_zip [OF dist])
  have "sorted (List.map_filter ?f xs)" if "sorted xs" for xs
    using that by (rule sorted_map_filter) (rule positions_mono [OF os local_ordinal_zip [OF dist]])
  then show "ascending (ls_postings s)"
    using asc unfolding ascending_def get
    by (auto simp: postings_for_ok(2) [OF pok] sorted_wrt_filter split: option.splits if_splits)
qed

lemma whole_list_local:
  assumes wf: "bl_wf bl" and f: "bl_faithful bl" and c: "codable bl"
  shows "\<exists>ordinals s bl'. ordinals_overlapping bl i64_min i64_max = Some ordinals
       \<and> shard_local bl (bs_collect ordinals) = Some s
       \<and> (\<forall>e \<in> set (ls_blocks s). entry_valid e) \<and> length (ls_blocks s) \<le> u32_max
       \<and> postings_in (length (ls_blocks s)) (ls_postings s) \<and> ascending (ls_postings s)
       \<and> from_repr \<lparr>br_entries = ls_blocks s, br_postings = ls_postings s\<rparr> = Some bl'
       \<and> bl_wf bl' \<and> bl_faithful bl' \<and> blocks_abs bl' = blocks_abs bl"
proof -
  have live: "i \<in> set (bl_order bl) \<longleftrightarrow> i < length (bl_entries bl) \<and> bl_live bl ! i" for i
    using wf by (simp add: bl_wf_def order_wf_def)
  have valid: "entry_valid (ent bl i)" if "i \<in> set (bl_order bl)" for i
    using c that live by (simp add: codable_def)
  have "filter (\<lambda>i. entry_overlaps (ent bl i) i64_min i64_max) (bl_order bl) = bl_order bl"
    using valid by (auto simp: filter_id_conv entry_overlaps_def entry_valid_def is_i64_def)
  then have oo: "ordinals_overlapping bl i64_min i64_max = Some (bl_order bl)"
    using ordinals_overlapping_ok [OF wf] by simp
  define os where "os = bs_collect (bl_order bl)"
  have os: "bs_ok os" "set os = set (bl_order bl)" by (simp_all add: os_def bs_ok_extend)
  obtain s bl' where s: "shard_local bl os = Some s" "ls_blocks s = map (ent bl) os"
      "from_repr \<lparr>br_entries = ls_blocks s, br_postings = ls_postings s\<rparr> = Some bl'" "bl_wf bl'"
      "blocks_abs bl' = blocks_abs bl |` ((\<lambda>i. be_object_key (ent bl i)) ` set os)"
    using shard_local_abs [OF wf os(1)] os(2) live by auto
  have "k \<in> (\<lambda>i. be_object_key (ent bl i)) ` set os" if "blocks_abs bl k = Some b" for k b
    using that live by (auto simp: blocks_abs_Some [OF wf] os(2))
  then have abs: "blocks_abs bl' = blocks_abs bl"
    unfolding s(5) restrict_map_def fun_eq_iff by (metis not_None_eq)
  have ps: "postings_in (length (ls_blocks s)) (ls_postings s)" "ascending (ls_postings s)"
    using shard_local_postings [OF wf _ os(1) s(1)] c by (simp_all add: codable_def s(2))
  have "card (set os) \<le> card {..<length (bl_entries bl)}"
    using live os(2) by (intro card_mono) auto
  then have "length os \<le> u32_max"
    using wf distinct_card [OF bs_ok_distinct [OF os(1)]] by (simp add: bl_wf_def order_wf_def)
  then have n: "length (ls_blocks s) \<le> u32_max" by (simp add: s(2))
  then have ents: "bl_entries bl' = map (ent bl) os"
    using from_repr_ok [of "\<lparr>br_entries = ls_blocks s, br_postings = ls_postings s\<rparr>"] ps(1) s(2,3) by auto
  have "faithful_at bl' j" if j: "j < length (bl_entries bl')" "bl_live bl' ! j" for j
  proof -
    have "j < length os" using j(1) ents by simp
    then have i: "os ! j \<in> set (bl_order bl)" "ent bl' j = ent bl (os ! j)"
      using ents os(2) nth_mem [of j os] by simp_all
    have "blocks_abs bl' (be_object_key (ent bl' j)) = Some (info_of bl' j)"
      using j by (intro blocks_abs_live [OF s(4)]) auto
    moreover have "blocks_abs bl (be_object_key (ent bl (os ! j))) = Some (info_of bl (os ! j))"
      using i(1) live by (intro blocks_abs_live [OF wf]) auto
    ultimately have "series_of bl' j = series_of bl (os ! j)" using abs i(2) by (simp add: info_of_def)
    then show ?thesis using f i live by (simp add: faithful_at_def bl_faithful_def)
  qed
  then have "bl_faithful bl'" by (simp add: bl_faithful_def)
  then show ?thesis
    using oo s(1,3,4) n ps abs valid os(2) unfolding os_def [symmetric]
    by (intro exI [of _ "bl_order bl"] exI [of _ s] exI [of _ bl']) (auto simp: s(2) os_def)
qed

section \<open>A tenant and its shard\<close>

lemma replay_series_ok:
  assumes "series_wf ti" and "\<And>fp ls. (fp, ls) \<in> set ps \<Longrightarrow> bt_ok ls"
  shows "series_wf (replay_series ps ti)
    \<and> bt_get (ti_series (replay_series ps ti)) = map_of ps ++ bt_get (ti_series ti)"
  using assms
proof (induction ps arbitrary: ti)
  case (Cons p ps)
  obtain fp ls where p: "p = (fp, ls)" by force
  have ls: "bt_ok ls" using Cons.prems(2) p by (meson list.set_intros(1))
  note new = tenant_add_series_ok [OF Cons.prems(1) ls, of fp]
  have "map_of ps ++ (if bt_get (ti_series ti) fp = None then (bt_get (ti_series ti))(fp \<mapsto> ls) else bt_get (ti_series ti))
      = (map_of ps)(fp \<mapsto> ls) ++ bt_get (ti_series ti)"
    by (auto simp: map_add_def fun_eq_iff split: option.splits)
  moreover have "replay_series (p # ps) ti = replay_series ps (tenant_add_series fp ls ti)"
    by (simp add: replay_series_def p)
  moreover have "\<And>fp ls. (fp, ls) \<in> set ps \<Longrightarrow> bt_ok ls" using Cons.prems(2) by auto
  ultimately show ?case using Cons.IH [OF new(1)] new(2) p by (simp del: fun_upd_apply split del: if_split)
qed (simp add: replay_series_def)

lemma one_tenant:
  assumes "series_wf ti" and "bl_wf bl" and "bl_faithful bl"
  shows "index_wf \<lparr>ix_tenants = [(t, ti\<lparr>ti_blocks := bl\<rparr>)]\<rparr>"
    and "series_in \<lparr>ix_tenants = [(t, ti\<lparr>ti_blocks := bl\<rparr>)]\<rparr> t = bt_get (ti_series ti)"
    and "blocks_in \<lparr>ix_tenants = [(t, ti\<lparr>ti_blocks := bl\<rparr>)]\<rparr> t = blocks_abs bl"
proof -
  have "series_wf (ti\<lparr>ti_blocks := bl\<rparr>)"
    using assms(1) by (simp add: series_wf_def carries_def exact_posting_def posting_of_def value_set_def)
  then show "index_wf \<lparr>ix_tenants = [(t, ti\<lparr>ti_blocks := bl\<rparr>)]\<rparr>"
    using assms(2,3) by (simp add: index_wf_def)
qed (simp_all add: series_in_def blocks_in_def)

lemma tenant_roundtrip:
  assumes wf: "index_wf ix" and c: "codable (list_in ix t)" and t: "utf8_string t"
    and labels: "\<forall>fp ls. series_in ix t fp = Some ls \<longrightarrow> labels_valid ls"
  shows "\<exists>bytes. encode_tenant_as_shard ix t = Some bytes
       \<and> (length bytes \<le> usize_max \<longrightarrow> (\<exists>ix'. decode_index_shard key bytes = Some (Inr ix') \<and> index_wf ix'
            \<and> tenant_names ix' = [t] \<and> series_in ix' t = series_in ix t \<and> blocks_in ix' t = blocks_in ix t))"
proof -
  define ti where "ti = (case bt_get (ix_tenants ix) t of None \<Rightarrow> tenant_default | Some ti \<Rightarrow> ti)"
  have ti: "series_wf ti" "ti_blocks ti = list_in ix t" "bt_get (ti_series ti) = series_in ix t"
    using wf series_wf_default
    by (auto simp: ti_def index_wf_def list_in_def series_in_def tenant_default_def split: option.split)
  obtain os s bl' where s: "ordinals_overlapping (list_in ix t) i64_min i64_max = Some os"
      "shard_local (list_in ix t) (bs_collect os) = Some s"
      "\<forall>e \<in> set (ls_blocks s). entry_valid e" "length (ls_blocks s) \<le> u32_max"
      "postings_in (length (ls_blocks s)) (ls_postings s)" "ascending (ls_postings s)"
      "from_repr \<lparr>br_entries = ls_blocks s, br_postings = ls_postings s\<rparr> = Some bl'"
      "bl_wf bl'" "bl_faithful bl'" "blocks_abs bl' = blocks_abs (list_in ix t)"
    using whole_list_local [OF list_in_wf [OF wf] c] by blast
  define p where "p = \<lparr>ip_tenant = t, ip_series = ti_series ti, ip_selected = bs_collect (bt_keys (ti_series ti)),
     ip_blocks = ls_blocks s, ip_postings = ls_postings s\<rparr>"
  have enc: "encode_tenant_as_shard ix t = encode_index_shard p"
    using s(1,2) by (simp add: encode_tenant_as_shard_def ti_def [symmetric] ti(2) Let_def p_def)
  have sel: "set (ip_selected p) = dom (series_in ix t)"
    by (simp add: p_def set_bt_keys ti(3))
  have "posting_valid (length (ls_blocks s)) q" if "q \<in> set (ls_postings s)" for q
  proof -
    have "bt_get (ls_postings s) (fst q) = Some (snd q)"
      using s(5) that bt_ok_distinct [of "ls_postings s"] by (cases q) (simp add: postings_in_def)
    then show ?thesis using s(5,6) by (auto simp: posting_valid_def postings_in_def ascending_def)
  qed
  moreover have "\<exists>ls. bt_get (ip_series p) fp = Some ls \<and> labels_valid ls" if "fp \<in> set (ip_selected p)" for fp
    using that labels unfolding sel by (auto simp: p_def ti(3))
  ultimately have ok: "payload_ok p"
    using t s(3,4,5) unfolding payload_ok_def by (simp add: p_def postings_in_def)
  have get: "map_of (picked p) = series_in ix t"
    using sel unfolding picked_def
    by (auto simp: fun_eq_iff p_def ti(3) map_of_map_restrict restrict_map_def domIff)
  have "\<And>fp ls. (fp, ls) \<in> set (picked p) \<Longrightarrow> bt_ok ls"
    using picked_valid(2) [OF ok] by (auto simp: labels_valid_def)
  then have replay: "series_wf (replay_series (picked p) tenant_default)"
      "bt_get (ti_series (replay_series (picked p) tenant_default)) = series_in ix t"
    using replay_series_ok [OF series_wf_default] by (auto simp: get tenant_default_def)
  obtain bytes where bytes: "encode_index_shard p = Some bytes" using encode_layout [OF ok] by blast
  have "decode bytes = Some (Inr \<lparr>ix_tenants = [(t, (replay_series (picked p) tenant_default)\<lparr>ti_blocks := bl'\<rparr>)]\<rparr>)"
    if "length bytes \<le> usize_max"
    using decode_encode [OF ok bytes that, of bl'] s(7) by (simp add: p_def)
  then show ?thesis
    using one_tenant [OF replay(1) s(8,9), of t] replay(2) s(10) enc bytes
    by (auto simp: decode_index_shard_def tenant_names_def blocks_in_list)
qed

section \<open>Decoding arbitrary bytes\<close>

definition keeps_bytes :: "(byte_reader \<Rightarrow> ('a \<times> byte_reader) result) \<Rightarrow> bool" where
  "keeps_bytes dec \<longleftrightarrow> (\<forall>r v r'. dec r = Inr (v, r') \<longrightarrow> rd_bytes r' = rd_bytes r)"

lemma keepsD: "keeps_bytes dec \<Longrightarrow> dec r = Inr (v, r') \<Longrightarrow> rd_bytes r' = rd_bytes r"
  by (simp add: keeps_bytes_def)

lemma keeps_bind:
  assumes "keeps_bytes dec" and "\<And>v. keeps_bytes (k v)"
  shows "keeps_bytes (\<lambda>r. res_bind (dec r) (\<lambda>(v, r'). k v r'))"
  using assms unfolding keeps_bytes_def by (auto simp: res_bind_Inr)

lemma keeps_ret: "keeps_bytes (\<lambda>r. Inr (v, r))"
  by (simp add: keeps_bytes_def)

lemma keeps_err: "keeps_bytes (\<lambda>r. Inl e)"
  by (simp add: keeps_bytes_def)

lemma keeps_take: "keeps_bytes (take_bytes n what)"
  by (auto simp: keeps_bytes_def take_bytes_def Let_def split: if_splits option.splits)

lemma keeps_u8: "keeps_bytes (read_u8 what)"
  unfolding read_u8_def by (intro keeps_bind keeps_take keeps_ret)

lemma keeps_u64: "keeps_bytes (read_u64_le what)"
  unfolding read_u64_le_def by (intro keeps_bind keeps_take keeps_ret)

lemma uvarint_loop_keeps: "uvarint_loop what v shift r = Inr (w, r') \<Longrightarrow> rd_bytes r' = rd_bytes r"
proof (induction what v shift r rule: uvarint_loop.induct)
  case (1 what v shift r)
  show ?case
  proof (cases "read_u8 what r")
    case (Inr br)
    obtain b r1 where br: "br = (b, r1)" by force
    have "rd_bytes r1 = rd_bytes r" using keepsD [OF keeps_u8] Inr br by blast
    moreover have "rd_bytes r' = rd_bytes r1"
      using 1 Inr br by (subst (asm) uvarint_loop.simps) (auto simp: Let_def split: if_splits)
    ultimately show ?thesis by simp
  qed (use 1(2) in \<open>simp add: uvarint_loop.simps\<close>)
qed

lemma keeps_uvarint: "keeps_bytes (read_uvarint what)"
  unfolding keeps_bytes_def read_uvarint_def using uvarint_loop_keeps by blast

lemma keeps_ivarint: "keeps_bytes (read_ivarint what)"
  unfolding read_ivarint_def by (intro keeps_bind keeps_uvarint keeps_ret)

lemma keeps_string: "keeps_bytes (read_string what)"
  unfolding read_string_def
  by (intro keeps_bind keeps_uvarint) (auto simp: keeps_bytes_def res_bind_Inr dest: keepsD [OF keeps_take] split: option.splits if_splits)

lemma keeps_count: "keeps_bytes (read_count what)"
  unfolding read_count_def
  by (intro keeps_bind keeps_uvarint) (auto simp: keeps_bytes_def split: option.splits if_splits)

lemma keeps_count_unbounded: "keeps_bytes (read_count_unbounded what)"
  unfolding read_count_unbounded_def
  by (intro keeps_bind keeps_uvarint) (auto simp: keeps_bytes_def split: option.splits)

lemma keeps_times:
  assumes "\<And>s. keeps_bytes (f s)"
  shows "keeps_bytes (read_times n f s)"
proof (induction n arbitrary: s)
  case (Suc n)
  then show ?case using keeps_bind [OF assms, of "\<lambda>s'. read_times n f s'"] by simp
qed (simp add: keeps_bytes_def)

lemma read_count_bound: "read_count what r = Inr (n, r') \<Longrightarrow> n \<le> length (rd_bytes r)"
  using keepsD [OF keeps_uvarint]
  by (fastforce simp: read_count_def res_bind_Inr bytes_left_def split: option.splits if_splits)

lemma read_times_inv:
  assumes "\<And>s r s' r'. P s \<Longrightarrow> f s r = Inr (s', r') \<Longrightarrow> P s'" and "P s" and "read_times n f s r = Inr (s', r')"
  shows "P s'"
  using assms(2,3)
proof (induction n arbitrary: s r)
  case (Suc n)
  then obtain s1 r1 where "f s r = Inr (s1, r1)" "read_times n f s1 r1 = Inr (s', r')"
    by (auto simp: res_bind_Inr)
  then show ?case using Suc assms(1) by blast
qed simp

lemmas keeps_intros = keeps_bind keeps_ret keeps_u64 keeps_uvarint keeps_ivarint keeps_string keeps_count
  keeps_count_unbounded keeps_times

lemma header_keeps:
  assumes "decode_shard_header bytes magic version name = Inr h"
  shows "rd_bytes (dh_reader h) = bytes"
proof -
  have dict: "keeps_bytes (read_times n read_dictionary_string [])" for n
    unfolding read_dictionary_string_def by (intro keeps_intros)
  obtain r1 v r2 t r3 n r4 d where "take_bytes (length magic) ''the magic'' (reader_new bytes) = Inr (magic, r1)"
      "read_u8 ''the format version'' r1 = Inr (v, r2)" "read_string ''the tenant name'' r2 = Inr (t, r3)"
      "read_count ''dictionary entries'' r3 = Inr (n, r4)"
      "read_times n read_dictionary_string [] r4 = Inr (d, dh_reader h)"
    using assms by (auto simp: decode_shard_header_def res_bind_Inr split: if_splits)
  then show ?thesis
    using keepsD [OF keeps_take] keepsD [OF keeps_u8] keepsD [OF keeps_string] keepsD [OF keeps_count]
      keepsD [OF dict] by (metis reader_new_def byte_reader.select_convs(1))
qed

lemma keeps_lift: "(\<And>x. keeps_bytes (k x)) \<Longrightarrow> keeps_bytes (\<lambda>r. res_bind res (\<lambda>x. k x r))"
  by (auto simp: keeps_bytes_def res_bind_Inr)

lemma keeps_label: "keeps_bytes (read_label dictionary)"
  unfolding read_label_def by (rule keeps_bind keeps_lift keeps_uvarint keeps_ret)+

lemma keeps_series: "keeps_bytes (read_series dictionary)"
  unfolding read_series_def by (intro keeps_intros keeps_label)

lemma keeps_series_into: "keeps_bytes (read_series_into dictionary ti)"
  using keeps_series unfolding read_series_into_def keeps_bytes_def by (auto simp: res_bind_Inr)

lemma keeps_entry: "keeps_bytes (read_entry acc)"
proof -
  have "keeps_bytes (read_block_bounds p)" for p
    unfolding read_block_bounds_def Let_def by (intro keeps_intros)
  moreover have "keeps_bytes read_block_level"
    unfolding read_block_level_def
    by (intro keeps_bind keeps_uvarint) (auto simp: keeps_bytes_def split: option.splits)
  ultimately have "keeps_bytes (read_shard_block_prefix p)" for p
    unfolding read_shard_block_prefix_def by (intro keeps_intros)
  then show ?thesis
    unfolding read_entry_def by (cases acc) (simp, intro keeps_intros)
qed

lemma series_decoded: "read_series dictionary r = Inr ((fp, ls), r') \<Longrightarrow> bt_ok ls"
  unfolding read_series_def
  by (auto simp: res_bind_Inr labels_new_def labels_insert_def bt_ok_insert
      elim!: read_times_inv [of bt_ok, rotated 2])

lemma tenant_decoded:
  "read_times n (read_series_into dictionary) tenant_default r = Inr (ti, r') \<Longrightarrow> series_wf ti"
  by (rule read_times_inv [of series_wf, OF _ series_wf_default])
    (auto simp: read_series_into_def res_bind_Inr intro: tenant_add_series_ok(1) series_decoded)

lemma entries_decoded:
  "read_times n read_entry acc r = Inr ((es, q), r') \<Longrightarrow> length es = length (fst acc) + n"
proof (induction n arbitrary: acc r)
  case (Suc n)
  then obtain acc1 r1 where "read_entry acc r = Inr (acc1, r1)" "read_times n read_entry acc1 r1 = Inr ((es, q), r')"
    by (auto simp: res_bind_Inr)
  moreover from this(1) have "length (fst acc1) = Suc (length (fst acc))"
    by (auto simp: read_entry_def res_bind_Inr split: prod.splits)
  ultimately show ?case using Suc.IH by auto
qed auto

lemma ordinal_decoded:
  assumes "read_ordinal n acc r = Inr (acc', r')" and "\<forall>i \<in> set (fst acc). i < n"
  shows "\<forall>i \<in> set (fst acc'). i < n"
proof -
  obtain os p where acc: "acc = (os, p)" by force
  then obtain raw r1 where "(case u32_try (unat (raw :: u64)) of None \<Rightarrow> Inl Ordinal_beyond_shard
      | Some delta \<Rightarrow> (case u32_try (p + delta) of None \<Rightarrow> Inl Ordinal_beyond_shard
         | Some ordinal \<Rightarrow> if ordinal \<ge> n then Inl (Names_ordinal ordinal n)
             else Inr ((os @ [ordinal], ordinal), r1))) = Inr (acc', r')"
    using assms(1) by (auto simp: read_ordinal_def res_bind_Inr)
  then show ?thesis using assms(2) acc by (auto split: option.split_asm if_split_asm)
qed

lemma posting_decoded:
  assumes "read_posting n r = Inr ((fp, os), r')" and "i \<in> set os"
  shows "i < n"
proof -
  obtain m q r1 r2 where "read_times m (read_ordinal n) ([], 0) r1 = Inr ((os, q), r2)"
    using assms(1) by (auto simp: read_posting_def res_bind_Inr)
  then have "\<forall>i \<in> set (fst (os, q)). i < n"
    by (rule read_times_inv [of "\<lambda>acc. \<forall>i \<in> set (fst acc). i < n", rotated 2])
      (auto dest: ordinal_decoded)
  then show ?thesis using assms(2) by simp
qed

lemma postings_decoded: "decode_back n m r = Inr ps \<Longrightarrow> postings_in n ps"
proof -
  assume "decode_back n m r = Inr ps"
  then obtain r' where "read_times m (read_posting_into n) [] r = Inr (ps, r')"
    by (auto simp: decode_back_def res_bind_Inr split: if_splits)
  then show ?thesis
    by (rule read_times_inv [of "postings_in n", rotated 2])
      (auto simp: postings_in_def read_posting_into_def res_bind_Inr bt_ok_insert dest: posting_decoded split: if_splits)
qed

lemma front_decoded:
  assumes "decode_front bytes = Inr (t, ti, es, n, r)"
  shows "series_wf ti \<and> length es \<le> length bytes"
proof -
  obtain h sn r1 r2 bn r3 q r4 where front:
      "decode_shard_header bytes index_shard_magic index_shard_format_version ''an index shard'' = Inr h"
      "read_count ''series'' (dh_reader h) = Inr (sn, r1)"
      "read_times sn (read_series_into (dh_dictionary h)) tenant_default r1 = Inr (ti, r2)"
      "read_count ''blocks'' r2 = Inr (bn, r3)" "read_times bn read_entry ([], 0) r3 = Inr ((es, q), r4)"
    using assms by (auto simp: decode_front_def res_bind_Inr)
  have "rd_bytes r2 = bytes"
    using header_keeps [OF front(1)] keepsD [OF keeps_count front(2)]
      keepsD [OF keeps_times [OF keeps_series_into] front(3)] by simp
  then show ?thesis
    using read_count_bound [OF front(4)] entries_decoded [OF front(5)] tenant_decoded [OF front(3)] by simp
qed

lemma decode_total:
  assumes "length bytes \<le> u32_max"
  shows "\<exists>res. decode bytes = Some res \<and> (\<forall>ix. res = Inr ix \<longrightarrow>
       (\<exists>t ti. ix_tenants ix = [(t, ti)] \<and> series_wf ti \<and> bl_wf (ti_blocks ti)))"
proof (cases "decode_front bytes")
  case (Inr f)
  obtain t ti es n r where f: "f = (t, ti, es, n, r)" by (cases f) auto
  note fd = front_decoded [OF Inr [unfolded f]]
  then have len: "length es \<le> u32_max" using assms by linarith
  show ?thesis
  proof (cases "decode_back (length es) n r")
    case (Inr ps)
    obtain bl where bl: "from_repr \<lparr>br_entries = es, br_postings = ps\<rparr> = Some bl" "bl_wf bl"
      using from_repr_ok [of "\<lparr>br_entries = es, br_postings = ps\<rparr>"] len postings_decoded [OF Inr] by auto
    moreover have "series_wf (ti\<lparr>ti_blocks := bl\<rparr>)"
      using fd by (simp add: series_wf_def carries_def exact_posting_def posting_of_def value_set_def)
    ultimately show ?thesis
      using \<open>decode_front bytes = Inr f\<close> Inr len by (simp add: f decode_def panic_simps)
  qed (use \<open>decode_front bytes = Inr f\<close> len in \<open>simp add: f decode_def panic_simps\<close>)
qed (simp add: decode_def)

section \<open>Properties\<close>

text \<open>
  C11. A tenant survives its shard: encoding a tenant of a well-formed index never panics, and decoding
  the bytes gives an index with that tenant only, the same series with the same labels and the same
  blocks with the same bounds, rows, levels and series.
\<close>

theorem tenant_shard_roundtrip:
  assumes "index_wf ix" and "codable (list_in ix t)" and "utf8_string t"
    and "\<forall>fp ls. series_in ix t fp = Some ls \<longrightarrow> labels_valid ls"
  shows "\<exists>bytes. encode_tenant_as_shard ix t = Some bytes
       \<and> (length bytes \<le> usize_max \<longrightarrow> (\<exists>ix'. decode_index_shard key bytes = Some (Inr ix') \<and> index_wf ix'
            \<and> tenant_names ix' = [t] \<and> series_in ix' t = series_in ix t \<and> blocks_in ix' t = blocks_in ix t))"
  using tenant_roundtrip [OF assms] .

theorem tenant_shard_roundtrip_witness:
  "\<exists>bytes ix'. encode_tenant_as_shard demo_index ''t'' = Some bytes \<and> length bytes = 41
     \<and> decode_index_shard ''k'' bytes = Some (Inr ix') \<and> series_in ix' ''t'' = [5 \<mapsto> demo_labels]"
proof -
  have ascii: "list_all (\<lambda>s. utf8_valid (string_bytes s)) [''t'', ''env'', ''prod'', ''job'', ''api'']"
    by code_simp
  have len: "map_option length (encode_tenant_as_shard demo_index ''t'') = Some 41" by code_simp
  have "codable (list_in demo_index ''t'')"
    by (simp add: demo_index_state(4) codable_def ascending_def empty_list_def)
  moreover have "utf8_string ''t''" and "labels_valid demo_labels"
    using ascii by (simp_all add: utf8_string_def labels_valid_def demo_labels_def labels_iter_def)
  moreover from this(2) have "\<forall>fp ls. series_in demo_index ''t'' fp = Some ls \<longrightarrow> labels_valid ls"
    by (simp add: demo_index_state(2))
  ultimately obtain bytes where bytes: "encode_tenant_as_shard demo_index ''t'' = Some bytes"
      "length bytes \<le> usize_max \<longrightarrow> (\<exists>ix'. decode_index_shard ''k'' bytes = Some (Inr ix')
         \<and> series_in ix' ''t'' = series_in demo_index ''t'')"
    using tenant_shard_roundtrip [OF demo_index_state(1), of "''t''" "''k''"] by blast
  then show ?thesis using len demo_index_state(2) by auto
qed



text \<open>
  C13. Decoding is total and safe: whatever bytes an object holds, up to 4 GiB, \<open>decode_index_shard\<close>
  returns an error or an index of exactly one tenant whose postings, value sets and block list are
  well formed, and it never panics.
\<close>

theorem decode_safe:
  assumes "length bytes \<le> u32_max"
  shows "\<exists>res. decode_index_shard key bytes = Some res
       \<and> (\<forall>ix. res = Inr ix \<longrightarrow> (\<exists>t ti. ix_tenants ix = [(t, ti)] \<and> series_wf ti \<and> bl_wf (ti_blocks ti)))"
proof -
  obtain res where res: "decode bytes = Some res"
      "\<forall>ix. res = Inr ix \<longrightarrow> (\<exists>t ti. ix_tenants ix = [(t, ti)] \<and> series_wf ti \<and> bl_wf (ti_blocks ti))"
    using decode_total [OF assms] by blast
  then show ?thesis by (cases res) (auto simp: decode_index_shard_def)
qed

theorem decode_safe_witness:
  "\<exists>res. decode_index_shard ''k'' [0, 0, 0, 0, 2] = Some res \<and> res = Inl (''k'', Not_a_shard ''an index shard'')"
proof -
  obtain res where "decode_index_shard ''k'' [0, 0, 0, 0, 2] = Some res"
    using decode_safe [of "[0, 0, 0, 0, 2]" "''k''"] by auto
  moreover have magic: "index_shard_magic = [0x4b, 0x42, 0x49, 0x58]" by code_simp
  have "take_bytes (length index_shard_magic) ''the magic'' (reader_new [0, 0, 0, 0, 2])
      = Inr ([0, 0, 0, 0], \<lparr>rd_bytes = [0, 0, 0, 0, 2], rd_at = 4\<rparr>)"
    by (simp add: magic take_bytes_def reader_new_def slice_opt_def)
  then have "decode_shard_header [0, 0, 0, 0, 2] index_shard_magic index_shard_format_version ''an index shard''
      = Inl (Not_a_shard ''an index shard'')"
    by (simp add: decode_shard_header_def) (simp add: magic)
  then have "decode_index_shard ''k'' [0, 0, 0, 0, 2] = Some (Inl (''k'', Not_a_shard ''an index shard''))"
    by (simp add: decode_index_shard_def decode_def decode_front_def)
  ultimately show ?thesis by simp
qed

end
