(* ===== verification/Tenant.thy ===== *)
theory Tenant
  imports Wire_Codec
begin

text \<open>
  Tenant names on their way into object keys: \<open>path_escape.rs\<close> and the tenant id of \<open>tenant.rs\<close>.
  A string is the list of its UTF-8 bytes, each byte a \<open>char\<close>.
\<close>

section \<open>Path segments\<close>

definition is_ascii_alphanumeric :: "char \<Rightarrow> bool" where
  "is_ascii_alphanumeric c \<longleftrightarrow>
     of_char c \<in> {48..57::nat} \<or> of_char c \<in> {65..90::nat} \<or> of_char c \<in> {97..122::nat}"

definition path_escape_marker :: char where
  "path_escape_marker = CHR ''!''"

text \<open>One digit of \<open>{byte:02X}\<close>.\<close>

definition upper_hex :: "nat \<Rightarrow> char" where
  "upper_hex n = char_of (if n < 10 then 48 + n else 55 + n)"

definition plain_segment_byte :: "char \<Rightarrow> bool" where
  "plain_segment_byte c \<longleftrightarrow> is_ascii_alphanumeric c \<or> c \<in> {CHR ''-'', CHR ''_'', CHR ''.''}"

definition escape_byte :: "bool \<Rightarrow> char \<Rightarrow> string" where
  "escape_byte escape_every_byte c =
     (if \<not> escape_every_byte \<and> plain_segment_byte c then [c]
      else [path_escape_marker, upper_hex (of_char c div 16), upper_hex (of_char c mod 16)])"

definition escape_object_path_segment :: "string \<Rightarrow> string" where
  "escape_object_path_segment v = concat (map (escape_byte (v = ''.'' \<or> v = ''..'')) v)"

definition hex_digit :: "char \<Rightarrow> nat option" where
  "hex_digit c =
     (let b = of_char c
      in if 48 \<le> b \<and> b \<le> 57 then Some (b - 48)
         else if 65 \<le> b \<and> b \<le> 70 then Some (b - 65 + 10)
         else None)"

fun unescape_bytes :: "string \<Rightarrow> string option" where
  "unescape_bytes [] = Some []"
| "unescape_bytes (c # cs) =
     (if c = path_escape_marker then
        (case cs of
           h # l # rest \<Rightarrow> do {
             high \<leftarrow> hex_digit h;
             low \<leftarrow> hex_digit l;
             out \<leftarrow> unescape_bytes rest;
             Some (char_of (high * 16 + low) # out)
           }
         | _ \<Rightarrow> None)
      else map_option ((#) c) (unescape_bytes cs))"

definition unescape_object_path_segment :: "string \<Rightarrow> string option" where
  "unescape_object_path_segment segment = do {
     out \<leftarrow> unescape_bytes segment;
     if utf8_valid (string_bytes out) then Some out else None
   }"

section \<open>Tenant ids\<close>

definition max_tenant_id_len :: usize where
  "max_tenant_id_len = 150"

definition is_allowed_tenant_byte :: "char \<Rightarrow> bool" where
  "is_allowed_tenant_byte c \<longleftrightarrow> is_ascii_alphanumeric c
     \<or> c \<in> set ''!-_.*()'' \<or> c = CHR 0x27"

definition anonymous_tenant :: string where
  "anonymous_tenant = ''anonymous''"

text \<open>The character of the error is a code point.\<close>

datatype tenant_id_error =
    Tenant_empty
  | Unsupported_character string nat
  | Tenant_too_long
  | Relative_path_segment

datatype tenant_policy = Tenant_required | Tenant_fallback string

datatype tenant_resolve_error = Tenant_missing | Tenant_invalid tenant_id_error

definition first_unsupported_character :: "string \<Rightarrow> nat option" where
  "first_unsupported_character ident = map_option of_char (List.find (\<lambda>c. \<not> is_allowed_tenant_byte c) ident)"

definition tenant_new :: "string \<Rightarrow> tenant_id_error + string" where
  "tenant_new ident =
     (if ident = [] then Inl Tenant_empty
      else case first_unsupported_character ident of
        Some character \<Rightarrow> Inl (Unsupported_character ident character)
      | None \<Rightarrow>
          if length ident > max_tenant_id_len then Inl Tenant_too_long
          else if ident = ''.'' \<or> ident = ''..'' then Inl Relative_path_segment
          else Inr ident)"

definition tenant_anonymous :: string where
  "tenant_anonymous = anonymous_tenant"

definition policy_anonymous :: tenant_policy where
  "policy_anonymous = Tenant_fallback tenant_anonymous"

text \<open>
  \<open>String::from_utf8_lossy\<close>: every maximal ill-formed prefix becomes \<open>U+FFFD\<close>.  \<open>utf8_prefix\<close> is the
  length of the sequence at the front and whether it is well formed.
\<close>

definition utf8_second_ok :: "byte \<Rightarrow> byte \<Rightarrow> bool" where
  "utf8_second_ok lead b \<longleftrightarrow>
     (if lead = 0xE0 then 0xA0 \<le> b \<and> b \<le> 0xBF
      else if lead = 0xED then 0x80 \<le> b \<and> b \<le> 0x9F
      else if lead = 0xF0 then 0x90 \<le> b \<and> b \<le> 0xBF
      else if lead = 0xF4 then 0x80 \<le> b \<and> b \<le> 0x8F
      else utf8_tail b)"

definition utf8_width :: "byte \<Rightarrow> nat" where
  "utf8_width lead =
     (if lead < 0x80 then 1
      else if 0xC2 \<le> lead \<and> lead \<le> 0xDF then 2
      else if 0xE0 \<le> lead \<and> lead \<le> 0xEF then 3
      else if 0xF0 \<le> lead \<and> lead \<le> 0xF4 then 4
      else 0)"

definition utf8_prefix :: "byte list \<Rightarrow> nat \<times> bool" where
  "utf8_prefix bs =
     (case bs of
        [] \<Rightarrow> (0, True)
      | lead # rest \<Rightarrow>
          (let w = utf8_width lead;
               tail_at = (\<lambda>i. i < length rest \<and> utf8_tail (rest ! i))
           in if w = 0 then (1, False)
              else if w = 1 then (1, True)
              else if \<not> (0 < length rest \<and> utf8_second_ok lead (rest ! 0)) then (1, False)
              else if w = 2 then (2, True)
              else if \<not> tail_at 1 then (2, False)
              else if w = 3 then (3, True)
              else if \<not> tail_at 2 then (3, False)
              else (4, True)))"

function lossy_bytes :: "byte list \<Rightarrow> byte list" where
  "lossy_bytes [] = []"
| "lossy_bytes (b # bs) =
     (case utf8_prefix (b # bs) of (n, ok) \<Rightarrow>
        (if ok then take n (b # bs) else [0xEF, 0xBF, 0xBD]) @ lossy_bytes (drop n (b # bs)))"
  by pat_completeness auto

lemma utf8_prefix_pos: "bs \<noteq> [] \<Longrightarrow> 0 < fst (utf8_prefix bs)"
  by (cases bs) (auto simp: utf8_prefix_def Let_def)

termination lossy_bytes
proof (relation "measure length")
  fix b bs n ok
  assume "(n, ok) = utf8_prefix (b # bs)"
  then have "0 < n" using utf8_prefix_pos [of "b # bs"] by (metis fst_conv list.distinct(1))
  then show "(drop n (b # bs), b # bs) \<in> measure length" by simp
qed simp

definition from_utf8_lossy :: "string \<Rightarrow> string" where
  "from_utf8_lossy s = bytes_string (lossy_bytes (string_bytes s))"

definition tenant_resolve :: "string option \<Rightarrow> tenant_policy \<Rightarrow> tenant_resolve_error + string" where
  "tenant_resolve header policy =
     (case (case header of Some v \<Rightarrow> if v \<noteq> [] then Some v else None | None \<Rightarrow> None) of
        Some v \<Rightarrow>
          if utf8_valid (string_bytes v) then map_sum Tenant_invalid id (tenant_new v)
          else Inl (Tenant_invalid (Unsupported_character (from_utf8_lossy v)
                 (case first_unsupported_character v of Some c \<Rightarrow> c | None \<Rightarrow> 0xFFFD)))
      | None \<Rightarrow>
          (case policy of Tenant_required \<Rightarrow> Inl Tenant_missing | Tenant_fallback tenant \<Rightarrow> Inr tenant))"

definition tenant_from_str :: "string \<Rightarrow> tenant_id_error + string" where
  "tenant_from_str ident = tenant_new ident"

end
