(* ===== verification/Tenant_Spec.thy ===== *)
theory Tenant_Spec
  imports Tenant
begin

text \<open>
  A tenant name stays inside its own path segment: the escape is reversible, never spells a
  separator or a relative segment, and a tenant id that a request resolves to passed every rule.
\<close>

section \<open>The escape\<close>

lemma of_char_256: "of_char c < (256 :: nat)"
  by (metis char_of_char of_char_of mod_less_divisor zero_less_numeral)

lemma of_upper_hex: "n < 16 \<Longrightarrow> of_char (upper_hex n) = (if n < 10 then 48 + n else 55 + n)"
  by (simp add: upper_hex_def)

lemma hex_digit_upper_hex [simp]: "n < 16 \<Longrightarrow> hex_digit (upper_hex n) = Some n"
  by (simp add: hex_digit_def of_upper_hex Let_def)

lemma upper_hex_plain: "n < 16 \<Longrightarrow> plain_segment_byte (upper_hex n)"
  by (simp add: plain_segment_byte_def is_ascii_alphanumeric_def of_upper_hex)

lemma marker_not_plain: "\<not> plain_segment_byte path_escape_marker"
  by code_simp

lemma unescape_escape_byte:
  "unescape_bytes (escape_byte every c @ rest) = map_option ((#) c) (unescape_bytes rest)"
proof (cases "\<not> every \<and> plain_segment_byte c")
  case True
  then have "c \<noteq> path_escape_marker" using marker_not_plain by auto
  then show ?thesis using True by (simp add: escape_byte_def)
next
  case False
  have "of_char c div 16 < (16 :: nat)" using of_char_256 [of c] by (simp add: less_mult_imp_div_less)
  moreover have "char_of ((of_char c :: nat) div 16 * 16 + of_char c mod 16) = c" by simp
  ultimately show ?thesis using False
    by (cases "unescape_bytes rest") (auto simp: escape_byte_def marker_not_plain)
qed

lemma unescape_bytes_escape: "unescape_bytes (concat (map (escape_byte every) v)) = Some v"
  by (induction v) (simp_all add: unescape_escape_byte)

lemma unescape_escape: "unescape_bytes (escape_object_path_segment v) = Some v"
  by (simp add: escape_object_path_segment_def unescape_bytes_escape)

lemma escape_chars: "c \<in> set (escape_object_path_segment v) \<Longrightarrow> plain_segment_byte c \<or> c = path_escape_marker"
proof -
  have "plain_segment_byte c \<or> c = path_escape_marker" if "c \<in> set (escape_byte every d)" for every d
  proof -
    have "of_char d div 16 < (16 :: nat)" using of_char_256 [of d] by (simp add: less_mult_imp_div_less)
    then show ?thesis
      using that upper_hex_plain by (auto simp: escape_byte_def split: if_splits)
  qed
  then show "c \<in> set (escape_object_path_segment v) \<Longrightarrow> plain_segment_byte c \<or> c = path_escape_marker"
    by (auto simp: escape_object_path_segment_def)
qed

lemma escape_not_relative: "escape_object_path_segment v \<noteq> ''.''" "escape_object_path_segment v \<noteq> ''..''"
proof -
  have dot: "v = s" if "escape_object_path_segment v = s" "unescape_bytes s = Some s" for s
    using unescape_escape [of v] that by simp
  have "unescape_bytes ''.'' = Some ''.''" "unescape_bytes ''..'' = Some ''..''"
    "escape_object_path_segment ''.'' \<noteq> ''.''" "escape_object_path_segment ''..'' \<noteq> ''..''" by code_simp+
  then show "escape_object_path_segment v \<noteq> ''.''" "escape_object_path_segment v \<noteq> ''..''"
    using dot by metis+
qed

section \<open>Valid ids\<close>

definition valid_tenant :: "string \<Rightarrow> bool" where
  "valid_tenant t \<longleftrightarrow> t \<noteq> [] \<and> length t \<le> max_tenant_id_len \<and> t \<noteq> ''.'' \<and> t \<noteq> ''..''
     \<and> (\<forall>c \<in> set t. is_allowed_tenant_byte c)"

lemma first_unsupported_None: "first_unsupported_character t = None \<longleftrightarrow> (\<forall>c \<in> set t. is_allowed_tenant_byte c)"
  by (auto simp: first_unsupported_character_def find_None_iff)

lemma tenant_new_ok: "tenant_new ident = Inr t \<longleftrightarrow> t = ident \<and> valid_tenant ident"
  by (auto simp: tenant_new_def valid_tenant_def first_unsupported_None [symmetric] split: option.split)

lemma allowed_ascii: "is_allowed_tenant_byte c \<Longrightarrow> of_char c < (128 :: nat)"
  by (auto simp: is_allowed_tenant_byte_def is_ascii_alphanumeric_def)

lemma valid_tenant_utf8:
  assumes "valid_tenant t"
  shows "utf8_string t"
proof -
  have "utf8_valid (string_bytes s)" if "\<forall>c \<in> set s. is_allowed_tenant_byte c" for s
    using that
  proof (induction s)
    case (Cons c s)
    have "of_char c < (128 :: nat)" using Cons.prems allowed_ascii by simp
    then have "(of_nat (of_char c) :: byte) \<le> 0x7F"
      by (simp add: word_le_nat_alt unsigned_of_nat take_bit_nat_eq_self)
    then show ?case using Cons by (simp add: string_bytes_def)
  qed (simp add: string_bytes_def)
  then show ?thesis
    using assms by (simp add: utf8_string_def valid_tenant_def max_tenant_id_len_def)
qed

section \<open>Properties\<close>

text \<open>
  The escape of a path segment is reversible: \<open>unescape_object_path_segment\<close> returns the value that
  was escaped, for every string, so two values never share a segment.
\<close>

theorem escape_roundtrip:
  assumes "utf8_valid (string_bytes v)"
  shows "unescape_object_path_segment (escape_object_path_segment v) = Some v"
  using assms by (simp add: unescape_object_path_segment_def unescape_escape)

theorem escape_roundtrip_witness:
  "unescape_object_path_segment (escape_object_path_segment ''../other'') = Some ''../other''"
  by (rule escape_roundtrip) code_simp

text \<open>
  An escaped value is one path segment: it holds only ASCII letters, digits, \<open>-\<close>, \<open>_\<close>, \<open>.\<close> and \<open>!\<close>,
  so no separator, it is never \<open>.\<close> or \<open>..\<close>, and different values give different segments.
\<close>

theorem escape_one_segment:
  "set (escape_object_path_segment v) \<subseteq> {c. is_ascii_alphanumeric c \<or> c \<in> set ''-_.!''}
     \<and> CHR ''/'' \<notin> set (escape_object_path_segment v)
     \<and> escape_object_path_segment v \<notin> {''.'', ''..''}
     \<and> inj escape_object_path_segment"
proof -
  have "\<not> plain_segment_byte (CHR ''/'')" "CHR ''/'' \<noteq> path_escape_marker" by code_simp+
  then have "CHR ''/'' \<notin> set (escape_object_path_segment v)" using escape_chars by blast
  moreover have "inj escape_object_path_segment"
    by (rule injI) (metis unescape_escape option.inject)
  moreover have "set (escape_object_path_segment v) \<subseteq> {c. is_ascii_alphanumeric c \<or> c \<in> set ''-_.!''}"
    using escape_chars [of _ v] by (auto simp: plain_segment_byte_def path_escape_marker_def)
  ultimately show ?thesis using escape_not_relative by simp
qed

text \<open>
  Only a well-formed tenant id gets through: \<open>TenantId::resolve\<close> returns a tenant exactly when the
  request names one that obeys every rule of \<open>TenantId::new\<close>, or names none and the policy has a
  fallback.  A name that is not UTF-8 is always rejected.
\<close>

theorem tenant_resolve_exact:
  "tenant_resolve header policy = Inr t \<longleftrightarrow>
     (case header of
        None \<Rightarrow> policy = Tenant_fallback t
      | Some v \<Rightarrow> if v = [] then policy = Tenant_fallback t else t = v \<and> valid_tenant v)"
proof -
  have named: "map_sum Tenant_invalid id (tenant_new v) = Inr t \<longleftrightarrow> t = v \<and> valid_tenant v" for v
    using tenant_new_ok [of v] by (cases "tenant_new v") auto
  have "valid_tenant v \<Longrightarrow> utf8_valid (string_bytes v)" for v
    using valid_tenant_utf8 by (simp add: utf8_string_def)
  then show ?thesis
    using named by (auto simp: tenant_resolve_def split: option.split tenant_policy.split if_split)
qed

end
