(* ===== verification/Shard_Layout.thy ===== *)
theory Shard_Layout
  imports Shard_Codec Tenant Kernels
begin

text \<open>
  The layout of an index in the object store: the grid of \<open>index/shard_planning.rs\<close>, the object keys
  of \<open>index/shard_keys.rs\<close> and of \<open>index.rs\<close>, \<open>IndexShardRange\<close>, and the classification of a listed
  object in \<open>index/shard_loading.rs\<close>.
\<close>

section \<open>Strings\<close>

text \<open>The methods of \<open>str\<close> the keys use.\<close>

definition trim_start_matches :: "char \<Rightarrow> string \<Rightarrow> string" where
  "trim_start_matches c s = dropWhile (\<lambda>d. d = c) s"

definition trim_matches :: "char \<Rightarrow> string \<Rightarrow> string" where
  "trim_matches c s = rev (trim_start_matches c (rev (trim_start_matches c s)))"

definition str_strip_prefix :: "string \<Rightarrow> string \<Rightarrow> string option" where
  "str_strip_prefix p s = (if take (length p) s = p then Some (drop (length p) s) else None)"

definition str_strip_suffix :: "string \<Rightarrow> string \<Rightarrow> string option" where
  "str_strip_suffix p s =
     (if length p \<le> length s \<and> drop (length s - length p) s = p then Some (take (length s - length p) s) else None)"

definition split_once :: "char \<Rightarrow> string \<Rightarrow> (string \<times> string) option" where
  "split_once c s =
     (case dropWhile (\<lambda>d. d \<noteq> c) s of [] \<Rightarrow> None | _ # rest \<Rightarrow> Some (takeWhile (\<lambda>d. d \<noteq> c) s, rest))"

fun split_all :: "char \<Rightarrow> string \<Rightarrow> string list" where
  "split_all c [] = [[]]"
| "split_all c (d # s) =
     (if d = c then [] # split_all c s
      else case split_all c s of [] \<Rightarrow> [[d]] | part # parts \<Rightarrow> (d # part) # parts)"

section \<open>The grid\<close>

definition max_index_shards_per_tenant :: usize where
  "max_index_shards_per_tenant = 256"

definition span_slots :: "i64 \<Rightarrow> i64 \<Rightarrow> i64 \<Rightarrow> nat" where
  "span_slots width min_ts max_ts = nat \<bar>max_ts div width - min_ts div width\<bar> + 1"

text \<open>The doubling loop; \<open>None\<close> would be a loop that never returns.\<close>

partial_function (option) width_loop :: "i64 \<Rightarrow> i64 \<Rightarrow> i64 \<Rightarrow> i64 option" where
  "width_loop width min_ts max_ts =
     (if span_slots width min_ts max_ts \<le> max_index_shards_per_tenant then Some width
      else case checked_mul width 2 of
        None \<Rightarrow> Some i64_max
      | Some doubled \<Rightarrow> width_loop doubled min_ts max_ts)"

definition index_shard_width_for_span :: "i64 \<Rightarrow> i64 \<Rightarrow> i64 \<Rightarrow> i64 option" where
  "index_shard_width_for_span requested min_ts max_ts = width_loop (max requested 1) min_ts max_ts"

record index_shard_range =
  ir_start :: i64
  ir_end :: i64

definition range_overlaps :: "index_shard_range \<Rightarrow> i64 \<Rightarrow> i64 \<Rightarrow> bool" where
  "range_overlaps r min_ts max_ts \<longleftrightarrow> ir_start r \<le> max_ts \<and> ir_end r \<ge> min_ts"

record planned_index_shard =
  pl_range :: index_shard_range
  pl_ordinals :: "ordinal btree_set"

definition widen_span :: "block_list \<Rightarrow> ordinal \<Rightarrow> i64 \<times> i64 \<Rightarrow> (i64 \<times> i64) option" where
  "widen_span bl i span = do {
     entry \<leftarrow> list_entry bl i;
     Some (min (fst span) (be_min_ts entry), max (snd span) (be_max_ts entry))
   }"

definition place_block ::
  "block_list \<Rightarrow> i64 \<Rightarrow> ordinal \<Rightarrow> (i64, ordinal btree_set) btree_map
     \<Rightarrow> (i64, ordinal btree_set) btree_map option" where
  "place_block bl width i shards = do {
     entry \<leftarrow> list_entry bl i;
     Some (fold (\<lambda>slot. bt_update slot [] (bs_insert i))
       [be_min_ts entry div width..be_max_ts entry div width] shards)
   }"

definition planned_shard :: "i64 \<Rightarrow> i64 \<times> ordinal btree_set \<Rightarrow> planned_index_shard" where
  "planned_shard width entry =
     (case entry of (slot, ordinals) \<Rightarrow>
        let range = shard_range slot width
        in \<lparr>pl_range = \<lparr>ir_start = str_start range, ir_end = str_end range\<rparr>, pl_ordinals = ordinals\<rparr>)"

definition plan_tenant_index_shards :: "tenant_index \<Rightarrow> i64 \<Rightarrow> planned_index_shard list option" where
  "plan_tenant_index_shards ti requested_width = do {
     let bl = ti_blocks ti;
     ordinals \<leftarrow> ordinals_overlapping bl i64_min i64_max;
     if ordinals = [] then Some []
     else do {
       span \<leftarrow> fold_opt (widen_span bl) ordinals (i64_max, i64_min);
       width \<leftarrow> index_shard_width_for_span requested_width (fst span) (snd span);
       shards \<leftarrow> fold_opt (place_block bl width) ordinals [];
       Some (map (planned_shard width) shards)
     }
   }"

section \<open>Object keys\<close>

definition index_shards_prefix_for_key :: "string \<Rightarrow> string" where
  "index_shards_prefix_for_key key =
     (let key = trim_matches (CHR ''/'') key
      in case str_strip_suffix ''.json'' key of
           Some stem \<Rightarrow> stem @ ''/shards''
         | None \<Rightarrow> key @ ''.shards'')"

definition index_shard_tenant_prefix :: "string \<Rightarrow> string \<Rightarrow> string" where
  "index_shard_tenant_prefix key tenant =
     index_shards_prefix_for_key key @ ''/tenant='' @ escape_object_path_segment tenant"

definition index_unbound_series_object_key :: "string \<Rightarrow> string \<Rightarrow> string" where
  "index_unbound_series_object_key key tenant = index_shard_tenant_prefix key tenant @ ''/unbound.kbi''"

text \<open>\<open>{:020}\<close> of a number of at most twenty digits.\<close>

fun padded_decimal :: "nat \<Rightarrow> nat \<Rightarrow> string" where
  "padded_decimal 0 n = []"
| "padded_decimal (Suc w) n = padded_decimal w (n div 10) @ [char_of (48 + n mod 10)]"

definition flip_sign :: "u64 \<Rightarrow> u64" where
  "flip_sign w = w XOR push_bit 63 1"

definition shard_bound_key :: "i64 \<Rightarrow> string" where
  "shard_bound_key bound = padded_decimal 20 (unat (flip_sign (word_of_int bound)))"

definition parse_shard_bound_key :: "string \<Rightarrow> i64 option" where
  "parse_shard_bound_key key =
     (if length key \<noteq> 20 \<or> \<not> list_all (\<lambda>c. digit_value c \<noteq> None) key then None
      else map_option (\<lambda>n. sint (flip_sign (of_nat n))) (parse_digits 0 key))"

definition index_shard_object_key :: "string \<Rightarrow> string \<Rightarrow> index_shard_range \<Rightarrow> string" where
  "index_shard_object_key key tenant span =
     index_shard_tenant_prefix key tenant @ ''/time='' @ shard_bound_key (ir_start span) @ ''-''
       @ shard_bound_key (ir_end span) @ ''/shard.kbi''"

section \<open>Listed objects\<close>

datatype index_shard_object = Shard_object index_shard_range | Unbound_series | Foreign_object

record parsed_index_shard_location =
  pi_tenant :: string
  pi_object :: index_shard_object

definition parse_span :: "string \<Rightarrow> index_shard_object" where
  "parse_span span =
     (case str_strip_prefix ''time='' span of
        None \<Rightarrow> Foreign_object
      | Some span' \<Rightarrow>
          (case split_once (CHR ''-'') span' of
             None \<Rightarrow> Foreign_object
           | Some (lo, hi) \<Rightarrow>
               (case (parse_shard_bound_key lo, parse_shard_bound_key hi) of
                  (Some start, Some fin) \<Rightarrow>
                    if start \<le> fin then Shard_object \<lparr>ir_start = start, ir_end = fin\<rparr> else Foreign_object
                | _ \<Rightarrow> Foreign_object)))"

definition parse_index_shard_location :: "string \<Rightarrow> string \<Rightarrow> parsed_index_shard_location option" where
  "parse_index_shard_location shards_prefix location = do {
     under \<leftarrow> str_strip_prefix shards_prefix location;
     (tenant_segment, rest) \<leftarrow> split_once (CHR ''/'') (trim_start_matches (CHR ''/'') under);
     escaped \<leftarrow> str_strip_prefix ''tenant='' tenant_segment;
     tenant \<leftarrow> unescape_object_path_segment escaped;
     Some \<lparr>pi_tenant = tenant,
       pi_object =
         (if rest = ''unbound.kbi'' then Unbound_series
          else case split_all (CHR ''/'') rest of
            [span, kind] \<Rightarrow> if kind = ''shard.kbi'' then parse_span span else Foreign_object
          | _ \<Rightarrow> Foreign_object)\<rparr>
   }"

end
