(* ===== verification/Shard_Layout_Spec.thy ===== *)
theory Shard_Layout_Spec
  imports Shard_Layout Shard_Roundtrip Tenant_Spec
begin

text \<open>
  The layout is sound: shard keys read back and sort in time order, the width loop ends with at most
  256 slots, and the plan puts a block in every shard its span meets.
\<close>

section \<open>Bound keys\<close>

lemma flip_sign_add: "flip_sign w = w + 9223372036854775808"
proof -
  have wrap: "(9223372036854775808 :: u64) + 9223372036854775808 = 0" by simp
  have "flip_sign w = (if bit w 63 then unset_bit 63 w else set_bit 63 w)"
    unfolding flip_sign_def flip_bit_eq_xor [symmetric] by (simp add: flip_bit_eq_if)
  then show ?thesis
    using wrap unfolding unset_bit_eq set_bit_eq
    by (cases "bit w 63") (simp_all add: diff_eq_eq add.assoc)
qed

lemma unat_word_of_int: "0 \<le> x \<Longrightarrow> x < 2 ^ 64 \<Longrightarrow> unat (word_of_int x :: u64) = nat x"
  unfolding unat_eq_nat_uint by (simp add: unsigned_of_int take_bit_int_eq_self)

lemma flip_sign_i64:
  assumes "is_i64 b"
  shows "unat (flip_sign (word_of_int b)) = nat (b + 9223372036854775808)"
proof -
  have "flip_sign (word_of_int b) = (word_of_int (b + 9223372036854775808) :: u64)"
    by (simp add: flip_sign_add)
  moreover have "unat (word_of_int (b + 9223372036854775808) :: u64) = nat (b + 9223372036854775808)"
    using assms by (intro unat_word_of_int) (auto simp: is_i64_def)
  ultimately show ?thesis by metis
qed

lemma flip_sign_twice: "flip_sign (flip_sign w) = w"
  by (simp add: flip_sign_def xor.assoc)

lemma parse_digits_append:
  "parse_digits acc (xs @ ys) = parse_digits acc xs \<bind> (\<lambda>a. parse_digits a ys)"
  by (induction xs arbitrary: acc) (auto split: option.split)

lemma digit_value_char [simp]: "d < 10 \<Longrightarrow> digit_value (char_of (48 + d :: nat)) = Some d"
  by (simp add: digit_value_def Let_def)

lemma parse_padded:
  "n < 10 ^ w \<Longrightarrow> n \<le> usize_max \<Longrightarrow> parse_digits 0 (padded_decimal w n) = Some n"
proof (induction w arbitrary: n)
  case (Suc w)
  have "n div 10 < 10 ^ w" using Suc.prems(1) by (simp add: less_mult_imp_div_less mult.commute)
  then have "parse_digits 0 (padded_decimal w (n div 10)) = Some (n div 10)"
    using Suc by simp
  moreover have "n div 10 * 10 + n mod 10 = n" by simp
  ultimately show ?case
    using Suc.prems(2) by (simp add: parse_digits_append)
qed simp

lemma padded_decimal_digits: "length (padded_decimal w n) = w" "list_all (\<lambda>c. digit_value c \<noteq> None) (padded_decimal w n)"
  by (induction w arbitrary: n) auto

lemma parse_shard_bound_key_key:
  assumes "is_i64 b"
  shows "parse_shard_bound_key (shard_bound_key b) = Some b"
proof -
  define n where "n = unat (flip_sign (word_of_int b))"
  have "n < 2 ^ LENGTH(64)" unfolding n_def by (rule unsigned_less)
  then have le: "n \<le> usize_max" by simp
  then have "parse_digits 0 (padded_decimal 20 n) = Some n" by (intro parse_padded) simp_all
  moreover have "(of_nat n :: u64) = flip_sign (word_of_int b)" by (simp add: n_def)
  moreover have "sint (word_of_int b :: u64) = b"
    using assms by (simp add: is_i64_def sint_sbintrunc' signed_take_bit_int_eq_self)
  ultimately show ?thesis
    using padded_decimal_digits [of 20 n]
    by (simp add: parse_shard_bound_key_def shard_bound_key_def n_def [symmetric] flip_sign_twice)
qed

lemma snoc_less:
  fixes xs ys :: "'a::linorder list"
  assumes "length xs = length ys"
  shows "xs @ [c] < ys @ [d] \<longleftrightarrow> xs < ys \<or> xs = ys \<and> c < d"
  using assms by (induction xs ys rule: list_induct2) auto

lemma digit_char_less: "k < 10 \<Longrightarrow> l < 10 \<Longrightarrow> char_of (48 + k :: nat) < char_of (48 + l :: nat) \<longleftrightarrow> k < l"
  by (simp add: less_char_def)

lemma digits_less: "q * 10 + r < q' * 10 + r' \<longleftrightarrow> q < q' \<or> q = q' \<and> r < r'"
  if "r < 10" "r' < 10" for q q' r r' :: nat
  using that by (cases q q' rule: linorder_cases) auto

lemma padded_less: "padded_decimal w m < padded_decimal w n \<longleftrightarrow> m < n" if "m < 10 ^ w" "n < 10 ^ w"
  using that
proof (induction w arbitrary: m n)
  case (Suc w)
  have lt: "m div 10 < 10 ^ w" "n div 10 < 10 ^ w"
    using Suc.prems by (simp_all add: less_mult_imp_div_less mult.commute)
  have eq: "padded_decimal w (m div 10) = padded_decimal w (n div 10) \<longleftrightarrow> m div 10 = n div 10"
    using Suc.IH [OF lt] Suc.IH [OF lt(2,1)] by (metis less_irrefl linorder_neqE_nat)
  have "m < n \<longleftrightarrow> m div 10 < n div 10 \<or> m div 10 = n div 10 \<and> m mod 10 < n mod 10"
    using digits_less [of "m mod 10" "n mod 10" "m div 10" "n div 10"] by simp
  then show ?case
    using Suc.IH [OF lt] eq snoc_less [of "padded_decimal w (m div 10)" "padded_decimal w (n div 10)"]
    by (simp add: padded_decimal_digits digit_char_less)
qed simp

lemma shard_bound_key_less:
  assumes "is_i64 a" and "is_i64 b"
  shows "shard_bound_key a < shard_bound_key b \<longleftrightarrow> a < b"
proof -
  have "nat (x + 9223372036854775808) < 10 ^ 20" if "is_i64 x" for x
    using that by (auto simp: is_i64_def)
  then show ?thesis
    using assms by (simp add: shard_bound_key_def flip_sign_i64 padded_less) (auto simp: is_i64_def)
qed

section \<open>The width\<close>

lemma width_loop_ends:
  assumes "1 \<le> w" and "w \<le> i64_max" and ts: "is_i64 a" "is_i64 b"
  shows "\<exists>k. width_loop w a b = Some (w * 2 ^ k) \<and> w * 2 ^ k \<le> i64_max
       \<and> span_slots (w * 2 ^ k) a b \<le> max_index_shards_per_tenant
       \<and> (k = 0 \<or> span_slots (w * 2 ^ (k - 1)) a b > max_index_shards_per_tenant)"
  using assms(1,2)
proof (induction "nat (i64_max - w)" arbitrary: w rule: less_induct)
  case less
  show ?case
  proof (cases "span_slots w a b \<le> max_index_shards_per_tenant")
    case True
    then show ?thesis
      using less.prems by (intro exI [of _ 0]) (simp add: width_loop.simps)
  next
    case False
    have small: "w < 2 ^ 57"
    proof (rule ccontr)
      assume "\<not> w < 2 ^ 57"
      then have w: "144115188075855872 \<le> w" by simp
      have "- 65 \<le> x div w \<and> x div w \<le> 64" if "is_i64 x" for x
      proof -
        have x: "x < 65 * w" "- 65 * w \<le> x" using that w by (auto simp: is_i64_def)
        have "x div w * w + x mod w = x" "0 \<le> x mod w" "x mod w < w" using w by simp_all
        moreover have "65 * w \<le> x div w * w" if "65 \<le> x div w" using that w by (intro mult_right_mono) auto
        moreover have "x div w * w \<le> - 66 * w" if "x div w \<le> - 66" using that w by (intro mult_right_mono) auto
        ultimately show ?thesis using x by linarith
      qed
      from this [OF ts(1)] this [OF ts(2)] have "\<bar>b div w - a div w\<bar> \<le> 129" by linarith
      then show False using False by (simp add: span_slots_def max_index_shards_per_tenant_def)
    qed
    then have dbl: "checked_mul w 2 = Some (w * 2)" "w * 2 \<le> i64_max" "1 \<le> w * 2"
      using less.prems by (auto simp: checked_mul_def is_i64_def)
    moreover have "nat (i64_max - w * 2) < nat (i64_max - w)" using less.prems small by simp
    ultimately obtain k where k: "width_loop (w * 2) a b = Some (w * 2 * 2 ^ k)" "w * 2 * 2 ^ k \<le> i64_max"
        "span_slots (w * 2 * 2 ^ k) a b \<le> max_index_shards_per_tenant"
        "k = 0 \<or> span_slots (w * 2 * 2 ^ (k - 1)) a b > max_index_shards_per_tenant"
      using less.hyps [of "w * 2"] by blast
    have "span_slots (w * 2 ^ (Suc k - 1)) a b > max_index_shards_per_tenant"
      using k(4) False by (cases k) (auto simp: mult.assoc)
    then show ?thesis
      using k(1-3) False dbl(1) by (intro exI [of _ "Suc k"]) (simp add: width_loop.simps mult.assoc)
  qed
qed

section \<open>The plan\<close>

text \<open>What a slot map says: the ordinals of a slot.\<close>

definition in_slot :: "(i64, ordinal btree_set) btree_map \<Rightarrow> i64 \<Rightarrow> ordinal \<Rightarrow> bool" where
  "in_slot m slot i \<longleftrightarrow> (\<exists>os. bt_get m slot = Some os \<and> i \<in> set os)"

definition slots_ok :: "(i64, ordinal btree_set) btree_map \<Rightarrow> bool" where
  "slots_ok m \<longleftrightarrow> bt_ok m \<and> (\<forall>slot os. bt_get m slot = Some os \<longrightarrow> bs_ok os)"

lemma place_slots:
  assumes "slots_ok m"
  shows "slots_ok (fold (\<lambda>slot. bt_update slot [] (bs_insert i)) slots m)
    \<and> (\<forall>slot j. in_slot (fold (\<lambda>slot. bt_update slot [] (bs_insert i)) slots m) slot j
          \<longleftrightarrow> in_slot m slot j \<or> j = i \<and> slot \<in> set slots)
    \<and> dom (bt_get (fold (\<lambda>slot. bt_update slot [] (bs_insert i)) slots m)) = dom (bt_get m) \<union> set slots"
  using assms
proof (induction slots arbitrary: m)
  case (Cons s slots)
  let ?m = "bt_update s [] (bs_insert i) m"
  have "slots_ok ?m"
    using Cons.prems by (auto simp: slots_ok_def bt_ok_update bt_update_def bt_ok_insert bs_ok_insert split: option.splits if_splits)
  moreover have "in_slot ?m slot j \<longleftrightarrow> in_slot m slot j \<or> j = i \<and> slot = s" for slot j
    by (cases "bt_get m s") (auto simp: in_slot_def bt_update_def)
  moreover have "dom (bt_get ?m) = insert s (dom (bt_get m))" by (simp add: bt_update_def)
  ultimately show ?case using Cons.IH [of ?m] by auto
qed simp

definition slots_of :: "block_list \<Rightarrow> i64 \<Rightarrow> ordinal \<Rightarrow> i64 set" where
  "slots_of bl w i = {be_min_ts (ent bl i) div w..be_max_ts (ent bl i) div w}"

lemma place_run:
  assumes "slots_ok m" and "\<And>i. i \<in> set is \<Longrightarrow> i < length (bl_entries bl)"
  shows "\<exists>m'. fold_opt (place_block bl w) is m = Some m' \<and> slots_ok m'
       \<and> (\<forall>slot j. in_slot m' slot j \<longleftrightarrow> in_slot m slot j \<or> j \<in> set is \<and> slot \<in> slots_of bl w j)
       \<and> dom (bt_get m') = dom (bt_get m) \<union> (\<Union>i \<in> set is. slots_of bl w i)"
  using assms
proof (induction "is" arbitrary: m)
  case (Cons i is')
  let ?m = "fold (\<lambda>slot. bt_update slot [] (bs_insert i)) [be_min_ts (ent bl i) div w..be_max_ts (ent bl i) div w] m"
  note p = place_slots [OF Cons.prems(1), of i "[be_min_ts (ent bl i) div w..be_max_ts (ent bl i) div w]"]
  have step: "place_block bl w i m = Some ?m"
    using Cons.prems(2) [of i] by (simp add: place_block_def list_entry_def panic_simps)
  obtain m' where m': "fold_opt (place_block bl w) is' ?m = Some m'" "slots_ok m'"
      "\<forall>slot j. in_slot m' slot j \<longleftrightarrow> in_slot ?m slot j \<or> j \<in> set is' \<and> slot \<in> slots_of bl w j"
      "dom (bt_get m') = dom (bt_get ?m) \<union> (\<Union>i \<in> set is'. slots_of bl w i)"
    using Cons.IH [of ?m] p Cons.prems(2) by auto
  have "in_slot m' slot j \<longleftrightarrow> in_slot m slot j \<or> j \<in> set (i # is') \<and> slot \<in> slots_of bl w j" for slot j
    using m'(3) p by (auto simp: slots_of_def)
  moreover have "dom (bt_get m') = dom (bt_get m) \<union> (\<Union>i \<in> set (i # is'). slots_of bl w i)"
    using m'(4) p by (auto simp: slots_of_def)
  ultimately show ?case using step m'(1,2) by auto
qed simp

lemma widen_run:
  assumes "\<And>i. i \<in> set is \<Longrightarrow> i < length (bl_entries bl)"
    and "\<And>i. i \<in> set is \<Longrightarrow> is_i64 (be_min_ts (ent bl i)) \<and> is_i64 (be_max_ts (ent bl i))"
    and "is_i64 (fst span)" and "is_i64 (snd span)"
  shows "\<exists>lo hi. fold_opt (widen_span bl) is span = Some (lo, hi) \<and> is_i64 lo \<and> is_i64 hi
       \<and> lo \<le> fst span \<and> snd span \<le> hi
       \<and> (\<forall>i \<in> set is. lo \<le> be_min_ts (ent bl i) \<and> be_max_ts (ent bl i) \<le> hi)"
  using assms
proof (induction "is" arbitrary: span)
  case (Cons i is')
  let ?s = "(min (fst span) (be_min_ts (ent bl i)), max (snd span) (be_max_ts (ent bl i)))"
  have "widen_span bl i span = Some ?s"
    using Cons.prems(1) [of i] by (simp add: widen_span_def list_entry_def panic_simps)
  moreover have "is_i64 (fst ?s)" "is_i64 (snd ?s)"
    using Cons.prems(2) [of i] Cons.prems(3,4) by (auto simp: is_i64_def)
  then obtain lo hi where "fold_opt (widen_span bl) is' ?s = Some (lo, hi)" "is_i64 lo" "is_i64 hi"
      "lo \<le> fst ?s" "snd ?s \<le> hi" "\<forall>i \<in> set is'. lo \<le> be_min_ts (ent bl i) \<and> be_max_ts (ent bl i) \<le> hi"
    using Cons.IH [of ?s] Cons.prems(1,2) by auto
  ultimately show ?case by auto
qed auto

text \<open>A slot map built by placing blocks, turned into the planned shards.\<close>

lemma planned_shards_ok:
  assumes m: "slots_ok m" "\<And>slot j. in_slot m slot j \<longleftrightarrow> j \<in> set is \<and> slot \<in> slots_of bl w j"
      "dom (bt_get m) = (\<Union>i \<in> set is. slots_of bl w i)"
    and w: "1 \<le> w" "is_i64 w"
  shows "\<forall>sh \<in> set (map (planned_shard w) m). bs_ok (pl_ordinals sh) \<and> set (pl_ordinals sh) \<subseteq> set is
            \<and> pl_ordinals sh \<noteq> []"
    and "i \<in> set is \<Longrightarrow> is_i64 ts \<Longrightarrow> be_min_ts (ent bl i) \<le> ts \<Longrightarrow> ts \<le> be_max_ts (ent bl i) \<Longrightarrow>
       \<exists>sh \<in> set (map (planned_shard w) m). i \<in> set (pl_ordinals sh)
          \<and> ir_start (pl_range sh) \<le> ts \<and> ts \<le> ir_end (pl_range sh)"
proof -
  have get: "(slot, os) \<in> set m \<longleftrightarrow> bt_get m slot = Some os" for slot os
    using m(1) bt_ok_distinct [of m] by (simp add: slots_ok_def)
  have "bs_ok os \<and> set os \<subseteq> set is \<and> os \<noteq> []" if "(slot, os) \<in> set m" for slot os
  proof -
    have os: "bt_get m slot = Some os" using that get by auto
    then have "slot \<in> dom (bt_get m)" by auto
    then obtain i where "i \<in> set is" "slot \<in> slots_of bl w i" using m(3) by auto
    then have "i \<in> set os" using m(2) [of slot i] os by (auto simp: in_slot_def)
    moreover have "j \<in> set is" if "j \<in> set os" for j
      using m(2) [of slot j] os that by (auto simp: in_slot_def)
    ultimately show ?thesis using m(1) os by (auto simp: slots_ok_def)
  qed
  then show "\<forall>sh \<in> set (map (planned_shard w) m). bs_ok (pl_ordinals sh) \<and> set (pl_ordinals sh) \<subseteq> set is
            \<and> pl_ordinals sh \<noteq> []"
    by (fastforce simp: planned_shard_def Let_def)
  show "\<exists>sh \<in> set (map (planned_shard w) m). i \<in> set (pl_ordinals sh)
          \<and> ir_start (pl_range sh) \<le> ts \<and> ts \<le> ir_end (pl_range sh)"
    if i: "i \<in> set is" "is_i64 ts" and ts: "be_min_ts (ent bl i) \<le> ts" "ts \<le> be_max_ts (ent bl i)"
  proof -
    have "in_slot m (ts div w) i" using i ts w(1) by (auto simp: m(2) slots_of_def zdiv_mono1)
    then obtain os where "(ts div w, os) \<in> set m" "i \<in> set os" by (auto simp: in_slot_def get)
    then show ?thesis
      using shard_range_contains [OF i(2) w]
      by (intro bexI [of _ "planned_shard w (ts div w, os)"]) (auto simp: planned_shard_def Let_def)
  qed
qed

lemma slot_map_size:
  assumes "slots_ok m" and "dom (bt_get m) = (\<Union>i \<in> set is. slots_of bl w i)" and "1 \<le> w"
    and "\<And>i. i \<in> set is \<Longrightarrow> lo \<le> be_min_ts (ent bl i) \<and> be_max_ts (ent bl i) \<le> hi"
  shows "length m \<le> span_slots w lo hi"
proof -
  have "lo div w \<le> be_min_ts (ent bl i) div w \<and> be_max_ts (ent bl i) div w \<le> hi div w" if "i \<in> set is" for i
    using assms(3) assms(4) [OF that] by (simp add: zdiv_mono1)
  then have "dom (bt_get m) \<subseteq> {lo div w..hi div w}"
    unfolding assms(2) slots_of_def by fastforce
  then have "card (dom (bt_get m)) \<le> nat (hi div w - lo div w + 1)"
    using card_mono [of "{lo div w..hi div w}" "dom (bt_get m)"] by simp
  moreover have "card (dom (bt_get m)) = length m"
    using assms(1) distinct_card [OF bt_ok_distinct, of m] by (simp add: slots_ok_def dom_map_of_conv_image_fst)
  ultimately show ?thesis unfolding span_slots_def by linarith
qed

lemma plan_ok:
  assumes wf: "bl_wf (ti_blocks ti)" and c: "codable (ti_blocks ti)" and req: "is_i64 requested"
  shows "\<exists>plan. plan_tenant_index_shards ti requested = Some plan
       \<and> length plan \<le> max_index_shards_per_tenant
       \<and> (\<forall>sh \<in> set plan. bs_ok (pl_ordinals sh) \<and> set (pl_ordinals sh) \<subseteq> set (bl_order (ti_blocks ti))
            \<and> pl_ordinals sh \<noteq> [])
       \<and> (\<forall>i \<in> set (bl_order (ti_blocks ti)). \<forall>ts. be_min_ts (ent (ti_blocks ti) i) \<le> ts
            \<longrightarrow> ts \<le> be_max_ts (ent (ti_blocks ti) i)
            \<longrightarrow> (\<exists>sh \<in> set plan. i \<in> set (pl_ordinals sh)
                  \<and> ir_start (pl_range sh) \<le> ts \<and> ts \<le> ir_end (pl_range sh)))"
proof -
  let ?bl = "ti_blocks ti"
  let ?os = "bl_order ?bl"
  have live: "i < length (bl_entries ?bl)" if "i \<in> set ?os" for i
    using wf that by (simp add: bl_wf_def order_wf_def)
  have valid: "is_i64 (be_min_ts (ent ?bl i)) \<and> is_i64 (be_max_ts (ent ?bl i))" if "i \<in> set ?os" for i
    using c live [OF that] by (auto simp: codable_def entry_valid_def)
  have "filter (\<lambda>i. entry_overlaps (ent ?bl i) i64_min i64_max) ?os = ?os"
    using valid by (auto simp: filter_id_conv entry_overlaps_def is_i64_def)
  then have oo: "ordinals_overlapping ?bl i64_min i64_max = Some ?os"
    using ordinals_overlapping_ok [OF wf] by simp
  show ?thesis
  proof (cases "?os = []")
    case True
    then show ?thesis using oo by (simp add: plan_tenant_index_shards_def)
  next
    case False
    obtain lo hi where span: "fold_opt (widen_span ?bl) ?os (i64_max, i64_min) = Some (lo, hi)"
        "is_i64 lo" "is_i64 hi" "\<forall>i \<in> set ?os. lo \<le> be_min_ts (ent ?bl i) \<and> be_max_ts (ent ?bl i) \<le> hi"
      using widen_run [of ?os ?bl "(i64_max, i64_min)"] live valid by (auto simp: is_i64_def)
    have one: "1 \<le> max requested 1" "max requested 1 \<le> i64_max" using req by (auto simp: is_i64_def)
    obtain k where k: "index_shard_width_for_span requested lo hi = Some (max requested 1 * 2 ^ k)"
        "max requested 1 * 2 ^ k \<le> i64_max" "span_slots (max requested 1 * 2 ^ k) lo hi \<le> max_index_shards_per_tenant"
      using width_loop_ends [OF one span(2,3)] unfolding index_shard_width_for_span_def by blast
    define w where "w = max requested 1 * 2 ^ k"
    have "1 * 1 \<le> w" unfolding w_def by (intro mult_mono) simp_all
    then have w: "1 \<le> w" "is_i64 w" using k(2) by (simp_all add: w_def [symmetric] is_i64_def)
    obtain m where m: "fold_opt (place_block ?bl w) ?os [] = Some m" "slots_ok m"
        "\<And>slot j. in_slot m slot j \<longleftrightarrow> j \<in> set ?os \<and> slot \<in> slots_of ?bl w j"
        "dom (bt_get m) = (\<Union>i \<in> set ?os. slots_of ?bl w i)"
      using place_run [of "[]" ?os ?bl w] live by (auto simp: slots_ok_def in_slot_def)
    have "plan_tenant_index_shards ti requested = Some (map (planned_shard w) m)"
      using oo False span(1) k(1) m(1) by (simp add: plan_tenant_index_shards_def Let_def w_def)
    moreover have "length m \<le> max_index_shards_per_tenant"
      using slot_map_size [OF m(2,4) w(1), of lo hi] span(4) k(3) unfolding w_def by fastforce
    moreover have "is_i64 ts" if "i \<in> set ?os" "be_min_ts (ent ?bl i) \<le> ts" "ts \<le> be_max_ts (ent ?bl i)" for i ts
      using valid [OF that(1)] that(2,3) by (auto simp: is_i64_def)
    ultimately show ?thesis
      using planned_shards_ok [OF m(2-4) w] by (intro exI [of _ "map (planned_shard w) m"]) simp
  qed
qed

section \<open>Object keys\<close>

lemma strip_prefix_append [simp]: "str_strip_prefix p (p @ s) = Some s"
  by (simp add: str_strip_prefix_def)

lemma split_once_append:
  assumes "c \<notin> set a"
  shows "split_once c (a @ c # b) = Some (a, b)"
proof -
  have "\<And>x. x \<in> set a \<Longrightarrow> x \<noteq> c" using assms by auto
  then show ?thesis by (simp add: split_once_def dropWhile_append2 takeWhile_append2)
qed

lemma split_all_none: "c \<notin> set a \<Longrightarrow> split_all c a = [a]"
  by (induction a) auto

lemma split_all_append: "c \<notin> set a \<Longrightarrow> split_all c (a @ c # b) = a # split_all c b"
  by (induction a) auto

lemma bound_key_chars: "CHR ''-'' \<notin> set (shard_bound_key b)" "CHR ''/'' \<notin> set (shard_bound_key b)"
proof -
  have "digit_value c \<noteq> None" if "c \<in> set (shard_bound_key b)" for c
    using padded_decimal_digits(2) [of 20 "unat (flip_sign (word_of_int b))"] that
    unfolding shard_bound_key_def list_all_iff by blast
  moreover have "digit_value (CHR ''-'') = None" "digit_value (CHR ''/'') = None" by code_simp+
  ultimately show "CHR ''-'' \<notin> set (shard_bound_key b)" "CHR ''/'' \<notin> set (shard_bound_key b)"
    by metis+
qed

lemma escape_no_slash: "CHR ''/'' \<notin> set (escape_object_path_segment v)"
proof -
  have "\<not> plain_segment_byte (CHR ''/'')" "CHR ''/'' \<noteq> path_escape_marker" by code_simp+
  then show ?thesis using escape_chars by blast
qed

text \<open>Everything below a tenant's prefix is classified by what follows the tenant segment.\<close>

lemma parse_below_tenant:
  assumes "utf8_valid (string_bytes t)"
  shows "parse_index_shard_location (index_shards_prefix_for_key key) (index_shard_tenant_prefix key t @ CHR ''/'' # rest)
     = Some \<lparr>pi_tenant = t, pi_object = (if rest = ''unbound.kbi'' then Unbound_series
          else case split_all (CHR ''/'') rest of
            [span, kind] \<Rightarrow> if kind = ''shard.kbi'' then parse_span span else Foreign_object
          | _ \<Rightarrow> Foreign_object)\<rparr>"
proof -
  let ?seg = "''tenant='' @ escape_object_path_segment t"
  have s1: "trim_start_matches (CHR ''/'') (CHR ''/'' # ?seg @ CHR ''/'' # rest) = ?seg @ CHR ''/'' # rest"
    by (simp add: trim_start_matches_def)
  have s2: "split_once (CHR ''/'') (?seg @ CHR ''/'' # rest) = Some (?seg, rest)"
    using escape_no_slash [of t] by (intro split_once_append) simp
  have s3: "index_shard_tenant_prefix key t @ CHR ''/'' # rest
      = index_shards_prefix_for_key key @ (CHR ''/'' # ?seg @ CHR ''/'' # rest)"
    by (simp add: index_shard_tenant_prefix_def)
  have s4: "unescape_object_path_segment (escape_object_path_segment t) = Some t"
    using assms by (simp add: unescape_object_path_segment_def unescape_escape)
  show ?thesis
    unfolding parse_index_shard_location_def s3 by (simp only: strip_prefix_append bind.simps s1 s2 prod.case s4)
qed

lemma parse_shard_key:
  assumes "utf8_valid (string_bytes t)" and "is_i64 (ir_start r)" "is_i64 (ir_end r)" and "ir_start r \<le> ir_end r"
  shows "parse_index_shard_location (index_shards_prefix_for_key key) (index_shard_object_key key t r)
     = Some \<lparr>pi_tenant = t, pi_object = Shard_object r\<rparr>"
proof -
  let ?span = "''time='' @ shard_bound_key (ir_start r) @ ''-'' @ shard_bound_key (ir_end r)"
  have "CHR ''/'' \<notin> set ?span" using bound_key_chars(2) by simp
  then have "split_all (CHR ''/'') (?span @ CHR ''/'' # ''shard.kbi'') = [?span, ''shard.kbi'']"
    by (subst split_all_append) (simp_all add: split_all_none)
  moreover have "split_once (CHR ''-'') (shard_bound_key (ir_start r) @ ''-'' @ shard_bound_key (ir_end r))
      = Some (shard_bound_key (ir_start r), shard_bound_key (ir_end r))"
    using split_once_append [OF bound_key_chars(1)] by simp
  then have "parse_span ?span = Shard_object r"
    unfolding parse_span_def strip_prefix_append using assms(2-4)
    by (cases r) (simp add: parse_shard_bound_key_key)
  moreover have "index_shard_object_key key t r = index_shard_tenant_prefix key t @ CHR ''/'' # (?span @ CHR ''/'' # ''shard.kbi'')"
    by (simp add: index_shard_object_key_def)
  ultimately show ?thesis
    using parse_below_tenant [OF assms(1), of key "?span @ CHR ''/'' # ''shard.kbi''"] by simp
qed

lemma parse_unbound_key:
  assumes "utf8_valid (string_bytes t)"
  shows "parse_index_shard_location (index_shards_prefix_for_key key) (index_unbound_series_object_key key t)
     = Some \<lparr>pi_tenant = t, pi_object = Unbound_series\<rparr>"
  using parse_below_tenant [OF assms, of key "''unbound.kbi''"]
  unfolding index_unbound_series_object_key_def by (simp only: simp_thms if_True)

section \<open>Properties\<close>

text \<open>
  C14. A listed shard object is recognised for what it is: the key of a tenant's shard reads back as
  that tenant and that time range, so a query decides from a listing alone which shards it reads.
\<close>

theorem shard_key_roundtrip:
  assumes "utf8_valid (string_bytes tenant)" and "is_i64 (ir_start r)" and "is_i64 (ir_end r)"
    and "ir_start r \<le> ir_end r"
  shows "parse_index_shard_location (index_shards_prefix_for_key key) (index_shard_object_key key tenant r)
     = Some \<lparr>pi_tenant = tenant, pi_object = Shard_object r\<rparr>"
  by (rule parse_shard_key [OF assms])

theorem shard_key_roundtrip_witness:
  "parse_index_shard_location (index_shards_prefix_for_key ''m/index.json'')
     (index_shard_object_key ''m/index.json'' ''a/b'' \<lparr>ir_start = - 10, ir_end = 9\<rparr>)
     = Some \<lparr>pi_tenant = ''a/b'', pi_object = Shard_object \<lparr>ir_start = - 10, ir_end = 9\<rparr>\<rparr>"
proof -
  have "utf8_valid (string_bytes ''a/b'')" by code_simp
  then show ?thesis by (intro shard_key_roundtrip) (simp_all add: is_i64_def)
qed

text \<open>
  Shard keys sort in time order: the lexicographic order of two bound keys is the numeric order of
  the bounds, over the whole \<open>i64\<close> range and across the sign.
\<close>

theorem bound_keys_in_time_order:
  assumes "is_i64 a" and "is_i64 b"
  shows "(shard_bound_key a < shard_bound_key b \<longleftrightarrow> a < b) \<and> length (shard_bound_key a) = 20
       \<and> parse_shard_bound_key (shard_bound_key a) = Some a"
  using shard_bound_key_less [OF assms] parse_shard_bound_key_key [OF assms(1)]
  by (simp add: shard_bound_key_def padded_decimal_digits)

theorem bound_keys_in_time_order_witness: "shard_bound_key (- 1) < shard_bound_key 0"
  using bound_keys_in_time_order [of "- 1" 0] by (simp add: is_i64_def)

text \<open>
  The width loop always returns: for every requested width and every span the doubling of
  \<open>index_shard_width_for_span\<close> ends, never overflows, gives the requested width doubled as often as
  needed and no more, and the span then crosses at most 256 slots.
\<close>

theorem shard_width_terminates:
  assumes "is_i64 requested" and "is_i64 min_ts" and "is_i64 max_ts"
  shows "\<exists>k. index_shard_width_for_span requested min_ts max_ts = Some (max requested 1 * 2 ^ k)
       \<and> is_i64 (max requested 1 * 2 ^ k) \<and> span_slots (max requested 1 * 2 ^ k) min_ts max_ts \<le> 256
       \<and> (k = 0 \<or> span_slots (max requested 1 * 2 ^ (k - 1)) min_ts max_ts > 256)"
proof -
  have one: "1 \<le> max requested 1" "max requested 1 \<le> i64_max" using assms(1) by (auto simp: is_i64_def)
  obtain k where k: "index_shard_width_for_span requested min_ts max_ts = Some (max requested 1 * 2 ^ k)"
      "max requested 1 * 2 ^ k \<le> i64_max" "span_slots (max requested 1 * 2 ^ k) min_ts max_ts \<le> 256"
      "k = 0 \<or> span_slots (max requested 1 * 2 ^ (k - 1)) min_ts max_ts > 256"
    using width_loop_ends [OF one assms(2,3)]
    unfolding index_shard_width_for_span_def max_index_shards_per_tenant_def by blast
  have "0 \<le> max requested 1 * 2 ^ k" by (intro mult_nonneg_nonneg) simp_all
  then have "is_i64 (max requested 1 * 2 ^ k)" unfolding is_i64_def using k(2) by linarith
  with k show ?thesis by (intro exI [of _ k] conjI)
qed

theorem shard_width_terminates_witness:
  "\<exists>k. index_shard_width_for_span 1 0 1000 = Some (max 1 1 * 2 ^ k) \<and> span_slots (max 1 1 * 2 ^ k) 0 1000 \<le> 256"
  using shard_width_terminates [of 1 0 1000] by (auto simp: is_i64_def)



end
