(* ===== verification/Compaction.thy ===== *)
theory Compaction
  imports Block_List Labels Kernels
begin

text \<open>
  The compaction planner: \<open>compaction/block_level.rs\<close>, \<open>compaction/compaction_policy.rs\<close>, the planner of
  \<open>compaction.rs\<close>, and the tick unit of \<open>lifecycle.rs\<close>.  A \<open>Time\<close> is a type of another crate, so its
  two conversions are parameters.
\<close>

section \<open>Levels and units\<close>

definition level_above :: "block_level list \<Rightarrow> block_level" where
  "level_above sources = (case sources of [] \<Rightarrow> ingested | l # ls \<Rightarrow> level_next (fold max ls l))"

datatype block_timestamp_unit = Millis | Nanos

text \<open>\<open>Time::millis_i64\<close> and \<open>Time::nanos_i64\<close>.\<close>

record 't time_units =
  tu_millis_i64 :: "'t \<Rightarrow> i64"
  tu_nanos_i64 :: "'t \<Rightarrow> i64"

definition unit_ticks :: "'t time_units \<Rightarrow> block_timestamp_unit \<Rightarrow> 't \<Rightarrow> i64" where
  "unit_ticks tu unit extent =
     max (case unit of Millis \<Rightarrow> tu_millis_i64 tu extent | Nanos \<Rightarrow> tu_nanos_i64 tu extent) 0"

section \<open>The policy\<close>

record 't compaction_policy =
  cp_max_blocks_per_job :: usize
  cp_target_rows_per_block :: usize
  cp_max_level :: block_level
  cp_level_window :: 't
  cp_timestamp_unit :: block_timestamp_unit

definition policy_new ::
  "usize \<Rightarrow> usize \<Rightarrow> block_level \<Rightarrow> 't \<Rightarrow> block_timestamp_unit \<Rightarrow> 't compaction_policy" where
  "policy_new max_blocks_per_job target_rows_per_block max_level level_window timestamp_unit =
     \<lparr>cp_max_blocks_per_job = max max_blocks_per_job 2,
      cp_target_rows_per_block = max target_rows_per_block 1,
      cp_max_level = max max_level 1,
      cp_level_window = level_window,
      cp_timestamp_unit = timestamp_unit\<rparr>"

text \<open>\<open>1_i64.checked_shl(level)\<close>: a shift by 63 is the sign bit, one by 64 or more is nothing.\<close>

definition checked_shl_one :: "nat \<Rightarrow> i64 option" where
  "checked_shl_one n = (if n < 64 then Some (wrap_i64 (2 ^ n)) else None)"

definition window_factor :: "block_level \<Rightarrow> i64" where
  "window_factor level =
     (case checked_shl_one level of Some factor \<Rightarrow> if factor > 0 then factor else i64_max | None \<Rightarrow> i64_max)"

definition window_ticks_for :: "'t time_units \<Rightarrow> 't compaction_policy \<Rightarrow> block_level \<Rightarrow> i64" where
  "window_ticks_for tu policy level =
     saturating_mul (max (unit_ticks tu (cp_timestamp_unit policy) (cp_level_window policy)) 1)
       (window_factor level)"

section \<open>Planning\<close>

record compaction_candidate =
  cc_tenant :: string
  cc_object_key :: string
  cc_min_ts :: i64
  cc_max_ts :: i64
  cc_row_count :: usize
  cc_level :: block_level

record compaction_job =
  cj_tenant :: string
  cj_input_keys :: "string list"
  cj_output_level :: block_level
  cj_min_ts :: i64
  cj_max_ts :: i64
  cj_row_count :: usize

definition key_bytes :: "string \<Rightarrow> byte list" where
  "key_bytes key = string_bytes key @ [0xff]"

definition input_key_fingerprint :: "string list \<Rightarrow> u64" where
  "input_key_fingerprint keys = fold (\<lambda>b hash. fnv_step hash b) (concat (map key_bytes keys)) fnv_offset"

definition job_from_run ::
  "string \<Rightarrow> block_level \<Rightarrow> compaction_candidate list \<Rightarrow> usize \<Rightarrow> compaction_job option" where
  "job_from_run tenant level run row_count =
     (case run of
        c # c' # rest \<Rightarrow>
          Some \<lparr>cj_tenant = tenant, cj_input_keys = map cc_object_key run, cj_output_level = level_next level,
                cj_min_ts = fold (\<lambda>x m. min m (cc_min_ts x)) (c' # rest) (cc_min_ts c),
                cj_max_ts = fold (\<lambda>x m. max m (cc_max_ts x)) (c' # rest) (cc_max_ts c),
                cj_row_count = row_count\<rparr>
      | _ \<Rightarrow> None)"

type_synonym compaction_group_key = "string \<times> block_level \<times> i64"

definition compactable :: "'t compaction_policy \<Rightarrow> compaction_candidate \<Rightarrow> bool" where
  "compactable policy c \<longleftrightarrow>
     \<not> (cc_level c \<ge> cp_max_level policy \<or> cc_row_count c \<ge> cp_target_rows_per_block policy)"

definition group_key :: "'t time_units \<Rightarrow> 't compaction_policy \<Rightarrow> compaction_candidate \<Rightarrow> compaction_group_key" where
  "group_key tu policy c = (cc_tenant c, cc_level c, cc_min_ts c div window_ticks_for tu policy (cc_level c))"

definition add_to_group ::
  "'t time_units \<Rightarrow> 't compaction_policy \<Rightarrow> compaction_candidate
     \<Rightarrow> (compaction_group_key, compaction_candidate list) btree_map
     \<Rightarrow> (compaction_group_key, compaction_candidate list) btree_map" where
  "add_to_group tu policy c groups =
     (if compactable policy c then bt_update (group_key tu policy c) [] (\<lambda>cs. cs @ [c]) groups else groups)"

definition block_span_key :: "compaction_candidate \<Rightarrow> i64 \<times> i64 \<times> string" where
  "block_span_key c = (cc_min_ts c, cc_max_ts c, cc_object_key c)"

fun group_jobs ::
  "string \<Rightarrow> block_level \<Rightarrow> compaction_candidate list \<Rightarrow> nat \<Rightarrow> nat list \<Rightarrow> compaction_job list option" where
  "group_jobs tenant level blocks start [] = Some []"
| "group_jobs tenant level blocks start (end_at # ends) = do {
     run \<leftarrow> slice_opt blocks start end_at;
     let rows = fold (\<lambda>c sum. usize_saturating_add sum (cc_row_count c)) run 0;
     rest \<leftarrow> group_jobs tenant level blocks end_at ends;
     Some ((case job_from_run tenant level run rows of None \<Rightarrow> [] | Some job \<Rightarrow> [job]) @ rest)
   }"

definition jobs_of_group ::
  "'t compaction_policy \<Rightarrow> compaction_group_key \<times> compaction_candidate list \<Rightarrow> compaction_job list option" where
  "jobs_of_group policy entry =
     (case entry of ((tenant, level, bucket), cs) \<Rightarrow>
        let blocks = sort_key block_span_key cs
        in group_jobs tenant level blocks 0
             (compaction_run_ends (map cc_row_count blocks) (cp_max_blocks_per_job policy)
                (cp_target_rows_per_block policy)))"

definition plan_compactions ::
  "'t time_units \<Rightarrow> compaction_candidate list \<Rightarrow> 't compaction_policy \<Rightarrow> compaction_job list option" where
  "plan_compactions tu candidates policy =
     map_option concat (map_opt (jobs_of_group policy) (fold (add_to_group tu policy) candidates []))"

end
