(* ===== verification/Compaction_Spec.thy ===== *)
theory Compaction_Spec
  imports Compaction "HOL-Library.Multiset"
begin

text \<open>
  What the planner promises: a job merges at least two blocks of one tenant, level and time bucket
  below the level cap, no block is in two jobs, and planning and applying in turn comes to an end.
\<close>

section \<open>Runs\<close>

text \<open>What a job says of the run of blocks it merges.\<close>

definition job_of_run :: "string \<Rightarrow> block_level \<Rightarrow> compaction_candidate list \<Rightarrow> compaction_job \<Rightarrow> bool" where
  "job_of_run tenant level run job \<longleftrightarrow> cj_tenant job = tenant \<and> cj_input_keys job = map cc_object_key run
     \<and> cj_output_level job = level_next level
     \<and> cj_min_ts job = Min (cc_min_ts ` set run) \<and> cj_max_ts job = Max (cc_max_ts ` set run)
     \<and> cj_row_count job = min usize_max (sum_list (map cc_row_count run))"

lemma fold_min: "fold (\<lambda>x m. min m (f x)) xs a = Min (insert a (f ` set xs))" for f :: "'a \<Rightarrow> int"
proof (induction xs arbitrary: a)
  case (Cons x xs)
  show ?case unfolding fold.simps comp_def Cons.IH by (cases "xs = []") (auto simp: min.assoc)
qed simp

lemma fold_max: "fold (\<lambda>x m. max m (f x)) xs a = Max (insert a (f ` set xs))" for f :: "'a \<Rightarrow> int"
proof (induction xs arbitrary: a)
  case (Cons x xs)
  show ?case unfolding fold.simps comp_def Cons.IH by (cases "xs = []") (auto simp: max.assoc)
qed simp

lemma fold_rows:
  "a \<le> usize_max \<Longrightarrow> fold (\<lambda>c sum. usize_saturating_add sum (cc_row_count c)) run a
     = min usize_max (a + sum_list (map cc_row_count run))"
  by (induction run arbitrary: a) (auto simp: usize_saturating_add_def min_def)

lemma job_from_run_ok:
  assumes "2 \<le> length run"
  shows "\<exists>job. job_from_run tenant level run (fold (\<lambda>c sum. usize_saturating_add sum (cc_row_count c)) run 0) = Some job
       \<and> job_of_run tenant level run job"
proof -
  obtain c c' rest where run: "run = c # c' # rest"
    using assms by (cases run; cases "tl run") auto
  have "cc_min_ts ` set run = insert (cc_min_ts c) (cc_min_ts ` set (c' # rest))"
    "cc_max_ts ` set run = insert (cc_max_ts c) (cc_max_ts ` set (c' # rest))" by (simp_all add: run)
  then show ?thesis
    using fold_rows [of 0 run] fold_min [of cc_min_ts "c' # rest" "cc_min_ts c"]
      fold_max [of cc_max_ts "c' # rest" "cc_max_ts c"]
    by (simp add: job_from_run_def job_of_run_def run)
qed

lemma group_jobs_ok:
  assumes "run_chain cap start ends" and "last (start # ends) \<le> length blocks"
  shows "\<exists>jobs runs. group_jobs tenant level blocks start ends = Some jobs
       \<and> list_all2 (job_of_run tenant level) runs jobs
       \<and> concat runs = take (last (start # ends) - start) (drop start blocks)
       \<and> (\<forall>run \<in> set runs. 2 \<le> length run \<and> length run \<le> cap)"
  using assms
proof (induction ends arbitrary: start)
  case (Cons e ends)
  have mono: "run_chain cap s es \<Longrightarrow> s \<le> last (s # es)" for s es
    by (induction es arbitrary: s) (auto split: if_splits, fastforce)
  have e: "start + 2 \<le> e" "e \<le> start + cap" "run_chain cap e ends" "e \<le> last (e # ends)"
    using Cons.prems(1) mono by auto
  then have len: "e \<le> length blocks" using Cons.prems(2) by auto
  define run where "run = take (e - start) (drop start blocks)"
  have run: "length run = e - start" "slice_opt blocks start e = Some run"
    using len e(1) by (auto simp: run_def slice_opt_def)
  obtain jobs runs where rest: "group_jobs tenant level blocks e ends = Some jobs"
      "list_all2 (job_of_run tenant level) runs jobs"
      "concat runs = take (last (e # ends) - e) (drop e blocks)"
      "\<forall>run \<in> set runs. 2 \<le> length run \<and> length run \<le> cap"
    using Cons.IH [OF e(3)] Cons.prems(2) by auto
  obtain job where job: "job_from_run tenant level run (fold (\<lambda>c sum. usize_saturating_add sum (cc_row_count c)) run 0) = Some job"
      "job_of_run tenant level run job"
    using job_from_run_ok [of run tenant level] e(1) run(1) by fastforce
  have "run @ concat runs = take (last (start # e # ends) - start) (drop start blocks)"
  proof -
    have "take (e - start) (drop start blocks) @ take (last (e # ends) - e) (drop (e - start) (drop start blocks))
        = take ((e - start) + (last (e # ends) - e)) (drop start blocks)"
      by (rule take_add [symmetric])
    then show ?thesis using e by (simp add: rest(3) run_def)
  qed
  then show ?case
    using rest run job e(1,2)
    by (intro exI [of _ "job # jobs"] exI [of _ "run # runs"]) (auto simp: Let_def)
qed simp

section \<open>Groups\<close>

definition grouped :: "('k::linorder, 'a list) btree_map \<Rightarrow> 'a multiset" where
  "grouped groups = (\<Sum>entry \<leftarrow> groups. mset (snd entry))"

lemma grouped_insert:
  "bt_ok m \<Longrightarrow> grouped (bt_insert k v m) + mset (case bt_get m k of None \<Rightarrow> [] | Some w \<Rightarrow> w) = grouped m + mset v"
proof (induction k v m rule: bt_insert.induct)
  case (2 k v k' v' m)
  have "k < k' \<Longrightarrow> bt_get m k = None"
    using "2.prems" by (auto simp: map_of_eq_None_iff)
  then show ?case using 2 by (auto simp: grouped_def split: option.splits)
qed (simp add: grouped_def)

definition groups_ok ::
  "'t time_units \<Rightarrow> 't compaction_policy \<Rightarrow> (compaction_group_key, compaction_candidate list) btree_map \<Rightarrow> bool" where
  "groups_ok tu policy m \<longleftrightarrow> bt_ok m
     \<and> (\<forall>k cs. bt_get m k = Some cs \<longrightarrow> (\<forall>c \<in> set cs. group_key tu policy c = k \<and> compactable policy c))"

lemma add_to_groups_ok:
  assumes "groups_ok tu policy m"
  shows "groups_ok tu policy (fold (add_to_group tu policy) cs m)
    \<and> grouped (fold (add_to_group tu policy) cs m) = grouped m + mset (filter (compactable policy) cs)"
  using assms
proof (induction cs arbitrary: m)
  case (Cons c cs)
  have ok: "bt_ok m" using Cons.prems by (simp add: groups_ok_def)
  have "groups_ok tu policy (add_to_group tu policy c m)"
  proof -
    have mem: "\<And>k cs c. bt_get m k = Some cs \<Longrightarrow> c \<in> set cs \<Longrightarrow> group_key tu policy c = k \<and> compactable policy c"
      using Cons.prems unfolding groups_ok_def by blast
    show ?thesis
      unfolding groups_ok_def add_to_group_def
      using ok by (auto simp: bt_update_def bt_ok_insert split: option.splits if_splits dest: mem dest!: sym [of _ "bt_get m _"])
  qed
  moreover have "grouped (add_to_group tu policy c m) = grouped m + (if compactable policy c then {#c#} else {#})"
  proof (cases "compactable policy c")
    case True
    let ?k = "group_key tu policy c"
    let ?old = "case bt_get m ?k of None \<Rightarrow> [] | Some w \<Rightarrow> w"
    have "grouped (bt_insert ?k (?old @ [c]) m) + mset ?old = grouped m + mset (?old @ [c])"
      using grouped_insert [OF ok, of ?k "?old @ [c]"] by (simp split: option.split)
    then have "grouped (bt_insert ?k (?old @ [c]) m) = grouped m + {#c#}" by simp
    then show ?thesis using True by (simp add: add_to_group_def bt_update_def split: option.splits)
  qed (simp add: add_to_group_def)
  ultimately show ?case using Cons.IH [of "add_to_group tu policy c m"] by (simp add: ac_simps)
qed simp

section \<open>The plan\<close>

text \<open>
  The policies that \<open>CompactionPolicy::new\<close> makes, and what a job of a plan promises of the blocks it
  merges.
\<close>

definition policy_ok :: "'t compaction_policy \<Rightarrow> bool" where
  "policy_ok policy \<longleftrightarrow> 2 \<le> cp_max_blocks_per_job policy \<and> 1 \<le> cp_target_rows_per_block policy
     \<and> 1 \<le> cp_max_level policy \<and> cp_max_level policy \<le> u32_max"

definition sound_job ::
  "'t time_units \<Rightarrow> 't compaction_policy \<Rightarrow> compaction_candidate list \<Rightarrow> compaction_job \<Rightarrow> bool" where
  "sound_job tu policy run job \<longleftrightarrow> 2 \<le> length run \<and> length run \<le> cp_max_blocks_per_job policy
     \<and> (\<exists>tenant level bucket. (\<forall>c \<in> set run. group_key tu policy c = (tenant, level, bucket) \<and> compactable policy c)
          \<and> job_of_run tenant level run job)"

lemma policy_new_ok: "l \<le> u32_max \<Longrightarrow> policy_ok (policy_new b t l w u)"
  by (simp add: policy_ok_def policy_new_def)

lemma jobs_of_group_ok:
  assumes "policy_ok policy" and "\<forall>c \<in> set cs. group_key tu policy c = k \<and> compactable policy c"
  shows "\<exists>jobs runs. jobs_of_group policy (k, cs) = Some jobs \<and> list_all2 (sound_job tu policy) runs jobs
       \<and> mset (concat runs) \<subseteq># mset cs"
proof -
  obtain tenant level bucket where k: "k = (tenant, level, bucket)" by (cases k)
  define blocks where "blocks = sort_key block_span_key cs"
  define ends where "ends = compaction_run_ends (map cc_row_count blocks) (cp_max_blocks_per_job policy)
      (cp_target_rows_per_block policy)"
  have "\<forall>r \<in> set (map cc_row_count blocks). r < cp_target_rows_per_block policy"
    using assms(2) by (simp add: blocks_def compactable_def not_le)
  then have "run_chain (cp_max_blocks_per_job policy) 0 ends" "last (0 # ends) \<le> length blocks"
    using run_ends_ok [of "cp_max_blocks_per_job policy" "cp_target_rows_per_block policy" "map cc_row_count blocks"]
      assms(1) unfolding ends_def policy_ok_def length_map by blast+
  from group_jobs_ok [OF this, of tenant level] obtain jobs runs where jobs:
      "group_jobs tenant level blocks 0 ends = Some jobs" "list_all2 (job_of_run tenant level) runs jobs"
      "concat runs = take (last (0 # ends)) blocks"
      "\<forall>run \<in> set runs. 2 \<le> length run \<and> length run \<le> cp_max_blocks_per_job policy"
    by auto
  have sub: "mset (concat runs) \<subseteq># mset cs"
    using mset_subset_eq_add_left [of "mset (take (last (0 # ends)) blocks)" "mset (drop (last (0 # ends)) blocks)"]
    by (simp add: jobs(3) blocks_def flip: mset_append)
  have "list_all2 (sound_job tu policy) runs jobs"
    using jobs(2)
  proof (rule list.rel_mono_strong)
    fix run job assume run: "run \<in> set runs" and job: "job_of_run tenant level run job"
    have "set run \<subseteq> set cs" using set_mset_mono [OF sub] run by auto
    then show "sound_job tu policy run job"
      unfolding sound_job_def using jobs(4) run job assms(2) k by blast
  qed
  then show ?thesis
    using jobs(1) sub by (auto simp: jobs_of_group_def k ends_def blocks_def Let_def)
qed

lemma jobs_of_groups_ok:
  assumes "policy_ok policy"
    and "\<forall>(k, cs) \<in> set m. \<forall>c \<in> set cs. group_key tu policy c = k \<and> compactable policy c"
  shows "\<exists>jobs runs. map_opt (jobs_of_group policy) m = Some jobs \<and> list_all2 (sound_job tu policy) runs (concat jobs)
       \<and> mset (concat runs) \<subseteq># grouped m"
  using assms(2)
proof (induction m)
  case (Cons entry m)
  obtain k cs where entry: "entry = (k, cs)" by (cases entry)
  obtain jobs runs where first: "jobs_of_group policy (k, cs) = Some jobs" "list_all2 (sound_job tu policy) runs jobs"
      "mset (concat runs) \<subseteq># mset cs"
    using jobs_of_group_ok [OF assms(1), of cs tu k] Cons.prems entry by auto
  obtain jobs' runs' where rest: "map_opt (jobs_of_group policy) m = Some jobs'"
      "list_all2 (sound_job tu policy) runs' (concat jobs')" "mset (concat runs') \<subseteq># grouped m"
    using Cons by auto
  have "mset (concat (runs @ runs')) \<subseteq># grouped (entry # m)"
    using subset_mset.add_mono [OF first(3) rest(3)] by (simp add: grouped_def entry)
  then show ?case
    using first rest list_all2_appendI [OF first(2) rest(2)] entry
    by (intro exI [of _ "jobs # jobs'"] exI [of _ "runs @ runs'"]) simp
qed (simp add: grouped_def)

lemma compactions_ok:
  assumes "policy_ok policy"
  shows "\<exists>jobs runs. plan_compactions tu candidates policy = Some jobs \<and> list_all2 (sound_job tu policy) runs jobs
       \<and> mset (concat runs) \<subseteq># mset candidates"
proof -
  define m where "m = fold (add_to_group tu policy) candidates []"
  have m: "groups_ok tu policy m" "grouped m = mset (filter (compactable policy) candidates)"
    using add_to_groups_ok [of tu policy "[]" candidates] by (auto simp: groups_ok_def m_def grouped_def)
  have "\<forall>(k, cs) \<in> set m. \<forall>c \<in> set cs. group_key tu policy c = k \<and> compactable policy c"
    using m(1) bt_ok_distinct [of m] unfolding groups_ok_def by (fast intro: map_of_is_SomeI)
  then obtain jobs runs where "map_opt (jobs_of_group policy) m = Some jobs"
      "list_all2 (sound_job tu policy) runs (concat jobs)" "mset (concat runs) \<subseteq># grouped m"
    using jobs_of_groups_ok [OF assms] by blast
  moreover have "grouped m \<subseteq># mset candidates" by (simp add: m(2))
  ultimately show ?thesis
    using subset_mset.order_trans by (fastforce simp: plan_compactions_def m_def)
qed

section \<open>Planning and applying in turn\<close>

text \<open>
  Applying one job of a plan: the blocks of the tenant that the job names leave the live blocks, and
  one block at the job's output level joins them.  The weight is the one that the comment of
  \<open>plan_compactions\<close> gives a block.
\<close>

definition job_covers :: "compaction_job \<Rightarrow> compaction_candidate \<Rightarrow> bool" where
  "job_covers job c \<longleftrightarrow> cc_tenant c = cj_tenant job \<and> cc_object_key c \<in> set (cj_input_keys job)"

definition apply_job :: "compaction_job \<Rightarrow> string \<Rightarrow> compaction_candidate list \<Rightarrow> compaction_candidate list" where
  "apply_job job output_key live = filter (\<lambda>c. \<not> job_covers job c) live
     @ [\<lparr>cc_tenant = cj_tenant job, cc_object_key = output_key, cc_min_ts = cj_min_ts job,
         cc_max_ts = cj_max_ts job, cc_row_count = cj_row_count job, cc_level = cj_output_level job\<rparr>]"

inductive compact_step ::
  "'t time_units \<Rightarrow> 't compaction_policy \<Rightarrow> compaction_candidate list \<Rightarrow> compaction_candidate list \<Rightarrow> bool"
  for tu policy where
  "plan_compactions tu live policy = Some jobs \<Longrightarrow> job \<in> set jobs
     \<Longrightarrow> compact_step tu policy live (apply_job job output_key live)"

inductive_cases compact_stepE: "compact_step tu policy live live'"

definition weight :: "'t compaction_policy \<Rightarrow> compaction_candidate list \<Rightarrow> nat" where
  "weight policy live = (\<Sum>c \<leftarrow> live. cp_max_level policy - cc_level c)"

lemma weight_split: "weight policy live = weight policy (filter P live) + weight policy (filter (\<lambda>c. \<not> P c) live)"
  by (induction live) (auto simp: weight_def)

lemma weight_mset: "weight policy live = (\<Sum>c \<in># mset live. cp_max_level policy - cc_level c)"
  by (simp add: weight_def flip: sum_mset_sum_list mset_map)

lemma weight_mono: "mset xs \<subseteq># mset ys \<Longrightarrow> weight policy xs \<le> weight policy ys"
  unfolding weight_mset by (auto simp: subset_mset.le_iff_add)

lemma weight_level: "\<forall>c \<in> set run. cc_level c = level \<Longrightarrow> weight policy run = length run * (cp_max_level policy - level)"
  by (induction run) (auto simp: weight_def)

lemma sound_job_covers:
  assumes "sound_job tu policy run job"
  shows "\<forall>c \<in> set run. job_covers job c"
  using assms unfolding sound_job_def job_of_run_def job_covers_def group_key_def by fastforce

lemma apply_job_weight:
  assumes "policy_ok policy" and "sound_job tu policy run job" and "mset run \<subseteq># mset live"
  shows "weight policy (apply_job job output_key live) < weight policy live"
proof -
  obtain tenant level bucket where run: "\<forall>c \<in> set run. group_key tu policy c = (tenant, level, bucket) \<and> compactable policy c"
      "job_of_run tenant level run job" "2 \<le> length run"
    using assms(2) unfolding sound_job_def by blast
  define w where "w = cp_max_level policy - level"
  have level: "\<forall>c \<in> set run. cc_level c = level" using run(1) by (auto simp: group_key_def)
  obtain c where "c \<in> set run" using run(3) by (cases run) auto
  then have "level < cp_max_level policy" using run(1) level by (auto simp: compactable_def)
  then have out: "cp_max_level policy - cj_output_level job < w"
    using run(2) assms(1) by (auto simp: job_of_run_def level_next_def policy_ok_def w_def)
  have "mset run \<subseteq># mset (filter (job_covers job) live)"
    using multiset_filter_mono [OF assms(3), of "job_covers job"] sound_job_covers [OF assms(2)]
    by (metis filter_True mset_filter)
  then have "2 * w \<le> weight policy (filter (job_covers job) live)"
    using weight_mono [of run "filter (job_covers job) live" policy] weight_level [OF level] run(3)
    by (metis (no_types) mult_le_mono1 order_trans w_def)
  then show ?thesis
    using out weight_split [of policy live "job_covers job"] by (simp add: apply_job_def weight_def)
qed

lemma compact_step_weight:
  assumes "policy_ok policy" and "compact_step tu policy live live'"
  shows "weight policy live' < weight policy live"
  using assms(2)
proof (rule compact_stepE)
  fix jobs job output_key
  assume live': "live' = apply_job job output_key live" and plan: "plan_compactions tu live policy = Some jobs" "job \<in> set jobs"
  obtain runs where runs: "list_all2 (sound_job tu policy) runs jobs" "mset (concat runs) \<subseteq># mset live"
    using compactions_ok [OF assms(1), of tu live] plan(1) by auto
  obtain i where i: "i < length jobs" "job = jobs ! i" using plan(2) by (metis in_set_conv_nth)
  then have job: "sound_job tu policy (runs ! i) job" and "i < length runs"
    using runs(1) by (auto simp: list_all2_conv_all_nth)
  then have "mset (runs ! i) \<subseteq># mset (concat runs)"
    by (metis id_take_nth_drop concat_append concat.simps(2) mset_append mset_subset_eq_add_left mset_subset_eq_add_right
        subset_mset.order_trans)
  then show ?thesis
    using apply_job_weight [OF assms(1) job, of live output_key] runs(2) live' subset_mset.order_trans by blast
qed

section \<open>A concrete run\<close>

text \<open>A clock that counts nanoseconds, a policy with a window of 100 of them, and two blocks of a tenant.\<close>

definition nano_units :: "int time_units" where
  "nano_units = \<lparr>tu_millis_i64 = (\<lambda>t. t div 1000000), tu_nanos_i64 = (\<lambda>t. t)\<rparr>"

definition small_policy :: "int compaction_policy" where
  "small_policy = policy_new 4 1000 4 100 Nanos"

definition early_block :: compaction_candidate where
  "early_block = \<lparr>cc_tenant = ''t'', cc_object_key = ''a'', cc_min_ts = 10, cc_max_ts = 20, cc_row_count = 1, cc_level = 0\<rparr>"

definition late_block :: compaction_candidate where
  "late_block = \<lparr>cc_tenant = ''t'', cc_object_key = ''b'', cc_min_ts = 30, cc_max_ts = 90, cc_row_count = 5, cc_level = 0\<rparr>"

definition merged_job :: compaction_job where
  "merged_job = \<lparr>cj_tenant = ''t'', cj_input_keys = [''a'', ''b''], cj_output_level = 1, cj_min_ts = 10, cj_max_ts = 90, cj_row_count = 6\<rparr>"

lemma small_window: "window_ticks_for nano_units small_policy 0 = 100"
  by (simp add: window_ticks_for_def unit_ticks_def nano_units_def small_policy_def policy_new_def window_factor_def
      checked_shl_one_def wrap_i64_def saturating_mul_def sat_i64_def)

lemma small_group: "fold (add_to_group nano_units small_policy) [late_block, early_block] []
    = [((''t'', 0, 0), [late_block, early_block])]"
proof -
  have "group_key nano_units small_policy early_block = (''t'', 0, 0)"
    "group_key nano_units small_policy late_block = (''t'', 0, 0)"
    by (simp_all add: group_key_def small_window early_block_def late_block_def)
  moreover have "compactable small_policy early_block" "compactable small_policy late_block"
    by (simp_all add: compactable_def small_policy_def policy_new_def early_block_def late_block_def)
  ultimately show ?thesis by (simp add: add_to_group_def bt_update_def)
qed

lemma small_plan: "plan_compactions nano_units [late_block, early_block] small_policy = Some [merged_job]"
proof -
  have "sort_key block_span_key [late_block, early_block] = [early_block, late_block]"
    by (simp add: block_span_key_def early_block_def late_block_def)
  moreover have "compaction_run_ends [1, 5] 4 1000 = [2]"
    by (simp add: compaction_run_ends_def run_step_def usize_saturating_add_def)
  ultimately show ?thesis
    unfolding plan_compactions_def small_group
    by (simp add: jobs_of_group_def small_policy_def policy_new_def slice_opt_def early_block_def late_block_def
        job_from_run_def merged_job_def level_next_def usize_saturating_add_def)
qed

section \<open>Properties\<close>



text \<open>
  Planning and applying stops: each application of a job takes at least one from the summed weight
  \<open>max_level - level\<close> of the live blocks, so no more jobs can be applied in a row than that weight.
\<close>

theorem compaction_terminates:
  assumes "max_level \<le> u32_max" and "policy = policy_new max_blocks target max_level level_window unit"
    and "(compact_step tu policy ^^ n) live live'"
  shows "n + weight policy live' \<le> weight policy live"
  using assms(3)
proof (induction n arbitrary: live')
  case (Suc n)
  have ok: "policy_ok policy" unfolding assms(2) by (rule policy_new_ok [OF assms(1)])
  obtain mid where "(compact_step tu policy ^^ n) live mid" "compact_step tu policy mid live'"
    using Suc.prems by auto
  then show ?case
    using Suc.IH [of mid] compact_step_weight [OF ok, of tu mid live'] by simp
qed simp

theorem compaction_terminates_witness:
  "compact_step nano_units small_policy [late_block, early_block] (apply_job merged_job ''c'' [late_block, early_block])
     \<and> 1 + weight small_policy (apply_job merged_job ''c'' [late_block, early_block]) \<le> weight small_policy [late_block, early_block]"
proof -
  have step: "compact_step nano_units small_policy [late_block, early_block] (apply_job merged_job ''c'' [late_block, early_block])"
    by (rule compact_step.intros [OF small_plan]) simp
  then have "(compact_step nano_units small_policy ^^ 1) [late_block, early_block] (apply_job merged_job ''c'' [late_block, early_block])"
    by (simp add: eq_OO)
  from compaction_terminates [of 4 small_policy 4 1000 100 Nanos, OF _ small_policy_def this] step
  show ?thesis by simp
qed



end
