(* ===== verification/Lifecycle.thy ===== *)
theory Lifecycle
  imports Compaction
begin

text \<open>
  Deletion of blocks: \<open>lifecycle.rs\<close> and \<open>lifecycle/retention_windows.rs\<close>.  The object store is a
  parameter: a record of the operations the passes call, over an abstract state.  \<open>Path::from\<close> is
  \<open>os_path\<close>.  The counters are counts of calls in memory and are natural numbers.
\<close>

section \<open>The object store\<close>

datatype delete_outcome = Deleted | Not_found | Delete_error string

record object_meta =
  om_location :: string
  om_timestamp :: i64
  om_size :: nat
  om_version :: string

record 's object_store =
  os_path :: "string \<Rightarrow> string"
  os_delete :: "string \<Rightarrow> 's \<Rightarrow> delete_outcome \<times> 's"
  os_list :: "string \<Rightarrow> 's \<Rightarrow> (string + object_meta) list"
  os_delete_stream :: "string list \<Rightarrow> 's \<Rightarrow> delete_outcome list \<times> 's"

section \<open>Deleting blocks\<close>

record block_deletion =
  bd_object_key :: string
  bd_sidecars :: "string list"

record block_deletion_failure =
  bf_object_key :: string
  bf_failed_key :: string
  bf_error :: string

record block_deletion_report =
  dr_blocks_deleted :: nat
  dr_sidecars_deleted :: nat
  dr_objects_absent :: nat
  dr_failures :: "block_deletion_failure list"

definition empty_report :: block_deletion_report where
  "empty_report = \<lparr>dr_blocks_deleted = 0, dr_sidecars_deleted = 0, dr_objects_absent = 0, dr_failures = []\<rparr>"

definition note_failure :: "string \<Rightarrow> string \<Rightarrow> string \<Rightarrow> block_deletion_report \<Rightarrow> block_deletion_report" where
  "note_failure object_key failed_key message r =
     r\<lparr>dr_failures := dr_failures r @
        [\<lparr>bf_object_key = object_key, bf_failed_key = failed_key, bf_error = message\<rparr>]\<rparr>"

definition delete_sidecar ::
  "'s object_store \<Rightarrow> string \<Rightarrow> string
     \<Rightarrow> bool \<times> block_deletion_report \<times> 's \<Rightarrow> bool \<times> block_deletion_report \<times> 's" where
  "delete_sidecar store object_key key acc =
     (case acc of (sidecar_failed, r, s) \<Rightarrow>
        case os_delete store (os_path store key) s of
          (Deleted, s') \<Rightarrow> (sidecar_failed, r\<lparr>dr_sidecars_deleted := dr_sidecars_deleted r + 1\<rparr>, s')
        | (Not_found, s') \<Rightarrow> (sidecar_failed, r\<lparr>dr_objects_absent := dr_objects_absent r + 1\<rparr>, s')
        | (Delete_error message, s') \<Rightarrow> (True, note_failure object_key key message r, s'))"

definition delete_object ::
  "'s object_store \<Rightarrow> string \<Rightarrow> block_deletion_report \<times> 's \<Rightarrow> block_deletion_report \<times> 's" where
  "delete_object store object_key acc =
     (case acc of (r, s) \<Rightarrow>
        case os_delete store (os_path store object_key) s of
          (Deleted, s') \<Rightarrow> (r\<lparr>dr_blocks_deleted := dr_blocks_deleted r + 1\<rparr>, s')
        | (Not_found, s') \<Rightarrow> (r\<lparr>dr_objects_absent := dr_objects_absent r + 1\<rparr>, s')
        | (Delete_error message, s') \<Rightarrow> (note_failure object_key object_key message r, s'))"

definition delete_block ::
  "'s object_store \<Rightarrow> block_deletion \<Rightarrow> block_deletion_report \<times> 's \<Rightarrow> block_deletion_report \<times> 's" where
  "delete_block store deletion acc =
     (case fold (delete_sidecar store (bd_object_key deletion)) (bd_sidecars deletion) (False, acc) of
        (sidecar_failed, r, s) \<Rightarrow>
          if sidecar_failed then (r, s) else delete_object store (bd_object_key deletion) (r, s))"

definition delete_blocks :: "'s object_store \<Rightarrow> block_deletion list \<Rightarrow> 's \<Rightarrow> block_deletion_report \<times> 's" where
  "delete_blocks store deletions s = fold (delete_block store) deletions (empty_report, s)"

section \<open>Retention\<close>

record expired_block =
  eb_tenant :: string
  eb_object_key :: string

text \<open>The table implementation of the trait \<open>RetentionWindows\<close>; its methods are functions of the tenant.\<close>

definition table_retention :: "'t \<Rightarrow> (string, 't) btree_map \<Rightarrow> string \<Rightarrow> 't" where
  "table_retention zero table tenant = (case bt_get table tenant of None \<Rightarrow> zero | Some extent \<Rightarrow> extent)"

definition expired_filter ::
  "'t time_units \<Rightarrow> i64 \<Rightarrow> block_timestamp_unit \<Rightarrow> (string \<Rightarrow> 't) \<Rightarrow> compaction_candidate
     \<Rightarrow> (string, i64 option) btree_map \<times> compaction_candidate list
     \<Rightarrow> (string, i64 option) btree_map \<times> compaction_candidate list" where
  "expired_filter tu now_ts unit windows c acc =
     (case acc of (cutoffs, kept) \<Rightarrow>
        let cutoff = (case bt_get cutoffs (cc_tenant c) of
                        Some cutoff \<Rightarrow> cutoff
                      | None \<Rightarrow> retention_cutoff now_ts (unit_ticks tu unit (windows (cc_tenant c))));
            cutoffs = bt_insert (cc_tenant c) cutoff cutoffs
        in (cutoffs, case cutoff of
                       Some at \<Rightarrow> if cc_max_ts c < at then kept @ [c] else kept
                     | None \<Rightarrow> kept))"

definition expired_key :: "expired_block \<Rightarrow> string \<times> string" where
  "expired_key e = (eb_tenant e, eb_object_key e)"

definition expired_of :: "compaction_candidate \<Rightarrow> expired_block" where
  "expired_of c = \<lparr>eb_tenant = cc_tenant c, eb_object_key = cc_object_key c\<rparr>"

definition plan_expired_blocks ::
  "'t time_units \<Rightarrow> compaction_candidate list \<Rightarrow> i64 \<Rightarrow> block_timestamp_unit \<Rightarrow> (string \<Rightarrow> 't) \<Rightarrow> expired_block list" where
  "plan_expired_blocks tu candidates now_ts unit windows =
     sort_key expired_key
       (map expired_of (snd (fold (expired_filter tu now_ts unit windows) candidates ([], []))))"

section \<open>Orphans\<close>

record orphan_sweep_stats =
  ss_listed :: nat
  ss_live :: nat
  ss_kept_within_grace :: nat
  ss_deleted :: nat
  ss_absent :: nat
  ss_failed :: nat

definition empty_stats :: orphan_sweep_stats where
  "empty_stats = \<lparr>ss_listed = 0, ss_live = 0, ss_kept_within_grace = 0, ss_deleted = 0, ss_absent = 0, ss_failed = 0\<rparr>"

datatype lifecycle_error = Object_store_error string

text \<open>
  \<open>SystemTime\<close> and \<open>Duration\<close> as nanoseconds, the first since the epoch: \<open>checked_sub\<close> fails where the
  seconds of the result are no \<open>i64\<close>, \<open>duration_since\<close> where it is before the epoch.
\<close>

definition sweep_cutoff :: "int \<Rightarrow> nat \<Rightarrow> i64 option" where
  "sweep_cutoff now grace = do {
     at \<leftarrow> (let at = now - int grace in if is_i64 (at div 1000000000) then Some at else None);
     since \<leftarrow> (if 0 \<le> at then Some at else None);
     let secs = since div 1000000000;
     if is_i64 secs then Some secs else None
   }"

fun judge_listing ::
  "string btree_set \<Rightarrow> i64 option \<Rightarrow> (string + object_meta) list \<Rightarrow> orphan_sweep_stats \<Rightarrow> string list
     \<Rightarrow> lifecycle_error + (orphan_sweep_stats \<times> string list)" where
  "judge_listing live_keys cutoff [] stats stale = Inr (stats, stale)"
| "judge_listing live_keys cutoff (Inl e # listing) stats stale = Inl (Object_store_error e)"
| "judge_listing live_keys cutoff (Inr meta # listing) stats stale =
     (let stats = stats\<lparr>ss_listed := ss_listed stats + 1\<rparr>
      in if om_location meta \<in> set live_keys
         then judge_listing live_keys cutoff listing (stats\<lparr>ss_live := ss_live stats + 1\<rparr>) stale
         else if (case cutoff of Some at \<Rightarrow> om_timestamp meta \<le> at | None \<Rightarrow> False)
         then judge_listing live_keys cutoff listing stats (stale @ [om_location meta])
         else judge_listing live_keys cutoff listing
                (stats\<lparr>ss_kept_within_grace := ss_kept_within_grace stats + 1\<rparr>) stale)"

definition count_outcome :: "delete_outcome \<Rightarrow> orphan_sweep_stats \<Rightarrow> orphan_sweep_stats" where
  "count_outcome outcome stats =
     (case outcome of
        Deleted \<Rightarrow> stats\<lparr>ss_deleted := ss_deleted stats + 1\<rparr>
      | Not_found \<Rightarrow> stats\<lparr>ss_absent := ss_absent stats + 1\<rparr>
      | Delete_error e \<Rightarrow> stats\<lparr>ss_failed := ss_failed stats + 1\<rparr>)"

definition reconcile_orphans ::
  "'s object_store \<Rightarrow> string \<Rightarrow> string btree_set \<Rightarrow> nat \<Rightarrow> int \<Rightarrow> 's
     \<Rightarrow> (lifecycle_error + orphan_sweep_stats) \<times> 's" where
  "reconcile_orphans store prefix live_keys grace now s =
     (case judge_listing live_keys (sweep_cutoff now grace)
             (os_list store (os_path store prefix) s) empty_stats [] of
        Inl e \<Rightarrow> (Inl e, s)
      | Inr (stats, stale) \<Rightarrow>
          case os_delete_stream store stale s of
            (outcomes, s') \<Rightarrow> (Inr (fold count_outcome outcomes stats), s'))"

end
