(* ===== verification/Lifecycle_Spec.thy ===== *)
theory Lifecycle_Spec
  imports Lifecycle "HOL-Library.Multiset"
begin

text \<open>
  What the deletion passes promise, against a store that deletes the object it is asked to and no
  other.
\<close>

section \<open>Laws of the store\<close>

text \<open>
  The documented behaviour of an object store's deletes, over a predicate that says which objects a
  state holds.  A delete that fails may or may not have happened, but touches no other object; the
  stream deletes no object that it was not given.
\<close>

definition delete_law :: "'s object_store \<Rightarrow> (string \<Rightarrow> 's \<Rightarrow> bool) \<Rightarrow> bool" where
  "delete_law store holds \<longleftrightarrow>
     (\<forall>p s. let (outcome, s') = os_delete store p s
            in (\<forall>q. q \<noteq> p \<longrightarrow> holds q s' = holds q s) \<and> (holds p s' \<longrightarrow> holds p s)
               \<and> (outcome = Deleted \<or> outcome = Not_found \<longrightarrow> \<not> holds p s'))"

definition stream_law :: "'s object_store \<Rightarrow> (string \<Rightarrow> 's \<Rightarrow> bool) \<Rightarrow> bool" where
  "stream_law store holds \<longleftrightarrow>
     (\<forall>ps s q. q \<notin> set ps \<longrightarrow> holds q (snd (os_delete_stream store ps s)) = holds q s)"

definition deletion_paths :: "'s object_store \<Rightarrow> block_deletion \<Rightarrow> string set" where
  "deletion_paths store d = os_path store ` insert (bd_object_key d) (set (bd_sidecars d))"

section \<open>One block\<close>

lemma delete_lawD:
  assumes "delete_law store holds" and "os_delete store p s = (outcome, s')"
  shows "q \<noteq> p \<Longrightarrow> holds q s' = holds q s" and "holds p s' \<Longrightarrow> holds p s"
    and "outcome = Deleted \<or> outcome = Not_found \<Longrightarrow> \<not> holds p s'"
  using assms(1) [unfolded delete_law_def, rule_format, of p s] assms(2) by auto

text \<open>
  What a pass over sidecars leaves: no object of another path changes, none appears, the failures are
  those of the block, and without one every sidecar is gone.
\<close>

lemma delete_sidecars_ok:
  assumes law: "delete_law store holds"
    and "fold (delete_sidecar store key) sidecars (failed, r, s) = (failed', r', s')"
  shows "\<exists>fs. dr_failures r' = dr_failures r @ fs \<and> (\<forall>f \<in> set fs. bf_object_key f = key)
      \<and> (failed' \<longleftrightarrow> failed \<or> fs \<noteq> [])
      \<and> (fs = [] \<longrightarrow> (\<forall>sc \<in> set sidecars. \<not> holds (os_path store sc) s'))
      \<and> (\<forall>q. holds q s' \<longrightarrow> holds q s) \<and> (\<forall>q. q \<notin> os_path store ` set sidecars \<longrightarrow> holds q s' = holds q s)"
  using assms(2)
proof (induction sidecars arbitrary: failed r s)
  case (Cons sc sidecars)
  obtain outcome s1 where del: "os_delete store (os_path store sc) s = (outcome, s1)" by fastforce
  obtain failed1 r1 where step: "delete_sidecar store key sc (failed, r, s) = (failed1, r1, s1)"
    by (cases outcome) (auto simp: delete_sidecar_def del)
  have first: "\<exists>fs. dr_failures r1 = dr_failures r @ fs \<and> (\<forall>f \<in> set fs. bf_object_key f = key)
      \<and> (failed1 \<longleftrightarrow> failed \<or> fs \<noteq> []) \<and> (fs = [] \<longrightarrow> \<not> holds (os_path store sc) s1)"
    using step delete_lawD(3) [OF law del]
    by (cases outcome) (auto simp: delete_sidecar_def del note_failure_def)
  have frame: "\<And>q. holds q s1 \<Longrightarrow> holds q s" "\<And>q. q \<noteq> os_path store sc \<Longrightarrow> holds q s1 = holds q s"
    using delete_lawD(1,2) [OF law del] by metis+
  have "fold (delete_sidecar store key) sidecars (failed1, r1, s1) = (failed', r', s')"
    using Cons.prems step by simp
  from Cons.IH [OF this] obtain fs where rest: "dr_failures r' = dr_failures r1 @ fs"
      "\<forall>f \<in> set fs. bf_object_key f = key" "failed' \<longleftrightarrow> failed1 \<or> fs \<noteq> []"
      "fs = [] \<longrightarrow> (\<forall>sc \<in> set sidecars. \<not> holds (os_path store sc) s')"
      "\<And>q. holds q s' \<Longrightarrow> holds q s1" "\<And>q. q \<notin> os_path store ` set sidecars \<Longrightarrow> holds q s' = holds q s1"
    by (elim exE conjE) blast
  from first obtain fs1 where head: "dr_failures r1 = dr_failures r @ fs1" "\<forall>f \<in> set fs1. bf_object_key f = key"
      "failed1 \<longleftrightarrow> failed \<or> fs1 \<noteq> []" "fs1 = [] \<longrightarrow> \<not> holds (os_path store sc) s1"
    by (elim exE conjE) blast
  show ?case
  proof (intro exI [of _ "fs1 @ fs"] conjI)
    show "fs1 @ fs = [] \<longrightarrow> (\<forall>sc' \<in> set (sc # sidecars). \<not> holds (os_path store sc') s')"
      using head(4) rest(4,5) by auto
    show "\<forall>q. holds q s' \<longrightarrow> holds q s" using frame(1) rest(5) by blast
    show "\<forall>q. q \<notin> os_path store ` set (sc # sidecars) \<longrightarrow> holds q s' = holds q s"
      using frame(2) rest(6) by simp
  qed (use head rest in auto)
qed simp

lemma delete_object_ok:
  assumes law: "delete_law store holds" and "delete_object store key (r, s) = (r', s')"
  shows "\<exists>fs. dr_failures r' = dr_failures r @ fs \<and> (\<forall>f \<in> set fs. bf_object_key f = key)
      \<and> (fs = [] \<longrightarrow> \<not> holds (os_path store key) s')
      \<and> (\<forall>q. holds q s' \<longrightarrow> holds q s) \<and> (\<forall>q. q \<noteq> os_path store key \<longrightarrow> holds q s' = holds q s)"
proof -
  obtain outcome s1 where del: "os_delete store (os_path store key) s = (outcome, s1)" by fastforce
  have "s' = s1" "\<And>q. holds q s1 \<Longrightarrow> holds q s" "\<And>q. q \<noteq> os_path store key \<Longrightarrow> holds q s1 = holds q s"
    using assms(2) delete_lawD(1,2) [OF law del]
    by (cases outcome; auto simp: delete_object_def del; metis)+
  then show ?thesis
    using assms(2) delete_lawD(3) [OF law del]
    by (cases outcome) (auto simp: delete_object_def del note_failure_def)
qed

lemma delete_block_ok:
  assumes law: "delete_law store holds" and step: "delete_block store d (r, s) = (r', s')"
    and own: "os_path store (bd_object_key d) \<notin> os_path store ` set (bd_sidecars d)"
  shows "\<exists>fs. dr_failures r' = dr_failures r @ fs \<and> (\<forall>f \<in> set fs. bf_object_key f = bd_object_key d)
      \<and> (fs = [] \<longrightarrow> (\<forall>p \<in> deletion_paths store d. \<not> holds p s'))
      \<and> (\<forall>q. holds q s' \<longrightarrow> holds q s) \<and> (\<forall>q. q \<notin> deletion_paths store d \<longrightarrow> holds q s' = holds q s)
      \<and> ((\<exists>sc \<in> set (bd_sidecars d). holds (os_path store sc) s') \<longrightarrow> holds (os_path store (bd_object_key d)) s' = holds (os_path store (bd_object_key d)) s)"
proof -
  let ?key = "bd_object_key d"
  obtain failed r1 s1 where side: "fold (delete_sidecar store ?key) (bd_sidecars d) (False, r, s) = (failed, r1, s1)"
    by (metis prod_cases3)
  from delete_sidecars_ok [OF law side] obtain fs where fs: "dr_failures r1 = dr_failures r @ fs"
      "\<forall>f \<in> set fs. bf_object_key f = ?key" "failed \<longleftrightarrow> fs \<noteq> []"
      "fs = [] \<longrightarrow> (\<forall>sc \<in> set (bd_sidecars d). \<not> holds (os_path store sc) s1)" "\<forall>q. holds q s1 \<longrightarrow> holds q s"
      "\<forall>q. q \<notin> os_path store ` set (bd_sidecars d) \<longrightarrow> holds q s1 = holds q s"
    by auto
  show ?thesis
  proof (cases failed)
    case True
    then have "r' = r1" "s' = s1" using step side by (simp_all add: delete_block_def)
    then show ?thesis using fs True own by (intro exI [of _ fs]) (auto simp: deletion_paths_def)
  next
    case False
    then have "delete_object store ?key (r1, s1) = (r', s')" using step side by (simp add: delete_block_def)
    from delete_object_ok [OF law this] obtain gs where gs: "dr_failures r' = dr_failures r1 @ gs"
        "\<forall>f \<in> set gs. bf_object_key f = ?key" "gs = [] \<longrightarrow> \<not> holds (os_path store ?key) s'"
        "\<And>q. holds q s' \<Longrightarrow> holds q s1" "\<And>q. q \<noteq> os_path store ?key \<Longrightarrow> holds q s' = holds q s1"
      by (elim exE conjE) blast
    have gone: "\<forall>sc \<in> set (bd_sidecars d). \<not> holds (os_path store sc) s'" using fs(3,4) gs(4) False by blast
    show ?thesis
    proof (intro exI [of _ gs] conjI)
      show "\<forall>q. q \<notin> deletion_paths store d \<longrightarrow> holds q s' = holds q s"
        using gs(5) fs(6) by (simp add: deletion_paths_def)
      show "gs = [] \<longrightarrow> (\<forall>p \<in> deletion_paths store d. \<not> holds p s')"
        using gs(3) gone by (simp add: deletion_paths_def)
      show "\<forall>q. holds q s' \<longrightarrow> holds q s" using gs(4) fs(5) by blast
    qed (use gs fs False gone in auto)
  qed
qed

section \<open>A pass\<close>

text \<open>No block object belongs to two deletions, or is a sidecar of one.\<close>

definition owned :: "'s object_store \<Rightarrow> block_deletion list \<Rightarrow> bool" where
  "owned store deletions \<longleftrightarrow> distinct (map (\<lambda>d. os_path store (bd_object_key d)) deletions)
     \<and> (\<forall>d \<in> set deletions. \<forall>d' \<in> set deletions.
          os_path store (bd_object_key d) \<notin> os_path store ` set (bd_sidecars d'))"

lemma owned_Cons:
  "owned store (d # ds) \<Longrightarrow> owned store ds \<and> (\<forall>d' \<in> set ds. os_path store (bd_object_key d) \<notin> deletion_paths store d')
     \<and> (\<forall>d' \<in> set ds. os_path store (bd_object_key d') \<notin> deletion_paths store d)
     \<and> os_path store (bd_object_key d) \<notin> os_path store ` set (bd_sidecars d)"
  by (auto simp: owned_def deletion_paths_def intro: rev_image_eqI)

text \<open>What a pass from one state to another with some failures does for one deletion.\<close>

definition deletion_done ::
  "'s object_store \<Rightarrow> (string \<Rightarrow> 's \<Rightarrow> bool) \<Rightarrow> block_deletion_failure list \<Rightarrow> 's \<Rightarrow> 's \<Rightarrow> block_deletion \<Rightarrow> bool" where
  "deletion_done store holds failures s s' d \<longleftrightarrow>
     ((\<forall>f \<in> set failures. bf_object_key f \<noteq> bd_object_key d) \<longrightarrow> (\<forall>p \<in> deletion_paths store d. \<not> holds p s'))
     \<and> ((\<exists>sc \<in> set (bd_sidecars d). holds (os_path store sc) s')
          \<longrightarrow> holds (os_path store (bd_object_key d)) s' = holds (os_path store (bd_object_key d)) s)"

lemma delete_block_done:
  assumes "delete_law store holds" and "delete_block store d (r, s) = (r', s')"
    and "os_path store (bd_object_key d) \<notin> os_path store ` set (bd_sidecars d)"
  shows "\<exists>fs. dr_failures r' = dr_failures r @ fs \<and> deletion_done store holds fs s s' d
      \<and> (\<forall>q. holds q s' \<longrightarrow> holds q s) \<and> (\<forall>q. q \<notin> deletion_paths store d \<longrightarrow> holds q s' = holds q s)"
proof -
  from delete_block_ok [OF assms] obtain fs where fs: "dr_failures r' = dr_failures r @ fs"
      "\<forall>f \<in> set fs. bf_object_key f = bd_object_key d" "fs = [] \<longrightarrow> (\<forall>p \<in> deletion_paths store d. \<not> holds p s')"
      "\<forall>q. holds q s' \<longrightarrow> holds q s" "\<forall>q. q \<notin> deletion_paths store d \<longrightarrow> holds q s' = holds q s"
      "(\<exists>sc \<in> set (bd_sidecars d). holds (os_path store sc) s') \<longrightarrow> holds (os_path store (bd_object_key d)) s' = holds (os_path store (bd_object_key d)) s"
    by (elim exE conjE) blast
  then have "(\<forall>f \<in> set fs. bf_object_key f \<noteq> bd_object_key d) \<longrightarrow> fs = []" by (cases fs) auto
  then show ?thesis using fs unfolding deletion_done_def by blast
qed

lemma deletion_done_later:
  assumes "deletion_done store holds fs s s1 d" and "\<And>q. holds q s' \<Longrightarrow> holds q s1"
    and "holds (os_path store (bd_object_key d)) s' = holds (os_path store (bd_object_key d)) s1"
  shows "deletion_done store holds (fs @ gs) s s' d"
  using assms unfolding deletion_done_def by (metis Un_iff set_append)

lemma deletion_done_earlier:
  assumes "deletion_done store holds gs s1 s' d"
    and "holds (os_path store (bd_object_key d)) s1 = holds (os_path store (bd_object_key d)) s"
  shows "deletion_done store holds (fs @ gs) s s' d"
  using assms unfolding deletion_done_def by (metis Un_iff set_append)

lemma delete_pass_ok:
  assumes law: "delete_law store holds"
  shows "owned store ds \<Longrightarrow> fold (delete_block store) ds (r, s) = (r', s') \<Longrightarrow>
     \<exists>fs. dr_failures r' = dr_failures r @ fs \<and> (\<forall>q. holds q s' \<longrightarrow> holds q s)
       \<and> (\<forall>q. q \<notin> (\<Union>d \<in> set ds. deletion_paths store d) \<longrightarrow> holds q s' = holds q s)
       \<and> (\<forall>d \<in> set ds. deletion_done store holds fs s s' d)"
proof (induction ds arbitrary: r s)
  case (Cons d ds)
  let ?p = "os_path store (bd_object_key d)"
  have own: "owned store ds" "\<forall>d' \<in> set ds. ?p \<notin> deletion_paths store d'" "?p \<notin> os_path store ` set (bd_sidecars d)"
    and others: "\<forall>d' \<in> set ds. os_path store (bd_object_key d') \<notin> deletion_paths store d"
    using owned_Cons [OF Cons.prems(1)] by blast+
  obtain r1 s1 where step: "delete_block store d (r, s) = (r1, s1)" by fastforce
  obtain fs where head: "dr_failures r1 = dr_failures r @ fs" "deletion_done store holds fs s s1 d"
      "\<And>q. holds q s1 \<Longrightarrow> holds q s" "\<And>q. q \<notin> deletion_paths store d \<Longrightarrow> holds q s1 = holds q s"
    using delete_block_done [OF law step own(3)] by (elim exE conjE) blast
  obtain gs where rest: "dr_failures r' = dr_failures r1 @ gs" "\<And>q. holds q s' \<Longrightarrow> holds q s1"
      "\<And>q. q \<notin> (\<Union>d \<in> set ds. deletion_paths store d) \<Longrightarrow> holds q s' = holds q s1"
      "\<forall>d \<in> set ds. deletion_done store holds gs s1 s' d"
    using Cons.IH [OF own(1), of r1 s1] Cons.prems(2) step by (simp, elim exE conjE) blast
  have "deletion_done store holds (fs @ gs) s s' d"
    using deletion_done_later [OF head(2) rest(2)] rest(3) own(2) by blast
  moreover have "\<forall>d' \<in> set ds. deletion_done store holds (fs @ gs) s s' d'"
  proof
    fix d' assume d': "d' \<in> set ds"
    then have "holds (os_path store (bd_object_key d')) s1 = holds (os_path store (bd_object_key d')) s"
      using others head(4) by simp
    with rest(4) d' show "deletion_done store holds (fs @ gs) s s' d'" by (metis deletion_done_earlier)
  qed
  moreover have "\<forall>q. holds q s' \<longrightarrow> holds q s" using rest(2) head(3) by blast
  moreover have "\<forall>q. q \<notin> (\<Union>d \<in> set (d # ds). deletion_paths store d) \<longrightarrow> holds q s' = holds q s"
    using rest(3) head(4) by simp
  moreover have "dr_failures r' = dr_failures r @ fs @ gs" using rest(1) head(1) by simp
  ultimately show ?case by (intro exI [of _ "fs @ gs"]) simp
qed simp

section \<open>Retention\<close>

definition expired_now ::
  "'t time_units \<Rightarrow> i64 \<Rightarrow> block_timestamp_unit \<Rightarrow> (string \<Rightarrow> 't) \<Rightarrow> compaction_candidate \<Rightarrow> bool" where
  "expired_now tu now_ts unit windows c \<longleftrightarrow>
     0 < unit_ticks tu unit (windows (cc_tenant c))
     \<and> cc_max_ts c < now_ts - unit_ticks tu unit (windows (cc_tenant c))"

lemma cutoff_expired:
  assumes "is_i64 now_ts" and "is_i64 (cc_max_ts c)"
  shows "(case retention_cutoff now_ts (unit_ticks tu unit (windows (cc_tenant c))) of
            Some at \<Rightarrow> cc_max_ts c < at | None \<Rightarrow> False) = expired_now tu now_ts unit windows c"
  using assms
  by (auto simp: retention_cutoff_def saturating_sub_def sat_i64_def is_i64_def expired_now_def)

lemma expired_fold:
  assumes "\<forall>t cut. bt_get cutoffs t = Some cut \<longrightarrow> cut = retention_cutoff now_ts (unit_ticks tu unit (windows t))"
    and "is_i64 now_ts" and "\<forall>c \<in> set cs. is_i64 (cc_max_ts c)"
  shows "snd (fold (expired_filter tu now_ts unit windows) cs (cutoffs, kept))
    = kept @ filter (expired_now tu now_ts unit windows) cs"
  using assms(1,3)
proof (induction cs arbitrary: cutoffs kept)
  case (Cons c cs)
  let ?cut = "retention_cutoff now_ts (unit_ticks tu unit (windows (cc_tenant c)))"
  have "(case bt_get cutoffs (cc_tenant c) of Some cutoff \<Rightarrow> cutoff | None \<Rightarrow> ?cut) = ?cut"
    using Cons.prems(1) by (simp split: option.split)
  then have "expired_filter tu now_ts unit windows c (cutoffs, kept)
      = (bt_insert (cc_tenant c) ?cut cutoffs, if expired_now tu now_ts unit windows c then kept @ [c] else kept)"
    using cutoff_expired [OF assms(2), of c tu unit windows] Cons.prems(2)
    by (cases ?cut) (simp_all add: expired_filter_def Let_def)
  then show ?case using Cons by simp
qed simp

section \<open>Orphans\<close>

text \<open>What the listing says may go: not live, and old enough to judge.\<close>

definition sweepable :: "string btree_set \<Rightarrow> i64 option \<Rightarrow> object_meta \<Rightarrow> bool" where
  "sweepable live_keys cutoff meta \<longleftrightarrow>
     om_location meta \<notin> set live_keys \<and> (\<exists>at. cutoff = Some at \<and> om_timestamp meta \<le> at)"

lemma judge_listing_ok:
  "judge_listing live_keys cutoff listing stats stale = Inr (stats', stale') \<Longrightarrow>
     \<exists>metas. listing = map Inr metas
       \<and> stale' = stale @ map om_location (filter (sweepable live_keys cutoff) metas)
       \<and> ss_listed stats' = ss_listed stats + length metas"
proof (induction live_keys cutoff listing stats stale rule: judge_listing.induct)
  case (3 live_keys cutoff meta listing stats stale)
  obtain metas where "listing = map Inr metas"
      "stale' = stale @ map om_location (filter (sweepable live_keys cutoff) (meta # metas))"
      "ss_listed stats' = Suc (ss_listed stats + length metas)"
    using 3 by (fastforce simp: Let_def sweepable_def split: if_splits option.splits)
  then show ?case by (intro exI [of _ "meta # metas"]) simp
qed auto

section \<open>Properties\<close>

text \<open>
  C18. A deletion pass over blocks that share no object touches no object it was not given; a block
  without a reported failure is gone with all its sidecars; and where a sidecar is left, so is the
  block it belongs to, so no sidecar outlives its block.
\<close>

theorem delete_blocks_sound:
  assumes "delete_law store holds" and "owned store deletions" and "delete_blocks store deletions s = (r, s')"
  shows "(\<forall>q. q \<notin> (\<Union>d \<in> set deletions. deletion_paths store d) \<longrightarrow> holds q s' = holds q s)
    \<and> (\<forall>d \<in> set deletions. deletion_done store holds (dr_failures r) s s' d)"
  using delete_pass_ok [OF assms(1,2), of empty_report s r s'] assms(3)
  by (fastforce simp: delete_blocks_def empty_report_def)

text \<open>A store of three objects, one of which cannot be deleted.\<close>

definition toy_store :: "string list object_store" where
  "toy_store = \<lparr>os_path = (\<lambda>p. p),
     os_delete = (\<lambda>p s. if p = ''stuck'' then (Delete_error ''denied'', s)
                        else if p \<in> set s then (Deleted, removeAll p s) else (Not_found, s)),
     os_list = (\<lambda>prefix s. map (\<lambda>p. Inr \<lparr>om_location = p, om_timestamp = 0, om_size = 0, om_version = []\<rparr>) s),
     os_delete_stream = (\<lambda>ps s. (map (\<lambda>p. Deleted) ps, filter (\<lambda>p. p \<notin> set ps) s))\<rparr>"

lemma toy_delete_law: "delete_law toy_store (\<lambda>p s. p \<in> set s)"
  by (simp add: delete_law_def toy_store_def Let_def)

lemma toy_stream_law: "stream_law toy_store (\<lambda>p s. p \<in> set s)"
  by (simp add: stream_law_def toy_store_def)

theorem delete_blocks_sound_witness:
  "delete_blocks toy_store [\<lparr>bd_object_key = ''a'', bd_sidecars = [''stuck'']\<rparr>, \<lparr>bd_object_key = ''b'', bd_sidecars = []\<rparr>]
       [''a'', ''stuck'', ''b'']
     = (\<lparr>dr_blocks_deleted = 1, dr_sidecars_deleted = 0, dr_objects_absent = 0,
         dr_failures = [\<lparr>bf_object_key = ''a'', bf_failed_key = ''stuck'', bf_error = ''denied''\<rparr>]\<rparr>, [''a'', ''stuck''])
   \<and> deletion_done toy_store (\<lambda>p s. p \<in> set s)
       [\<lparr>bf_object_key = ''a'', bf_failed_key = ''stuck'', bf_error = ''denied''\<rparr>]
       [''a'', ''stuck'', ''b''] [''a'', ''stuck''] \<lparr>bd_object_key = ''a'', bd_sidecars = [''stuck'']\<rparr>"
proof -
  let ?ds = "[\<lparr>bd_object_key = ''a'', bd_sidecars = [''stuck'']\<rparr>, \<lparr>bd_object_key = ''b'', bd_sidecars = []\<rparr>]"
  have run: "delete_blocks toy_store ?ds [''a'', ''stuck'', ''b'']
     = (\<lparr>dr_blocks_deleted = 1, dr_sidecars_deleted = 0, dr_objects_absent = 0,
         dr_failures = [\<lparr>bf_object_key = ''a'', bf_failed_key = ''stuck'', bf_error = ''denied''\<rparr>]\<rparr>, [''a'', ''stuck''])"
    by (simp add: delete_blocks_def delete_block_def delete_sidecar_def delete_object_def note_failure_def
        empty_report_def toy_store_def)
  have "owned toy_store ?ds" by (simp add: owned_def toy_store_def)
  from delete_blocks_sound [OF toy_delete_law this run] run show ?thesis by simp
qed

text \<open>
  C19. The retention plan names exactly the blocks whose last timestamp is older than their tenant's
  window, none of a tenant whose window is zero or negative, in order of tenant and object key.
\<close>

theorem plan_expired_exact:
  assumes "is_i64 now_ts" and "\<forall>c \<in> set candidates. is_i64 (cc_max_ts c)"
  shows "mset (plan_expired_blocks tu candidates now_ts unit windows)
      = mset (map expired_of (filter (expired_now tu now_ts unit windows) candidates))
    \<and> sorted (map expired_key (plan_expired_blocks tu candidates now_ts unit windows))"
  using expired_fold [of "[]" now_ts tu unit windows candidates "[]"] assms
  by (simp add: plan_expired_blocks_def del: sorted_map)

theorem plan_expired_exact_witness:
  "mset (plan_expired_blocks \<lparr>tu_millis_i64 = (\<lambda>t. t), tu_nanos_i64 = (\<lambda>t. t * 1000000)\<rparr>
      [\<lparr>cc_tenant = ''t'', cc_object_key = ''old'', cc_min_ts = 0, cc_max_ts = 10, cc_row_count = 1, cc_level = 0\<rparr>]
      100 Millis (\<lambda>tenant. 50))
    = {#\<lparr>eb_tenant = ''t'', eb_object_key = ''old''\<rparr>#}"
proof -
  define tu where "tu = \<lparr>tu_millis_i64 = (\<lambda>t :: int. t), tu_nanos_i64 = (\<lambda>t. t * 1000000)\<rparr>"
  define c where "c = \<lparr>cc_tenant = ''t'', cc_object_key = ''old'', cc_min_ts = 0, cc_max_ts = 10, cc_row_count = 1, cc_level = 0\<rparr>"
  have "expired_now tu 100 Millis (\<lambda>tenant. 50) c"
    by (simp add: expired_now_def tu_def c_def unit_ticks_def)
  then show ?thesis
    using plan_expired_exact [of 100 "[c]" tu Millis "\<lambda>tenant. 50"]
    by (simp add: is_i64_def c_def expired_of_def tu_def)
qed



end
