(* ===== verification/Snapshot.thy ===== *)
theory Snapshot
  imports Lifecycle Shard_Layout
begin

text \<open>
  The manifest a snapshot generation publishes and the names of the objects behind it:
  \<open>index_snapshot.rs\<close>, \<open>index_snapshot/snapshot_manifest.rs\<close>, \<open>index_snapshot/manifest_shard.rs\<close> and
  \<open>index_snapshot/index_snapshot_retain.rs\<close>.  A generation is a \<open>u64\<close>, here a natural number with the
  saturation written out.
\<close>

section \<open>Order on ranges\<close>

text \<open>The derived order of \<open>IndexShardRange\<close>: by start, then by end.\<close>

instantiation index_shard_range_ext :: (linorder) linorder
begin

definition less_eq_index_shard_range_ext ::
  "'a index_shard_range_scheme \<Rightarrow> 'a index_shard_range_scheme \<Rightarrow> bool" where
  "less_eq_index_shard_range_ext a b \<longleftrightarrow>
     (ir_start a, ir_end a, index_shard_range.more a) \<le> (ir_start b, ir_end b, index_shard_range.more b)"

definition less_index_shard_range_ext ::
  "'a index_shard_range_scheme \<Rightarrow> 'a index_shard_range_scheme \<Rightarrow> bool" where
  "less_index_shard_range_ext a b \<longleftrightarrow>
     (ir_start a, ir_end a, index_shard_range.more a) < (ir_start b, ir_end b, index_shard_range.more b)"

instance
proof
  fix a b c :: "'a index_shard_range_scheme"
  show "a < b \<longleftrightarrow> a \<le> b \<and> \<not> b \<le> a"
    by (simp only: less_eq_index_shard_range_ext_def less_index_shard_range_ext_def less_le_not_le)
  show "a \<le> a" by (simp add: less_eq_index_shard_range_ext_def)
  show "a \<le> b \<or> b \<le> a" by (simp only: less_eq_index_shard_range_ext_def linear)
  show "a \<le> c" if "a \<le> b" "b \<le> c"
    using that unfolding less_eq_index_shard_range_ext_def by (rule order_trans)
  show "a = b" if "a \<le> b" "b \<le> a"
    using that unfolding less_eq_index_shard_range_ext_def
    by (metis order_antisym prod.inject index_shard_range.equality)
qed

end

section \<open>The grid\<close>

definition max_shard_slots_per_record :: i64 where
  "max_shard_slots_per_record = 32"

definition unbounded_shard_range :: index_shard_range where
  "unbounded_shard_range = \<lparr>ir_start = i64_min, ir_end = i64_max\<rparr>"

definition shard_range_of_slot :: "i64 \<Rightarrow> i64 \<Rightarrow> index_shard_range" where
  "shard_range_of_slot slot width =
     (let r = shard_range slot width in \<lparr>ir_start = str_start r, ir_end = str_end r\<rparr>)"

definition shard_ranges_for_span :: "i64 \<Rightarrow> i64 \<Rightarrow> i64 \<Rightarrow> index_shard_range list" where
  "shard_ranges_for_span min_ts max_ts width =
     (let width = max width 1;
          (min_ts, max_ts) = (if min_ts > max_ts then (max_ts, min_ts) else (min_ts, max_ts));
          slots = bounded_shard_slots (min_ts div width) (max_ts div width) max_shard_slots_per_record
      in if slots = [] then [unbounded_shard_range]
         else map (\<lambda>slot. shard_range_of_slot slot width) slots)"

section \<open>Object names\<close>

definition sibling_prefix :: "string \<Rightarrow> string \<Rightarrow> string" where
  "sibling_prefix name key =
     (let key = trim_matches (CHR ''/'') key
      in case str_strip_suffix ''.json'' key of
           Some stem \<Rightarrow> stem @ ''/'' @ name
         | None \<Rightarrow> key @ ''.'' @ name)"

definition index_snapshot_prefix_for_key :: "string \<Rightarrow> string" where
  "index_snapshot_prefix_for_key key = sibling_prefix ''snapshots'' key"

definition shard_payload_prefix_for_key :: "string \<Rightarrow> string" where
  "shard_payload_prefix_for_key key = sibling_prefix ''payloads'' key"

definition shard_payload_object_key :: "string \<Rightarrow> string \<Rightarrow> index_shard_range \<Rightarrow> string \<Rightarrow> string" where
  "shard_payload_object_key key tenant span content =
     shard_payload_prefix_for_key key @ ''/tenant='' @ escape_object_path_segment tenant
       @ ''/time='' @ shard_bound_key (ir_start span) @ ''-'' @ shard_bound_key (ir_end span)
       @ ''/'' @ content @ ''.kbs''"

definition snapshot_key_for_generation :: "string \<Rightarrow> nat \<Rightarrow> string" where
  "snapshot_key_for_generation key generation =
     index_snapshot_prefix_for_key key @ ''/'' @ padded_decimal 20 generation @ ''.json''"

text \<open>The last segment of a path, and what \<open>std::path::Path::extension\<close> gives for it.\<close>

definition path_filename :: "string \<Rightarrow> string" where
  "path_filename path = rev (takeWhile (\<lambda>c. c \<noteq> CHR ''/'') (rev path))"

definition path_extension :: "string \<Rightarrow> string option" where
  "path_extension path =
     (let file = path_filename path;
          ext = rev (takeWhile (\<lambda>c. c \<noteq> CHR ''.'') (rev file));
          stem = take (length file - length ext - 1) file
      in if CHR ''.'' \<notin> set file \<or> stem = [] then None else Some ext)"

definition ascii_lower :: "char \<Rightarrow> char" where
  "ascii_lower c = (if of_char c \<in> {65..90::nat} then char_of (of_char c + 32 :: nat) else c)"

definition has_extension :: "string \<Rightarrow> string \<Rightarrow> bool" where
  "has_extension ext path \<longleftrightarrow>
     (case path_extension path of None \<Rightarrow> False | Some e \<Rightarrow> map ascii_lower e = map ascii_lower ext)"

definition snapshot_generation_from_path :: "string \<Rightarrow> nat option" where
  "snapshot_generation_from_path path = str_strip_suffix ''.json'' (path_filename path) \<bind> parse_usize"

definition is_shard_payload_location :: "string \<Rightarrow> string \<Rightarrow> bool" where
  "is_shard_payload_location key location =
     (case str_strip_prefix (shard_payload_prefix_for_key key) location of
        None \<Rightarrow> False
      | Some rest \<Rightarrow>
          (case split_all (CHR ''/'') (trim_start_matches (CHR ''/'') rest) of
             [tenant, span, file] \<Rightarrow>
               if (case str_strip_prefix ''tenant='' tenant of
                     None \<Rightarrow> True | Some t \<Rightarrow> unescape_object_path_segment t = None)
                  \<or> \<not> has_extension ''kbs'' file
               then False
               else parse_span span \<noteq> Foreign_object
           | _ \<Rightarrow> False))"

section \<open>The manifest\<close>

record manifest_shard =
  ms_start :: i64
  ms_end :: i64
  ms_content :: string

definition ms_range :: "manifest_shard \<Rightarrow> index_shard_range" where
  "ms_range shard = \<lparr>ir_start = ms_start shard, ir_end = ms_end shard\<rparr>"

record snapshot_manifest =
  sm_version :: nat
  sm_tenants :: "(string, manifest_shard list) btree_map"

definition snapshot_manifest_version :: nat where
  "snapshot_manifest_version = 1"

definition manifest_new :: snapshot_manifest where
  "manifest_new = \<lparr>sm_version = snapshot_manifest_version, sm_tenants = []\<rparr>"

text \<open>The derived \<open>Default\<close>, which a first save merges into.\<close>

definition manifest_default :: snapshot_manifest where
  "manifest_default = \<lparr>sm_version = 0, sm_tenants = []\<rparr>"

definition manifest_insert :: "string \<Rightarrow> index_shard_range \<Rightarrow> string \<Rightarrow> snapshot_manifest \<Rightarrow> snapshot_manifest" where
  "manifest_insert tenant span content m =
     m\<lparr>sm_tenants := bt_update tenant []
         (\<lambda>shards. shards @ [\<lparr>ms_start = ir_start span, ms_end = ir_end span, ms_content = content\<rparr>])
         (sm_tenants m)\<rparr>"

definition manifest_sort :: "snapshot_manifest \<Rightarrow> snapshot_manifest" where
  "manifest_sort m =
     m\<lparr>sm_tenants := filter (\<lambda>(tenant, shards). shards \<noteq> [])
         (map (\<lambda>(tenant, shards). (tenant, sort_key (\<lambda>sh. (ms_start sh, ms_end sh, ms_content sh)) shards))
           (sm_tenants m))\<rparr>"

definition shards_of :: "snapshot_manifest \<Rightarrow> string \<Rightarrow> manifest_shard list" where
  "shards_of m tenant = (case bt_get (sm_tenants m) tenant of None \<Rightarrow> [] | Some shards \<Rightarrow> shards)"

definition manifest_tenants :: "snapshot_manifest \<Rightarrow> string list" where
  "manifest_tenants m = bt_keys (sm_tenants m)"

definition payload_object_keys :: "string \<Rightarrow> snapshot_manifest \<Rightarrow> string btree_set" where
  "payload_object_keys key m =
     bs_collect (concat (map (\<lambda>tenant. map (\<lambda>sh. shard_payload_object_key key tenant (ms_range sh) (ms_content sh))
       (shards_of m tenant)) (manifest_tenants m)))"

section \<open>Retention of generations\<close>

definition retain_new :: "nat \<Rightarrow> nat option" where
  "retain_new v = (if v > 0 then Some v else None)"

definition default_index_snapshot_retain :: nat where
  "default_index_snapshot_retain = 8"

definition default_index_snapshot_max :: nat where
  "default_index_snapshot_max = 256 * 1024 * 1024"

end
