(* ===== verification/Snapshot_Store.thy ===== *)
theory Snapshot_Store
  imports Snapshot
begin

text \<open>
  Reading and publishing snapshot generations: the asynchronous functions of \<open>index_snapshot.rs\<close>, the
  capped reads of \<open>index/read_index_shard.rs\<close>, and \<open>index_snapshot/sweep_orphan_shard_payloads.rs\<close>.

  What is not in the repository is a parameter, collected in the record \<open>object_client\<close>: the object
  store with its conditional writes, the capped read of \<open>krabka_object_store\<close>, the JSON of a manifest,
  the content hash, the clock, and whether the publication timeout cuts an attempt short.  An operation
  that may change the store is a function from a state to a result and a state; an error leaves the
  state that was reached.
\<close>

section \<open>Effects\<close>

type_synonym ('s, 'e, 'a) io = "'s \<Rightarrow> ('e + 'a) \<times> 's"

definition io_ok :: "'a \<Rightarrow> ('s, 'e, 'a) io" where
  "io_ok x s = (Inr x, s)"

definition io_bind :: "('s, 'e, 'a) io \<Rightarrow> ('a \<Rightarrow> ('s, 'e, 'b) io) \<Rightarrow> ('s, 'e, 'b) io" where
  "io_bind m f s = (case m s of (Inl e, s') \<Rightarrow> (Inl e, s') | (Inr x, s') \<Rightarrow> f x s')"

definition io_read :: "('s \<Rightarrow> 'e + 'a) \<Rightarrow> ('s, 'e, 'a) io" where
  "io_read f s = (f s, s)"

fun io_fold :: "('x \<Rightarrow> 'b \<Rightarrow> ('s, 'e, 'b) io) \<Rightarrow> 'x list \<Rightarrow> 'b \<Rightarrow> ('s, 'e, 'b) io" where
  "io_fold f [] acc s = (Inr acc, s)"
| "io_fold f (x # xs) acc s = io_bind (f x acc) (io_fold f xs) s"

section \<open>The client\<close>

datatype store_error = Store_not_found | Store_already_exists | Store_precondition | Store_failed string

datatype capped_error =
    Capped_too_large nat nat
  | Capped_not_found
  | Capped_backend string
  | Capped_invalid_config string
  | Capped_io string
  | Capped_already_exists
  | Capped_precondition

datatype interruption = In_time | Cut_before_put | Cut_after_put

record 's object_client = "'s object_store" +
  oc_read :: "string \<Rightarrow> nat \<Rightarrow> 's \<Rightarrow> capped_error + byte list"
  oc_head :: "string \<Rightarrow> 's \<Rightarrow> store_error + object_meta"
  oc_put :: "string \<Rightarrow> byte list \<Rightarrow> ('s, store_error, unit) io"
  oc_create :: "string \<Rightarrow> byte list \<Rightarrow> ('s, store_error, unit) io"
  oc_update :: "string \<Rightarrow> byte list \<Rightarrow> string \<Rightarrow> ('s, store_error, unit) io"
  oc_to_json :: "snapshot_manifest \<Rightarrow> string + byte list"
  oc_from_json :: "byte list \<Rightarrow> string + snapshot_manifest"
  oc_xxh3_128 :: "byte list \<Rightarrow> nat"
  oc_now :: int
  oc_timeout :: "nat \<Rightarrow> interruption"

datatype snapshot_error =
    Oversized string string nat nat
  | Capped_message capped_error
  | Store_message store_error
  | Backend_message string
  | Listing_error string
  | Not_a_generation string
  | Manifest_json string
  | Manifest_version string nat
  | Bad_shard "string \<times> shard_error"
  | Input_changed string
  | Publication_timeout string
  | Lost_writes string
  | Nothing_published string
  | Panicked

section \<open>Capped reads\<close>

definition oversized_object_error :: "string \<Rightarrow> string \<Rightarrow> capped_error \<Rightarrow> snapshot_error option" where
  "oversized_object_error label name e =
     (case e of Capped_too_large n cap \<Rightarrow> Some (Oversized label name n cap) | _ \<Rightarrow> None)"

definition capped_read_error :: "('s, 'z) object_client_scheme \<Rightarrow> string \<Rightarrow> capped_error \<Rightarrow> 's \<Rightarrow> snapshot_error" where
  "capped_read_error client path e s =
     (case e of
        Capped_backend message \<Rightarrow> Backend_message message
      | Capped_invalid_config message \<Rightarrow> Backend_message message
      | Capped_io message \<Rightarrow> Backend_message message
      | Capped_not_found \<Rightarrow>
          (case oc_head client path s of
             Inr _ \<Rightarrow> Capped_message Capped_not_found
           | Inl missing \<Rightarrow> Store_message missing)
      | other \<Rightarrow> Capped_message other)"

definition read_capped_as ::
  "('s, 'z) object_client_scheme \<Rightarrow> string \<Rightarrow> string \<Rightarrow> string \<Rightarrow> nat \<Rightarrow> 's \<Rightarrow> snapshot_error + byte list" where
  "read_capped_as client label name path max_bytes s =
     (case oc_read client path max_bytes s of
        Inr bytes \<Rightarrow> Inr bytes
      | Inl e \<Rightarrow>
          Inl (case oversized_object_error label name e of
                 Some oversized \<Rightarrow> oversized
               | None \<Rightarrow> capped_read_error client path e s))"

definition read_index_shard ::
  "('s, 'z) object_client_scheme \<Rightarrow> string \<Rightarrow> nat \<Rightarrow> 's \<Rightarrow> snapshot_error + byte list" where
  "read_index_shard client path max_bytes s = read_capped_as client ''index shard'' path path max_bytes s"

definition read_shard_payload ::
  "('s, 'z) object_client_scheme \<Rightarrow> string \<Rightarrow> nat \<Rightarrow> 's \<Rightarrow> snapshot_error + byte list" where
  "read_shard_payload client object_key max_bytes s =
     read_capped_as client ''index shard payload'' object_key (os_path client object_key) max_bytes s"

datatype index_snapshot_bytes = Present "byte list" | Absent snapshot_error

definition read_index_snapshot_bytes ::
  "('s, 'z) object_client_scheme \<Rightarrow> string \<Rightarrow> nat \<Rightarrow> string \<Rightarrow> 's \<Rightarrow> snapshot_error + index_snapshot_bytes" where
  "read_index_snapshot_bytes client path max_bytes label s =
     (case oc_read client path max_bytes s of
        Inr bytes \<Rightarrow> Inr (Present bytes)
      | Inl e \<Rightarrow>
          (case oversized_object_error label path e of
             Some oversized \<Rightarrow> Inl oversized
           | None \<Rightarrow>
               if e = Capped_not_found then
                 (case oc_head client path s of
                    Inr _ \<Rightarrow> Inl (Capped_message e)
                  | Inl Store_not_found \<Rightarrow> Inr (Absent (Store_message Store_not_found))
                  | Inl other \<Rightarrow> Inl (Store_message other))
               else Inl (capped_read_error client path e s)))"

section \<open>Manifests in the store\<close>

definition manifest_from_bytes ::
  "('s, 'z) object_client_scheme \<Rightarrow> string \<Rightarrow> byte list \<Rightarrow> snapshot_error + snapshot_manifest" where
  "manifest_from_bytes client label bytes =
     (case oc_from_json client bytes of
        Inl e \<Rightarrow> Inl (Manifest_json e)
      | Inr m \<Rightarrow>
          if sm_version m \<noteq> snapshot_manifest_version then Inl (Manifest_version label (sm_version m)) else Inr m)"

definition manifest_to_bytes ::
  "('s, 'z) object_client_scheme \<Rightarrow> snapshot_manifest \<Rightarrow> snapshot_error + byte list" where
  "manifest_to_bytes client m = map_sum Manifest_json (\<lambda>bytes. bytes) (oc_to_json client m)"

text \<open>A listing is read to its end unless an item is an error.\<close>

fun collect_listing ::
  "(object_meta \<Rightarrow> bool) \<Rightarrow> (string + object_meta) list \<Rightarrow> snapshot_error + object_meta list" where
  "collect_listing keep [] = Inr []"
| "collect_listing keep (Inl e # listing) = Inl (Listing_error e)"
| "collect_listing keep (Inr meta # listing) =
     res_bind (collect_listing keep listing) (\<lambda>metas. Inr (if keep meta then meta # metas else metas))"

definition list_index_snapshot_objects ::
  "('s, 'z) object_client_scheme \<Rightarrow> string \<Rightarrow> 's \<Rightarrow> snapshot_error + object_meta list" where
  "list_index_snapshot_objects client key s =
     res_bind (collect_listing (\<lambda>meta. has_extension ''json'' (om_location meta))
        (os_list client (os_path client (index_snapshot_prefix_for_key key)) s))
       (\<lambda>objects. Inr (sort_key om_location objects))"

definition pop_back :: "'a list \<Rightarrow> 'a option" where
  "pop_back xs = (if xs = [] then None else Some (List.last xs))"

definition latest_index_snapshot_path ::
  "('s, 'z) object_client_scheme \<Rightarrow> string \<Rightarrow> 's \<Rightarrow> snapshot_error + string option" where
  "latest_index_snapshot_path client key s =
     res_bind (list_index_snapshot_objects client key s) (\<lambda>objects. Inr (map_option om_location (pop_back objects)))"

definition read_latest_snapshot_manifest ::
  "('s, 'z) object_client_scheme \<Rightarrow> string \<Rightarrow> nat \<Rightarrow> string \<Rightarrow> 's \<Rightarrow> snapshot_error + snapshot_manifest option" where
  "read_latest_snapshot_manifest client key max_bytes label s =
     res_bind (latest_index_snapshot_path client key s) (\<lambda>latest.
       case latest of
         None \<Rightarrow> Inr None
       | Some path \<Rightarrow>
           res_bind (read_index_snapshot_bytes client path max_bytes label s) (\<lambda>outcome.
             case outcome of
               Present bytes \<Rightarrow> map_sum (\<lambda>e. e) Some (manifest_from_bytes client label bytes)
             | Absent missing \<Rightarrow> Inl missing))"

record manifest_snapshot_base =
  mb_manifest :: "snapshot_manifest option"
  mb_next_generation :: nat

text \<open>The two awaits of \<open>read_manifest_snapshot_base\<close>: the listing, and the read of what it named.\<close>

definition newest_snapshot ::
  "('s, 'z) object_client_scheme \<Rightarrow> string \<Rightarrow> 's \<Rightarrow> snapshot_error + (string \<times> nat) option" where
  "newest_snapshot client key s =
     res_bind (list_index_snapshot_objects client key s) (\<lambda>objects.
       case pop_back objects of
         None \<Rightarrow> Inr None
       | Some meta \<Rightarrow>
           (case snapshot_generation_from_path (om_location meta) of
              None \<Rightarrow> Inl (Not_a_generation (om_location meta))
            | Some generation \<Rightarrow> Inr (Some (om_location meta, generation))))"

definition read_base_manifest ::
  "('s, 'z) object_client_scheme \<Rightarrow> nat \<Rightarrow> string \<Rightarrow> (string \<times> nat) option \<Rightarrow> 's
     \<Rightarrow> snapshot_error + manifest_snapshot_base option" where
  "read_base_manifest client max_bytes label newest s =
     (case newest of
        None \<Rightarrow> Inr (Some \<lparr>mb_manifest = None, mb_next_generation = 0\<rparr>)
      | Some (path, generation) \<Rightarrow>
          res_bind (read_index_snapshot_bytes client path max_bytes label s) (\<lambda>outcome.
            case outcome of
              Absent _ \<Rightarrow> Inr None
            | Present bytes \<Rightarrow>
                res_bind (manifest_from_bytes client label bytes) (\<lambda>m.
                  Inr (Some \<lparr>mb_manifest = Some m, mb_next_generation = usize_saturating_add generation 1\<rparr>))))"

definition read_manifest_snapshot_base ::
  "('s, 'z) object_client_scheme \<Rightarrow> string \<Rightarrow> nat \<Rightarrow> string \<Rightarrow> 's \<Rightarrow> snapshot_error + manifest_snapshot_base option" where
  "read_manifest_snapshot_base client key max_bytes label s =
     res_bind (newest_snapshot client key s) (\<lambda>newest. read_base_manifest client max_bytes label newest s)"

section \<open>Pruning old generations\<close>

definition store_io :: "('s, store_error, 'a) io \<Rightarrow> ('s, snapshot_error, 'a) io" where
  "store_io m s = (case m s of (r, s') \<Rightarrow> (map_sum Store_message (\<lambda>x. x) r, s'))"

definition delete_snapshot :: "('s, 'z) object_client_scheme \<Rightarrow> string \<Rightarrow> ('s, snapshot_error, unit) io" where
  "delete_snapshot client path s =
     (case os_delete client path s of
        (Deleted, s') \<Rightarrow> (Inr (), s')
      | (Not_found, s') \<Rightarrow> (Inr (), s')
      | (Delete_error e, s') \<Rightarrow> (Inl (Backend_message e), s'))"

definition stale_snapshots ::
  "('s, 'z) object_client_scheme \<Rightarrow> string \<Rightarrow> nat \<Rightarrow> 's \<Rightarrow> snapshot_error + string list" where
  "stale_snapshots client key retain s =
     res_bind (list_index_snapshot_objects client key s) (\<lambda>objects.
       Inr (map om_location (take (length objects - retain) objects)))"

definition prune_old_index_snapshots ::
  "('s, 'z) object_client_scheme \<Rightarrow> string \<Rightarrow> nat \<Rightarrow> ('s, snapshot_error, unit) io" where
  "prune_old_index_snapshots client key retain =
     io_bind (io_read (stale_snapshots client key retain)) (\<lambda>stale.
       io_fold (\<lambda>path _. delete_snapshot client path) stale ())"

section \<open>Payloads\<close>

text \<open>\<open>{:032x}\<close> of a 128-bit number.\<close>

fun padded_hex :: "nat \<Rightarrow> nat \<Rightarrow> string" where
  "padded_hex 0 n = []"
| "padded_hex (Suc w) n =
     padded_hex w (n div 16) @ [char_of (if n mod 16 < 10 then 48 + n mod 16 else 87 + n mod 16)]"

definition shard_payload_content_hash :: "('s, 'z) object_client_scheme \<Rightarrow> byte list \<Rightarrow> string" where
  "shard_payload_content_hash client bytes = padded_hex 32 (oc_xxh3_128 client bytes)"

definition put_shard_payload ::
  "('s, 'z) object_client_scheme \<Rightarrow> string \<Rightarrow> string \<Rightarrow> index_shard_range \<Rightarrow> string \<Rightarrow> byte list
     \<Rightarrow> ('s, snapshot_error, unit) io" where
  "put_shard_payload client key tenant span content bytes =
     store_io (oc_put client (os_path client (shard_payload_object_key key tenant span content)) bytes)"

section \<open>Sweeping payloads nothing names\<close>

definition reclaim_if_unchanged ::
  "('s, 'z) object_client_scheme \<Rightarrow> object_meta \<Rightarrow> ('s, snapshot_error, bool) io" where
  "reclaim_if_unchanged client meta s =
     (case oc_update client (om_location meta) [] (om_version meta) s of
        (Inr _, s') \<Rightarrow> (Inr True, s')
      | (Inl Store_precondition, s') \<Rightarrow> (Inr False, s')
      | (Inl Store_not_found, s') \<Rightarrow> (Inr False, s')
      | (Inl e, s') \<Rightarrow> (Inl (Store_message e), s'))"

fun referenced_payloads ::
  "('s, 'z) object_client_scheme \<Rightarrow> string \<Rightarrow> nat \<Rightarrow> string \<Rightarrow> 's \<Rightarrow> object_meta list \<Rightarrow> string btree_set
     \<Rightarrow> snapshot_error + string btree_set" where
  "referenced_payloads client key max_bytes label s [] referenced = Inr referenced"
| "referenced_payloads client key max_bytes label s (meta # listed) referenced =
     res_bind (read_index_snapshot_bytes client (om_location meta) max_bytes label s) (\<lambda>outcome.
       case outcome of
         Absent _ \<Rightarrow> referenced_payloads client key max_bytes label s listed referenced
       | Present bytes \<Rightarrow>
           res_bind (manifest_from_bytes client label bytes) (\<lambda>m.
             referenced_payloads client key max_bytes label s listed
               (bs_extend (payload_object_keys key m) referenced)))"

definition stale_payload :: "string \<Rightarrow> string btree_set \<Rightarrow> i64 option \<Rightarrow> object_meta \<Rightarrow> bool" where
  "stale_payload key referenced cutoff meta \<longleftrightarrow>
     is_shard_payload_location key (om_location meta) \<and> om_location meta \<notin> set referenced
     \<and> om_size meta > 0 \<and> (case cutoff of None \<Rightarrow> False | Some at \<Rightarrow> om_timestamp meta \<le> at)"

definition stale_payloads ::
  "('s, 'z) object_client_scheme \<Rightarrow> string \<Rightarrow> nat \<Rightarrow> string \<Rightarrow> nat \<Rightarrow> 's \<Rightarrow> snapshot_error + object_meta list" where
  "stale_payloads client key max_bytes label grace s =
     res_bind (list_index_snapshot_objects client key s) (\<lambda>metas.
     res_bind (referenced_payloads client key max_bytes label s metas []) (\<lambda>referenced.
       collect_listing (stale_payload key referenced (sweep_cutoff (oc_now client) grace))
         (os_list client (os_path client (shard_payload_prefix_for_key key)) s)))"

definition sweep_orphan_shard_payloads ::
  "('s, 'z) object_client_scheme \<Rightarrow> string \<Rightarrow> nat \<Rightarrow> string \<Rightarrow> nat \<Rightarrow> ('s, snapshot_error, nat) io" where
  "sweep_orphan_shard_payloads client key max_bytes label grace =
     io_bind (io_read (stale_payloads client key max_bytes label grace)) (\<lambda>stale.
       io_fold (\<lambda>meta reclaimed. io_bind (reclaim_if_unchanged client meta)
                  (\<lambda>done. io_ok (if done then reclaimed + 1 else reclaimed))) stale 0)"

section \<open>Publishing a generation\<close>

definition shard_payload_sweep_grace :: nat where
  "shard_payload_sweep_grace = 3600 * 1000000000"

definition snapshot_sweep_interval :: nat where
  "snapshot_sweep_interval = 16"

definition max_snapshot_write_attempts :: nat where
  "max_snapshot_write_attempts = 64"

text \<open>
  One attempt under the publication timeout.  A timeout drops the attempt where it stands: before the
  manifest reached the store, or after.
\<close>

definition publication ::
  "('s, 'z) object_client_scheme \<Rightarrow> string \<Rightarrow> (snapshot_manifest option \<Rightarrow> ('s, snapshot_error, snapshot_manifest) io)
     \<Rightarrow> nat \<Rightarrow> manifest_snapshot_base \<Rightarrow> ('s, snapshot_error, store_error + unit) io" where
  "publication client key merge attempt base =
     io_bind (merge (mb_manifest base)) (\<lambda>m.
     io_bind (io_read (\<lambda>_. manifest_to_bytes client m)) (\<lambda>bytes s.
       if oc_timeout client attempt = Cut_before_put then (Inl (Publication_timeout key), s)
       else case oc_create client (os_path client (snapshot_key_for_generation key (mb_next_generation base))) bytes s of
              (r, s') \<Rightarrow>
                if oc_timeout client attempt = Cut_after_put then (Inl (Publication_timeout key), s')
                else (Inr r, s')))"

definition after_publication ::
  "('s, 'z) object_client_scheme \<Rightarrow> string \<Rightarrow> nat \<Rightarrow> nat \<Rightarrow> string \<Rightarrow> nat \<Rightarrow> ('s, snapshot_error, string) io" where
  "after_publication client key retain max_bytes label generation =
     io_bind (prune_old_index_snapshots client key retain) (\<lambda>_.
     io_bind (if generation mod snapshot_sweep_interval = 0
              then sweep_orphan_shard_payloads client key max_bytes label shard_payload_sweep_grace
              else io_ok 0) (\<lambda>_.
       io_ok (snapshot_key_for_generation key generation)))"

fun put_attempts ::
  "('s, 'z) object_client_scheme \<Rightarrow> string \<Rightarrow> nat \<Rightarrow> nat \<Rightarrow> string
     \<Rightarrow> (snapshot_manifest option \<Rightarrow> ('s, snapshot_error, snapshot_manifest) io)
     \<Rightarrow> nat list \<Rightarrow> ('s, snapshot_error, string) io" where
  "put_attempts client key retain max_bytes label merge [] s = (Inl (Lost_writes key), s)"
| "put_attempts client key retain max_bytes label merge (attempt # attempts) s =
     io_bind (io_read (read_manifest_snapshot_base client key max_bytes label)) (\<lambda>found.
       case found of
         None \<Rightarrow> put_attempts client key retain max_bytes label merge attempts
       | Some base \<Rightarrow>
           io_bind (publication client key merge attempt base) (\<lambda>r.
             case r of
               Inr _ \<Rightarrow> after_publication client key retain max_bytes label (mb_next_generation base)
             | Inl Store_already_exists \<Rightarrow> put_attempts client key retain max_bytes label merge attempts
             | Inl e \<Rightarrow> (\<lambda>s. (Inl (Store_message e), s)))) s"

definition put_manifest_snapshot ::
  "('s, 'z) object_client_scheme \<Rightarrow> string \<Rightarrow> nat \<Rightarrow> nat \<Rightarrow> string
     \<Rightarrow> (snapshot_manifest option \<Rightarrow> ('s, snapshot_error, snapshot_manifest) io) \<Rightarrow> ('s, snapshot_error, string) io" where
  "put_manifest_snapshot client key retain max_bytes label merge =
     put_attempts client key retain max_bytes label merge [1..<Suc max_snapshot_write_attempts]"

end
