(* ===== verification/Bloom.thy ===== *)
theory Bloom
  imports Wire
begin

text \<open>
  The trace-id bloom filter: \<open>bloom.rs\<close>, \<open>bloom/bloom_shard.rs\<close> and \<open>bloom/sharded_trace_bloom.rs\<close>.
  \<open>BloomShard::new\<close> computes its two sizes in floating point; that computation is the parameter
  \<open>sizing\<close>, from the expected items and the rate to the number of bits and of probes.  A division by
  zero and an index out of range are \<open>None\<close>.
\<close>

unbundle bit_operations_syntax

section \<open>Hashes\<close>

type_synonym u32_word = "32 word"
type_synonym trace_id = "byte list"

definition fnv32_offset :: u32_word where
  "fnv32_offset = 2166136261"

definition fnv32_prime :: u32_word where
  "fnv32_prime = 16777619"

definition fnv1_32 :: "byte list \<Rightarrow> u32_word" where
  "fnv1_32 bytes = fold (\<lambda>b hash. (hash * fnv32_prime) XOR ucast b) bytes fnv32_offset"

definition fnv1a_32 :: "byte list \<Rightarrow> u32_word" where
  "fnv1a_32 bytes = fold (\<lambda>b hash. (hash XOR ucast b) * fnv32_prime) bytes fnv32_offset"

section \<open>A shard\<close>

record bloom_shard =
  bm_bits :: "u64 list"
  bm_num_bits :: u64
  bm_k :: nat

type_synonym 'f bloom_sizing = "usize \<Rightarrow> 'f \<Rightarrow> u64 \<times> nat"

definition words_for :: "u64 \<Rightarrow> nat" where
  "words_for num_bits = (unat num_bits + 63) div 64"

definition bloom_shard_new :: "'f bloom_sizing \<Rightarrow> usize \<Rightarrow> 'f \<Rightarrow> bloom_shard" where
  "bloom_shard_new sizing expected_items fp_rate =
     (case sizing expected_items fp_rate of (num_bits, k) \<Rightarrow>
        \<lparr>bm_bits = replicate (words_for num_bits) 0, bm_num_bits = num_bits, bm_k = k\<rparr>)"

datatype bloom_error = Zero_bits | Bits_too_short nat nat | No_shards

definition shard_validate :: "bloom_shard \<Rightarrow> bloom_error + unit" where
  "shard_validate b =
     (if bm_num_bits b = 0 then Inl Zero_bits
      else let required_words = words_for (bm_num_bits b)
           in if length (bm_bits b) < required_words
              then Inl (Bits_too_short (length (bm_bits b)) required_words)
              else Inr ())"

definition probe_at :: "bloom_shard \<Rightarrow> trace_id \<Rightarrow> nat \<Rightarrow> u64 option" where
  "probe_at b trace_id i =
     (let h1 = ucast (fnv1_32 trace_id);
          h2 = ucast (fnv1a_32 trace_id) OR 1
      in if bm_num_bits b = 0 then None
         else Some ((h1 + of_nat i * h2) mod bm_num_bits b))"

definition probes :: "bloom_shard \<Rightarrow> trace_id \<Rightarrow> u64 list option" where
  "probes b trace_id = map_opt (probe_at b trace_id) [0..<bm_k b]"

definition set_probe :: "u64 \<Rightarrow> u64 list \<Rightarrow> u64 list option" where
  "set_probe p bits = do {
     w \<leftarrow> nth_opt bits (unat p div 64);
     upd_opt bits (unat p div 64) (w OR push_bit (unat p mod 64) 1)
   }"

definition shard_insert :: "trace_id \<Rightarrow> bloom_shard \<Rightarrow> bloom_shard option" where
  "shard_insert trace_id b = do {
     ps \<leftarrow> probes b trace_id;
     bits \<leftarrow> fold_opt set_probe ps (bm_bits b);
     Some (b\<lparr>bm_bits := bits\<rparr>)
   }"

definition probe_set :: "u64 list \<Rightarrow> u64 \<Rightarrow> bool option" where
  "probe_set bits p = do {
     w \<leftarrow> nth_opt bits (unat p div 64);
     Some (w AND push_bit (unat p mod 64) 1 \<noteq> 0)
   }"

text \<open>The iterator computes a probe only after the one before it was set.\<close>

fun all_probes_set :: "bloom_shard \<Rightarrow> trace_id \<Rightarrow> nat list \<Rightarrow> bool option" where
  "all_probes_set b trace_id [] = Some True"
| "all_probes_set b trace_id (i # is') = do {
     p \<leftarrow> probe_at b trace_id i;
     hit \<leftarrow> probe_set (bm_bits b) p;
     if hit then all_probes_set b trace_id is' else Some False
   }"

definition shard_maybe_contains :: "bloom_shard \<Rightarrow> trace_id \<Rightarrow> bool option" where
  "shard_maybe_contains b trace_id = all_probes_set b trace_id [0..<bm_k b]"

section \<open>The sharded filter\<close>

record sharded_trace_bloom =
  sb_shards :: "bloom_shard list"

definition bloom_new :: "'f bloom_sizing \<Rightarrow> usize \<Rightarrow> usize \<Rightarrow> 'f \<Rightarrow> sharded_trace_bloom" where
  "bloom_new sizing shard_count expected_items_per_shard fp_rate =
     (let shard_count = max shard_count 1
      in \<lparr>sb_shards = map (\<lambda>_. bloom_shard_new sizing expected_items_per_shard fp_rate) [0..<shard_count]\<rparr>)"

definition div_ceil :: "nat \<Rightarrow> nat \<Rightarrow> nat" where
  "div_ceil a b = (a + b - 1) div b"

definition with_tempo_defaults :: "'f bloom_sizing \<Rightarrow> 'f \<Rightarrow> usize \<Rightarrow> sharded_trace_bloom" where
  "with_tempo_defaults sizing one_percent expected_items =
     (let shard_count = max (div_ceil expected_items 85000) 1;
          per_shard = max (div_ceil expected_items shard_count) 1
      in bloom_new sizing shard_count per_shard one_percent)"

definition match_all_with_tempo_defaults :: "'f bloom_sizing \<Rightarrow> 'f \<Rightarrow> sharded_trace_bloom" where
  "match_all_with_tempo_defaults sizing one_percent =
     (let bloom = with_tempo_defaults sizing one_percent 1
      in bloom\<lparr>sb_shards := map (\<lambda>b. b\<lparr>bm_bits := map (\<lambda>_. -1) (bm_bits b)\<rparr>) (sb_shards bloom)\<rparr>)"

fun validate_shards :: "bloom_shard list \<Rightarrow> bloom_error + unit" where
  "validate_shards [] = Inr ()"
| "validate_shards (b # shards) = (case shard_validate b of Inl e \<Rightarrow> Inl e | Inr _ \<Rightarrow> validate_shards shards)"

definition bloom_validate :: "sharded_trace_bloom \<Rightarrow> bloom_error + unit" where
  "bloom_validate bloom = (if sb_shards bloom = [] then Inl No_shards else validate_shards (sb_shards bloom))"

definition shard_of :: "sharded_trace_bloom \<Rightarrow> trace_id \<Rightarrow> usize option" where
  "shard_of bloom trace_id =
     (if sb_shards bloom = [] then None else Some (unat (fnv1_32 trace_id) mod length (sb_shards bloom)))"

definition bloom_insert :: "trace_id \<Rightarrow> sharded_trace_bloom \<Rightarrow> sharded_trace_bloom option" where
  "bloom_insert trace_id bloom = do {
     i \<leftarrow> shard_of bloom trace_id;
     b \<leftarrow> nth_opt (sb_shards bloom) i;
     b \<leftarrow> shard_insert trace_id b;
     shards \<leftarrow> upd_opt (sb_shards bloom) i b;
     Some (bloom\<lparr>sb_shards := shards\<rparr>)
   }"

definition bloom_maybe_contains :: "sharded_trace_bloom \<Rightarrow> trace_id \<Rightarrow> bool option" where
  "bloom_maybe_contains bloom trace_id = do {
     i \<leftarrow> shard_of bloom trace_id;
     b \<leftarrow> nth_opt (sb_shards bloom) i;
     shard_maybe_contains b trace_id
   }"

end
