(* ===== verification/Trace_Index.thy ===== *)
theory Trace_Index
  imports Bloom Shard_Layout Compaction
begin

text \<open>
  The trace block index: \<open>trace_index.rs\<close>, \<open>trace_index/trace_index_type.rs\<close>, and the pending sets of
  \<open>index_snapshot/pending_block_removals.rs\<close> and \<open>pending_block_additions.rs\<close>.  The map of tenants is
  a hash map in the code; here it is ascending, which fixes the order that \<open>block_record\<close> searches in
  (object keys are unique across tenants).  The standard library's hasher is the parameter \<open>hasher\<close>, a
  function of the fields that are fed to it.  What the two mutexes guard is a field of the state.
\<close>

section \<open>Records\<close>

record trace_block_stats =
  ts_object_key :: string
  ts_min_ts :: i64
  ts_max_ts :: i64
  ts_bloom :: sharded_trace_bloom
  ts_tag_names :: "string btree_set"
  ts_tag_values :: "(string, string btree_set) btree_map"
  ts_row_count :: usize
  ts_level :: block_level

record tenant_trace_index =
  tt_blocks :: "trace_block_stats list"

definition trace_index_shard_width :: i64 where
  "trace_index_shard_width = 24 * 60 * 60 * 1000000000"

type_synonym hashed_fields =
  "string \<times> i64 \<times> i64 \<times> string btree_set \<times> (string, string btree_set) btree_map \<times> usize \<times> block_level
     \<times> (u64 list \<times> u64 \<times> nat) list"

type_synonym record_hasher = "hashed_fields \<Rightarrow> u64"

definition trace_block_fingerprint :: "record_hasher \<Rightarrow> trace_block_stats \<Rightarrow> u64" where
  "trace_block_fingerprint hasher stats =
     hasher (ts_object_key stats, ts_min_ts stats, ts_max_ts stats, ts_tag_names stats, ts_tag_values stats,
             ts_row_count stats, ts_level stats,
             map (\<lambda>b. (bm_bits b, bm_num_bits b, bm_k b)) (sb_shards (ts_bloom stats)))"

section \<open>Pending removals and additions\<close>

record pending_removal =
  pr_fingerprint :: u64
  pr_min_ts :: i64
  pr_max_ts :: i64

record pending_block_removal =
  pb_object_key :: string
  pb_removal :: pending_removal

type_synonym pending_block_removals = "(string, (string, pending_removal) btree_map) btree_map"

definition removals_record ::
  "string \<Rightarrow> pending_block_removal list \<Rightarrow> pending_block_removals \<Rightarrow> pending_block_removals" where
  "removals_record tenant blocks guard =
     (let pending = fold (\<lambda>b. bt_insert (pb_object_key b) (pb_removal b)) blocks
                      (case bt_get guard tenant of None \<Rightarrow> [] | Some pending \<Rightarrow> pending)
      in if pending = [] then bt_remove tenant guard else bt_insert tenant pending guard)"

definition removals_forget :: "string \<Rightarrow> string \<Rightarrow> pending_block_removals \<Rightarrow> pending_block_removals" where
  "removals_forget tenant key guard =
     (case bt_get guard tenant of
        None \<Rightarrow> guard
      | Some pending \<Rightarrow>
          let pending = bt_remove key pending
          in if pending = [] then bt_remove tenant guard else bt_insert tenant pending guard)"

definition commit_key ::
  "string \<times> pending_removal \<Rightarrow> (string, pending_removal) btree_map \<Rightarrow> (string, pending_removal) btree_map" where
  "commit_key entry pending =
     (case entry of (key, removal) \<Rightarrow> if bt_get pending key = Some removal then bt_remove key pending else pending)"

definition commit_tenant ::
  "string \<times> (string, pending_removal) btree_map \<Rightarrow> pending_block_removals \<Rightarrow> pending_block_removals" where
  "commit_tenant entry guard =
     (case entry of (tenant, blocks) \<Rightarrow>
        case bt_get guard tenant of
          None \<Rightarrow> guard
        | Some pending \<Rightarrow>
            let pending = fold commit_key blocks pending
            in if pending = [] then bt_remove tenant guard else bt_insert tenant pending guard)"

definition removals_commit :: "pending_block_removals \<Rightarrow> pending_block_removals \<Rightarrow> pending_block_removals" where
  "removals_commit applied guard = fold commit_tenant applied guard"

definition bs_remove :: "'k::linorder \<Rightarrow> 'k btree_set \<Rightarrow> 'k btree_set" where
  "bs_remove k s = filter (\<lambda>k'. k' \<noteq> k) s"

definition additions_record :: "string \<Rightarrow> string btree_set \<Rightarrow> string btree_set" where
  "additions_record object_key keys = bs_insert object_key keys"

definition additions_forget :: "string \<Rightarrow> string btree_set \<Rightarrow> string btree_set" where
  "additions_forget object_key keys = bs_remove object_key keys"

definition additions_commit :: "string btree_set \<Rightarrow> string btree_set \<Rightarrow> string btree_set" where
  "additions_commit applied keys = fold bs_remove applied keys"

section \<open>The index\<close>

record trace_index =
  tx_tenants :: "(string, tenant_trace_index) btree_map"
  tx_pending_removals :: pending_block_removals
  tx_pending_additions :: "string btree_set"

definition trace_index_new :: trace_index where
  "trace_index_new = \<lparr>tx_tenants = [], tx_pending_removals = [], tx_pending_additions = []\<rparr>"

definition trace_blocks :: "trace_index \<Rightarrow> string \<Rightarrow> trace_block_stats list" where
  "trace_blocks index tenant = (case bt_get (tx_tenants index) tenant of None \<Rightarrow> [] | Some t \<Rightarrow> tt_blocks t)"

definition add_trace_block :: "string \<Rightarrow> trace_block_stats \<Rightarrow> trace_index \<Rightarrow> trace_index" where
  "add_trace_block tenant stats index =
     index\<lparr>tx_pending_removals := removals_forget tenant (ts_object_key stats) (tx_pending_removals index),
           tx_pending_additions := additions_record (ts_object_key stats) (tx_pending_additions index),
           tx_tenants := bt_update tenant \<lparr>tt_blocks = []\<rparr>
             (\<lambda>t. t\<lparr>tt_blocks := filter (\<lambda>b. ts_object_key b \<noteq> ts_object_key stats) (tt_blocks t) @ [stats]\<rparr>)
             (tx_tenants index)\<rparr>"

definition block_record :: "trace_index \<Rightarrow> string \<Rightarrow> trace_block_stats option" where
  "block_record index object_key =
     find (\<lambda>b. ts_object_key b = object_key) (concat (map (tt_blocks \<circ> snd) (tx_tenants index)))"

definition trace_block_level :: "trace_index \<Rightarrow> string \<Rightarrow> block_level" where
  "trace_block_level index object_key =
     (case block_record index object_key of None \<Rightarrow> ingested | Some b \<Rightarrow> ts_level b)"

definition candidate_of :: "string \<Rightarrow> trace_block_stats \<Rightarrow> compaction_candidate" where
  "candidate_of tenant b =
     \<lparr>cc_tenant = tenant, cc_object_key = ts_object_key b, cc_min_ts = ts_min_ts b, cc_max_ts = ts_max_ts b,
      cc_row_count = ts_row_count b, cc_level = ts_level b\<rparr>"

definition compaction_candidates :: "trace_index \<Rightarrow> compaction_candidate list" where
  "compaction_candidates index =
     sort_key (\<lambda>c. (cc_tenant c, cc_object_key c))
       (concat (map (\<lambda>(tenant, t). map (candidate_of tenant) (tt_blocks t)) (tx_tenants index)))"

definition trace_tenants :: "trace_index \<Rightarrow> string list" where
  "trace_tenants index = sort (bt_keys (tx_tenants index))"

definition removal_of :: "record_hasher \<Rightarrow> trace_block_stats \<Rightarrow> pending_block_removal" where
  "removal_of hasher b =
     \<lparr>pb_object_key = ts_object_key b,
      pb_removal = \<lparr>pr_fingerprint = trace_block_fingerprint hasher b, pr_min_ts = ts_min_ts b, pr_max_ts = ts_max_ts b\<rparr>\<rparr>"

definition retire_trace_blocks :: "record_hasher \<Rightarrow> string \<Rightarrow> string btree_set \<Rightarrow> trace_index \<Rightarrow> trace_index" where
  "retire_trace_blocks hasher tenant dropped index =
     (let retired = map (removal_of hasher)
                      (filter (\<lambda>b. ts_object_key b \<in> set dropped) (trace_blocks index tenant))
      in index\<lparr>tx_pending_removals := removals_record tenant retired (tx_pending_removals index),
               tx_pending_additions := fold additions_forget dropped (tx_pending_additions index)\<rparr>)"

definition carry_tags ::
  "trace_block_stats \<Rightarrow> string btree_set \<times> (string, string btree_set) btree_map
     \<Rightarrow> string btree_set \<times> (string, string btree_set) btree_map" where
  "carry_tags b carried =
     (case carried of (names, values) \<Rightarrow>
        (bs_extend (ts_tag_names b) names,
         fold (\<lambda>(tag, vs). bt_update tag [] (bs_extend vs)) (ts_tag_values b) values))"

definition replace_trace_blocks ::
  "record_hasher \<Rightarrow> string \<Rightarrow> string list \<Rightarrow> trace_block_stats \<Rightarrow> trace_index \<Rightarrow> block_level \<times> trace_index" where
  "replace_trace_blocks hasher tenant old_keys replacement index =
     (let level = max (level_above (map (trace_block_level index) old_keys))
                      (trace_block_level index (ts_object_key replacement));
          replacement = replacement\<lparr>ts_level := level\<rparr>;
          old_keys = bs_collect old_keys;
          index = retire_trace_blocks hasher tenant old_keys index;
          index = index\<lparr>tx_pending_removals := removals_forget tenant (ts_object_key replacement) (tx_pending_removals index),
                        tx_pending_additions := additions_record (ts_object_key replacement) (tx_pending_additions index)\<rparr>;
          blocks = trace_blocks index tenant;
          gone = filter (\<lambda>b. ts_object_key b \<noteq> ts_object_key replacement \<and> ts_object_key b \<in> set old_keys) blocks;
          kept = filter (\<lambda>b. ts_object_key b \<noteq> ts_object_key replacement \<and> ts_object_key b \<notin> set old_keys) blocks;
          carried = fold carry_tags gone ([], []);
          replacement = replacement\<lparr>ts_tag_names := bs_extend (fst carried) (ts_tag_names replacement),
                                    ts_tag_values := fold (\<lambda>(tag, vs). bt_update tag [] (bs_extend vs)) (snd carried)
                                                       (ts_tag_values replacement)\<rparr>
      in (level, index\<lparr>tx_tenants := bt_insert tenant \<lparr>tt_blocks = kept @ [replacement]\<rparr> (tx_tenants index)\<rparr>))"

definition remove_trace_blocks :: "record_hasher \<Rightarrow> string \<Rightarrow> string list \<Rightarrow> trace_index \<Rightarrow> usize \<times> trace_index" where
  "remove_trace_blocks hasher tenant keys index =
     (let dropped = bs_collect keys;
          index = retire_trace_blocks hasher tenant dropped index
      in case bt_get (tx_tenants index) tenant of
           None \<Rightarrow> (0, index)
         | Some t \<Rightarrow>
             let blocks = filter (\<lambda>b. ts_object_key b \<notin> set dropped) (tt_blocks t)
             in (length (tt_blocks t) - length blocks,
                 index\<lparr>tx_tenants := bt_insert tenant (t\<lparr>tt_blocks := blocks\<rparr>) (tx_tenants index)\<rparr>))"

section \<open>Queries\<close>

definition blocks_overlapping :: "trace_index \<Rightarrow> string \<Rightarrow> index_shard_range \<Rightarrow> trace_block_stats list" where
  "blocks_overlapping index tenant span =
     filter (\<lambda>b. range_overlaps span (ts_min_ts b) (ts_max_ts b)) (trace_blocks index tenant)"

definition candidate_blocks_for_trace ::
  "trace_index \<Rightarrow> string \<Rightarrow> trace_id \<Rightarrow> i64 \<Rightarrow> i64 \<Rightarrow> string list option" where
  "candidate_blocks_for_trace index tenant trace_id min_ts max_ts =
     map_option (map ts_object_key)
       (filter_opt (\<lambda>b. bloom_maybe_contains (ts_bloom b) trace_id)
          (blocks_overlapping index tenant \<lparr>ir_start = min_ts, ir_end = max_ts\<rparr>))"

definition block_has_tag :: "string \<Rightarrow> string option \<Rightarrow> trace_block_stats \<Rightarrow> bool" where
  "block_has_tag tag value_opt b =
     (if tag \<notin> set (ts_tag_names b) then False
      else case value_opt of
             None \<Rightarrow> True
           | Some v \<Rightarrow> (case bt_get (ts_tag_values b) tag of None \<Rightarrow> False | Some vs \<Rightarrow> v \<in> set vs))"

definition prune_blocks_by_tag ::
  "trace_index \<Rightarrow> string \<Rightarrow> string \<Rightarrow> string option \<Rightarrow> i64 \<Rightarrow> i64 \<Rightarrow> string list" where
  "prune_blocks_by_tag index tenant tag value_opt min_ts max_ts =
     map ts_object_key (filter (block_has_tag tag value_opt)
       (blocks_overlapping index tenant \<lparr>ir_start = min_ts, ir_end = max_ts\<rparr>))"

definition trace_tag_names :: "trace_index \<Rightarrow> string \<Rightarrow> i64 \<Rightarrow> i64 \<Rightarrow> string list" where
  "trace_tag_names index tenant min_ts max_ts =
     bs_collect (concat (map ts_tag_names (blocks_overlapping index tenant \<lparr>ir_start = min_ts, ir_end = max_ts\<rparr>)))"

definition trace_tag_values :: "trace_index \<Rightarrow> string \<Rightarrow> string \<Rightarrow> i64 \<Rightarrow> i64 \<Rightarrow> string list" where
  "trace_tag_values index tenant tag min_ts max_ts =
     bs_collect (concat (List.map_filter (\<lambda>b. bt_get (ts_tag_values b) tag)
       (blocks_overlapping index tenant \<lparr>ir_start = min_ts, ir_end = max_ts\<rparr>)))"

text \<open>The trait \<open>BlockIndex\<close>.\<close>

definition trace_add_block :: "'f bloom_sizing \<Rightarrow> 'f \<Rightarrow> block_meta \<Rightarrow> trace_index \<Rightarrow> trace_index" where
  "trace_add_block sizing one_percent meta index =
     add_trace_block (bm_tenant meta)
       \<lparr>ts_object_key = bm_object_key meta, ts_min_ts = bm_min_ts meta, ts_max_ts = bm_max_ts meta,
        ts_bloom = match_all_with_tempo_defaults sizing one_percent, ts_tag_names = [], ts_tag_values = [],
        ts_row_count = bm_row_count meta, ts_level = bm_level meta\<rparr> index"

definition trace_candidate_blocks :: "trace_index \<Rightarrow> string \<Rightarrow> i64 \<Rightarrow> i64 \<Rightarrow> string list" where
  "trace_candidate_blocks index tenant min_ts max_ts =
     (case bt_get (tx_tenants index) tenant of
        None \<Rightarrow> []
      | Some t \<Rightarrow> map ts_object_key (filter (\<lambda>b. ts_min_ts b \<le> max_ts \<and> ts_max_ts b \<ge> min_ts) (tt_blocks t)))"

definition trace_block_count :: "trace_index \<Rightarrow> string \<Rightarrow> usize" where
  "trace_block_count index tenant =
     (case bt_get (tx_tenants index) tenant of None \<Rightarrow> 0 | Some t \<Rightarrow> length (tt_blocks t))"

section \<open>Loading\<close>

definition trace_record_order :: "record_hasher \<Rightarrow> trace_block_stats \<Rightarrow> i64 \<times> i64 \<times> u64" where
  "trace_record_order hasher b = (ts_max_ts b, ts_min_ts b, trace_block_fingerprint hasher b)"

definition merge_record ::
  "record_hasher \<Rightarrow> trace_block_stats \<Rightarrow> (string, trace_block_stats) btree_map \<Rightarrow> (string, trace_block_stats) btree_map" where
  "merge_record hasher incoming records =
     (case bt_get records (ts_object_key incoming) of
        Some held \<Rightarrow>
          if trace_record_order hasher held \<ge> trace_record_order hasher incoming then records
          else bt_insert (ts_object_key incoming) incoming records
      | None \<Rightarrow> bt_insert (ts_object_key incoming) incoming records)"

definition finish_tenant :: "record_hasher \<Rightarrow> tenant_trace_index \<Rightarrow> tenant_trace_index" where
  "finish_tenant hasher t =
     (let by_key = fold (merge_record hasher) (tt_blocks t) []
      in t\<lparr>tt_blocks := sort_key (\<lambda>b. (ts_min_ts b, ts_max_ts b, ts_object_key b)) (map snd by_key)\<rparr>)"

definition finish_load :: "record_hasher \<Rightarrow> trace_index \<Rightarrow> trace_index" where
  "finish_load hasher index =
     index\<lparr>tx_tenants := map (\<lambda>(tenant, t). (tenant, finish_tenant hasher t)) (tx_tenants index)\<rparr>"

end
