(* ===== verification/Trace_Shard.thy ===== *)
theory Trace_Shard
  imports Trace_Index Shard_Codec
begin

text \<open>
  One shard payload of the trace index: \<open>encode_trace_shard\<close> of \<open>trace_index.rs\<close>, the constants of
  \<open>trace_index/trace_shard_format.rs\<close>, the decoder of \<open>trace_index/decode_trace_shard.rs\<close>, and
  \<open>TraceIndex::load_shard\<close>.
\<close>

definition trace_shard_magic :: "byte list" where
  "trace_shard_magic = string_bytes ''KBTS''"

definition trace_shard_format_version :: byte where
  "trace_shard_format_version = 1"

section \<open>Encoding\<close>

definition note_tag_values :: "string \<times> string btree_set \<Rightarrow> (string, usize) btree_map \<Rightarrow> (string, usize) btree_map" where
  "note_tag_values entry dictionary =
     (case entry of (tag, vals) \<Rightarrow> fold (\<lambda>v. bt_insert v 0) vals (bt_insert tag 0 dictionary))"

definition note_block_tags :: "trace_block_stats \<Rightarrow> (string, usize) btree_map \<Rightarrow> (string, usize) btree_map" where
  "note_block_tags b dictionary =
     fold note_tag_values (ts_tag_values b) (fold (\<lambda>tag. bt_insert tag 0) (ts_tag_names b) dictionary)"

definition collect_tags :: "trace_block_stats list \<Rightarrow> (string, usize) btree_map" where
  "collect_tags blocks = fold note_block_tags blocks []"

definition push_ids :: "(string, usize) btree_map \<Rightarrow> string list \<Rightarrow> byte list option" where
  "push_ids ids texts = map_option concat (map_opt (push_dictionary_id ids) texts)"

definition push_tag_values :: "(string, usize) btree_map \<Rightarrow> string \<times> string btree_set \<Rightarrow> byte list option" where
  "push_tag_values ids entry =
     (case entry of (tag, vals) \<Rightarrow> do {
        tag_id \<leftarrow> push_dictionary_id ids tag;
        val_ids \<leftarrow> push_ids ids vals;
        Some (tag_id @ push_len (length vals) @ val_ids)
      })"

definition push_bloom_shard :: "bloom_shard \<Rightarrow> byte list" where
  "push_bloom_shard b =
     push_uvarint (bm_num_bits b) @ push_uvarint (of_nat (bm_k b))
       @ push_len (length (bm_bits b)) @ concat (map le_bytes (bm_bits b))"

definition push_trace_tags :: "(string, usize) btree_map \<Rightarrow> trace_block_stats \<Rightarrow> byte list option" where
  "push_trace_tags ids b = do {
     names \<leftarrow> push_ids ids (ts_tag_names b);
     vals \<leftarrow> map_opt (push_tag_values ids) (ts_tag_values b);
     Some (push_len (length (ts_tag_names b)) @ names @ push_len (length (ts_tag_values b)) @ concat vals)
   }"

fun push_trace_blocks :: "(string, usize) btree_map \<Rightarrow> i64 \<Rightarrow> trace_block_stats list \<Rightarrow> byte list option" where
  "push_trace_blocks ids previous_min [] = Some []"
| "push_trace_blocks ids previous_min (b # blocks) =
     (case push_shard_block_prefix (ts_object_key b) (ts_min_ts b) (ts_max_ts b) (ts_row_count b) (ts_level b)
             previous_min of
        (bytes, previous_min') \<Rightarrow> do {
          tags \<leftarrow> push_trace_tags ids b;
          rest \<leftarrow> push_trace_blocks ids previous_min' blocks;
          Some (bytes @ tags @ push_len (length (sb_shards (ts_bloom b)))
                  @ concat (map push_bloom_shard (sb_shards (ts_bloom b))) @ rest)
        })"

definition encode_trace_shard :: "string \<Rightarrow> trace_block_stats list \<Rightarrow> byte list option" where
  "encode_trace_shard tenant blocks =
     (let dictionary = assign_sorted_string_ids (collect_tags blocks);
          strings = dc_strings dictionary
      in do {
        body \<leftarrow> push_trace_blocks (dc_ids dictionary) 0 blocks;
        Some (trace_shard_magic @ [trace_shard_format_version] @ push_string tenant
          @ push_len (length strings) @ concat (map push_string strings)
          @ push_len (length blocks) @ body)
      })"

section \<open>Decoding\<close>

definition read_tag_id :: "string \<Rightarrow> string list \<Rightarrow> byte_reader \<Rightarrow> (string \<times> byte_reader) result" where
  "read_tag_id what dictionary r =
     res_bind (read_uvarint what r) (\<lambda>(entry, r').
     res_bind (dictionary_entry dictionary entry) (\<lambda>text. Inr (text, r')))"

definition read_tag_set ::
  "string \<Rightarrow> string \<Rightarrow> string list \<Rightarrow> byte_reader \<Rightarrow> (string btree_set \<times> byte_reader) result" where
  "read_tag_set what_count what dictionary r =
     res_bind (read_count what_count r) (\<lambda>(n, r').
       read_times n (\<lambda>s r. res_bind (read_tag_id what dictionary r) (\<lambda>(text, r'). Inr (bs_insert text s, r'))) [] r')"

definition read_tag_values ::
  "string list \<Rightarrow> byte_reader \<Rightarrow> ((string \<times> string btree_set) \<times> byte_reader) result" where
  "read_tag_values dictionary r =
     res_bind (read_tag_id ''a tag name id'' dictionary r) (\<lambda>(tag, r1).
     res_bind (read_tag_set ''values of a tag'' ''a tag value id'' dictionary r1) (\<lambda>(vals, r2).
       Inr ((tag, vals), r2)))"

definition read_bloom_shard :: "byte_reader \<Rightarrow> (bloom_shard \<times> byte_reader) result" where
  "read_bloom_shard r =
     res_bind (read_uvarint ''a bloom shard width'' r) (\<lambda>(num_bits, r1).
     res_bind (read_uvarint ''a bloom shard hash count'' r1) (\<lambda>(raw, r2).
       case u32_try (unat raw) of
         None \<Rightarrow> Inl Hash_count_beyond_u32
       | Some k \<Rightarrow>
           res_bind (read_count ''bloom shard words'' r2) (\<lambda>(n, r3).
           res_bind (read_times n (\<lambda>ws r. res_bind (read_u64_le ''a bloom shard word'' r) (\<lambda>(w, r'). Inr (ws @ [w], r')))
              [] r3) (\<lambda>(bits, r4).
             Inr (\<lparr>bm_bits = bits, bm_num_bits = num_bits, bm_k = k\<rparr>, r4)))))"

definition read_bloom :: "string \<Rightarrow> byte_reader \<Rightarrow> (sharded_trace_bloom \<times> byte_reader) result" where
  "read_bloom object_key r =
     res_bind (read_count ''bloom shards of a block'' r) (\<lambda>(n, r1).
     res_bind (read_times n (\<lambda>shards r. res_bind (read_bloom_shard r) (\<lambda>(b, r'). Inr (shards @ [b], r'))) [] r1)
       (\<lambda>(shards, r2).
         case bloom_validate \<lparr>sb_shards = shards\<rparr> of
           Inl e \<Rightarrow> Inl (Corrupt_bloom object_key)
         | Inr _ \<Rightarrow> Inr (\<lparr>sb_shards = shards\<rparr>, r2)))"

definition read_trace_block ::
  "string list \<Rightarrow> trace_block_stats list \<times> i64 \<Rightarrow> byte_reader
     \<Rightarrow> ((trace_block_stats list \<times> i64) \<times> byte_reader) result" where
  "read_trace_block dictionary acc r =
     (case acc of (blocks, previous_min) \<Rightarrow>
        res_bind (read_shard_block_prefix previous_min r) (\<lambda>(block, r1).
        res_bind (read_tag_set ''tag names of a block'' ''a tag name id'' dictionary r1) (\<lambda>(names, r2).
        res_bind (read_count ''tag value sets of a block'' r2) (\<lambda>(tag_count, r3).
        res_bind (read_times tag_count (\<lambda>m r. res_bind (read_tag_values dictionary r)
            (\<lambda>((tag, vals), r'). Inr (bt_insert tag vals m, r'))) [] r3) (\<lambda>(tag_values, r4).
        res_bind (read_bloom (sp_object_key block) r4) (\<lambda>(bloom, r5).
          Inr ((blocks @ [\<lparr>ts_object_key = sp_object_key block, ts_min_ts = sb_min_ts (sp_bounds block),
                            ts_max_ts = sb_max_ts (sp_bounds block), ts_bloom = bloom, ts_tag_names = names,
                            ts_tag_values = tag_values, ts_row_count = sp_row_count block, ts_level = sp_level block\<rparr>],
                sb_min_ts (sp_bounds block)), r5)))))))"

definition decode_trace :: "byte list \<Rightarrow> trace_block_stats list result" where
  "decode_trace bytes =
     res_bind (decode_shard_header bytes trace_shard_magic trace_shard_format_version ''a trace index shard'') (\<lambda>header.
     res_bind (read_count ''blocks'' (dh_reader header)) (\<lambda>(n, r1).
     res_bind (read_times n (read_trace_block (dh_dictionary header)) ([], 0) r1) (\<lambda>((blocks, _), r2).
       if \<not> is_exhausted r2 then Inl Trailing_bytes else Inr blocks)))"

definition decode_trace_shard :: "string \<Rightarrow> byte list \<Rightarrow> (string \<times> shard_error) + trace_block_stats list" where
  "decode_trace_shard object_key bytes = map_sum (Pair object_key) id (decode_trace bytes)"

definition load_shard ::
  "string \<Rightarrow> string \<Rightarrow> byte list \<Rightarrow> trace_index \<Rightarrow> (string \<times> shard_error) + trace_index" where
  "load_shard tenant object_key bytes index =
     (case decode_trace_shard object_key bytes of
        Inl e \<Rightarrow> Inl e
      | Inr blocks \<Rightarrow>
          Inr (if blocks = [] then index
               else index\<lparr>tx_tenants := bt_update tenant \<lparr>tt_blocks = []\<rparr>
                 (\<lambda>t. t\<lparr>tt_blocks := tt_blocks t @ blocks\<rparr>) (tx_tenants index)\<rparr>))"

end
