(* ===== verification/Trace_Snapshot.thy ===== *)
theory Trace_Snapshot
  imports Snapshot_Store Trace_Shard
begin

text \<open>
  Publishing and loading the trace index through snapshot manifests:
  \<open>index_snapshot/tenant_shard_merge.rs\<close>, \<open>TraceIndex::merge_tenant_shards\<close> of
  \<open>trace_index/trace_index_type.rs\<close>, \<open>touched_shard_ranges\<close> and \<open>ManifestRead::read_shards\<close> of
  \<open>index_snapshot.rs\<close>, and the methods that \<open>index_snapshot/snapshot_persistence_methods.rs\<close> expands to.
  The counters that only feed a tracing span are kept where the code keeps them in a struct.
\<close>

fun res_fold :: "('x \<Rightarrow> 'b \<Rightarrow> 'e + 'b) \<Rightarrow> 'x list \<Rightarrow> 'b \<Rightarrow> 'e + 'b" where
  "res_fold f [] acc = Inr acc"
| "res_fold f (x # xs) acc = res_bind (f x acc) (res_fold f xs)"

section \<open>Folding one tenant into a base manifest\<close>

definition touched_shard_ranges ::
  "index_shard_range list \<Rightarrow> (string, pending_removal) btree_map option \<Rightarrow> i64 \<Rightarrow> index_shard_range list" where
  "touched_shard_ranges contributed removed width =
     (let removed = map (\<lambda>(_, r). \<lparr>ir_start = pr_min_ts r, ir_end = pr_max_ts r\<rparr>)
                      (case removed of None \<Rightarrow> [] | Some m \<Rightarrow> m)
      in concat (map (\<lambda>span. shard_ranges_for_span (ir_start span) (ir_end span) width) (contributed @ removed)))"

record 's tenant_shard_merge =
  tm_client :: "'s object_client"
  tm_key :: string
  tm_base :: snapshot_manifest
  tm_tenant :: string
  tm_removed :: "(string, pending_removal) btree_map option"
  tm_contribute_all :: bool
  tm_additions :: "string btree_set"
  tm_max_bytes :: nat

record merge_progress =
  mp_manifest :: snapshot_manifest
  mp_fetched :: nat
  mp_written :: nat

definition contributes :: "'s tenant_shard_merge \<Rightarrow> string \<Rightarrow> bool" where
  "contributes tm object_key \<longleftrightarrow> tm_contribute_all tm \<or> object_key \<in> set (tm_additions tm)"

definition read_touched_step ::
  "'s tenant_shard_merge \<Rightarrow> index_shard_range list
     \<Rightarrow> (index_shard_range \<Rightarrow> string \<Rightarrow> byte list \<Rightarrow> 'r \<Rightarrow> snapshot_error + 'r) \<Rightarrow> 's \<Rightarrow> manifest_shard
     \<Rightarrow> (index_shard_range, string) btree_map \<times> 'r \<times> nat
     \<Rightarrow> snapshot_error + (index_shard_range, string) btree_map \<times> 'r \<times> nat" where
  "read_touched_step tm touched note s shard acc =
     (case acc of (carried, records, fetched) \<Rightarrow>
        let span = ms_range shard
        in if list_ex (\<lambda>t. range_overlaps span (ir_start t) (ir_end t)) touched
           then let object_key = shard_payload_object_key (tm_key tm) (tm_tenant tm) span (ms_content shard)
                in res_bind (read_shard_payload (tm_client tm) object_key (tm_max_bytes tm) s) (\<lambda>bytes.
                   res_bind (note span object_key bytes records) (\<lambda>records.
                     Inr (carried, records, fetched + 1)))
           else Inr (bt_insert span (ms_content shard) carried, records, fetched))"

definition read_touched ::
  "'s tenant_shard_merge \<Rightarrow> index_shard_range list
     \<Rightarrow> (index_shard_range \<Rightarrow> string \<Rightarrow> byte list \<Rightarrow> 'r \<Rightarrow> snapshot_error + 'r) \<Rightarrow> 'r \<Rightarrow> nat \<Rightarrow> 's
     \<Rightarrow> snapshot_error + (index_shard_range, string) btree_map \<times> 'r \<times> nat" where
  "read_touched tm touched note records fetched s =
     res_fold (read_touched_step tm touched note s) (shards_of (tm_base tm) (tm_tenant tm)) ([], records, fetched)"

definition carry ::
  "'s tenant_shard_merge \<Rightarrow> (index_shard_range, string) btree_map \<Rightarrow> snapshot_manifest \<Rightarrow> snapshot_manifest" where
  "carry tm carried m = fold (\<lambda>(span, content). manifest_insert (tm_tenant tm) span content) carried m"

definition publish_shard ::
  "'s tenant_shard_merge \<Rightarrow> index_shard_range \<Rightarrow> byte list \<Rightarrow> merge_progress \<Rightarrow> ('s, snapshot_error, merge_progress) io" where
  "publish_shard tm span bytes mp =
     (let content = shard_payload_content_hash (tm_client tm) bytes;
          named = list_ex (\<lambda>sh. ms_range sh = span \<and> ms_content sh = content) (shards_of (tm_base tm) (tm_tenant tm))
      in io_bind (if named then io_ok ()
                  else put_shard_payload (tm_client tm) (tm_key tm) (tm_tenant tm) span content bytes)
           (\<lambda>_. io_ok \<lparr>mp_manifest = manifest_insert (tm_tenant tm) span content (mp_manifest mp),
                       mp_fetched = mp_fetched mp,
                       mp_written = mp_written mp + (if named then 0 else 1)\<rparr>))"

section \<open>The trace index\<close>

type_synonym shard_records = "(index_shard_range, trace_block_stats list) btree_map"

definition note_trace_shard ::
  "index_shard_range \<Rightarrow> string \<Rightarrow> byte list \<Rightarrow> shard_records \<Rightarrow> snapshot_error + shard_records" where
  "note_trace_shard span object_key bytes records =
     map_sum Bad_shard (\<lambda>blocks. bt_update span [] (\<lambda>bs. bs @ blocks) records) (decode_trace_shard object_key bytes)"

definition removal_unchanged :: "record_hasher \<Rightarrow> shard_records \<Rightarrow> string \<times> pending_removal \<Rightarrow> bool" where
  "removal_unchanged hasher records entry =
     (case entry of (object_key, removal) \<Rightarrow>
        case find (\<lambda>b. ts_object_key b = object_key) (concat (map snd records)) of
          None \<Rightarrow> False
        | Some b \<Rightarrow> trace_block_fingerprint hasher b = pr_fingerprint removal)"

definition check_removals ::
  "record_hasher \<Rightarrow> shard_records \<Rightarrow> (string, pending_removal) btree_map \<Rightarrow> snapshot_error + unit" where
  "check_removals hasher records removed =
     (case find (\<lambda>entry. \<not> removal_unchanged hasher records entry) removed of
        None \<Rightarrow> Inr ()
      | Some (object_key, _) \<Rightarrow> Inl (Input_changed object_key))"

definition drop_removal :: "record_hasher \<Rightarrow> string \<times> pending_removal \<Rightarrow> shard_records \<Rightarrow> shard_records" where
  "drop_removal hasher entry records =
     (case entry of (object_key, removal) \<Rightarrow>
        map (\<lambda>(span, blocks). (span, filter (\<lambda>b. ts_object_key b \<noteq> object_key
              \<or> trace_block_fingerprint hasher b \<noteq> pr_fingerprint removal) blocks)) records)"

definition place_contributed :: "trace_block_stats \<Rightarrow> shard_records \<Rightarrow> shard_records" where
  "place_contributed block records =
     fold (\<lambda>span. bt_update span [] (\<lambda>bs. bs @ [block]))
       (shard_ranges_for_span (ts_min_ts block) (ts_max_ts block) trace_index_shard_width)
       (map (\<lambda>(span, blocks). (span, filter (\<lambda>held. ts_object_key held \<noteq> ts_object_key block) blocks)) records)"

definition publish_records ::
  "'s tenant_shard_merge \<Rightarrow> index_shard_range \<times> trace_block_stats list \<Rightarrow> merge_progress
     \<Rightarrow> ('s, snapshot_error, merge_progress) io" where
  "publish_records tm entry mp =
     (case entry of (span, blocks) \<Rightarrow>
        if blocks = [] then io_ok mp
        else case encode_trace_shard (tm_tenant tm)
                    (sort_key (\<lambda>b. (ts_min_ts b, ts_max_ts b, ts_object_key b)) blocks) of
               None \<Rightarrow> (\<lambda>s. (Inl Panicked, s))
             | Some bytes \<Rightarrow> publish_shard tm span bytes mp)"

definition merge_tenant_shards ::
  "record_hasher \<Rightarrow> trace_index \<Rightarrow> 's tenant_shard_merge \<Rightarrow> merge_progress \<Rightarrow> ('s, snapshot_error, merge_progress) io" where
  "merge_tenant_shards hasher index tm mp =
     (let contributed = filter (\<lambda>b. contributes tm (ts_object_key b)) (trace_blocks index (tm_tenant tm));
          removed = (case tm_removed tm of None \<Rightarrow> [] | Some m \<Rightarrow> m);
          touched = touched_shard_ranges (map (\<lambda>b. \<lparr>ir_start = ts_min_ts b, ir_end = ts_max_ts b\<rparr>) contributed)
                      (tm_removed tm) trace_index_shard_width
      in io_bind (io_read (read_touched tm touched note_trace_shard [] (mp_fetched mp))) (\<lambda>(carried, records, fetched).
         io_bind (io_read (\<lambda>_. check_removals hasher records removed)) (\<lambda>_.
           let records = fold (drop_removal hasher) removed records;
               records = fold place_contributed contributed records
           in io_fold (publish_records tm) records
                (mp\<lparr>mp_manifest := carry tm carried (mp_manifest mp), mp_fetched := fetched\<rparr>))))"

section \<open>The whole index\<close>

definition merged_manifest ::
  "'s object_client \<Rightarrow> record_hasher \<Rightarrow> string \<Rightarrow> pending_block_removals \<Rightarrow> string btree_set \<Rightarrow> nat \<Rightarrow> trace_index
     \<Rightarrow> snapshot_manifest option \<Rightarrow> ('s, snapshot_error, snapshot_manifest) io" where
  "merged_manifest client hasher key removals additions max_bytes index base_opt =
     (let base = (case base_opt of None \<Rightarrow> manifest_default | Some m \<Rightarrow> m);
          tenants = bs_extend (bt_keys removals)
                      (bs_extend (bt_keys (tx_tenants index)) (bs_collect (manifest_tenants base)));
          tm = (\<lambda>tenant. \<lparr>tm_client = client, tm_key = key, tm_base = base, tm_tenant = tenant,
                  tm_removed = bt_get removals tenant, tm_contribute_all = (base_opt = None),
                  tm_additions = additions, tm_max_bytes = max_bytes\<rparr>)
      in io_bind (io_fold (\<lambda>tenant. merge_tenant_shards hasher index (tm tenant)) tenants
                    \<lparr>mp_manifest = manifest_new, mp_fetched = 0, mp_written = 0\<rparr>)
           (\<lambda>mp. io_ok (manifest_sort (mp_manifest mp))))"

definition trace_snapshot_label :: string where
  "trace_snapshot_label = ''trace index snapshot''"

definition save_latest_snapshot ::
  "'s object_client \<Rightarrow> record_hasher \<Rightarrow> string \<Rightarrow> nat \<Rightarrow> nat \<Rightarrow> trace_index \<Rightarrow> ('s, snapshot_error, string \<times> trace_index) io" where
  "save_latest_snapshot client hasher key retain max_bytes index =
     (let removals = tx_pending_removals index; additions = tx_pending_additions index
      in io_bind (put_manifest_snapshot client key retain max_bytes trace_snapshot_label
                    (merged_manifest client hasher key removals additions max_bytes index))
           (\<lambda>snapshot_key. io_ok (snapshot_key,
              index\<lparr>tx_pending_removals := removals_commit removals (tx_pending_removals index),
                    tx_pending_additions := additions_commit additions (tx_pending_additions index)\<rparr>)))"

section \<open>Loading\<close>

record window_shard_reads =
  wr_listed :: nat
  wr_read :: nat

type_synonym shard_window = "string \<times> index_shard_range"

definition read_shard_step ::
  "'s object_client \<Rightarrow> string \<Rightarrow> shard_window option \<Rightarrow> nat
     \<Rightarrow> (string \<Rightarrow> string \<Rightarrow> byte list \<Rightarrow> 'r \<Rightarrow> snapshot_error + 'r) \<Rightarrow> 's \<Rightarrow> string \<Rightarrow> manifest_shard
     \<Rightarrow> window_shard_reads \<times> 'r \<Rightarrow> snapshot_error + window_shard_reads \<times> 'r" where
  "read_shard_step client key win max_bytes note s tenant shard acc =
     (case acc of (reads, r) \<Rightarrow>
        let reads = reads\<lparr>wr_listed := wr_listed reads + 1\<rparr>; span = ms_range shard
        in if (case win of None \<Rightarrow> False | Some (_, w) \<Rightarrow> \<not> range_overlaps span (ir_start w) (ir_end w))
           then Inr (reads, r)
           else let object_key = shard_payload_object_key key tenant span (ms_content shard)
                in res_bind (read_shard_payload client object_key max_bytes s) (\<lambda>bytes.
                   res_bind (note tenant object_key bytes r) (\<lambda>r.
                     Inr (reads\<lparr>wr_read := wr_read reads + 1\<rparr>, r))))"

definition read_shards ::
  "'s object_client \<Rightarrow> string \<Rightarrow> snapshot_manifest \<Rightarrow> shard_window option \<Rightarrow> nat
     \<Rightarrow> (string \<Rightarrow> string \<Rightarrow> byte list \<Rightarrow> 'r \<Rightarrow> snapshot_error + 'r) \<Rightarrow> 'r \<Rightarrow> 's
     \<Rightarrow> snapshot_error + window_shard_reads \<times> 'r" where
  "read_shards client key m win max_bytes note r s =
     res_fold (\<lambda>tenant acc.
         if (case win of None \<Rightarrow> False | Some (t, _) \<Rightarrow> t \<noteq> tenant) then Inr acc
         else res_fold (read_shard_step client key win max_bytes note s tenant) (shards_of m tenant) acc)
       (manifest_tenants m) (\<lparr>wr_listed = 0, wr_read = 0\<rparr>, r)"

definition from_manifest ::
  "'s object_client \<Rightarrow> record_hasher \<Rightarrow> string \<Rightarrow> snapshot_manifest \<Rightarrow> shard_window option \<Rightarrow> nat \<Rightarrow> 's
     \<Rightarrow> snapshot_error + trace_index" where
  "from_manifest client hasher key m win max_bytes s =
     res_bind (read_shards client key m win max_bytes
         (\<lambda>tenant object_key bytes index. map_sum Bad_shard (\<lambda>i. i) (load_shard tenant object_key bytes index))
         trace_index_new s)
       (\<lambda>(reads, index). Inr (finish_load hasher index))"

definition load_latest_snapshot ::
  "'s object_client \<Rightarrow> record_hasher \<Rightarrow> string \<Rightarrow> nat \<Rightarrow> 's \<Rightarrow> snapshot_error + trace_index" where
  "load_latest_snapshot client hasher key max_bytes s =
     res_bind (read_latest_snapshot_manifest client key max_bytes trace_snapshot_label s) (\<lambda>found.
       case found of
         None \<Rightarrow> Inl (Nothing_published key)
       | Some m \<Rightarrow> from_manifest client hasher key m None max_bytes s)"

definition load_latest_snapshot_read ::
  "'s object_client \<Rightarrow> record_hasher \<Rightarrow> string \<Rightarrow> shard_window option \<Rightarrow> nat \<Rightarrow> 's \<Rightarrow> snapshot_error + trace_index" where
  "load_latest_snapshot_read client hasher key win max_bytes s =
     res_bind (read_latest_snapshot_manifest client key max_bytes trace_snapshot_label s) (\<lambda>found.
       case found of
         None \<Rightarrow> Inr trace_index_new
       | Some m \<Rightarrow> from_manifest client hasher key m win max_bytes s)"

end
