(* ===== verification/Snapshot_Spec.thy ===== *)
theory Snapshot_Spec
  imports Snapshot_Store Shard_Layout_Spec
begin

text \<open>
  Facts about the names and the grid of a snapshot: the shards of a span are distinct and each meets
  itself, a payload key determines its tenant, span and content, and the key of a generation is read
  back and sorts as the generation does.
\<close>

section \<open>The shards of a span\<close>

lemma div_i64:
  assumes "is_i64 t" and "1 \<le> w"
  shows "is_i64 (t div w)"
proof (cases "0 \<le> t")
  case True
  have "t div w \<le> t" using assms(2) True by (metis div_by_1 zdiv_mono2 zero_less_one)
  moreover have "0 \<le> t div w" using assms(2) True by (simp add: pos_imp_zdiv_nonneg_iff)
  ultimately show ?thesis using assms(1) by (simp add: is_i64_def)
next
  case False
  have "t * w \<le> t * 1" using assms(2) False by (intro mult_left_mono_neg) auto
  then have "t div 1 \<le> t div w" using assms(2) False
    by (metis div_by_1 linorder_not_le zdiv_mono2_neg zero_less_one)
  then have "t \<le> t div w" by simp
  moreover have "t div w \<le> 0" using assms(2) False by (simp add: div_nonpos_pos_le0)
  ultimately show ?thesis using assms(1) by (simp add: is_i64_def)
qed

lemma shard_range_of_ts:
  assumes "is_i64 t" and "1 \<le> w" and "is_i64 w"
  shows "ir_start (shard_range_of_slot (t div w) w) \<le> t \<and> t \<le> ir_end (shard_range_of_slot (t div w) w)
     \<and> is_i64 (ir_start (shard_range_of_slot (t div w) w)) \<and> is_i64 (ir_end (shard_range_of_slot (t div w) w))"
proof -
  have "is_i64 (str_start (shard_range slot w))" "is_i64 (str_end (shard_range slot w))" for slot
    by (simp_all add: shard_range_def Let_def checked_mul_def saturating_add_def) (simp add: is_i64_def)
  then show ?thesis using shard_range_contains [OF assms] by (simp add: shard_range_of_slot_def Let_def)
qed

text \<open>A slot between the slots of two timestamps holds a timestamp.\<close>

lemma slot_has_ts:
  assumes "is_i64 a" and "is_i64 b" and "1 \<le> w" and "a div w \<le> slot" and "slot \<le> b div w"
  shows "\<exists>t. is_i64 t \<and> t div w = slot"
proof (cases "slot = a div w")
  case True
  then show ?thesis using assms(1) by blast
next
  case False
  then have "a div w + 1 \<le> slot" using assms(4) by simp
  then have "(a div w + 1) * w \<le> slot * w" using assms(3) by (intro mult_right_mono) auto
  moreover have "a < (a div w + 1) * w" using assms(3) by (simp add: algebra_simps minus_mod_eq_mult_div [symmetric])
  moreover have "slot * w \<le> b div w * w" using assms(3,5) by (intro mult_right_mono) auto
  moreover have "b div w * w \<le> b" using assms(3) by (simp add: minus_mod_eq_div_mult [symmetric])
  ultimately have "is_i64 (slot * w)" using assms(1,2) by (auto simp: is_i64_def)
  then show ?thesis using assms(3) by (intro exI [of _ "slot * w"]) simp
qed

lemma slot_range_start:
  assumes "is_i64 t" and "1 \<le> w" and "is_i64 w"
  shows "ir_start (shard_range_of_slot (t div w) w) div w = t div w \<or> ir_start (shard_range_of_slot (t div w) w) = i64_min \<and> t div w = i64_min div w"
proof (cases "is_i64 (t div w * w)")
  case True
  then show ?thesis using assms(2) by (simp add: shard_range_of_slot_def shard_range_def Let_def checked_mul_def)
next
  case False
  have lo: "t div w * w \<le> t" using assms(2) by (simp add: minus_mod_eq_div_mult [symmetric])
  then have "t div w * w < i64_min" using False assms(1) by (auto simp: is_i64_def)
  moreover have "i64_min < (t div w + 1) * w"
  proof -
    have "t < (t div w + 1) * w" using assms(2) by (simp add: algebra_simps minus_mod_eq_mult_div [symmetric])
    then show ?thesis using assms(1) by (simp add: is_i64_def)
  qed
  ultimately have "i64_min div w = t div w"
    using assms(2) by (intro int_div_pos_eq [where r = "i64_min - t div w * w"]) (auto simp: algebra_simps)
  then show ?thesis using False
    by (simp add: shard_range_of_slot_def shard_range_def Let_def checked_mul_def)
qed

lemma slot_ranges_differ:
  assumes "is_i64 a" "is_i64 b" and "1 \<le> w" "is_i64 w"
    and "shard_range_of_slot (a div w) w = shard_range_of_slot (b div w) w"
  shows "a div w = b div w"
  using slot_range_start [OF assms(1,3,4)] slot_range_start [OF assms(2,3,4)] unfolding assms(5) by metis

definition ordered_span :: "i64 \<Rightarrow> i64 \<Rightarrow> i64 \<times> i64" where
  "ordered_span a b = (if a > b then (b, a) else (a, b))"

lemma shard_ranges_eq:
  assumes "is_i64 a" "is_i64 b" and "1 \<le> w" and "ordered_span a b = (lo, hi)"
  shows "shard_ranges_for_span a b w =
    (if hi div w - lo div w \<ge> 32 then [unbounded_shard_range] else map (\<lambda>slot. shard_range_of_slot slot w) [lo div w..hi div w])"
proof -
  have span: "is_i64 lo" "is_i64 hi" "lo \<le> hi" "(if a > b then (b, a) else (a, b)) = (lo, hi)"
    using assms by (auto simp: ordered_span_def split: if_splits)
  have w: "max w 1 = w" using assms(3) by simp
  have mono: "lo div w \<le> hi div w" using span(3) assms(3) by (simp add: zdiv_mono1)
  have slots: "bounded_shard_slots (lo div w) (hi div w) max_shard_slots_per_record =
      (if hi div w - lo div w \<ge> 32 then [] else [lo div w..hi div w])"
    using bounded_slots_eq [of "lo div w" "hi div w" 32] div_i64 [OF span(1) assms(3)] div_i64 [OF span(2) assms(3)] mono
    by (simp add: max_shard_slots_per_record_def is_i64_def)
  show ?thesis using mono by (simp add: shard_ranges_for_span_def w span(4) slots)
qed

lemma shard_ranges_props:
  assumes "is_i64 a" "is_i64 b" and "1 \<le> w" "is_i64 w"
  shows "shard_ranges_for_span a b w \<noteq> []" and "distinct (shard_ranges_for_span a b w)"
    and "r \<in> set (shard_ranges_for_span a b w) \<Longrightarrow> ir_start r \<le> ir_end r \<and> is_i64 (ir_start r) \<and> is_i64 (ir_end r)"
proof -
  obtain lo hi where span: "ordered_span a b = (lo, hi)" by fastforce
  then have i64: "is_i64 lo" "is_i64 hi" "lo \<le> hi" using assms by (auto simp: ordered_span_def split: if_splits)
  note eq = shard_ranges_eq [OF assms(1-3) span]
  have mono: "lo div w \<le> hi div w" using i64(3) assms(3) by (simp add: zdiv_mono1)
  show "shard_ranges_for_span a b w \<noteq> []" unfolding eq using mono by simp
  have ts: "\<exists>t. is_i64 t \<and> t div w = slot" if "slot \<in> {lo div w..hi div w}" for slot
    using slot_has_ts [OF i64(1,2) assms(3), of slot] that by simp
  have "inj_on (\<lambda>slot. shard_range_of_slot slot w) {lo div w..hi div w}"
  proof (rule inj_onI)
    fix x y assume xy: "x \<in> {lo div w..hi div w}" "y \<in> {lo div w..hi div w}"
      "shard_range_of_slot x w = shard_range_of_slot y w"
    obtain t u where "is_i64 t" "t div w = x" "is_i64 u" "u div w = y" using ts xy(1,2) by blast
    then show "x = y" using slot_ranges_differ [of t u w] assms(3,4) xy(3) by blast
  qed
  then show "distinct (shard_ranges_for_span a b w)" unfolding eq by (simp add: distinct_map)
  show "ir_start r \<le> ir_end r \<and> is_i64 (ir_start r) \<and> is_i64 (ir_end r)"
    if r: "r \<in> set (shard_ranges_for_span a b w)"
  proof (cases "hi div w - lo div w \<ge> 32")
    case True
    then have "r = unbounded_shard_range" using r unfolding eq by simp
    then show ?thesis by (simp add: unbounded_shard_range_def is_i64_def)
  next
    case False
    then obtain slot where "slot \<in> {lo div w..hi div w}" "r = shard_range_of_slot slot w" 
      using r unfolding eq by auto
    then obtain t where "is_i64 t" "r = shard_range_of_slot (t div w) w" using ts by blast
    then show ?thesis using shard_range_of_ts [OF \<open>is_i64 t\<close> assms(3,4)] by auto
  qed
qed

section \<open>Object names\<close>

lemma append_sep_eq:
  fixes c :: char
  assumes "c \<notin> set a" and "c \<notin> set a'"
  shows "a @ c # b = a' @ c # b' \<longleftrightarrow> a = a' \<and> b = b'"
  using split_once_append [OF assms(1), of b] split_once_append [OF assms(2), of b']
  by (metis option.inject prod.inject)

lemma shard_bound_key_inj:
  assumes "is_i64 a" "is_i64 b" and "shard_bound_key a = shard_bound_key b"
  shows "a = b"
  using parse_shard_bound_key_key [OF assms(1)] parse_shard_bound_key_key [OF assms(2)] assms(3)
  by (metis option.inject)

lemma escape_inj: "escape_object_path_segment t = escape_object_path_segment t' \<Longrightarrow> t = t'"
  using unescape_escape [of t] unescape_escape [of t'] by (metis option.inject)

text \<open>A payload key names its tenant, span and content.\<close>

lemma payload_key_inj:
  assumes eq: "shard_payload_object_key key t r c = shard_payload_object_key key t' r' c'"
    and i64: "is_i64 (ir_start r)" "is_i64 (ir_end r)" "is_i64 (ir_start r')" "is_i64 (ir_end r')"
  shows "t = t' \<and> r = r' \<and> c = c'"
proof -
  have "escape_object_path_segment t @ CHR ''/'' # (''time='' @ shard_bound_key (ir_start r) @ CHR ''-'' # shard_bound_key (ir_end r) @ CHR ''/'' # c @ ''.kbs'')
      = escape_object_path_segment t' @ CHR ''/'' # (''time='' @ shard_bound_key (ir_start r') @ CHR ''-'' # shard_bound_key (ir_end r') @ CHR ''/'' # c' @ ''.kbs'')"
    using eq by (simp add: shard_payload_object_key_def)
  then have t: "escape_object_path_segment t = escape_object_path_segment t'"
    and "shard_bound_key (ir_start r) @ CHR ''-'' # (shard_bound_key (ir_end r) @ CHR ''/'' # c @ ''.kbs'')
      = shard_bound_key (ir_start r') @ CHR ''-'' # (shard_bound_key (ir_end r') @ CHR ''/'' # c' @ ''.kbs'')"
    unfolding append_sep_eq [OF escape_no_slash escape_no_slash] by simp_all
  then have start: "shard_bound_key (ir_start r) = shard_bound_key (ir_start r')"
    and "shard_bound_key (ir_end r) @ CHR ''/'' # c @ ''.kbs'' = shard_bound_key (ir_end r') @ CHR ''/'' # c' @ ''.kbs''"
    unfolding append_sep_eq [OF bound_key_chars(1) bound_key_chars(1)] by simp_all
  then have fin: "shard_bound_key (ir_end r) = shard_bound_key (ir_end r')" and "c = c'"
    unfolding append_sep_eq [OF bound_key_chars(2) bound_key_chars(2)] by simp_all
  moreover have "r = r'"
    using shard_bound_key_inj [OF i64(1,3) start] shard_bound_key_inj [OF i64(2,4) fin]
    by (intro index_shard_range.equality) auto
  ultimately show ?thesis using escape_inj [OF t] by blast
qed

lemma path_filename_append:
  assumes "CHR ''/'' \<notin> set f"
  shows "path_filename (p @ CHR ''/'' # f) = f"
proof -
  have "takeWhile (\<lambda>c. c \<noteq> CHR ''/'') (rev f @ CHR ''/'' # rev p) = rev f"
    using assms by (subst takeWhile_append2) auto
  then show ?thesis by (simp add: path_filename_def)
qed

lemma padded_decimal_chars: "c \<in> set (padded_decimal w n) \<Longrightarrow> digit_value c \<noteq> None"
  using padded_decimal_digits(2) [of w n] unfolding list_all_iff by blast

lemma digit_not: "digit_value (CHR ''/'') = None" "digit_value (CHR ''.'') = None" "digit_value (CHR ''+'') = None"
  by code_simp+

lemma generation_digits:
  assumes "g \<le> usize_max"
  shows "parse_usize (padded_decimal 20 g) = Some g"
proof -
  have "CHR ''+'' \<notin> set (padded_decimal 20 g)" using padded_decimal_chars digit_not(3) by blast
  moreover have "padded_decimal 20 g \<noteq> []" using padded_decimal_digits(1) [of 20 g] by fastforce
  ultimately have "take 1 (padded_decimal 20 g) \<noteq> ''+''" by (cases "padded_decimal 20 g") auto
  then show ?thesis
    using parse_padded [of g 20] assms \<open>padded_decimal 20 g \<noteq> []\<close> by (simp add: parse_usize_def del: One_nat_def)
qed

lemma snapshot_filename: "path_filename (snapshot_key_for_generation key g) = padded_decimal 20 g @ ''.json''"
proof -
  have "CHR ''/'' \<notin> set (padded_decimal 20 g @ ''.json'')" 
    using padded_decimal_chars [of "CHR ''/''" 20 g] digit_not(1) by auto
  from path_filename_append [OF this, of "index_snapshot_prefix_for_key key"]
  show ?thesis by (simp add: snapshot_key_for_generation_def)
qed

lemma strip_suffix_append [simp]: "str_strip_suffix p (s @ p) = Some s"
  by (simp add: str_strip_suffix_def)

text \<open>A generation is read back from its key.\<close>

lemma generation_of_key:
  assumes "g \<le> usize_max"
  shows "snapshot_generation_from_path (snapshot_key_for_generation key g) = Some g"
  unfolding snapshot_generation_from_path_def snapshot_filename using generation_digits [OF assms] by simp

lemma path_extension_file:
  assumes "path_filename path = stem @ CHR ''.'' # ext" and "stem \<noteq> []" and "CHR ''.'' \<notin> set ext"
  shows "path_extension path = Some ext"
proof -
  have "takeWhile (\<lambda>c. c \<noteq> CHR ''.'') (rev ext @ CHR ''.'' # rev stem) = rev ext"
    using assms(3) by (subst takeWhile_append2) auto
  then show ?thesis using assms by (simp add: path_extension_def Let_def)
qed

lemma snapshot_key_json: "has_extension ''json'' (snapshot_key_for_generation key g)"
proof -
  have "padded_decimal 20 g \<noteq> []" using padded_decimal_digits(1) [of 20 g] by fastforce
  then have "path_extension (snapshot_key_for_generation key g) = Some ''json''"
    using path_extension_file [of _ "padded_decimal 20 g" "''json''"] by (simp add: snapshot_filename)
  then show ?thesis by (simp add: has_extension_def)
qed

lemma common_prefix_less:
  fixes p :: "'a::linorder list"
  shows "p @ x < p @ y \<longleftrightarrow> x < y"
  by (induction p) auto

lemma common_suffix_less:
  fixes x :: "'a::linorder list"
  assumes "length x = length y"
  shows "x @ z < y @ z \<longleftrightarrow> x < y"
  using assms by (induction x y rule: list_induct2) auto

lemma snapshot_key_less:
  assumes "g \<le> usize_max" and "h \<le> usize_max"
  shows "snapshot_key_for_generation key g < snapshot_key_for_generation key h \<longleftrightarrow> g < h"
  using assms padded_less [of g 20 h]
  by (simp add: snapshot_key_for_generation_def common_prefix_less common_suffix_less padded_decimal_digits(1))

section \<open>Paths\<close>

text \<open>
  \<open>Path::from\<close> leaves a path of plain, non-empty, non-relative segments as it is.  The keys of an index
  are such paths when its two prefixes are.
\<close>

definition path_byte :: "char \<Rightarrow> bool" where
  "path_byte c \<longleftrightarrow> plain_segment_byte c \<or> c \<in> {CHR ''='', CHR ''!'', CHR ''/''}"

definition normal_path :: "string \<Rightarrow> bool" where
  "normal_path p \<longleftrightarrow> list_all path_byte p \<and> (\<forall>seg \<in> set (split_all (CHR ''/'') p). seg \<notin> {[], ''.'', ''..''})"

definition path_law :: "('s, 'z) object_store_scheme \<Rightarrow> bool" where
  "path_law client \<longleftrightarrow> (\<forall>p. normal_path p \<longrightarrow> os_path client p = p)"

definition normal_key :: "string \<Rightarrow> bool" where
  "normal_key key \<longleftrightarrow> normal_path (index_snapshot_prefix_for_key key) \<and> normal_path (shard_payload_prefix_for_key key)"

lemma split_all_app: "split_all c (a @ c # b) = split_all c a @ split_all c b"
proof (induction a)
  case (Cons d a)
  have "split_all c a \<noteq> []" by (cases a) (auto split: list.split)
  then obtain p ps where "split_all c a = p # ps" by (cases "split_all c a") auto
  then show ?case using Cons by simp
qed simp

lemma normal_path_append: "normal_path (a @ CHR ''/'' # b) \<longleftrightarrow> normal_path a \<and> normal_path b"
  by (auto simp: normal_path_def split_all_app path_byte_def)

lemma normal_segment:
  assumes "list_all path_byte seg" and "CHR ''/'' \<notin> set seg" and "seg \<notin> {[], ''.'', ''..''}"
  shows "normal_path seg"
  using assms by (simp add: normal_path_def split_all_none)

lemma digit_path_byte: "digit_value c \<noteq> None \<Longrightarrow> path_byte c"
  by (auto simp: path_byte_def plain_segment_byte_def is_ascii_alphanumeric_def digit_value_def Let_def split: if_splits)

lemma escape_path_byte: "c \<in> set (escape_object_path_segment v) \<Longrightarrow> path_byte c"
  using escape_chars [of c v] by (auto simp: path_byte_def path_escape_marker_def)

lemma bound_key_path_byte: "c \<in> set (shard_bound_key b) \<Longrightarrow> path_byte c"
  unfolding shard_bound_key_def using padded_decimal_chars digit_path_byte by blast

lemma padded_hex_chars: "c \<in> set (padded_hex w n) \<Longrightarrow> plain_segment_byte c"
proof (induction w arbitrary: n)
  case (Suc w)
  have "n mod 16 \<le> 35" using mod_less_divisor [of 16 n] by simp
  then have "plain_segment_byte (char_of (if n mod 16 < 10 then 48 + n mod 16 else 87 + n mod 16))"
    by (simp add: plain_segment_byte_def is_ascii_alphanumeric_def)
  then show ?case using Suc by auto
qed simp

lemma literal_path_bytes:
  "list_all path_byte ''tenant=''" "list_all path_byte ''time=''" "list_all path_byte ''.kbs''" "list_all path_byte ''.json''"
  "path_byte (CHR ''-'')" "\<not> plain_segment_byte (CHR ''/'')"
  by code_simp+

lemma hex_content: "list_all path_byte (padded_hex 32 n)" "CHR ''/'' \<notin> set (padded_hex 32 n)"
  using padded_hex_chars literal_path_bytes(6) by (auto simp: list_all_iff path_byte_def)

lemma payload_key_normal:
  assumes "normal_path (shard_payload_prefix_for_key key)"
  shows "normal_path (shard_payload_object_key key t r (padded_hex 32 n))"
proof -
  let ?t = "''tenant='' @ escape_object_path_segment t"
  let ?r = "''time='' @ shard_bound_key (ir_start r) @ ''-'' @ shard_bound_key (ir_end r)"
  let ?f = "padded_hex 32 n @ ''.kbs''"
  have "normal_path ?t"
    using escape_path_byte escape_no_slash literal_path_bytes(1) by (intro normal_segment) (auto simp: list_all_iff)
  moreover have "normal_path ?r"
    using bound_key_path_byte bound_key_chars(2) literal_path_bytes(2,5) by (intro normal_segment) (auto simp: list_all_iff)
  moreover have "normal_path ?f"
    using hex_content literal_path_bytes(3) by (intro normal_segment) (auto simp: list_all_iff append_eq_Cons_conv)
  ultimately have "normal_path (shard_payload_prefix_for_key key @ CHR ''/'' # ?t @ CHR ''/'' # ?r @ CHR ''/'' # ?f)"
    using assms by (simp only: normal_path_append append.assoc [symmetric])
  then show ?thesis by (simp add: shard_payload_object_key_def)
qed

lemma snapshot_key_normal:
  assumes "normal_path (index_snapshot_prefix_for_key key)"
  shows "normal_path (snapshot_key_for_generation key g)"
proof -
  have "c \<in> set (padded_decimal 20 g) \<Longrightarrow> path_byte c \<and> c \<noteq> CHR ''/''" for c
    using padded_decimal_chars [of c 20 g] digit_path_byte digit_not(1) by auto
  then have "normal_path (padded_decimal 20 g @ ''.json'')"
    using literal_path_bytes(4) by (intro normal_segment) (auto simp: list_all_iff append_eq_Cons_conv)
  then show ?thesis
    using assms normal_path_append [of "index_snapshot_prefix_for_key key"] by (simp add: snapshot_key_for_generation_def)
qed

definition under_prefix :: "string \<Rightarrow> string \<Rightarrow> bool" where
  "under_prefix prefix p \<longleftrightarrow> (\<exists>rest. p = prefix @ CHR ''/'' # rest)"

lemma payload_under: "under_prefix (shard_payload_prefix_for_key key) (shard_payload_object_key key t r c)"
  by (auto simp: under_prefix_def shard_payload_object_key_def)

lemma snapshot_under: "under_prefix (index_snapshot_prefix_for_key key) (snapshot_key_for_generation key g)"
  by (auto simp: under_prefix_def snapshot_key_for_generation_def)

lemma prefixes_apart: "under_prefix (index_snapshot_prefix_for_key key) p \<Longrightarrow> \<not> under_prefix (shard_payload_prefix_for_key key) p"
  by (auto simp: under_prefix_def index_snapshot_prefix_for_key_def shard_payload_prefix_for_key_def sibling_prefix_def Let_def
      split: option.splits)

end
