(* ===== verification/Snapshot_Store_Spec.thy ===== *)
theory Snapshot_Store_Spec
  imports Snapshot_Spec
begin

text \<open>
  The snapshot protocol over a store that does what its documentation says.  The law names a view of
  the state, the object at each path, and says what each operation returns and does to it.  Under it
  the listing of a prefix that holds only generations is those generations in order, pruning removes
  the oldest, and the sweep leaves every payload that a retained manifest names.
\<close>

section \<open>Effects\<close>

lemma io_bind_ok: "m s = (Inr x, s') \<Longrightarrow> io_bind m f s = f x s'"
  by (simp add: io_bind_def)

lemma io_bind_read: "g s = Inr x \<Longrightarrow> io_bind (io_read g) f s = f x s"
  by (simp add: io_bind_def io_read_def)

lemma io_bind_io_ok [simp]: "io_bind (io_ok x) f = f x"
  by (simp add: io_bind_def io_ok_def fun_eq_iff)

lemma io_fold_ok:
  assumes "P [] acc s"
    and step: "\<And>before x after acc s. xs = before @ x # after \<Longrightarrow> P before acc s
      \<Longrightarrow> \<exists>acc' s'. f x acc s = (Inr acc', s') \<and> P (before @ [x]) acc' s'"
  shows "\<exists>acc' s'. io_fold f xs acc s = (Inr acc', s') \<and> P xs acc' s'"
proof -
  have "\<exists>acc' s'. io_fold f ys acc s = (Inr acc', s') \<and> P (before @ ys) acc' s'"
    if "P before acc s" "xs = before @ ys" for before ys acc s
    using that
  proof (induction ys arbitrary: before acc s)
    case (Cons y ys)
    from step [OF Cons.prems(2,1)] obtain acc1 s1 where "f y acc s = (Inr acc1, s1)" "P (before @ [y]) acc1 s1" by blast
    then show ?case using Cons.IH [of "before @ [y]"] Cons.prems(2) by (simp add: io_bind_ok)
  qed simp
  from this [of "[]" acc s xs] assms(1) show ?thesis by simp
qed

section \<open>The store\<close>

type_synonym 's object_view = "'s \<Rightarrow> string \<Rightarrow> byte list option"

definition listing_law :: "('s, 'z) object_client_scheme \<Rightarrow> 's object_view \<Rightarrow> bool" where
  "listing_law client view \<longleftrightarrow> (\<forall>prefix s. \<exists>listed. os_list client prefix s = map Inr listed
     \<and> distinct (map om_location listed) \<and> om_location ` set listed = {p \<in> dom (view s). under_prefix prefix p})"

definition read_law :: "('s, 'z) object_client_scheme \<Rightarrow> 's object_view \<Rightarrow> bool" where
  "read_law client view \<longleftrightarrow> (\<forall>p cap s. oc_read client p cap s = (case view s p of
       None \<Rightarrow> Inl Capped_not_found
     | Some b \<Rightarrow> if length b \<le> cap then Inr b else Inl (Capped_too_large (length b) cap)))"

definition put_law :: "('s, 'z) object_client_scheme \<Rightarrow> 's object_view \<Rightarrow> bool" where
  "put_law client view \<longleftrightarrow> (\<forall>p b s. \<exists>s'. oc_put client p b s = (Inr (), s') \<and> view s' = (view s)(p \<mapsto> b))"

definition create_law :: "('s, 'z) object_client_scheme \<Rightarrow> 's object_view \<Rightarrow> bool" where
  "create_law client view \<longleftrightarrow> (\<forall>p b s.
     if view s p = None then \<exists>s'. oc_create client p b s = (Inr (), s') \<and> view s' = (view s)(p \<mapsto> b)
     else oc_create client p b s = (Inl Store_already_exists, s))"

definition remove_law :: "('s, 'z) object_client_scheme \<Rightarrow> 's object_view \<Rightarrow> bool" where
  "remove_law client view \<longleftrightarrow> (\<forall>p s. \<exists>r s'. os_delete client p s = (r, s') \<and> r \<in> {Deleted, Not_found}
     \<and> view s' = (view s)(p := None))"

definition update_law :: "('s, 'z) object_client_scheme \<Rightarrow> 's object_view \<Rightarrow> bool" where
  "update_law client view \<longleftrightarrow> (\<forall>p b v s. \<exists>r s'. oc_update client p b v s = (r, s')
     \<and> (r = Inr () \<and> view s' = (view s)(p \<mapsto> b) \<or> r = Inl Store_precondition \<and> view s' = view s))"

definition reliable_store :: "('s, 'z) object_client_scheme \<Rightarrow> 's object_view \<Rightarrow> bool" where
  "reliable_store client view \<longleftrightarrow> path_law client \<and> listing_law client view \<and> read_law client view
     \<and> put_law client view \<and> create_law client view \<and> remove_law client view \<and> update_law client view"

lemma reliable_storeD:
  assumes "reliable_store client view"
  shows "path_law client" "listing_law client view"
    and "view s p = Some b \<Longrightarrow> length b \<le> cap \<Longrightarrow> oc_read client p cap s = Inr b"
    and "\<exists>s'. oc_put client p b s = (Inr (), s') \<and> view s' = (view s)(p \<mapsto> b)"
    and "view s p = None \<Longrightarrow> \<exists>s'. oc_create client p b s = (Inr (), s') \<and> view s' = (view s)(p \<mapsto> b)"
    and "view s p \<noteq> None \<Longrightarrow> oc_create client p b s = (Inl Store_already_exists, s)"
    and "\<exists>r s'. os_delete client p s = (r, s') \<and> r \<in> {Deleted, Not_found} \<and> view s' = (view s)(p := None)"
    and "\<exists>r s'. oc_update client p b v s = (r, s')
            \<and> (r = Inr () \<and> view s' = (view s)(p \<mapsto> b) \<or> r = Inl Store_precondition \<and> view s' = view s)"
proof -
  have laws: "path_law client" "listing_law client view" "read_law client view" "put_law client view"
      "create_law client view" "remove_law client view" "update_law client view"
    using assms by (simp_all add: reliable_store_def)
  show "path_law client" "listing_law client view" by (fact laws)+
  show "view s p = Some b \<Longrightarrow> length b \<le> cap \<Longrightarrow> oc_read client p cap s = Inr b"
    using laws(3) by (simp add: read_law_def)
  show "\<exists>s'. oc_put client p b s = (Inr (), s') \<and> view s' = (view s)(p \<mapsto> b)"
    using laws(4) unfolding put_law_def by blast
  note create = laws(5) [unfolded create_law_def, rule_format, of s p b]
  then show "view s p = None \<Longrightarrow> \<exists>s'. oc_create client p b s = (Inr (), s') \<and> view s' = (view s)(p \<mapsto> b)"
    "view s p \<noteq> None \<Longrightarrow> oc_create client p b s = (Inl Store_already_exists, s)" by (simp_all del: fun_upd_apply)
  show "\<exists>r s'. os_delete client p s = (r, s') \<and> r \<in> {Deleted, Not_found} \<and> view s' = (view s)(p := None)"
    using laws(6) unfolding remove_law_def by blast
  show "\<exists>r s'. oc_update client p b v s = (r, s')
      \<and> (r = Inr () \<and> view s' = (view s)(p \<mapsto> b) \<or> r = Inl Store_precondition \<and> view s' = view s)"
    using laws(7) unfolding update_law_def by blast
qed

definition json_law :: "('s, 'z) object_client_scheme \<Rightarrow> bool" where
  "json_law client \<longleftrightarrow> (\<forall>m. \<exists>bytes. oc_to_json client m = Inr bytes \<and> oc_from_json client bytes = Inr m)"

section \<open>Listing the generations\<close>

definition generations :: "'s object_view \<Rightarrow> string \<Rightarrow> 's \<Rightarrow> nat set" where
  "generations view key s = {g. g \<le> usize_max \<and> view s (snapshot_key_for_generation key g) \<noteq> None}"

definition only_generations :: "'s object_view \<Rightarrow> string \<Rightarrow> 's \<Rightarrow> bool" where
  "only_generations view key s \<longleftrightarrow>
     (\<forall>p \<in> dom (view s). under_prefix (index_snapshot_prefix_for_key key) p \<longrightarrow> (\<exists>g \<le> usize_max. p = snapshot_key_for_generation key g))"

lemma snapshot_key_inj:
  assumes "g \<le> usize_max" "h \<le> usize_max" and "snapshot_key_for_generation key g = snapshot_key_for_generation key h"
  shows "g = h"
  using snapshot_key_less [OF assms(1,2), of key] snapshot_key_less [OF assms(2,1), of key] assms(3)
  by (metis less_irrefl linorder_neqE_nat)

lemma collect_listing_ok: "collect_listing keep (map Inr listed) = Inr (filter keep listed)"
  by (induction listed) auto

lemma finite_generations: "finite (generations view key s)"
  by (rule finite_subset [of _ "{..usize_max}"]) (auto simp: generations_def)

lemma sorted_snapshot_keys:
  assumes "distinct gs" and "sorted gs" and "\<forall>g \<in> set gs. g \<le> usize_max"
  shows "sorted (map (snapshot_key_for_generation key) gs)" and "distinct (map (snapshot_key_for_generation key) gs)"
proof -
  have "sorted_wrt (<) gs" using assms(1,2) by (simp add: strict_sorted_iff)
  then have "sorted_wrt (<) (map (snapshot_key_for_generation key) gs)"
    unfolding sorted_wrt_map
  proof (rule sorted_wrt_mono_rel [rotated])
    show "snapshot_key_for_generation key g < snapshot_key_for_generation key h"
      if "g \<in> set gs" "h \<in> set gs" "g < h" for g h
      using that snapshot_key_less [of g h key] assms(3) by simp
  qed
  then show "sorted (map (snapshot_key_for_generation key) gs)" "distinct (map (snapshot_key_for_generation key) gs)"
    by (simp_all add: strict_sorted_iff)
qed

lemma list_snapshots:
  assumes law: "reliable_store client view" and key: "normal_key key" and clean: "only_generations view key s"
  shows "\<exists>objects. list_index_snapshot_objects client key s = Inr objects
    \<and> map om_location objects = map (snapshot_key_for_generation key) (sorted_list_of_set (generations view key s))"
proof -
  let ?p = "index_snapshot_prefix_for_key key" and ?gs = "sorted_list_of_set (generations view key s)"
  let ?keys = "map (snapshot_key_for_generation key) ?gs"
  have path: "os_path client ?p = ?p"
    using reliable_storeD(1) [OF law] key by (simp add: path_law_def normal_key_def)
  obtain listed where listed: "os_list client ?p s = map Inr listed" "distinct (map om_location listed)"
      "om_location ` set listed = {p \<in> dom (view s). under_prefix ?p p}"
    using reliable_storeD(2) [OF law] unfolding listing_law_def by blast
  have keys: "set ?keys = snapshot_key_for_generation key ` generations view key s"
    by (simp add: finite_generations)
  have "{p \<in> dom (view s). under_prefix ?p p} = snapshot_key_for_generation key ` generations view key s"
  proof (intro equalityI subsetI)
    fix p assume p: "p \<in> {p \<in> dom (view s). under_prefix ?p p}"
    then obtain g where "g \<le> usize_max" "p = snapshot_key_for_generation key g"
      using clean unfolding only_generations_def by blast
    with p show "p \<in> snapshot_key_for_generation key ` generations view key s"
      by (intro image_eqI [where x = g]) (auto simp: generations_def)
  next
    fix p assume "p \<in> snapshot_key_for_generation key ` generations view key s"
    then show "p \<in> {p \<in> dom (view s). under_prefix ?p p}" using snapshot_under by (auto simp: generations_def dom_def)
  qed
  then have locs: "om_location ` set listed = set ?keys" unfolding listed(3) keys .
  have "has_extension ''json'' (om_location meta)" if "meta \<in> set listed" for meta
  proof -
    have "om_location meta \<in> snapshot_key_for_generation key ` generations view key s"
      using imageI [OF that, of om_location] unfolding locs keys .
    then show ?thesis by (elim imageE) (simp only: snapshot_key_json)
  qed
  then have "filter (\<lambda>meta. has_extension ''json'' (om_location meta)) listed = listed" by (simp add: filter_id_conv)
  then have list: "list_index_snapshot_objects client key s = Inr (sort_key om_location listed)"
    by (simp add: list_index_snapshot_objects_def path listed(1) collect_listing_ok)
  have "\<forall>g \<in> set ?gs. g \<le> usize_max" by (simp add: finite_generations) (simp add: generations_def)
  then have ks: "sorted ?keys" "distinct ?keys"
    by (rule sorted_snapshot_keys [OF distinct_sorted_list_of_set sorted_sorted_list_of_set])+
  have "map om_location (sort_key om_location listed) = ?keys"
  proof (rule sorted_distinct_set_unique)
    show "distinct (map om_location (sort_key om_location listed))" using listed(2) by (simp add: distinct_map)
    show "set (map om_location (sort_key om_location listed)) = set ?keys" unfolding locs [symmetric] by simp
    show "sorted (map om_location (sort_key om_location listed))" by simp
  qed (fact ks)+
  then show ?thesis using list by blast
qed

section \<open>Reading the newest generation\<close>

definition stored_manifest ::
  "('s, 'z) object_client_scheme \<Rightarrow> 's object_view \<Rightarrow> string \<Rightarrow> nat \<Rightarrow> 's \<Rightarrow> nat \<Rightarrow> snapshot_manifest \<Rightarrow> bool" where
  "stored_manifest client view key max_bytes s g m \<longleftrightarrow>
     (\<exists>bytes. view s (snapshot_key_for_generation key g) = Some bytes \<and> length bytes \<le> max_bytes
        \<and> oc_from_json client bytes = Inr m \<and> sm_version m = snapshot_manifest_version)"

lemma stored_manifest_read:
  assumes "reliable_store client view" and "stored_manifest client view key max_bytes s g m"
  shows "\<exists>bytes. read_index_snapshot_bytes client (snapshot_key_for_generation key g) max_bytes label s = Inr (Present bytes)
    \<and> manifest_from_bytes client label bytes = Inr m"
proof -
  obtain bytes where "view s (snapshot_key_for_generation key g) = Some bytes" "length bytes \<le> max_bytes"
      "oc_from_json client bytes = Inr m" "sm_version m = snapshot_manifest_version"
    using assms(2) unfolding stored_manifest_def by blast
  then show ?thesis
    using reliable_storeD(3) [OF assms(1), of s "snapshot_key_for_generation key g" bytes max_bytes]
    by (intro exI [of _ bytes]) (simp add: read_index_snapshot_bytes_def manifest_from_bytes_def)
qed

lemma newest_of_sorted:
  assumes "finite G" and "G \<noteq> {}"
  shows "List.last (sorted_list_of_set G) = Max G"
proof -
  let ?l = "sorted_list_of_set G"
  have ne: "?l \<noteq> []" using assms by simp
  have split: "?l = butlast ?l @ [List.last ?l]" using ne by simp
  have "sorted (butlast ?l @ [List.last ?l])" unfolding split [symmetric] by simp
  then have "\<forall>g \<in> set (butlast ?l @ [List.last ?l]). g \<le> List.last ?l" unfolding sorted_append by auto
  then have "\<forall>g \<in> set ?l. g \<le> List.last ?l" unfolding split [symmetric] .
  moreover have "set ?l = G" using assms(1) by simp
  ultimately show ?thesis using last_in_set [OF ne] assms(1) by (intro Max_eqI [symmetric]) auto
qed

lemma newest_object:
  assumes law: "reliable_store client view" and key: "normal_key key" and clean: "only_generations view key s"
  shows "\<exists>objects. list_index_snapshot_objects client key s = Inr objects
    \<and> map_option om_location (pop_back objects)
        = (if generations view key s = {} then None else Some (snapshot_key_for_generation key (Max (generations view key s))))"
proof -
  obtain objects where obj: "list_index_snapshot_objects client key s = Inr objects"
      "map om_location objects = map (snapshot_key_for_generation key) (sorted_list_of_set (generations view key s))"
    using list_snapshots [OF assms] by blast
  have "om_location (List.last objects) = snapshot_key_for_generation key (Max (generations view key s))"
    if "generations view key s \<noteq> {}"
  proof -
    have "sorted_list_of_set (generations view key s) \<noteq> []" using that finite_generations [of view key s] by simp
    then show ?thesis
      using arg_cong [OF obj(2), of List.last] newest_of_sorted [OF finite_generations that] obj(2)
      by (metis last_map list.map_disc_iff)
  qed
  moreover have "objects = [] \<longleftrightarrow> generations view key s = {}"
    using arg_cong [OF obj(2), of length] finite_generations [of view key s] by (auto simp flip: length_0_conv)
  ultimately show ?thesis using obj(1) by (simp add: pop_back_def)
qed

lemma latest_manifest:
  assumes law: "reliable_store client view" and key: "normal_key key" and clean: "only_generations view key s"
  shows "generations view key s = {} \<Longrightarrow> read_latest_snapshot_manifest client key max_bytes label s = Inr None"
    and "generations view key s = {} \<Longrightarrow>
      read_manifest_snapshot_base client key max_bytes label s = Inr (Some \<lparr>mb_manifest = None, mb_next_generation = 0\<rparr>)"
    and "generations view key s \<noteq> {} \<Longrightarrow> stored_manifest client view key max_bytes s (Max (generations view key s)) m
      \<Longrightarrow> read_latest_snapshot_manifest client key max_bytes label s = Inr (Some m)"
    and "generations view key s \<noteq> {} \<Longrightarrow> stored_manifest client view key max_bytes s (Max (generations view key s)) m
      \<Longrightarrow> read_manifest_snapshot_base client key max_bytes label s
        = Inr (Some \<lparr>mb_manifest = Some m, mb_next_generation = usize_saturating_add (Max (generations view key s)) 1\<rparr>)"
proof -
  let ?G = "generations view key s" and ?k = "snapshot_key_for_generation key (Max (generations view key s))"
  obtain objects where obj: "list_index_snapshot_objects client key s = Inr objects"
      "map_option om_location (pop_back objects) = (if ?G = {} then None else Some ?k)"
    using newest_object [OF assms] by blast
  show "?G = {} \<Longrightarrow> read_latest_snapshot_manifest client key max_bytes label s = Inr None"
    using obj by (simp add: read_latest_snapshot_manifest_def latest_index_snapshot_path_def)
  show "?G = {} \<Longrightarrow> read_manifest_snapshot_base client key max_bytes label s = Inr (Some \<lparr>mb_manifest = None, mb_next_generation = 0\<rparr>)"
    using obj by (simp add: read_manifest_snapshot_base_def newest_snapshot_def read_base_manifest_def)
  assume ne: "?G \<noteq> {}" and m: "stored_manifest client view key max_bytes s (Max ?G) m"
  obtain bytes where read: "read_index_snapshot_bytes client ?k max_bytes label s = Inr (Present bytes)"
      "manifest_from_bytes client label bytes = Inr m"
    using stored_manifest_read [OF law m] by blast
  have "Max ?G \<in> ?G" using Max_in [OF finite_generations ne] .
  then have gen: "snapshot_generation_from_path ?k = Some (Max ?G)"
    using generation_of_key [of "Max ?G" key] by (simp add: generations_def)
  obtain meta where meta: "pop_back objects = Some meta" "om_location meta = ?k" using obj(2) ne by auto
  show "read_latest_snapshot_manifest client key max_bytes label s = Inr (Some m)"
    using obj(1) meta read by (simp add: read_latest_snapshot_manifest_def latest_index_snapshot_path_def)
  show "read_manifest_snapshot_base client key max_bytes label s
      = Inr (Some \<lparr>mb_manifest = Some m, mb_next_generation = usize_saturating_add (Max ?G) 1\<rparr>)"
    using obj(1) meta gen read by (simp add: read_manifest_snapshot_base_def newest_snapshot_def read_base_manifest_def)
qed

section \<open>Pruning\<close>

definition stale_generations :: "'s object_view \<Rightarrow> string \<Rightarrow> nat \<Rightarrow> 's \<Rightarrow> nat set" where
  "stale_generations view key retain s =
     set (take (card (generations view key s) - retain) (sorted_list_of_set (generations view key s)))"

lemma delete_all:
  assumes "reliable_store client view"
  shows "\<exists>s'. io_fold (\<lambda>path _. delete_snapshot client path) paths () s = (Inr (), s')
    \<and> view s' = (\<lambda>p. if p \<in> set paths then None else view s p)"
proof -
  let ?P = "\<lambda>before (_ :: unit) s'. view s' = (\<lambda>p. if p \<in> set before then None else view s p)"
  have "\<exists>acc' s'. io_fold (\<lambda>path _. delete_snapshot client path) paths () s = (Inr acc', s') \<and> ?P paths acc' s'"
  proof (rule io_fold_ok)
    fix before x after acc s1 assume P: "?P before acc s1"
    obtain r s2 where del: "os_delete client x s1 = (r, s2)" "r \<in> {Deleted, Not_found}" "view s2 = (view s1)(x := None)"
      using reliable_storeD(7) [OF assms, of x s1] by blast
    have "delete_snapshot client x s1 = (Inr (), s2)" using del(1,2) by (auto simp: delete_snapshot_def)
    moreover have "?P (before @ [x]) acc s2" using P del(3) by (simp add: fun_eq_iff)
    ultimately show "\<exists>acc' s'. delete_snapshot client x s1 = (Inr acc', s') \<and> ?P (before @ [x]) acc' s'"
      by (intro exI [of _ "()"] exI [of _ s2]) simp
  qed simp
  then show ?thesis by simp
qed

lemma prune_ok:
  assumes law: "reliable_store client view" and key: "normal_key key" and clean: "only_generations view key s"
  shows "\<exists>s'. prune_old_index_snapshots client key retain s = (Inr (), s')
    \<and> view s' = (\<lambda>p. if p \<in> snapshot_key_for_generation key ` stale_generations view key retain s then None else view s p)"
proof -
  let ?gs = "sorted_list_of_set (generations view key s)"
  obtain objects where obj: "list_index_snapshot_objects client key s = Inr objects"
      "map om_location objects = map (snapshot_key_for_generation key) ?gs"
    using list_snapshots [OF assms] by blast
  have len: "length objects = card (generations view key s)"
    using arg_cong [OF obj(2), of length] by (simp add: finite_generations)
  have "stale_snapshots client key retain s
      = Inr (map (snapshot_key_for_generation key) (take (card (generations view key s) - retain) ?gs))"
    using obj(1) arg_cong [OF obj(2), of "take (card (generations view key s) - retain)"]
    by (simp add: stale_snapshots_def len take_map)
  then show ?thesis
    using delete_all [OF law, of "map (snapshot_key_for_generation key) (take (card (generations view key s) - retain) ?gs)" s]
    by (simp add: prune_old_index_snapshots_def io_bind_read stale_generations_def)
qed

lemma prune_keeps_newest:
  assumes "1 \<le> retain" and "generations view key s \<noteq> {}"
  shows "Max (generations view key s) \<notin> stale_generations view key retain s"
proof -
  let ?gs = "sorted_list_of_set (generations view key s)" and ?n = "card (generations view key s)"
  have len: "length ?gs = ?n" by simp
  have ne: "?gs \<noteq> []" using assms(2) finite_generations [of view key s] by simp
  have "Max (generations view key s) = ?gs ! (?n - 1)"
    using newest_of_sorted [OF finite_generations assms(2)] last_conv_nth [OF ne] len by simp
  moreover have "?gs ! (?n - 1) \<notin> set (take (?n - retain) ?gs)"
  proof
    assume "?gs ! (?n - 1) \<in> set (take (?n - retain) ?gs)"
    then obtain i where i: "i < ?n - retain" "?gs ! i = ?gs ! (?n - 1)" by (auto simp: in_set_conv_nth)
    then have "i = ?n - 1" using nth_eq_iff_index_eq [of ?gs i "?n - 1"] len by simp
    then show False using i(1) assms(1) by simp
  qed
  ultimately show ?thesis by (simp add: stale_generations_def)
qed

section \<open>Sweeping\<close>

lemma sweep_pass:
  assumes law: "reliable_store client view"
  shows "\<exists>n s'. io_fold (\<lambda>meta reclaimed. io_bind (reclaim_if_unchanged client meta)
        (\<lambda>done. io_ok (if done then reclaimed + 1 else reclaimed))) stale (0 :: nat) s = (Inr n, s')
    \<and> (\<forall>p. view s' p = view s p \<or> p \<in> om_location ` set stale \<and> view s' p = Some [])"
proof -
  let ?f = "\<lambda>meta reclaimed. io_bind (reclaim_if_unchanged client meta)
      (\<lambda>done. io_ok (if done then reclaimed + 1 else reclaimed :: nat))"
  let ?P = "\<lambda>(before :: object_meta list) (_ :: nat) s'. \<forall>p. view s' p = view s p \<or> p \<in> om_location ` set stale \<and> view s' p = Some []"
  have "\<exists>n s'. io_fold ?f stale 0 s = (Inr n, s') \<and> ?P stale n s'"
  proof (rule io_fold_ok [where P = ?P])
    fix before x after n s1 assume "stale = before @ x # after" and P: "?P before n s1"
    then have x: "x \<in> set stale" by simp
    obtain r s2 where up: "oc_update client (om_location x) [] (om_version x) s1 = (r, s2)"
        "r = Inr () \<and> view s2 = (view s1)(om_location x \<mapsto> []) \<or> r = Inl Store_precondition \<and> view s2 = view s1"
      using reliable_storeD(8) [OF law] by blast
    from up(2) show "\<exists>n' s'. ?f x n s1 = (Inr n', s') \<and> ?P (before @ [x]) n' s'"
    proof (elim disjE conjE)
      assume r: "r = Inr ()" "view s2 = (view s1)(om_location x \<mapsto> [])"
      have "?f x n s1 = (Inr (n + 1), s2)" using up(1) r(1) by (simp add: reclaim_if_unchanged_def io_bind_def io_ok_def)
      moreover have "?P (before @ [x]) (n + 1) s2" using P x r(2) by auto
      ultimately show ?thesis by blast
    next
      assume r: "r = Inl Store_precondition" "view s2 = view s1"
      have "?f x n s1 = (Inr n, s2)" using up(1) r(1) by (simp add: reclaim_if_unchanged_def io_bind_def io_ok_def)
      then show ?thesis using P r(2) by (intro exI [of _ n] exI [of _ s2]) simp
    qed
  qed simp
  then show ?thesis by simp
qed

lemma referenced_ok:
  assumes law: "reliable_store client view"
    and "map om_location objects = map (snapshot_key_for_generation key) gs"
    and "\<forall>g \<in> set gs. stored_manifest client view key max_bytes s g (M g)"
  shows "\<exists>refs. referenced_payloads client key max_bytes label s objects init = Inr refs
    \<and> set refs = set init \<union> (\<Union>g \<in> set gs. set (payload_object_keys key (M g)))"
  using assms(2,3)
proof (induction objects arbitrary: gs init)
  case (Cons meta objects)
  then obtain g gs' where gs: "gs = g # gs'" "om_location meta = snapshot_key_for_generation key g"
      "map om_location objects = map (snapshot_key_for_generation key) gs'" by (cases gs) auto
  obtain bytes where "read_index_snapshot_bytes client (om_location meta) max_bytes label s = Inr (Present bytes)"
      "manifest_from_bytes client label bytes = Inr (M g)"
    using stored_manifest_read [OF law, of key max_bytes s g "M g" label] Cons.prems(2) gs by auto
  then show ?case
    using Cons.IH [OF gs(3), of "bs_extend (payload_object_keys key (M g)) init"] Cons.prems(2) gs(1) by auto
qed simp

definition manifests_readable ::
  "('s, 'z) object_client_scheme \<Rightarrow> 's object_view \<Rightarrow> string \<Rightarrow> nat \<Rightarrow> 's \<Rightarrow> bool" where
  "manifests_readable client view key max_bytes s \<longleftrightarrow>
     (\<forall>g \<in> generations view key s. \<exists>m. stored_manifest client view key max_bytes s g m)"

lemma sweep_ok:
  assumes law: "reliable_store client view" and key: "normal_key key" and clean: "only_generations view key s"
    and read: "manifests_readable client view key max_bytes s"
  shows "\<exists>n s'. sweep_orphan_shard_payloads client key max_bytes label grace s = (Inr n, s')
    \<and> (\<forall>p. \<not> under_prefix (shard_payload_prefix_for_key key) p \<longrightarrow> view s' p = view s p)
    \<and> (\<forall>g \<in> generations view key s. \<forall>m. stored_manifest client view key max_bytes s g m
          \<longrightarrow> (\<forall>p \<in> set (payload_object_keys key m). view s' p = view s p))"
proof -
  let ?G = "generations view key s" and ?pp = "shard_payload_prefix_for_key key"
  obtain M where M: "\<forall>g \<in> ?G. stored_manifest client view key max_bytes s g (M g)"
    using bchoice [OF read [unfolded manifests_readable_def]] by blast
  then have stored: "stored_manifest client view key max_bytes s g (M g)" if "g \<in> ?G" for g
    using that by blast
  have unique: "m = M g" if "g \<in> ?G" "stored_manifest client view key max_bytes s g m" for g m
    using stored [OF that(1)] that(2) unfolding stored_manifest_def by auto
  obtain objects where obj: "list_index_snapshot_objects client key s = Inr objects"
      "map om_location objects = map (snapshot_key_for_generation key) (sorted_list_of_set ?G)"
    using list_snapshots [OF law key clean] by blast
  obtain refs where refs: "referenced_payloads client key max_bytes label s objects [] = Inr refs"
      "set refs = (\<Union>g \<in> ?G. set (payload_object_keys key (M g)))"
    using referenced_ok [OF law obj(2), of max_bytes s M label "[]"] M by (simp add: finite_generations) blast
  obtain listed where listed: "os_list client ?pp s = map Inr listed"
      "om_location ` set listed = {p \<in> dom (view s). under_prefix ?pp p}"
    using reliable_storeD(2) [OF law] unfolding listing_law_def by blast
  have path: "os_path client ?pp = ?pp"
    using reliable_storeD(1) [OF law] key by (simp add: path_law_def normal_key_def)
  let ?stale = "filter (stale_payload key refs (sweep_cutoff (oc_now client) grace)) listed"
  have "stale_payloads client key max_bytes label grace s = Inr ?stale"
    by (simp add: stale_payloads_def obj(1) refs(1) path listed(1) collect_listing_ok)
  then have sweep: "sweep_orphan_shard_payloads client key max_bytes label grace s
      = io_fold (\<lambda>meta reclaimed. io_bind (reclaim_if_unchanged client meta)
          (\<lambda>done. io_ok (if done then reclaimed + 1 else reclaimed))) ?stale 0 s"
    by (simp add: sweep_orphan_shard_payloads_def io_bind_read)
  obtain n s' where pass: "sweep_orphan_shard_payloads client key max_bytes label grace s = (Inr n, s')"
      "\<forall>p. view s' p = view s p \<or> p \<in> om_location ` set ?stale \<and> view s' p = Some []"
    using sweep_pass [OF law, of ?stale s] unfolding sweep by blast
  have stale: "under_prefix ?pp p \<and> p \<notin> set refs" if "p \<in> om_location ` set ?stale" for p
    using that listed(2) by (auto simp: stale_payload_def)
  have frame: "view s' p = view s p" if "\<not> under_prefix ?pp p \<or> p \<in> set refs" for p
    using pass(2) stale that by blast
  have "view s' p = view s p"
    if "g \<in> ?G" "stored_manifest client view key max_bytes s g m" "p \<in> set (payload_object_keys key m)" for g m p
    using frame [of p] that unique [OF that(1,2)] unfolding refs(2) by blast
  with pass(1) frame show ?thesis by blast
qed

section \<open>The base of a publication\<close>

lemma stored_manifest_cong:
  assumes "view s' (snapshot_key_for_generation key g) = view s (snapshot_key_for_generation key g)"
  shows "stored_manifest client view key max_bytes s' g m \<longleftrightarrow> stored_manifest client view key max_bytes s g m"
  by (simp add: stored_manifest_def assms)

text \<open>The base a save starts from, and the generation it claims.\<close>

definition published_base ::
  "('s, 'z) object_client_scheme \<Rightarrow> 's object_view \<Rightarrow> string \<Rightarrow> nat \<Rightarrow> 's \<Rightarrow> snapshot_manifest option \<Rightarrow> bool" where
  "published_base client view key max_bytes s base \<longleftrightarrow>
     (case base of
        None \<Rightarrow> generations view key s = {}
      | Some m \<Rightarrow> generations view key s \<noteq> {} \<and> Max (generations view key s) < usize_max
          \<and> stored_manifest client view key max_bytes s (Max (generations view key s)) m)"

definition next_generation :: "'s object_view \<Rightarrow> string \<Rightarrow> 's \<Rightarrow> nat" where
  "next_generation view key s = (if generations view key s = {} then 0 else Max (generations view key s) + 1)"

lemma next_generation_fresh:
  assumes "published_base client view key max_bytes s base"
  shows "next_generation view key s \<le> usize_max" and "next_generation view key s \<notin> generations view key s"
    and "g \<in> generations view key s \<Longrightarrow> g < next_generation view key s"
proof -
  have below: "g < next_generation view key s" if "g \<in> generations view key s" for g
    using that Max_ge [OF finite_generations that] by (auto simp: next_generation_def)
  then show "next_generation view key s \<notin> generations view key s"
    and "g \<in> generations view key s \<Longrightarrow> g < next_generation view key s" by blast+
  show "next_generation view key s \<le> usize_max"
    using assms by (auto simp: published_base_def next_generation_def split: option.splits)
qed

lemma read_base_ok:
  assumes "reliable_store client view" and "normal_key key" and "only_generations view key s"
    and "published_base client view key max_bytes s base"
  shows "read_manifest_snapshot_base client key max_bytes label s
    = Inr (Some \<lparr>mb_manifest = base, mb_next_generation = next_generation view key s\<rparr>)"
  using latest_manifest(2,4) [OF assms(1-3)] assms(4)
  by (auto simp: published_base_def next_generation_def usize_saturating_add_def split: option.splits)

end
