(* ===== verification/Bloom_Spec.thy ===== *)
theory Bloom_Spec
  imports Bloom
begin

text \<open>
  The filter as a set of bits: an insert adds the probes of a trace, a lookup asks whether they are
  all there.  A filter that passes validation never panics and never forgets a trace.
\<close>

section \<open>Bits\<close>

definition bit_at :: "u64 list \<Rightarrow> nat \<Rightarrow> bool" where
  "bit_at bits p \<longleftrightarrow> bit (bits ! (p div 64)) (p mod 64)"

definition probe_bits :: "bloom_shard \<Rightarrow> trace_id \<Rightarrow> nat set" where
  "probe_bits b trace_id =
     (\<lambda>i. unat ((ucast (fnv1_32 trace_id) + of_nat i * (ucast (fnv1a_32 trace_id) OR 1)) mod bm_num_bits b)) ` {0..<bm_k b}"

definition shard_ok :: "bloom_shard \<Rightarrow> bool" where
  "shard_ok b \<longleftrightarrow> 0 < bm_num_bits b \<and> unat (bm_num_bits b) \<le> 64 * length (bm_bits b)"

lemma shard_validate_ok: "shard_validate b = Inr () \<longleftrightarrow> shard_ok b"
  by (auto simp: shard_validate_def shard_ok_def words_for_def Let_def word_gt_0 not_less)

lemma probe_set_ok:
  assumes "unat p div 64 < length bits"
  shows "probe_set bits p = Some (bit_at bits (unat p))"
proof -
  have "(bits ! (unat p div 64) AND push_bit (unat p mod 64) 1 \<noteq> 0) = bit (bits ! (unat p div 64)) (unat p mod 64)"
    by (simp add: bit_iff_and_push_bit_not_eq_0)
  then show ?thesis using assms by (simp add: probe_set_def bit_at_def nth_opt_def)
qed

lemma set_probe_ok:
  assumes "unat p div 64 < length bits"
  shows "\<exists>bits'. set_probe p bits = Some bits' \<and> length bits' = length bits
    \<and> (\<forall>q < 64 * length bits. bit_at bits' q \<longleftrightarrow> bit_at bits q \<or> q = unat p)"
proof -
  have "bit (w OR push_bit n 1) m \<longleftrightarrow> bit w m \<or> m = n" if "m < 64" for w :: u64 and m n
    using that by (auto simp: bit_or_iff bit_exp_iff possible_bit_def)
  then show ?thesis
    using assms div_mult_mod_eq [of _ "64 :: nat"]
    by (auto simp: set_probe_def nth_opt_def upd_opt_def bit_at_def nth_list_update) (metis div_mult_mod_eq)+
qed

lemma set_probes_ok:
  assumes "\<forall>p \<in> set ps. unat p div 64 < length bits"
  shows "\<exists>bits'. fold_opt set_probe ps bits = Some bits' \<and> length bits' = length bits
    \<and> (\<forall>q < 64 * length bits. bit_at bits' q \<longleftrightarrow> bit_at bits q \<or> q \<in> unat ` set ps)"
  using assms
proof (induction ps arbitrary: bits)
  case (Cons p ps)
  then obtain bits1 where one: "set_probe p bits = Some bits1" "length bits1 = length bits"
      "\<forall>q < 64 * length bits. bit_at bits1 q \<longleftrightarrow> bit_at bits q \<or> q = unat p"
    using set_probe_ok [of p bits] by auto
  then obtain bits2 where "fold_opt set_probe ps bits1 = Some bits2" "length bits2 = length bits1"
      "\<forall>q < 64 * length bits1. bit_at bits2 q \<longleftrightarrow> bit_at bits1 q \<or> q \<in> unat ` set ps"
    using Cons by (metis list.set_intros(2))
  then show ?case using one by auto
qed simp

section \<open>A shard\<close>

abbreviation probe_word :: "bloom_shard \<Rightarrow> trace_id \<Rightarrow> nat \<Rightarrow> u64" where
  "probe_word b trace_id i \<equiv> (ucast (fnv1_32 trace_id) + of_nat i * (ucast (fnv1a_32 trace_id) OR 1)) mod bm_num_bits b"

lemma probe_at_ok:
  assumes "shard_ok b"
  shows "probe_at b trace_id i = Some (probe_word b trace_id i)"
    and "unat (probe_word b trace_id i) div 64 < length (bm_bits b)"
proof -
  show "probe_at b trace_id i = Some (probe_word b trace_id i)"
    using assms by (simp add: probe_at_def shard_ok_def Let_def word_gt_0)
  have "probe_word b trace_id i < bm_num_bits b"
    using assms by (simp add: word_mod_less_divisor shard_ok_def)
  then have "unat (probe_word b trace_id i) < 64 * length (bm_bits b)"
    using assms by (simp add: shard_ok_def word_less_nat_alt)
  then show "unat (probe_word b trace_id i) div 64 < length (bm_bits b)"
    by (simp add: less_mult_imp_div_less mult.commute)
qed

lemma probes_ok: "shard_ok b \<Longrightarrow> probes b trace_id = Some (map (probe_word b trace_id) [0..<bm_k b])"
  unfolding probes_def by (rule map_opt_Some) (rule probe_at_ok(1))

lemma probe_bits_words: "probe_bits b trace_id = unat ` set (map (probe_word b trace_id) [0..<bm_k b])"
  by (simp add: probe_bits_def image_image)

lemma probe_bits_bound: "shard_ok b \<Longrightarrow> q \<in> probe_bits b trace_id \<Longrightarrow> q < 64 * length (bm_bits b)"
  using probe_at_ok(2) [of b trace_id] by (auto simp: probe_bits_def div_less_iff_less_mult mult.commute)

lemma shard_insert_ok:
  assumes "shard_ok b"
  shows "\<exists>b'. shard_insert trace_id b = Some b' \<and> shard_ok b' \<and> bm_k b' = bm_k b \<and> bm_num_bits b' = bm_num_bits b
    \<and> (\<forall>q < 64 * length (bm_bits b). bit_at (bm_bits b') q \<longleftrightarrow> bit_at (bm_bits b) q \<or> q \<in> probe_bits b trace_id)"
proof -
  let ?ps = "map (probe_word b trace_id) [0..<bm_k b]"
  obtain bits where "fold_opt set_probe ?ps (bm_bits b) = Some bits" "length bits = length (bm_bits b)"
      "\<forall>q < 64 * length (bm_bits b). bit_at bits q \<longleftrightarrow> bit_at (bm_bits b) q \<or> q \<in> unat ` set ?ps"
    using set_probes_ok [of ?ps "bm_bits b"] probe_at_ok(2) [OF assms] by auto
  then show ?thesis
    using assms probes_ok [OF assms, of trace_id]
    by (simp add: shard_insert_def probe_bits_words shard_ok_def)
qed

lemma shard_maybe_contains_ok:
  assumes "shard_ok b"
  shows "shard_maybe_contains b trace_id = Some (\<forall>q \<in> probe_bits b trace_id. bit_at (bm_bits b) q)"
proof -
  have "all_probes_set b trace_id js = Some (\<forall>j \<in> set js. bit_at (bm_bits b) (unat (probe_word b trace_id j)))" for js
    by (induction js) (simp_all add: probe_at_ok [OF assms] probe_set_ok [OF probe_at_ok(2) [OF assms]])
  then show ?thesis by (simp add: shard_maybe_contains_def probe_bits_def)
qed

section \<open>The sharded filter\<close>

definition bloom_ok :: "sharded_trace_bloom \<Rightarrow> bool" where
  "bloom_ok bloom \<longleftrightarrow> sb_shards bloom \<noteq> [] \<and> (\<forall>b \<in> set (sb_shards bloom). shard_ok b)"

definition home_shard :: "sharded_trace_bloom \<Rightarrow> trace_id \<Rightarrow> nat" where
  "home_shard bloom trace_id = unat (fnv1_32 trace_id) mod length (sb_shards bloom)"

definition holds_trace :: "sharded_trace_bloom \<Rightarrow> trace_id \<Rightarrow> bool" where
  "holds_trace bloom trace_id \<longleftrightarrow>
     (let b = sb_shards bloom ! home_shard bloom trace_id
      in \<forall>q \<in> probe_bits b trace_id. bit_at (bm_bits b) q)"

lemma bloom_validate_ok: "bloom_validate bloom = Inr () \<longleftrightarrow> bloom_ok bloom"
proof -
  have "validate_shards bs = Inr () \<longleftrightarrow> (\<forall>b \<in> set bs. shard_ok b)" for bs
    by (induction bs) (auto simp: shard_validate_ok [symmetric] split: sum.split)
  then show ?thesis by (simp add: bloom_validate_def bloom_ok_def)
qed

lemma home_shard_less: "bloom_ok bloom \<Longrightarrow> home_shard bloom trace_id < length (sb_shards bloom)"
  by (simp add: bloom_ok_def home_shard_def)

lemma shard_of_ok: "bloom_ok bloom \<Longrightarrow> shard_of bloom trace_id = Some (home_shard bloom trace_id)"
  by (simp add: shard_of_def bloom_ok_def home_shard_def)

lemma bloom_maybe_contains_ok:
  assumes "bloom_ok bloom"
  shows "bloom_maybe_contains bloom trace_id = Some (holds_trace bloom trace_id)"
proof -
  have "shard_ok (sb_shards bloom ! home_shard bloom trace_id)"
    using assms home_shard_less [OF assms, of trace_id] by (simp add: bloom_ok_def)
  then show ?thesis
    using home_shard_less [OF assms, of trace_id] shard_of_ok [OF assms, of trace_id]
    by (simp add: bloom_maybe_contains_def nth_opt_def shard_maybe_contains_ok holds_trace_def Let_def)
qed

lemma bloom_insert_ok:
  assumes "bloom_ok bloom"
  shows "\<exists>bloom'. bloom_insert trace_id bloom = Some bloom' \<and> bloom_ok bloom' \<and> holds_trace bloom' trace_id
    \<and> (\<forall>t. holds_trace bloom t \<longrightarrow> holds_trace bloom' t)"
proof -
  let ?i = "home_shard bloom trace_id"
  define b where "b = sb_shards bloom ! ?i"
  have i: "?i < length (sb_shards bloom)" and b: "shard_ok b"
    using home_shard_less [OF assms, of trace_id] assms by (auto simp: b_def bloom_ok_def)
  obtain b' where b': "shard_insert trace_id b = Some b'" "shard_ok b'" "bm_k b' = bm_k b" "bm_num_bits b' = bm_num_bits b"
      "\<forall>q < 64 * length (bm_bits b). bit_at (bm_bits b') q \<longleftrightarrow> bit_at (bm_bits b) q \<or> q \<in> probe_bits b trace_id"
    using shard_insert_ok [OF b] by blast
  define bloom' where "bloom' = bloom\<lparr>sb_shards := (sb_shards bloom)[?i := b']\<rparr>"
  have run: "bloom_insert trace_id bloom = Some bloom'"
    using i b' shard_of_ok [OF assms, of trace_id]
    by (simp add: bloom_insert_def nth_opt_def upd_opt_def bloom'_def b_def)
  have ok: "bloom_ok bloom'"
    using assms b'(2) set_update_subset_insert [of "sb_shards bloom" ?i b'] by (auto simp: bloom_ok_def bloom'_def)
  have same: "probe_bits b' t = probe_bits b t" "home_shard bloom' t = home_shard bloom t" for t
    by (simp_all add: probe_bits_def b' home_shard_def bloom'_def)
  have "holds_trace bloom' trace_id"
    using i b'(5) probe_bits_bound [OF b] same by (auto simp: holds_trace_def bloom'_def Let_def)
  moreover have "holds_trace bloom' t" if "holds_trace bloom t" for t
    using that i b'(5) probe_bits_bound [OF b] same
    by (cases "home_shard bloom t = ?i") (auto simp: holds_trace_def bloom'_def Let_def b_def)
  ultimately show ?thesis using run ok by blast
qed

lemma bloom_inserts_ok:
  assumes "bloom_ok bloom"
  shows "\<exists>bloom'. fold_opt bloom_insert ids bloom = Some bloom' \<and> bloom_ok bloom'
    \<and> (\<forall>t \<in> set ids. holds_trace bloom' t) \<and> (\<forall>t. holds_trace bloom t \<longrightarrow> holds_trace bloom' t)"
  using assms
proof (induction ids arbitrary: bloom)
  case (Cons t ids)
  then obtain bloom1 where one: "bloom_insert t bloom = Some bloom1" "bloom_ok bloom1" "holds_trace bloom1 t"
      "\<forall>t. holds_trace bloom t \<longrightarrow> holds_trace bloom1 t"
    using bloom_insert_ok by blast
  from Cons.IH [OF this(2)] obtain bloom2 where "fold_opt bloom_insert ids bloom1 = Some bloom2" "bloom_ok bloom2"
      "\<forall>t \<in> set ids. holds_trace bloom2 t" "\<forall>t. holds_trace bloom1 t \<longrightarrow> holds_trace bloom2 t"
    by blast
  then show ?case using one by auto
qed simp

section \<open>New filters\<close>

lemma bloom_shard_new_ok:
  "0 < fst (sizing items rate) \<Longrightarrow> shard_ok (bloom_shard_new sizing items rate)"
  by (auto simp: bloom_shard_new_def shard_ok_def words_for_def split: prod.split)

lemma bloom_new_ok:
  "0 < fst (sizing items rate) \<Longrightarrow> bloom_ok (bloom_new sizing n items rate)"
  using bloom_shard_new_ok [of sizing items rate] by (auto simp: bloom_new_def bloom_ok_def Let_def)

lemma match_all_ok:
  assumes "0 < fst (sizing 1 rate)"
  shows "bloom_ok (match_all_with_tempo_defaults sizing rate) \<and> holds_trace (match_all_with_tempo_defaults sizing rate) t"
proof -
  let ?b = "bloom_shard_new sizing 1 rate"
  have b: "shard_ok ?b" by (rule bloom_shard_new_ok [of sizing 1 rate, OF assms])
  have all: "match_all_with_tempo_defaults sizing rate = \<lparr>sb_shards = [?b\<lparr>bm_bits := map (\<lambda>_. -1) (bm_bits ?b)\<rparr>]\<rparr>"
    by (simp add: match_all_with_tempo_defaults_def with_tempo_defaults_def bloom_new_def div_ceil_def Let_def)
  have "\<forall>q \<in> probe_bits ?b t. bit_at (map (\<lambda>_. -1) (bm_bits ?b)) q"
    using probe_bits_bound [OF b] by (auto simp: bit_at_def less_mult_imp_div_less mult.commute)
  moreover have "probe_bits (?b\<lparr>bm_bits := map (\<lambda>_. -1) (bm_bits ?b)\<rparr>) t = probe_bits ?b t"
    by (simp add: probe_bits_def)
  ultimately show ?thesis
    using b unfolding all by (simp add: bloom_ok_def shard_ok_def holds_trace_def home_shard_def)
qed

section \<open>Property\<close>

text \<open>
  C21. A filter that passes validation can be given any traces without a panic; it still passes
  validation, answers yes for each of them, and yes for every trace it answered yes for before.
\<close>

theorem bloom_no_false_negatives:
  assumes "bloom_validate bloom = Inr ()"
  shows "\<exists>bloom'. fold_opt bloom_insert ids bloom = Some bloom' \<and> bloom_validate bloom' = Inr ()
    \<and> (\<forall>t \<in> set ids. bloom_maybe_contains bloom' t = Some True)
    \<and> (\<forall>t. bloom_maybe_contains bloom t = Some True \<longrightarrow> bloom_maybe_contains bloom' t = Some True)"
  using bloom_inserts_ok [of bloom ids] assms bloom_validate_ok bloom_maybe_contains_ok by force

theorem bloom_no_false_negatives_witness:
  "\<exists>bloom'. fold_opt bloom_insert [[1, 2], [3]] \<lparr>sb_shards = [\<lparr>bm_bits = [0], bm_num_bits = 64, bm_k = 2\<rparr>]\<rparr> = Some bloom'
    \<and> bloom_maybe_contains bloom' [3] = Some True"
proof -
  have "bloom_validate \<lparr>sb_shards = [\<lparr>bm_bits = [0], bm_num_bits = 64, bm_k = 2\<rparr>]\<rparr> = Inr ()"
    by (simp add: bloom_validate_def shard_validate_def words_for_def)
  from bloom_no_false_negatives [OF this, of "[[1, 2], [3]]"] show ?thesis by auto
qed

end
