(* ===== verification/Trace_Index_Spec.thy ===== *)
theory Trace_Index_Spec
  imports Trace_Index Bloom_Spec "HOL-Library.Multiset"
begin

text \<open>
  What the trace index keeps: one record per key, removals pinned only to blocks that are gone,
  additions only of blocks that are there, filters that never panic; and what a compaction swap and a
  load do to the records.
\<close>

section \<open>The pending sets\<close>

definition pinned :: "pending_block_removals \<Rightarrow> string \<Rightarrow> string \<Rightarrow> pending_removal option" where
  "pinned guard tenant key = (case bt_get guard tenant of None \<Rightarrow> None | Some pending \<Rightarrow> bt_get pending key)"

definition removals_ok :: "pending_block_removals \<Rightarrow> bool" where
  "removals_ok guard \<longleftrightarrow> bt_ok guard \<and> (\<forall>t pending. bt_get guard t = Some pending \<longrightarrow> bt_ok pending \<and> pending \<noteq> [])"

text \<open>Every operation on the removals writes back one tenant's pins, or drops the tenant.\<close>

definition write_back ::
  "string \<Rightarrow> (string, pending_removal) btree_map \<Rightarrow> pending_block_removals \<Rightarrow> pending_block_removals" where
  "write_back tenant pending guard =
     (if pending = [] then bt_remove tenant guard else bt_insert tenant pending guard)"

lemma write_back_ok:
  assumes "removals_ok guard" and "bt_ok pending"
  shows "removals_ok (write_back tenant pending guard)"
    and "pinned (write_back tenant pending guard) t k = (if t = tenant then bt_get pending k else pinned guard t k)"
  using assms
  by (auto simp: write_back_def removals_ok_def pinned_def bt_ok_insert bt_ok_remove bt_get_remove
      split: if_splits option.splits)

abbreviation pins_of :: "pending_block_removals \<Rightarrow> string \<Rightarrow> (string, pending_removal) btree_map" where
  "pins_of guard tenant \<equiv> (case bt_get guard tenant of None \<Rightarrow> [] | Some pending \<Rightarrow> pending)"

lemma pins_of_ok: "removals_ok guard \<Longrightarrow> bt_ok (pins_of guard tenant)"
  by (auto simp: removals_ok_def split: option.split)

lemma pins_of_get: "bt_get (pins_of guard tenant) k = pinned guard tenant k"
  by (simp add: pinned_def split: option.split)

lemma pin_blocks_ok:
  "bt_ok pending \<Longrightarrow> bt_ok (fold (\<lambda>b. bt_insert (pb_object_key b) (pb_removal b)) blocks pending)"
  "bt_ok pending \<Longrightarrow> bt_get (fold (\<lambda>b. bt_insert (pb_object_key b) (pb_removal b)) blocks pending) k \<noteq> None
     \<longleftrightarrow> bt_get pending k \<noteq> None \<or> k \<in> pb_object_key ` set blocks"
  by (induction blocks arbitrary: pending) (auto simp: bt_ok_insert)

lemma removals_record_ok:
  assumes "removals_ok guard"
  shows "removals_ok (removals_record tenant blocks guard)"
    and "pinned (removals_record tenant blocks guard) t k \<noteq> None
       \<longleftrightarrow> pinned guard t k \<noteq> None \<or> t = tenant \<and> k \<in> pb_object_key ` set blocks"
proof -
  let ?p = "fold (\<lambda>b. bt_insert (pb_object_key b) (pb_removal b)) blocks (pins_of guard tenant)"
  have rec: "removals_record tenant blocks guard = write_back tenant ?p guard"
    by (simp add: removals_record_def write_back_def Let_def)
  have p: "bt_ok ?p" using pin_blocks_ok(1) pins_of_ok [OF assms] by blast
  show "removals_ok (removals_record tenant blocks guard)"
    unfolding rec by (rule write_back_ok(1) [OF assms p])
  show "pinned (removals_record tenant blocks guard) t k \<noteq> None
       \<longleftrightarrow> pinned guard t k \<noteq> None \<or> t = tenant \<and> k \<in> pb_object_key ` set blocks"
    unfolding rec write_back_ok(2) [OF assms p]
    using pin_blocks_ok(2) [OF pins_of_ok [OF assms, of tenant], of blocks k] pins_of_get [of guard tenant k] by simp
qed

lemma removals_forget_ok:
  assumes "removals_ok guard"
  shows "removals_ok (removals_forget tenant key guard)"
    and "pinned (removals_forget tenant key guard) t k = (if t = tenant \<and> k = key then None else pinned guard t k)"
proof -
  have "removals_ok (removals_forget tenant key guard)
    \<and> pinned (removals_forget tenant key guard) t k = (if t = tenant \<and> k = key then None else pinned guard t k)"
  proof (cases "bt_get guard tenant")
    case None
    then show ?thesis using assms by (auto simp: removals_forget_def pinned_def)
  next
    case (Some p)
    then have p: "bt_ok (bt_remove key p)" using assms by (auto simp: removals_ok_def bt_ok_remove)
    have "removals_forget tenant key guard = write_back tenant (bt_remove key p) guard"
      using Some by (simp add: removals_forget_def write_back_def Let_def)
    then show ?thesis
      using write_back_ok [OF assms p, of tenant] Some by (auto simp: bt_get_remove pinned_def)
  qed
  then show "removals_ok (removals_forget tenant key guard)"
    "pinned (removals_forget tenant key guard) t k = (if t = tenant \<and> k = key then None else pinned guard t k)" by auto
qed

text \<open>
  A commit drops a pin exactly when the snapshot carried the same pin, so one that was recorded
  against another record since survives.
\<close>

definition unless_applied :: "pending_removal option \<Rightarrow> pending_removal option \<Rightarrow> pending_removal option" where
  "unless_applied applied held = (if applied = held then None else held)"

lemma commit_keys_ok:
  assumes "bt_ok pending" and "distinct (map fst blocks)"
  shows "bt_ok (fold commit_key blocks pending)
    \<and> (\<forall>k. bt_get (fold commit_key blocks pending) k = unless_applied (map_of blocks k) (bt_get pending k))"
  using assms
proof (induction blocks arbitrary: pending)
  case (Cons entry blocks)
  obtain key r where entry: "entry = (key, r)" by (cases entry)
  have one: "bt_ok (commit_key entry pending)"
    "\<And>k. bt_get (commit_key entry pending) k = (if k = key \<and> bt_get pending k = Some r then None else bt_get pending k)"
    using Cons.prems(1) by (auto simp: commit_key_def entry bt_ok_remove bt_get_remove)
  have "key \<notin> dom (map_of blocks)" using Cons.prems(2) by (simp add: entry dom_map_of_conv_image_fst)
  then have "map_of blocks key = None" by blast
  then show ?case
    using Cons.IH [OF one(1)] Cons.prems(2) one(2) by (auto simp: entry unless_applied_def)
qed (simp add: unless_applied_def)

lemma commit_tenant_ok:
  assumes "removals_ok guard" and "distinct (map fst blocks)"
  shows "removals_ok (commit_tenant (tenant, blocks) guard)"
    and "pinned (commit_tenant (tenant, blocks) guard) t k
       = (if t = tenant then unless_applied (map_of blocks k) (pinned guard t k) else pinned guard t k)"
proof -
  have "removals_ok (commit_tenant (tenant, blocks) guard) \<and> pinned (commit_tenant (tenant, blocks) guard) t k
       = (if t = tenant then unless_applied (map_of blocks k) (pinned guard t k) else pinned guard t k)"
  proof (cases "bt_get guard tenant")
    case None
    then show ?thesis using assms by (auto simp: commit_tenant_def pinned_def unless_applied_def)
  next
    case (Some p)
    then have p: "bt_ok p" using assms(1) by (auto simp: removals_ok_def)
    have run: "commit_tenant (tenant, blocks) guard = write_back tenant (fold commit_key blocks p) guard"
      using Some by (simp add: commit_tenant_def write_back_def Let_def)
    have "pinned guard tenant k = bt_get p k" using Some by (simp add: pinned_def)
    then show ?thesis
      unfolding run using write_back_ok [OF assms(1), of "fold commit_key blocks p" tenant] commit_keys_ok [OF p assms(2)]
      by simp
  qed
  then show "removals_ok (commit_tenant (tenant, blocks) guard)"
    "pinned (commit_tenant (tenant, blocks) guard) t k
       = (if t = tenant then unless_applied (map_of blocks k) (pinned guard t k) else pinned guard t k)" by auto
qed

lemma removals_commit_ok:
  assumes "removals_ok guard" and "\<forall>(t, blocks) \<in> set applied. distinct (map fst blocks)" and "distinct (map fst applied)"
  shows "removals_ok (removals_commit applied guard)
    \<and> (\<forall>t k. pinned (removals_commit applied guard) t k = unless_applied (pinned applied t k) (pinned guard t k))"
  using assms unfolding removals_commit_def
proof (induction applied arbitrary: guard)
  case (Cons entry applied)
  obtain tenant blocks where entry: "entry = (tenant, blocks)" by (cases entry)
  have blocks: "distinct (map fst blocks)" using Cons.prems(2) entry by auto
  have "tenant \<notin> dom (map_of applied)" using Cons.prems(3) by (simp add: entry dom_map_of_conv_image_fst)
  then have none: "pinned applied tenant k = None" for k by (simp add: pinned_def domIff)
  have "pinned (entry # applied) t k = (if t = tenant then map_of blocks k else pinned applied t k)" for t k
    by (simp add: pinned_def entry)
  then show ?case
    using Cons.IH [OF commit_tenant_ok(1) [OF Cons.prems(1) blocks, of tenant]] Cons.prems(2,3)
      commit_tenant_ok(2) [OF Cons.prems(1) blocks, of tenant] none
    by (simp add: entry unless_applied_def)
qed (simp add: unless_applied_def pinned_def)

lemma bs_remove_ok: "bs_ok s \<Longrightarrow> bs_ok (bs_remove k s)" "set (bs_remove k s) = set s - {k}"
  by (auto simp: bs_remove_def bs_ok_filter)

lemma bs_removes_ok: "bs_ok s \<Longrightarrow> bs_ok (fold bs_remove ks s)" "set (fold bs_remove ks s) = set s - set ks"
  by (induction ks arbitrary: s) (auto simp: bs_remove_ok)

section \<open>The invariant\<close>

abbreviation live_keys :: "trace_index \<Rightarrow> string \<Rightarrow> string set" where
  "live_keys index tenant \<equiv> ts_object_key ` set (trace_blocks index tenant)"

definition trace_ok :: "trace_index \<Rightarrow> bool" where
  "trace_ok index \<longleftrightarrow> bt_ok (tx_tenants index) \<and> removals_ok (tx_pending_removals index) \<and> bs_ok (tx_pending_additions index)
     \<and> (\<forall>t. distinct (map ts_object_key (trace_blocks index t)) \<and> (\<forall>b \<in> set (trace_blocks index t). bloom_ok (ts_bloom b)))
     \<and> (\<forall>t k. pinned (tx_pending_removals index) t k \<noteq> None \<longrightarrow> k \<notin> live_keys index t)
     \<and> (\<forall>k \<in> set (tx_pending_additions index). \<exists>t. k \<in> live_keys index t)"

lemma trace_okD:
  assumes "trace_ok index"
  shows "bt_ok (tx_tenants index)" "removals_ok (tx_pending_removals index)" "bs_ok (tx_pending_additions index)"
    "distinct (map ts_object_key (trace_blocks index t))" "b \<in> set (trace_blocks index t) \<Longrightarrow> bloom_ok (ts_bloom b)"
    "pinned (tx_pending_removals index) t k \<noteq> None \<Longrightarrow> k \<notin> live_keys index t"
    "k \<in> set (tx_pending_additions index) \<Longrightarrow> \<exists>t. k \<in> live_keys index t"
  using assms by (simp_all add: trace_ok_def)

lemma trace_index_new_ok: "trace_ok trace_index_new"
  by (simp add: trace_ok_def trace_index_new_def trace_blocks_def removals_ok_def pinned_def)

text \<open>Every update of the index writes one tenant's blocks.\<close>

definition set_blocks :: "string \<Rightarrow> trace_block_stats list \<Rightarrow> (string, tenant_trace_index) btree_map \<Rightarrow> (string, tenant_trace_index) btree_map" where
  "set_blocks tenant blocks m = bt_insert tenant \<lparr>tt_blocks = blocks\<rparr> m"

lemma tt_blocks_update [simp]: "t\<lparr>tt_blocks := blocks\<rparr> = \<lparr>tt_blocks = blocks\<rparr>" for t :: tenant_trace_index
  by (cases t) simp

text \<open>
  The one preservation argument: new blocks for a tenant, pins that name none of them and are old
  elsewhere, additions that each are live.
\<close>

lemma trace_ok_write:
  assumes ok: "trace_ok index"
    and tenants: "tx_tenants index' = set_blocks tenant blocks (tx_tenants index)"
    and removals: "removals_ok (tx_pending_removals index')" and adds: "bs_ok (tx_pending_additions index')"
    and blocks: "distinct (map ts_object_key blocks)" "\<forall>b \<in> set blocks. bloom_ok (ts_bloom b)"
    and pins: "\<And>k. pinned (tx_pending_removals index') tenant k \<noteq> None \<Longrightarrow> k \<notin> ts_object_key ` set blocks"
    and others: "\<And>t k. t \<noteq> tenant \<Longrightarrow> pinned (tx_pending_removals index') t k \<noteq> None \<Longrightarrow> pinned (tx_pending_removals index) t k \<noteq> None"
    and live: "\<And>k. k \<in> set (tx_pending_additions index') \<Longrightarrow>
        k \<in> ts_object_key ` set blocks \<or> k \<in> set (tx_pending_additions index) \<and> k \<notin> live_keys index tenant"
  shows "trace_ok index'"
proof -
  have new: "trace_blocks index' t = (if t = tenant then blocks else trace_blocks index t)" for t
    using tenants by (simp add: trace_blocks_def set_blocks_def)
  have "\<exists>t. k \<in> live_keys index' t" if mem: "k \<in> set (tx_pending_additions index')" for k
  proof (cases "k \<in> ts_object_key ` set blocks")
    case True
    then show ?thesis by (intro exI [of _ tenant]) (simp add: new)
  next
    case False
    then obtain t where "k \<in> live_keys index t" "t \<noteq> tenant"
      using live [OF mem] trace_okD(7) [OF ok] by blast
    then show ?thesis by (intro exI [of _ t]) (simp add: new)
  qed
  moreover have "k \<notin> live_keys index' t" if "pinned (tx_pending_removals index') t k \<noteq> None" for t k
    using that pins others trace_okD(6) [OF ok] by (cases "t = tenant") (simp_all add: new)
  moreover have "distinct (map ts_object_key (trace_blocks index' t)) \<and> (\<forall>b \<in> set (trace_blocks index' t). bloom_ok (ts_bloom b))" for t
    using blocks trace_okD(4,5) [OF ok] by (simp add: new)
  moreover have "bt_ok (tx_tenants index')"
    using trace_okD(1) [OF ok] by (simp add: tenants set_blocks_def bt_ok_insert)
  ultimately show ?thesis using removals adds unfolding trace_ok_def by blast
qed

lemma distinct_map_filter_append:
  "distinct (map f xs) \<Longrightarrow> f y \<notin> f ` set (filter P xs) \<Longrightarrow> distinct (map f (filter P xs @ [y]))"
  by (simp add: distinct_map_filter)

lemma add_trace_block_tenants:
  "tx_tenants (add_trace_block tenant stats index)
     = set_blocks tenant (filter (\<lambda>b. ts_object_key b \<noteq> ts_object_key stats) (trace_blocks index tenant) @ [stats]) (tx_tenants index)"
  by (simp add: add_trace_block_def set_blocks_def bt_update_def trace_blocks_def split: option.split)

lemma add_trace_block_ok:
  assumes ok: "trace_ok index" and bloom: "bloom_ok (ts_bloom stats)"
  shows "trace_ok (add_trace_block tenant stats index)"
proof (rule trace_ok_write [OF ok add_trace_block_tenants])
  let ?key = "ts_object_key stats"
  let ?blocks = "filter (\<lambda>b. ts_object_key b \<noteq> ?key) (trace_blocks index tenant) @ [stats]"
  have removals: "tx_pending_removals (add_trace_block tenant stats index) = removals_forget tenant ?key (tx_pending_removals index)"
    and adds: "tx_pending_additions (add_trace_block tenant stats index) = bs_insert ?key (tx_pending_additions index)"
    by (simp_all add: add_trace_block_def additions_record_def)
  note forget = removals_forget_ok [OF trace_okD(2) [OF ok], of tenant ?key]
  show "removals_ok (tx_pending_removals (add_trace_block tenant stats index))" by (simp add: removals forget(1))
  show "bs_ok (tx_pending_additions (add_trace_block tenant stats index))"
    using trace_okD(3) [OF ok] by (simp add: adds bs_ok_insert)
  show "distinct (map ts_object_key ?blocks)"
    by (rule distinct_map_filter_append [OF trace_okD(4) [OF ok]]) auto
  show "\<forall>b \<in> set ?blocks. bloom_ok (ts_bloom b)" using bloom trace_okD(5) [OF ok] by auto
  show "k \<notin> ts_object_key ` set ?blocks" if "pinned (tx_pending_removals (add_trace_block tenant stats index)) tenant k \<noteq> None" for k
    using that trace_okD(6) [OF ok, of tenant k] by (auto simp: removals forget(2) split: if_splits)
  show "pinned (tx_pending_removals index) t k \<noteq> None"
    if "t \<noteq> tenant" "pinned (tx_pending_removals (add_trace_block tenant stats index)) t k \<noteq> None" for t k
    using that by (auto simp: removals forget(2))
  show "k \<in> ts_object_key ` set ?blocks \<or> k \<in> set (tx_pending_additions index) \<and> k \<notin> live_keys index tenant"
    if "k \<in> set (tx_pending_additions (add_trace_block tenant stats index))" for k
    using that by (auto simp: adds set_bs_insert)
qed

lemma retire_fields:
  assumes "trace_ok index" and index'_def: "index' = retire_trace_blocks hasher tenant dropped index"
  shows "tx_tenants index' = tx_tenants index"
    and "removals_ok (tx_pending_removals index')" and "bs_ok (tx_pending_additions index')"
    and "pinned (tx_pending_removals index') t k \<noteq> None
      \<longleftrightarrow> pinned (tx_pending_removals index) t k \<noteq> None \<or> t = tenant \<and> k \<in> live_keys index tenant \<and> k \<in> set dropped"
    and "set (tx_pending_additions index') = set (tx_pending_additions index) - set dropped"
proof -
  let ?retired = "map (removal_of hasher) (filter (\<lambda>b. ts_object_key b \<in> set dropped) (trace_blocks index tenant))"
  have keys: "pb_object_key ` set ?retired = live_keys index tenant \<inter> set dropped"
    by (auto simp: removal_of_def image_iff)
  have forget: "additions_forget = bs_remove" by (simp add: additions_forget_def fun_eq_iff)
  note recorded = removals_record_ok [OF trace_okD(2) [OF assms(1)], of tenant ?retired]
  show "tx_tenants index' = tx_tenants index" by (simp add: index'_def retire_trace_blocks_def Let_def)
  show "removals_ok (tx_pending_removals index')"
    using recorded(1) by (simp add: index'_def retire_trace_blocks_def Let_def)
  show "bs_ok (tx_pending_additions index')"
    using bs_removes_ok(1) [OF trace_okD(3) [OF assms(1)]] by (simp add: index'_def retire_trace_blocks_def Let_def forget)
  show "set (tx_pending_additions index') = set (tx_pending_additions index) - set dropped"
    by (simp add: index'_def retire_trace_blocks_def Let_def forget bs_removes_ok(2))
  have "tx_pending_removals index' = removals_record tenant ?retired (tx_pending_removals index)"
    by (simp add: index'_def retire_trace_blocks_def Let_def)
  then show "pinned (tx_pending_removals index') t k \<noteq> None
      \<longleftrightarrow> pinned (tx_pending_removals index) t k \<noteq> None \<or> t = tenant \<and> k \<in> live_keys index tenant \<and> k \<in> set dropped"
    using recorded(2) [of t k] keys by auto
qed

lemma retire_tenants [simp]: "tx_tenants (retire_trace_blocks hasher tenant dropped index) = tx_tenants index"
  by (simp add: retire_trace_blocks_def Let_def)

lemma retire_blocks: "trace_blocks (retire_trace_blocks hasher tenant dropped index) t = trace_blocks index t"
  by (simp add: trace_blocks_def retire_trace_blocks_def Let_def)

lemma remove_trace_blocks_fields:
  "tx_pending_removals (snd (remove_trace_blocks hasher tenant keys index))
     = tx_pending_removals (retire_trace_blocks hasher tenant (bs_collect keys) index)"
  "tx_pending_additions (snd (remove_trace_blocks hasher tenant keys index))
     = tx_pending_additions (retire_trace_blocks hasher tenant (bs_collect keys) index)"
  "trace_blocks (snd (remove_trace_blocks hasher tenant keys index)) t
     = (if t = tenant then filter (\<lambda>b. ts_object_key b \<notin> set keys) (trace_blocks index tenant) else trace_blocks index t)"
  "fst (remove_trace_blocks hasher tenant keys index)
     = length (filter (\<lambda>b. ts_object_key b \<in> set keys) (trace_blocks index tenant))"
proof -
  have len: "length xs - length (filter (\<lambda>b. \<not> P b) xs) = length (filter P xs)" for P and xs :: "trace_block_stats list"
    using sum_length_filter_compl [of P xs] by simp
  show "tx_pending_removals (snd (remove_trace_blocks hasher tenant keys index))
     = tx_pending_removals (retire_trace_blocks hasher tenant (bs_collect keys) index)"
    "tx_pending_additions (snd (remove_trace_blocks hasher tenant keys index))
     = tx_pending_additions (retire_trace_blocks hasher tenant (bs_collect keys) index)"
    "trace_blocks (snd (remove_trace_blocks hasher tenant keys index)) t
     = (if t = tenant then filter (\<lambda>b. ts_object_key b \<notin> set keys) (trace_blocks index tenant) else trace_blocks index t)"
    "fst (remove_trace_blocks hasher tenant keys index)
     = length (filter (\<lambda>b. ts_object_key b \<in> set keys) (trace_blocks index tenant))"
    by (cases "bt_get (tx_tenants index) tenant";
        simp add: remove_trace_blocks_def Let_def trace_blocks_def set_bs_extend len [of _ "\<lambda>b. ts_object_key b \<in> set keys"])+
qed

lemma remove_trace_blocks_ok:
  assumes ok: "trace_ok index"
  shows "trace_ok (snd (remove_trace_blocks hasher tenant keys index))"
proof -
  let ?index = "snd (remove_trace_blocks hasher tenant keys index)"
  note fields = remove_trace_blocks_fields [of hasher tenant keys index]
  note retired = retire_fields [OF ok refl, of hasher tenant "bs_collect keys"]
  have tenants: "bt_ok (tx_tenants ?index)"
    using trace_okD(1) [OF ok] retired(1)
    by (simp add: remove_trace_blocks_def Let_def bt_ok_insert split: option.split)
  have "distinct (map ts_object_key (trace_blocks ?index t)) \<and> (\<forall>b \<in> set (trace_blocks ?index t). bloom_ok (ts_bloom b))" for t
    using trace_okD(4) [OF ok] by (auto simp: fields(3) distinct_map_filter intro: trace_okD(5) [OF ok])
  moreover have "k \<notin> live_keys ?index t" if "pinned (tx_pending_removals ?index) t k \<noteq> None" for t k
    using that retired(4) [of t k] trace_okD(6) [OF ok, of t k] by (auto simp: fields set_bs_extend)
  moreover have "\<exists>t. k \<in> live_keys ?index t" if mem: "k \<in> set (tx_pending_additions ?index)" for k
  proof -
    have k: "k \<in> set (tx_pending_additions index)" "k \<notin> set keys"
      using mem retired(5) by (auto simp: fields(2) set_bs_extend)
    then obtain t where "k \<in> live_keys index t" using trace_okD(7) [OF ok] by blast
    then have "k \<in> live_keys ?index t" using k(2) by (auto simp: fields(3))
    then show ?thesis ..
  qed
  ultimately show ?thesis
    using tenants retired(2,3) unfolding trace_ok_def fields(1,2) by blast
qed

section \<open>The compaction swap\<close>

definition carried_tags :: "trace_block_stats list \<Rightarrow> string btree_set \<times> (string, string btree_set) btree_map" where
  "carried_tags gone = fold carry_tags gone ([], [])"

definition swapped_in :: "trace_index \<Rightarrow> string \<Rightarrow> string list \<Rightarrow> trace_block_stats \<Rightarrow> trace_block_stats" where
  "swapped_in index tenant old_keys replacement =
     (let gone = filter (\<lambda>b. ts_object_key b \<noteq> ts_object_key replacement \<and> ts_object_key b \<in> set old_keys) (trace_blocks index tenant)
      in replacement\<lparr>ts_level := max (level_above (map (trace_block_level index) old_keys)) (trace_block_level index (ts_object_key replacement)),
           ts_tag_names := bs_extend (fst (carried_tags gone)) (ts_tag_names replacement),
           ts_tag_values := fold (\<lambda>(tag, vs). bt_update tag [] (bs_extend vs)) (snd (carried_tags gone)) (ts_tag_values replacement)\<rparr>)"

abbreviation swapped_out :: "trace_index \<Rightarrow> string \<Rightarrow> string list \<Rightarrow> trace_block_stats \<Rightarrow> trace_block_stats list" where
  "swapped_out index tenant old_keys replacement \<equiv>
     filter (\<lambda>b. ts_object_key b \<noteq> ts_object_key replacement \<and> ts_object_key b \<notin> set old_keys) (trace_blocks index tenant)"

lemma replace_fields:
  fixes hasher tenant old_keys replacement index
  defines "result \<equiv> replace_trace_blocks hasher tenant old_keys replacement index"
  shows "tx_tenants (snd result) = set_blocks tenant
      (swapped_out index tenant old_keys replacement @ [swapped_in index tenant old_keys replacement]) (tx_tenants index)"
    and "tx_pending_removals (snd result) = removals_forget tenant (ts_object_key replacement)
      (tx_pending_removals (retire_trace_blocks hasher tenant (bs_collect old_keys) index))"
    and "tx_pending_additions (snd result) = bs_insert (ts_object_key replacement)
      (tx_pending_additions (retire_trace_blocks hasher tenant (bs_collect old_keys) index))"
    and "fst result = ts_level (swapped_in index tenant old_keys replacement)"
proof -
  define index1 where "index1 = retire_trace_blocks hasher tenant (bs_collect old_keys) index"
  have blocks: "trace_blocks (index1\<lparr>tx_pending_removals := r, tx_pending_additions := a\<rparr>) tenant = trace_blocks index tenant" for r a
    using retire_blocks [of hasher tenant "bs_collect old_keys" index tenant] by (simp add: index1_def trace_blocks_def)
  have tenants: "tx_tenants index1 = tx_tenants index"
    by (simp add: index1_def retire_trace_blocks_def Let_def)
  show "tx_tenants (snd result) = set_blocks tenant
      (swapped_out index tenant old_keys replacement @ [swapped_in index tenant old_keys replacement]) (tx_tenants index)"
    and "tx_pending_removals (snd result) = removals_forget tenant (ts_object_key replacement) (tx_pending_removals
       (retire_trace_blocks hasher tenant (bs_collect old_keys) index))"
    and "tx_pending_additions (snd result) = bs_insert (ts_object_key replacement) (tx_pending_additions
       (retire_trace_blocks hasher tenant (bs_collect old_keys) index))"
    and "fst result = ts_level (swapped_in index tenant old_keys replacement)"
    by (simp_all add: result_def replace_trace_blocks_def Let_def blocks tenants set_blocks_def swapped_in_def carried_tags_def
        additions_record_def set_bs_extend flip: index1_def)
qed

lemma swapped_in_key: "ts_object_key (swapped_in index tenant old_keys replacement) = ts_object_key replacement"
  and swapped_in_bloom: "ts_bloom (swapped_in index tenant old_keys replacement) = ts_bloom replacement"
  by (simp_all add: swapped_in_def Let_def)

lemma replace_trace_blocks_ok:
  assumes ok: "trace_ok index" and bloom: "bloom_ok (ts_bloom replacement)"
  shows "trace_ok (snd (replace_trace_blocks hasher tenant old_keys replacement index))"
proof (rule trace_ok_write [OF ok replace_fields(1)])
  let ?key = "ts_object_key replacement"
  let ?index = "snd (replace_trace_blocks hasher tenant old_keys replacement index)"
  let ?blocks = "swapped_out index tenant old_keys replacement @ [swapped_in index tenant old_keys replacement]"
  note fields = replace_fields [of hasher tenant old_keys replacement index]
  note retired = retire_fields [OF ok refl, of hasher tenant "bs_collect old_keys"]
  note forget = removals_forget_ok [OF retired(2), of tenant ?key]
  show "removals_ok (tx_pending_removals ?index)" using forget(1) by (simp add: fields(2))
  show "bs_ok (tx_pending_additions ?index)" using retired(3) by (simp add: fields(3) bs_ok_insert)
  show "distinct (map ts_object_key ?blocks)"
    by (rule distinct_map_filter_append [OF trace_okD(4) [OF ok]]) (auto simp: swapped_in_key)
  show "\<forall>b \<in> set ?blocks. bloom_ok (ts_bloom b)" using bloom trace_okD(5) [OF ok] by (auto simp: swapped_in_bloom)
  show "k \<notin> ts_object_key ` set ?blocks" if "pinned (tx_pending_removals ?index) tenant k \<noteq> None" for k
  proof -
    have "k \<noteq> ?key" "k \<notin> live_keys index tenant \<or> k \<in> set old_keys"
      using that retired(4) [of tenant k] trace_okD(6) [OF ok, of tenant k]
      by (auto simp: fields(2) forget(2) set_bs_extend split: if_splits)
    then show ?thesis by (auto simp: swapped_in_key)
  qed
  show "pinned (tx_pending_removals index) t k \<noteq> None" if "t \<noteq> tenant" "pinned (tx_pending_removals ?index) t k \<noteq> None" for t k
    using that retired(4) [of t k] by (simp add: fields(2) forget(2))
  show "k \<in> ts_object_key ` set ?blocks \<or> k \<in> set (tx_pending_additions index) \<and> k \<notin> live_keys index tenant"
    if "k \<in> set (tx_pending_additions ?index)" for k
    using that retired(5) by (auto simp: fields(3) set_bs_insert set_bs_extend swapped_in_key)
qed

text \<open>The values a map of tags holds, and what merging one map into another does to them.\<close>

definition tag_has :: "(string, string btree_set) btree_map \<Rightarrow> string \<Rightarrow> string \<Rightarrow> bool" where
  "tag_has m tag v \<longleftrightarrow> (\<exists>vs. bt_get m tag = Some vs \<and> v \<in> set vs)"

abbreviation merge_values ::
  "(string, string btree_set) btree_map \<Rightarrow> (string, string btree_set) btree_map \<Rightarrow> (string, string btree_set) btree_map" where
  "merge_values \<equiv> fold (\<lambda>(tag, vs). bt_update tag [] (bs_extend vs))"

lemma merge_values_ok:
  "tag_has (merge_values m1 m2) tag v \<longleftrightarrow> tag_has m2 tag v \<or> (\<exists>vs. (tag, vs) \<in> set m1 \<and> v \<in> set vs)"
proof (induction m1 arbitrary: m2)
  case (Cons entry m1)
  obtain t vs where entry: "entry = (t, vs)" by (cases entry)
  have "tag_has (bt_update t [] (bs_extend vs) m2) tag v \<longleftrightarrow> tag_has m2 tag v \<or> tag = t \<and> v \<in> set vs"
    by (cases "bt_get m2 t") (auto simp: tag_has_def bt_get_update set_bs_extend)
  then show ?case using Cons.IH [of "bt_update t [] (bs_extend vs) m2"] by (auto simp: entry)
qed simp

lemma merge_values_keeps: "tag_has m2 tag v \<Longrightarrow> tag_has (merge_values m1 m2) tag v"
  and merge_values_takes: "tag_has m1 tag v \<Longrightarrow> tag_has (merge_values m1 m2) tag v"
  unfolding merge_values_ok by (auto simp: tag_has_def dest: map_of_SomeD)

lemma carry_fold_ok:
  "set (fst (fold carry_tags gone (names, m))) = set names \<union> (\<Union>b \<in> set gone. set (ts_tag_names b))"
  "tag_has m tag v \<or> (\<exists>b \<in> set gone. tag_has (ts_tag_values b) tag v)
     \<Longrightarrow> tag_has (snd (fold carry_tags gone (names, m))) tag v"
proof (induction gone arbitrary: names m)
  case (Cons b gone)
  { case 1 then show ?case
      using Cons.IH(1) by (auto simp: carry_tags_def set_bs_extend) }
  { case 2 then show ?case
      using Cons.IH(2) merge_values_keeps merge_values_takes by (auto simp: carry_tags_def) }
qed auto

lemma block_has_tag_iff:
  "block_has_tag tag vo b \<longleftrightarrow> tag \<in> set (ts_tag_names b) \<and> (\<forall>v. vo = Some v \<longrightarrow> tag_has (ts_tag_values b) tag v)"
  by (auto simp: block_has_tag_def tag_has_def split: option.splits)

lemma swapped_in_tags:
  assumes "block_has_tag tag vo b"
    and "b = replacement \<or> b \<in> set (trace_blocks index tenant) \<and> ts_object_key b \<in> set old_keys \<and> ts_object_key b \<noteq> ts_object_key replacement"
  shows "block_has_tag tag vo (swapped_in index tenant old_keys replacement)"
proof -
  let ?gone = "filter (\<lambda>b. ts_object_key b \<noteq> ts_object_key replacement \<and> ts_object_key b \<in> set old_keys) (trace_blocks index tenant)"
  have "tag \<in> set (bs_extend (fst (carried_tags ?gone)) (ts_tag_names replacement))"
    using assms carry_fold_ok(1) [of ?gone "[]" "[]"] by (auto simp: set_bs_extend carried_tags_def block_has_tag_iff)
  moreover have "tag_has (merge_values (snd (carried_tags ?gone)) (ts_tag_values replacement)) tag v" if "vo = Some v" for v
  proof (cases "b = replacement")
    case True
    then show ?thesis using assms(1) that by (simp add: block_has_tag_iff merge_values_keeps)
  next
    case False
    then have "tag_has (snd (carried_tags ?gone)) tag v"
      unfolding carried_tags_def using assms that by (intro carry_fold_ok(2)) (auto simp: block_has_tag_iff)
    then show ?thesis by (rule merge_values_takes)
  qed
  ultimately show ?thesis by (simp add: block_has_tag_iff swapped_in_def Let_def)
qed

lemma level_next_mono: "a \<le> b \<Longrightarrow> level_next a \<le> level_next b"
  by (simp add: level_next_def)

lemma level_above_ge: "l \<in> set ls \<Longrightarrow> level_next l \<le> level_above ls"
proof -
  have fold: "a \<le> fold max xs a" "x \<in> set xs \<Longrightarrow> x \<le> fold max xs a" for a x :: nat and xs
    by (induction xs arbitrary: a) (auto, (meson max.bounded_iff)+)
  assume "l \<in> set ls"
  then show ?thesis
    by (cases ls) (auto simp: level_above_def intro!: level_next_mono fold(1) dest: fold(2))
qed

section \<open>Loading\<close>

text \<open>The record a load keeps of a key: one of those it read, and none of them comes after it.\<close>

definition best_record :: "record_hasher \<Rightarrow> trace_block_stats list \<Rightarrow> string \<Rightarrow> trace_block_stats option \<Rightarrow> bool" where
  "best_record hasher read k kept \<longleftrightarrow>
     (case kept of
        None \<Rightarrow> \<forall>b \<in> set read. ts_object_key b \<noteq> k
      | Some b \<Rightarrow> b \<in> set read \<and> ts_object_key b = k
          \<and> (\<forall>c \<in> set read. ts_object_key c = k \<longrightarrow> trace_record_order hasher c \<le> trace_record_order hasher b))"

lemma merge_record_ok:
  assumes "bt_ok m" and "\<And>k. best_record hasher xs k (bt_get m k)"
  shows "bt_ok (merge_record hasher x m) \<and> best_record hasher (xs @ [x]) k (bt_get (merge_record hasher x m) k)"
  using assms(1) assms(2) [of k]
  by (cases "bt_get m (ts_object_key x)"; cases "ts_object_key x = k"; cases "bt_get m k")
    (auto simp: merge_record_def best_record_def bt_ok_insert)

lemma merge_records_ok:
  "bt_ok (fold (merge_record hasher) xs []) \<and> (\<forall>k. best_record hasher xs k (bt_get (fold (merge_record hasher) xs []) k))"
proof (induction xs rule: rev_induct)
  case (snoc x xs)
  then show ?case using merge_record_ok [of "fold (merge_record hasher) xs []" hasher xs x] by simp
qed (simp add: best_record_def)

lemma best_record_unique:
  assumes "best_record hasher xs k p" and "best_record hasher xs k q"
    and "\<forall>a \<in> set xs. \<forall>b \<in> set xs. ts_object_key a = ts_object_key b \<and> trace_record_order hasher a = trace_record_order hasher b \<longrightarrow> a = b"
  shows "p = q"
  using assms by (cases p; cases q) (auto simp: best_record_def, metis order_antisym)

lemma merge_records_order:
  assumes "set xs = set ys"
    and "\<forall>a \<in> set xs. \<forall>b \<in> set xs. ts_object_key a = ts_object_key b \<and> trace_record_order hasher a = trace_record_order hasher b \<longrightarrow> a = b"
  shows "fold (merge_record hasher) xs [] = fold (merge_record hasher) ys []"
proof (rule bt_eqI)
  have "bt_get (fold (merge_record hasher) xs []) k = bt_get (fold (merge_record hasher) ys []) k" for k
  proof (rule best_record_unique [OF _ _ assms(2)])
    show "best_record hasher xs k (bt_get (fold (merge_record hasher) xs []) k)" using merge_records_ok by blast
    show "best_record hasher xs k (bt_get (fold (merge_record hasher) ys []) k)"
      using merge_records_ok [of hasher ys] unfolding best_record_def assms(1) by blast
  qed
  then show "bt_get (fold (merge_record hasher) xs []) = bt_get (fold (merge_record hasher) ys [])" ..
qed (use merge_records_ok in blast)+

section \<open>Steps\<close>

text \<open>
  What a writer does with its index: register a block whose filter is sound, swap blocks, drop blocks,
  and commit what a published snapshot carried.
\<close>

inductive trace_step :: "record_hasher \<Rightarrow> trace_index \<Rightarrow> trace_index \<Rightarrow> bool" for hasher where
  add: "bloom_validate (ts_bloom stats) = Inr () \<Longrightarrow> trace_step hasher index (add_trace_block tenant stats index)"
| replace: "bloom_validate (ts_bloom stats) = Inr ()
     \<Longrightarrow> trace_step hasher index (snd (replace_trace_blocks hasher tenant old_keys stats index))"
| remove: "trace_step hasher index (snd (remove_trace_blocks hasher tenant keys index))"
| publish: "removals_ok applied \<Longrightarrow> trace_step hasher index
     (index\<lparr>tx_pending_removals := removals_commit applied (tx_pending_removals index),
            tx_pending_additions := additions_commit applied_keys (tx_pending_additions index)\<rparr>)"

lemma removals_ok_distinct:
  assumes "removals_ok applied"
  shows "\<forall>(t, blocks) \<in> set applied. distinct (map fst blocks)" and "distinct (map fst applied)"
proof -
  show d: "distinct (map fst applied)" using assms by (simp add: removals_ok_def bt_ok_distinct)
  show "\<forall>(t, blocks) \<in> set applied. distinct (map fst blocks)"
    using assms map_of_is_SomeI [OF d] unfolding removals_ok_def by (fast intro: bt_ok_distinct)
qed

lemma publish_ok:
  assumes ok: "trace_ok index" and "removals_ok applied"
  shows "trace_ok (index\<lparr>tx_pending_removals := removals_commit applied (tx_pending_removals index),
      tx_pending_additions := additions_commit keys (tx_pending_additions index)\<rparr>)"
proof -
  note commit = removals_commit_ok [OF trace_okD(2) [OF ok] removals_ok_distinct [OF assms(2)]]
  have blocks: "trace_blocks (index\<lparr>tx_pending_removals := r, tx_pending_additions := a\<rparr>) t = trace_blocks index t" for r a t
    by (simp add: trace_blocks_def)
  show ?thesis
    using trace_okD [OF ok] commit
    by (auto simp: trace_ok_def blocks additions_commit_def bs_removes_ok unless_applied_def split: if_splits)
qed

lemma trace_step_ok: "trace_step hasher index index' \<Longrightarrow> trace_ok index \<Longrightarrow> trace_ok index'"
  by (induction rule: trace_step.induct)
    (simp_all add: add_trace_block_ok replace_trace_blocks_ok remove_trace_blocks_ok publish_ok bloom_validate_ok)

lemma candidates_ok:
  assumes "trace_ok index"
  shows "candidate_blocks_for_trace index tenant trace_id lo hi
    = Some (map ts_object_key (filter (\<lambda>b. holds_trace (ts_bloom b) trace_id)
        (blocks_overlapping index tenant \<lparr>ir_start = lo, ir_end = hi\<rparr>)))"
proof -
  have "filter_opt (\<lambda>b. bloom_maybe_contains (ts_bloom b) trace_id) (blocks_overlapping index tenant r)
      = Some (filter (\<lambda>b. holds_trace (ts_bloom b) trace_id) (blocks_overlapping index tenant r))" for r
    using trace_okD(5) [OF assms]
    by (intro filter_opt_Some bloom_maybe_contains_ok) (auto simp: blocks_overlapping_def)
  then show ?thesis by (simp add: candidate_blocks_for_trace_def)
qed

section \<open>Properties\<close>

text \<open>
  C22. Whatever a writer does with its trace index, each tenant holds one record per key, a pinned
  removal names no live block, a pending addition names a live one, and a lookup of a trace does not
  panic and returns exactly the overlapping blocks whose filter holds the trace.
\<close>

theorem trace_index_invariant:
  assumes "(trace_step hasher)\<^sup>*\<^sup>* trace_index_new index"
  shows "trace_ok index \<and> candidate_blocks_for_trace index tenant trace_id lo hi
    = Some (map ts_object_key (filter (\<lambda>b. holds_trace (ts_bloom b) trace_id)
        (blocks_overlapping index tenant \<lparr>ir_start = lo, ir_end = hi\<rparr>)))"
proof -
  have "trace_ok index"
    using assms by (induction rule: rtranclp_induct) (auto intro: trace_index_new_ok trace_step_ok)
  then show ?thesis using candidates_ok by blast
qed

definition empty_bloom :: sharded_trace_bloom where
  "empty_bloom = \<lparr>sb_shards = [\<lparr>bm_bits = [0], bm_num_bits = 64, bm_k = 2\<rparr>]\<rparr>"

definition span_block :: "string \<Rightarrow> string \<Rightarrow> trace_block_stats" where
  "span_block key tag = \<lparr>ts_object_key = key, ts_min_ts = 0, ts_max_ts = 9, ts_bloom = empty_bloom,
     ts_tag_names = [tag], ts_tag_values = [(tag, [''v''])], ts_row_count = 1, ts_level = 0\<rparr>"

theorem trace_index_invariant_witness:
  "candidate_blocks_for_trace (add_trace_block ''t'' (span_block ''a'' ''x'') trace_index_new) ''t'' [1] 0 10 \<noteq> None"
proof -
  have "trace_step (\<lambda>f. 0) trace_index_new (add_trace_block ''t'' (span_block ''a'' ''x'') trace_index_new)"
    by (rule trace_step.add) (simp add: span_block_def empty_bloom_def bloom_validate_def shard_validate_def words_for_def)
  then have "(trace_step (\<lambda>f. 0))\<^sup>*\<^sup>* trace_index_new (add_trace_block ''t'' (span_block ''a'' ''x'') trace_index_new)" ..
  from trace_index_invariant [OF this, of "''t''" "[1]" 0 10] show ?thesis by simp
qed



text \<open>
  C24. What a load makes of a tenant's records does not depend on the order the shards were read in or
  on how often a record was read, as long as the fingerprint tells apart two records of a key with the
  same time span: it keeps one record per key, in time order.
\<close>

theorem load_order_irrelevant:
  assumes "set xs = set ys"
    and "\<forall>a \<in> set xs. \<forall>b \<in> set xs. ts_object_key a = ts_object_key b \<and> ts_min_ts a = ts_min_ts b \<and> ts_max_ts a = ts_max_ts b
           \<and> trace_block_fingerprint hasher a = trace_block_fingerprint hasher b \<longrightarrow> a = b"
  shows "finish_tenant hasher \<lparr>tt_blocks = xs\<rparr> = finish_tenant hasher \<lparr>tt_blocks = ys\<rparr>
    \<and> distinct (map ts_object_key (tt_blocks (finish_tenant hasher \<lparr>tt_blocks = xs\<rparr>)))
    \<and> ts_object_key ` set (tt_blocks (finish_tenant hasher \<lparr>tt_blocks = xs\<rparr>)) = ts_object_key ` set xs"
proof -
  let ?m = "fold (merge_record hasher) xs []"
  have same: "?m = fold (merge_record hasher) ys []"
    using assms(2) by (intro merge_records_order [OF assms(1)]) (auto simp: trace_record_order_def)
  have ok: "bt_ok ?m" and best: "\<And>k. best_record hasher xs k (bt_get ?m k)" using merge_records_ok by blast+
  have mem: "(k, b) \<in> set ?m \<longleftrightarrow> bt_get ?m k = Some b" for k b
    using bt_ok_distinct [OF ok] by simp
  have keys: "map (ts_object_key \<circ> snd) ?m = map fst ?m"
  proof (rule map_cong [OF refl])
    fix e assume "e \<in> set ?m"
    then have "bt_get ?m (fst e) = Some (snd e)" using mem [of "fst e" "snd e"] by simp
    then show "(ts_object_key \<circ> snd) e = fst e" using best [of "fst e"] by (simp add: best_record_def)
  qed
  have "fst ` set ?m = ts_object_key ` set xs"
  proof (rule set_eqI)
    fix k
    have "k \<in> fst ` set ?m \<longleftrightarrow> bt_get ?m k \<noteq> None" by (simp add: map_of_eq_None_iff)
    then show "k \<in> fst ` set ?m \<longleftrightarrow> k \<in> ts_object_key ` set xs"
      using best [of k] by (cases "bt_get ?m k") (auto simp: best_record_def)
  qed
  moreover have "ts_object_key ` snd ` set ?m = fst ` set ?m"
    using arg_cong [OF keys, of set] by (simp add: image_image)
  moreover have "distinct (map ts_object_key (map snd ?m))"
    unfolding map_map keys by (rule bt_ok_distinct [OF ok])
  then have "distinct (map ts_object_key (sort_key (\<lambda>b. (ts_min_ts b, ts_max_ts b, ts_object_key b)) (map snd ?m)))"
    by (auto simp: distinct_map dest: inj_on_imageI inj_on_imageI2)
  ultimately show ?thesis by (simp add: finish_tenant_def Let_def same)
qed

theorem load_order_irrelevant_witness:
  "finish_tenant (\<lambda>f. 0) \<lparr>tt_blocks = [span_block ''a'' ''x'', span_block ''b'' ''x'']\<rparr>
     = finish_tenant (\<lambda>f. 0) \<lparr>tt_blocks = [span_block ''b'' ''x'', span_block ''a'' ''x'', span_block ''b'' ''x'']\<rparr>"
  using load_order_irrelevant [of "[span_block ''a'' ''x'', span_block ''b'' ''x'']"
      "[span_block ''b'' ''x'', span_block ''a'' ''x'', span_block ''b'' ''x'']" "\<lambda>f. 0"]
  by (auto simp: span_block_def)

end
