(* ===== verification/Trace_Shard_Spec.thy ===== *)
theory Trace_Shard_Spec
  imports Trace_Shard Shard_Codec_Spec Trace_Index_Spec
begin

text \<open>
  Decoding a trace shard undoes encoding it, and every filter that comes out of the decoder is sound.
\<close>

section \<open>Ids and sets\<close>

abbreviation id_enc :: "(string, usize) btree_map \<Rightarrow> string \<Rightarrow> byte list" where
  "id_enc ids s \<equiv> the (push_dictionary_id ids s)"

lemma push_id_Some:
  assumes "dict_ok strings ids" and "s \<in> set strings"
  shows "\<exists>i. push_dictionary_id ids s = Some (push_len i) \<and> dictionary_entry strings (of_nat i) = Inr s"
  using dict_ok_id [OF assms] by (auto simp: push_dictionary_id_def)

lemma push_id_enc: "dict_ids strings ids \<Longrightarrow> s \<in> set strings \<Longrightarrow> push_dictionary_id ids s = Some (id_enc ids s)"
  by (auto simp: dict_ids_def push_dictionary_id_def in_set_conv_nth)

lemma id_enc_ne: "dict_ok strings ids \<Longrightarrow> s \<in> set strings \<Longrightarrow> id_enc ids s \<noteq> []"
  using push_id_Some by fastforce

lemma id_codec:
  assumes d: "dict_ok strings ids"
  shows "codec (id_enc ids) (read_tag_id what strings) (\<lambda>s. s \<in> set strings)"
proof
  fix s r ys
  assume "s \<in> set strings" and a: "ahead r (id_enc ids s) ys"
  then obtain i where "push_dictionary_id ids s = Some (push_len i)" "dictionary_entry strings (of_nat i) = Inr s"
    using push_id_Some [OF d] by blast
  then show "read_tag_id what strings r = Inr (s, advance (length (id_enc ids s)) r)"
    using read_uvarint_ahead [of r "of_nat i" ys what] a by (simp add: read_tag_id_def push_len_def)
qed

definition set_enc :: "(string, usize) btree_map \<Rightarrow> string list \<Rightarrow> byte list" where
  "set_enc ids vs = push_len (length vs) @ concat (map (id_enc ids) vs)"

lemma push_ids_Some:
  assumes "dict_ids strings ids" and "set vs \<subseteq> set strings"
  shows "push_ids ids vs = Some (concat (map (id_enc ids) vs))"
proof -
  have "map_opt (push_dictionary_id ids) vs = Some (map (id_enc ids) vs)"
    using push_id_enc [OF assms(1)] assms(2) by (intro map_opt_Some) blast
  then show ?thesis by (simp add: push_ids_def)
qed

lemma bs_rebuild: "bs_ok vs \<Longrightarrow> foldl (\<lambda>s v. bs_insert v s) [] vs = vs"
  using bs_collect_id [of vs] by (simp add: bs_extend_def foldl_conv_fold)

lemma set_codec:
  assumes d: "dict_ok strings ids"
  shows "codec (set_enc ids) (read_tag_set what_count what strings) (\<lambda>vs. bs_ok vs \<and> set vs \<subseteq> set strings)"
proof
  fix vs r ys
  assume v: "bs_ok vs \<and> set vs \<subseteq> set strings" and a: "ahead r (set_enc ids vs) ys"
  have "s \<in> set strings \<and> id_enc ids s \<noteq> []" if "s \<in> set vs" for s
    using v that id_enc_ne [OF d] by blast
  note run = codec_run [OF id_codec [OF d, of what] this a [unfolded set_enc_def],
      of "\<lambda>s r. res_bind (read_tag_id what strings r) (\<lambda>(text, r'). Inr (bs_insert text s, r'))" "\<lambda>s v. bs_insert v s"]
  show "read_tag_set what_count what strings r = Inr (vs, advance (length (set_enc ids vs)) r)"
    using run(1) [of what_count] run(2) [of "[]"] bs_rebuild [OF conjunct1 [OF v]]
    by (simp add: read_tag_set_def set_enc_def)
qed

definition tag_enc :: "(string, usize) btree_map \<Rightarrow> string \<times> string btree_set \<Rightarrow> byte list" where
  "tag_enc ids entry = id_enc ids (fst entry) @ set_enc ids (snd entry)"

definition tag_valid :: "string list \<Rightarrow> string \<times> string btree_set \<Rightarrow> bool" where
  "tag_valid strings entry \<longleftrightarrow> fst entry \<in> set strings \<and> bs_ok (snd entry) \<and> set (snd entry) \<subseteq> set strings"

lemma tag_codec:
  assumes d: "dict_ok strings ids"
  shows "codec (tag_enc ids) (read_tag_values strings) (tag_valid strings)"
proof
  fix e r ys
  assume v: "tag_valid strings e" and a: "ahead r (tag_enc ids e) ys"
  have a1: "ahead r (id_enc ids (fst e)) (set_enc ids (snd e) @ ys)" using a by (simp add: tag_enc_def ahead_append)
  note a2 = ahead_advance [OF a1]
  show "read_tag_values strings r = Inr (e, advance (length (tag_enc ids e)) r)"
    using codec.dec_enc [OF id_codec [OF d, of "''a tag name id''"] _ a1]
      codec.dec_enc [OF set_codec [OF d, of "''values of a tag''" "''a tag value id''"] _ a2] v
    by (simp add: read_tag_values_def tag_enc_def tag_valid_def)
qed

lemma push_tag_values_Some:
  assumes "dict_ids strings ids" and "tag_valid strings e"
  shows "push_tag_values ids e = Some (tag_enc ids e)"
proof -
  obtain x where "push_dictionary_id ids (fst e) = Some x"
    using push_id_enc [OF assms(1)] assms(2) unfolding tag_valid_def by blast
  then show ?thesis
    using push_ids_Some [OF assms(1), of "snd e"] assms(2)
    by (simp add: push_tag_values_def tag_enc_def set_enc_def tag_valid_def case_prod_unfold)
qed

section \<open>Filters\<close>

lemma bloom_shard_codec: "codec push_bloom_shard read_bloom_shard (\<lambda>b. bm_k b \<le> u32_max)"
proof
  fix b r ys
  assume k: "bm_k b \<le> u32_max" and a: "ahead r (push_bloom_shard b) ys"
  let ?body = "push_len (length (bm_bits b)) @ concat (map le_bytes (bm_bits b))"
  have a1: "ahead r (push_uvarint (bm_num_bits b)) (push_uvarint (of_nat (bm_k b)) @ ?body @ ys)"
    using a by (simp add: push_bloom_shard_def ahead_append)
  note a2 = ahead_advance [OF a1]
  note a3 = ahead_advance [OF a2]
  note run = codec_run [OF fixed.codec_axioms [of "''a bloom shard word''"] _ a3,
      of "\<lambda>ws r. res_bind (read_u64_le ''a bloom shard word'' r) (\<lambda>(w, r'). Inr (ws @ [w], r'))" "\<lambda>ws w. ws @ [w]"]
  have "unat (of_nat (bm_k b) :: u64) = bm_k b" using k by (rule unat_of_u32)
  then show "read_bloom_shard r = Inr (b, advance (length (push_bloom_shard b)) r)"
    using read_uvarint_ahead [OF a1, of "''a bloom shard width''"] read_uvarint_ahead [OF a2, of "''a bloom shard hash count''"]
      run(1) [of "''bloom shard words''"] run(2) [of "[]"] k
    by (simp add: read_bloom_shard_def push_bloom_shard_def panic_simps collect_run add.assoc)
qed

definition bloom_enc :: "sharded_trace_bloom \<Rightarrow> byte list" where
  "bloom_enc bloom = push_len (length (sb_shards bloom)) @ concat (map push_bloom_shard (sb_shards bloom))"

definition bloom_codable :: "sharded_trace_bloom \<Rightarrow> bool" where
  "bloom_codable bloom \<longleftrightarrow> bloom_ok bloom \<and> (\<forall>b \<in> set (sb_shards bloom). bm_k b \<le> u32_max)"

lemma bloom_codec: "codec bloom_enc (read_bloom key) bloom_codable"
proof
  fix bloom r ys
  assume v: "bloom_codable bloom" and a: "ahead r (bloom_enc bloom) ys"
  have "bm_k b \<le> u32_max \<and> push_bloom_shard b \<noteq> []" if "b \<in> set (sb_shards bloom)" for b
    using v that by (simp add: bloom_codable_def push_bloom_shard_def)
  note run = codec_run [OF bloom_shard_codec this a [unfolded bloom_enc_def],
      of "\<lambda>shards r. res_bind (read_bloom_shard r) (\<lambda>(b, r'). Inr (shards @ [b], r'))" "\<lambda>shards b. shards @ [b]"]
  have same: "\<lparr>sb_shards = sb_shards bloom\<rparr> = bloom" by (cases bloom) simp
  have "bloom_validate bloom = Inr ()" using v by (simp add: bloom_validate_ok bloom_codable_def)
  then show "read_bloom key r = Inr (bloom, advance (length (bloom_enc bloom)) r)"
    using run(1) [of "''bloom shards of a block''"] run(2) [of "[]"]
    by (simp add: read_bloom_def bloom_enc_def collect_run same)
qed

section \<open>Blocks\<close>

definition stats_prefix :: "trace_block_stats \<Rightarrow> shard_block_prefix" where
  "stats_prefix b = \<lparr>sp_object_key = ts_object_key b, sp_bounds = \<lparr>sb_min_ts = ts_min_ts b, sb_max_ts = ts_max_ts b\<rparr>,
     sp_row_count = ts_row_count b, sp_level = ts_level b\<rparr>"

definition tags_valid :: "string list \<Rightarrow> trace_block_stats \<Rightarrow> bool" where
  "tags_valid strings b \<longleftrightarrow> bs_ok (ts_tag_names b) \<and> set (ts_tag_names b) \<subseteq> set strings
     \<and> bt_ok (ts_tag_values b) \<and> (\<forall>e \<in> set (ts_tag_values b). tag_valid strings e)"

definition tags_enc :: "(string, usize) btree_map \<Rightarrow> trace_block_stats \<Rightarrow> byte list" where
  "tags_enc ids b = set_enc ids (ts_tag_names b)
     @ push_len (length (ts_tag_values b)) @ concat (map (tag_enc ids) (ts_tag_values b))"

definition stats_valid :: "string list \<Rightarrow> trace_block_stats \<Rightarrow> bool" where
  "stats_valid strings b \<longleftrightarrow> prefix_valid (stats_prefix b) \<and> tags_valid strings b \<and> bloom_codable (ts_bloom b)"

fun blocks_enc :: "(string, usize) btree_map \<Rightarrow> i64 \<Rightarrow> trace_block_stats list \<Rightarrow> byte list" where
  "blocks_enc ids p [] = []"
| "blocks_enc ids p (b # bs) = prefix_bytes p (stats_prefix b) @ tags_enc ids b @ bloom_enc (ts_bloom b)
     @ blocks_enc ids (ts_min_ts b) bs"

lemma push_trace_tags_Some:
  assumes d: "dict_ids strings ids" and v: "tags_valid strings b"
  shows "push_trace_tags ids b = Some (tags_enc ids b)"
proof -
  have "map_opt (push_tag_values ids) (ts_tag_values b) = Some (map (tag_enc ids) (ts_tag_values b))"
    using push_tag_values_Some [OF d] v by (intro map_opt_Some) (simp add: tags_valid_def)
  then show ?thesis
    using push_ids_Some [OF d, of "ts_tag_names b"] v
    by (simp add: push_trace_tags_def tags_enc_def set_enc_def tags_valid_def)
qed

lemma push_trace_blocks_Some:
  assumes d: "dict_ids strings ids" and "\<And>b. b \<in> set bs \<Longrightarrow> stats_valid strings b"
  shows "push_trace_blocks ids p bs = Some (blocks_enc ids p bs)"
  using assms(2)
proof (induction bs arbitrary: p)
  case (Cons b bs)
  have "tags_valid strings b" using Cons.prems [of b] by (simp add: stats_valid_def)
  then show ?case
    using Cons push_trace_tags_Some [OF d, of b]
    by (simp add: push_shard_block_prefix_def prefix_bytes_def stats_prefix_def bloom_enc_def)
qed simp

lemma tag_enc_ne: "dict_ok strings ids \<Longrightarrow> tag_valid strings e \<Longrightarrow> tag_enc ids e \<noteq> []"
  using id_enc_ne by (simp add: tag_enc_def tag_valid_def)

lemma foldl_insert: "foldl (\<lambda>m (k, v). bt_insert k v m) acc es = fold (\<lambda>(k, v). bt_insert k v) es acc"
  by (induction es arbitrary: acc) auto

lemma read_tag_map:
  assumes d: "dict_ok strings ids" and v: "tags_valid strings b"
    and a: "ahead r (push_len (length (ts_tag_values b)) @ concat (map (tag_enc ids) (ts_tag_values b))) ys"
  shows "read_count what r = Inr (length (ts_tag_values b), advance (length (push_len (length (ts_tag_values b)))) r)"
    and "read_times (length (ts_tag_values b)) (\<lambda>m r. res_bind (read_tag_values strings r)
        (\<lambda>((tag, vals), r'). Inr (bt_insert tag vals m, r'))) [] (advance (length (push_len (length (ts_tag_values b)))) r)
      = Inr (ts_tag_values b, advance (length (push_len (length (ts_tag_values b)) @ concat (map (tag_enc ids) (ts_tag_values b)))) r)"
proof -
  have "tag_valid strings e \<and> tag_enc ids e \<noteq> []" if "e \<in> set (ts_tag_values b)" for e
    using v that tag_enc_ne [OF d] by (simp add: tags_valid_def)
  note run = codec_run [OF tag_codec [OF d] this a, where f = "\<lambda>m r. res_bind (read_tag_values strings r)
        (\<lambda>((tag, vals), r'). Inr (bt_insert tag vals m, r'))" and step = "\<lambda>m (k, v). bt_insert k v m"]
  show "read_count what r = Inr (length (ts_tag_values b), advance (length (push_len (length (ts_tag_values b)))) r)"
    by (rule run(1)) (auto simp: case_prod_unfold)
  have "foldl (\<lambda>m (k, v). bt_insert k v m) [] (ts_tag_values b) = ts_tag_values b"
    using bt_rebuild v unfolding foldl_insert tags_valid_def by blast
  then show "read_times (length (ts_tag_values b)) (\<lambda>m r. res_bind (read_tag_values strings r)
        (\<lambda>((tag, vals), r'). Inr (bt_insert tag vals m, r'))) [] (advance (length (push_len (length (ts_tag_values b)))) r)
      = Inr (ts_tag_values b, advance (length (push_len (length (ts_tag_values b)) @ concat (map (tag_enc ids) (ts_tag_values b)))) r)"
    using run(2) [of "[]"] by (simp add: case_prod_unfold)
qed

lemma read_trace_block_ahead:
  assumes d: "dict_ok strings ids" and v: "stats_valid strings b"
    and a: "ahead r (prefix_bytes p (stats_prefix b) @ tags_enc ids b @ bloom_enc (ts_bloom b)) ys"
  shows "read_trace_block strings (acc, p) r
    = Inr ((acc @ [b], ts_min_ts b), advance (length (prefix_bytes p (stats_prefix b) @ tags_enc ids b @ bloom_enc (ts_bloom b))) r)"
proof -
  let ?pre = "prefix_bytes p (stats_prefix b)" and ?names = "set_enc ids (ts_tag_names b)"
  let ?vals = "push_len (length (ts_tag_values b)) @ concat (map (tag_enc ids) (ts_tag_values b))"
  have t: "tags_valid strings b" and p: "prefix_valid (stats_prefix b)" and bl: "bloom_codable (ts_bloom b)"
    using v by (simp_all add: stats_valid_def)
  have a1: "ahead r ?pre (?names @ ?vals @ bloom_enc (ts_bloom b) @ ys)"
    using a by (simp add: tags_enc_def ahead_append)
  note a2 = ahead_advance [OF a1]
  have a3: "ahead (advance (length ?names) (advance (length ?pre) r)) ?vals (bloom_enc (ts_bloom b) @ ys)"
    using ahead_advance [OF a2] by simp
  note a4 = ahead_advance [OF a3]
  have names: "bs_ok (ts_tag_names b) \<and> set (ts_tag_names b) \<subseteq> set strings" using t by (simp add: tags_valid_def)
  have b: "\<lparr>ts_object_key = ts_object_key b, ts_min_ts = ts_min_ts b, ts_max_ts = ts_max_ts b, ts_bloom = ts_bloom b,
      ts_tag_names = ts_tag_names b, ts_tag_values = ts_tag_values b, ts_row_count = ts_row_count b, ts_level = ts_level b\<rparr> = b"
    by (cases b) simp
  show ?thesis
    using prefix.dec_enc [OF p a1] codec.dec_enc [OF set_codec [OF d, of "''tag names of a block''" "''a tag name id''"] names a2]
      read_tag_map(1) [OF d t a3, of "''tag value sets of a block''"] read_tag_map(2) [OF d t a3]
      codec.dec_enc [OF bloom_codec bl a4, of "ts_object_key b"] b
    by (simp add: read_trace_block_def stats_prefix_def tags_enc_def add.assoc)
qed

lemma blocks_enc_length: "length bs \<le> length (blocks_enc ids p bs)"
proof (induction bs arbitrary: p)
  case (Cons b bs)
  have "length (bloom_enc (ts_bloom b)) \<ge> 1" by (simp add: bloom_enc_def Suc_le_eq)
  then show ?case using Cons [of "ts_min_ts b"] by simp
qed simp

lemma trace_blocks_run:
  assumes d: "dict_ok strings ids" and "\<And>b. b \<in> set bs \<Longrightarrow> stats_valid strings b" and "ahead r (blocks_enc ids p bs) ys"
  shows "\<exists>q. read_times (length bs) (read_trace_block strings) (acc, p) r
       = Inr ((acc @ bs, q), advance (length (blocks_enc ids p bs)) r)"
  using assms(2-)
proof (induction bs arbitrary: acc p r)
  case (Cons b bs)
  let ?one = "prefix_bytes p (stats_prefix b) @ tags_enc ids b @ bloom_enc (ts_bloom b)"
  let ?rest = "blocks_enc ids (ts_min_ts b) bs"
  have bytes: "blocks_enc ids p (b # bs) = ?one @ ?rest" by simp
  have a1: "ahead r ?one (?rest @ ys)" using Cons.prems(2) unfolding bytes by (simp only: ahead_append)
  have one: "read_trace_block strings (acc, p) r = Inr ((acc @ [b], ts_min_ts b), advance (length ?one) r)"
    using read_trace_block_ahead [OF d _ a1] Cons.prems(1) by simp
  obtain q where "read_times (length bs) (read_trace_block strings) (acc @ [b], ts_min_ts b) (advance (length ?one) r)
      = Inr (((acc @ [b]) @ bs, q), advance (length ?rest) (advance (length ?one) r))"
    using Cons.IH [OF _ ahead_advance [OF a1], of "acc @ [b]"] Cons.prems(1) by auto
  then show ?case unfolding bytes using one by (simp add: add.assoc)
qed simp

section \<open>The dictionary\<close>

definition block_strings :: "trace_block_stats \<Rightarrow> string set" where
  "block_strings b = set (ts_tag_names b) \<union> (\<Union>(tag, vs) \<in> set (ts_tag_values b). insert tag (set vs))"

lemma set_keys_bt_insert: "set (bt_keys (bt_insert k v m)) = insert k (set (bt_keys m))"
  by (simp add: fst_bt_insert)

lemma insert_all_ok:
  "bt_ok d \<Longrightarrow> bt_ok (fold (\<lambda>v. bt_insert v n) vs d)"
  "set (bt_keys (fold (\<lambda>v. bt_insert v n) vs d)) = set (bt_keys d) \<union> set vs"
  by (induction vs arbitrary: d) (auto simp: bt_ok_insert set_keys_bt_insert simp del: set_map)

lemma note_values_ok:
  "bt_ok d \<Longrightarrow> bt_ok (fold note_tag_values es d)"
  "set (bt_keys (fold note_tag_values es d)) = set (bt_keys d) \<union> (\<Union>(tag, vs) \<in> set es. insert tag (set vs))"
  by (induction es arbitrary: d)
    (auto simp: note_tag_values_def insert_all_ok bt_ok_insert set_keys_bt_insert simp del: set_map)

lemma collect_tags_ok:
  "bt_ok (collect_tags blocks)" "set (bt_keys (collect_tags blocks)) = (\<Union>b \<in> set blocks. block_strings b)"
proof -
  have "bt_ok d \<Longrightarrow> bt_ok (fold note_block_tags blocks d)" for d
    by (induction blocks arbitrary: d) (auto simp: note_block_tags_def note_values_ok(1) insert_all_ok(1))
  then show "bt_ok (collect_tags blocks)" by (simp add: collect_tags_def)
  have "set (bt_keys (fold note_block_tags blocks d)) = set (bt_keys d) \<union> (\<Union>b \<in> set blocks. block_strings b)" for d
    by (induction blocks arbitrary: d)
      (simp_all add: note_block_tags_def note_values_ok(2) insert_all_ok(2) block_strings_def Un_assoc del: set_map)
  then show "set (bt_keys (collect_tags blocks)) = (\<Union>b \<in> set blocks. block_strings b)"
    by (simp add: collect_tags_def)
qed

section \<open>Round trip\<close>

definition record_codable :: "trace_block_stats \<Rightarrow> bool" where
  "record_codable b \<longleftrightarrow> prefix_valid (stats_prefix b) \<and> bloom_codable (ts_bloom b) \<and> bs_ok (ts_tag_names b)
     \<and> bt_ok (ts_tag_values b) \<and> (\<forall>(tag, vs) \<in> set (ts_tag_values b). bs_ok vs) \<and> (\<forall>s \<in> block_strings b. utf8_string s)"

lemma record_codable_valid:
  assumes "record_codable b" and "block_strings b \<subseteq> set strings"
  shows "stats_valid strings b"
proof -
  have "tag_valid strings e" if e: "e \<in> set (ts_tag_values b)" for e
  proof -
    obtain tag vs where "e = (tag, vs)" by (cases e)
    then have "insert tag (set vs) \<subseteq> block_strings b" "bs_ok vs"
      using e assms(1) by (auto simp: block_strings_def record_codable_def)
    then show ?thesis using assms(2) by (simp add: tag_valid_def \<open>e = (tag, vs)\<close> subset_iff)
  qed
  moreover have "set (ts_tag_names b) \<subseteq> set strings" using assms(2) by (auto simp: block_strings_def)
  ultimately show ?thesis using assms(1) by (simp add: record_codable_def stats_valid_def tags_valid_def)
qed

lemma trace_shard_encodes:
  fixes tenant blocks
  assumes ok: "\<forall>b \<in> set blocks. record_codable b"
  defines "strings \<equiv> bt_keys (collect_tags blocks)"
    and "ids \<equiv> dc_ids (assign_sorted_string_ids (collect_tags blocks))"
  shows "dict_ids strings ids" and "\<forall>b \<in> set blocks. stats_valid strings b" and "\<forall>s \<in> set strings. utf8_string s"
    and "encode_trace_shard tenant blocks = Some (trace_shard_magic @ [trace_shard_format_version] @ push_string tenant
      @ push_len (length strings) @ concat (map push_string strings) @ push_len (length blocks) @ blocks_enc ids 0 blocks)"
proof -
  have str: "dc_strings (assign_sorted_string_ids (collect_tags blocks)) = strings"
    by (simp add: assign_sorted_string_ids_def strings_def Let_def)
  show d: "dict_ids strings ids"
    using assigned_ids [OF collect_tags_ok(1), of blocks] unfolding str ids_def .
  have keys: "set strings = (\<Union>b \<in> set blocks. block_strings b)" unfolding strings_def by (rule collect_tags_ok(2))
  show v: "\<forall>b \<in> set blocks. stats_valid strings b" using record_codable_valid ok keys by blast
  show "\<forall>s \<in> set strings. utf8_string s" using ok unfolding keys record_codable_def by blast
  show "encode_trace_shard tenant blocks = Some (trace_shard_magic @ [trace_shard_format_version] @ push_string tenant
      @ push_len (length strings) @ concat (map push_string strings) @ push_len (length blocks) @ blocks_enc ids 0 blocks)"
    using push_trace_blocks_Some [OF d, of blocks 0] v
    by (simp add: encode_trace_shard_def Let_def str flip: ids_def)
qed

lemma trace_shard_codes:
  assumes "utf8_string tenant" and "\<forall>b \<in> set blocks. record_codable b"
  shows "\<exists>bytes. encode_trace_shard tenant blocks = Some bytes
    \<and> (length bytes \<le> usize_max \<longrightarrow> decode_trace_shard key bytes = Inr blocks)"
proof -
  let ?S = "bt_keys (collect_tags blocks)" and ?ids = "dc_ids (assign_sorted_string_ids (collect_tags blocks))"
  let ?body = "push_len (length blocks) @ blocks_enc ?ids 0 blocks"
  note enc = trace_shard_encodes [OF assms(2)]
  obtain bytes where bytes: "encode_trace_shard tenant blocks = Some bytes"
      "bytes = trace_shard_magic @ [trace_shard_format_version] @ push_string tenant
        @ push_len (length ?S) @ concat (map push_string ?S) @ ?body"
    using enc(4) [of tenant] by blast
  have "decode_trace_shard key bytes = Inr blocks" if size: "length bytes \<le> usize_max"
  proof -
    have "length ?S \<le> length (concat (map push_string ?S))" by (rule run_length) simp
    then have "length ?S \<le> usize_max" using size unfolding bytes(2) length_append by linarith
    then have d: "dict_ok ?S ?ids" using enc(1) by (simp add: dict_ok_def)
    obtain r where r: "decode_shard_header bytes trace_shard_magic trace_shard_format_version ''a trace index shard''
        = Inr \<lparr>dh_reader = r, dh_tenant = tenant, dh_dictionary = ?S\<rparr>" "ahead r ?body []"
      using header_ahead [OF bytes(2) size assms(1)] enc(3) by blast
    have a1: "ahead r (push_len (length blocks)) (blocks_enc ?ids 0 blocks)" using r(2) by (simp add: ahead_append)
    have a2: "ahead (advance (length (push_len (length blocks))) r) (blocks_enc ?ids 0 blocks) []"
      using ahead_advance [where zs = "[]"] a1 by simp
    obtain q where q: "read_times (length blocks) (read_trace_block ?S) ([], 0) (advance (length (push_len (length blocks))) r)
        = Inr ((blocks, q), advance (length (blocks_enc ?ids 0 blocks)) (advance (length (push_len (length blocks))) r))"
      using trace_blocks_run [OF d _ a2, of "[]"] enc(2) by auto
    have "is_exhausted (advance (length (blocks_enc ?ids 0 blocks)) (advance (length (push_len (length blocks))) r))"
      using ahead_advance [of _ _ "[]" "[]"] a2 by (fastforce simp: ahead_def rest_of_def is_exhausted_def)
    then show ?thesis
      using r(1) read_count_ahead [OF a1 blocks_enc_length, of "''blocks''"] q
      by (simp add: decode_trace_shard_def decode_trace_def)
  qed
  then show ?thesis using bytes(1) by blast
qed

text \<open>
  C25. A trace shard of codable records encodes without a panic, and where the object fits in memory
  decoding its bytes gives back exactly the records, filters and tags included, in their order.
\<close>

theorem trace_shard_roundtrip:
  assumes "utf8_string tenant" and "\<forall>b \<in> set blocks. record_codable b"
  shows "\<exists>bytes. encode_trace_shard tenant blocks = Some bytes
    \<and> (length bytes \<le> usize_max \<longrightarrow> decode_trace_shard key bytes = Inr blocks)"
  by (rule trace_shard_codes [OF assms])

theorem trace_shard_roundtrip_witness:
  "\<exists>bytes. encode_trace_shard ''t'' [span_block ''a'' ''x''] = Some bytes
     \<and> (length bytes \<le> usize_max \<longrightarrow> decode_trace_shard ''k'' bytes = Inr [span_block ''a'' ''x''])"
proof (rule trace_shard_roundtrip)
  have "utf8_valid (string_bytes ''t'')" "utf8_valid (string_bytes ''a'')" "utf8_valid (string_bytes ''x'')"
    "utf8_valid (string_bytes ''v'')" by code_simp+
  then have utf8: "utf8_string ''t''" "utf8_string ''a''" "utf8_string ''x''" "utf8_string ''v''"
    by (simp_all add: utf8_string_def)
  show "utf8_string ''t''" by (rule utf8(1))
  have "bloom_codable empty_bloom"
    by (simp add: bloom_codable_def empty_bloom_def bloom_ok_def shard_ok_def)
  then show "\<forall>b \<in> set [span_block ''a'' ''x'']. record_codable b"
    using utf8 by (simp add: record_codable_def span_block_def stats_prefix_def prefix_valid_def block_strings_def is_i64_def)
qed

end
