(* ===== verification/Trace_Snapshot_Spec.thy ===== *)
theory Trace_Snapshot_Spec
  imports Trace_Snapshot Snapshot_Store_Spec Trace_Shard_Spec
begin

text \<open>
  What a published manifest holds, and that a save changes it the way the writer's pending sets say.

  The contents of a tenant are a map from object keys to records.  A manifest holds them when its
  shards are exactly the slots that some record's span meets, and each payload encodes the records of
  its slot.  Merging a tenant reads only the shards a contribution or removal touches and leaves a
  manifest that holds the contents with the removals dropped and the contributions put in.
\<close>

section \<open>Contents\<close>

type_synonym contents = "string \<rightharpoonup> trace_block_stats"

definition block_ranges :: "trace_block_stats \<Rightarrow> index_shard_range list" where
  "block_ranges b = shard_ranges_for_span (ts_min_ts b) (ts_max_ts b) trace_index_shard_width"

definition record_span :: "trace_block_stats \<Rightarrow> i64 \<times> i64 \<times> string" where
  "record_span b = (ts_min_ts b, ts_max_ts b, ts_object_key b)"

definition contents_ok :: "string \<Rightarrow> contents \<Rightarrow> bool" where
  "contents_ok tenant C \<longleftrightarrow> finite (dom C) \<and> (\<forall>k b. C k = Some b \<longrightarrow> ts_object_key b = k \<and> record_codable b)
     \<and> (C \<noteq> Map.empty \<longrightarrow> utf8_string tenant)"

definition scatter :: "contents \<Rightarrow> index_shard_range \<Rightarrow> trace_block_stats set" where
  "scatter C r = {b \<in> ran C. r \<in> set (block_ranges b)}"

definition shard_list :: "contents \<Rightarrow> index_shard_range \<Rightarrow> trace_block_stats list" where
  "shard_list C r = sort_key record_span
     (map (\<lambda>k. the (C k)) (sorted_list_of_set {k \<in> dom C. r \<in> set (block_ranges (the (C k)))}))"

definition payload_of :: "string \<Rightarrow> contents \<Rightarrow> index_shard_range \<Rightarrow> byte list" where
  "payload_of tenant C r = the (encode_trace_shard tenant (shard_list C r))"

lemma width_i64: "1 \<le> trace_index_shard_width" "is_i64 trace_index_shard_width"
  by (simp_all add: trace_index_shard_width_def is_i64_def)

lemma codable_i64: "record_codable b \<Longrightarrow> is_i64 (ts_min_ts b) \<and> is_i64 (ts_max_ts b)"
  by (simp add: record_codable_def stats_prefix_def prefix_valid_def)

lemma block_ranges_props:
  assumes "record_codable b"
  shows "block_ranges b \<noteq> []" "distinct (block_ranges b)"
    and "r \<in> set (block_ranges b) \<Longrightarrow> ir_start r \<le> ir_end r \<and> is_i64 (ir_start r) \<and> is_i64 (ir_end r)"
  using shard_ranges_props [of "ts_min_ts b" "ts_max_ts b" trace_index_shard_width] codable_i64 [OF assms] width_i64
  by (simp_all add: block_ranges_def)

lemma contents_key: "contents_ok tenant C \<Longrightarrow> b \<in> ran C \<Longrightarrow> C (ts_object_key b) = Some b \<and> record_codable b"
  by (auto simp: contents_ok_def ran_def)

lemma set_shard_list:
  assumes "contents_ok tenant C"
  shows "set (shard_list C r) = scatter C r" and "distinct (map ts_object_key (shard_list C r))"
proof -
  let ?K = "{k \<in> dom C. r \<in> set (block_ranges (the (C k)))}"
  have fin: "finite ?K" using assms by (simp add: contents_ok_def)
  have key: "ts_object_key (the (C k)) = k" if "k \<in> ?K" for k using assms that by (auto simp: contents_ok_def)
  have "(\<lambda>k. the (C k)) ` ?K = scatter C r"
    by (auto simp: scatter_def ran_def image_def dom_def)
  then show "set (shard_list C r) = scatter C r" by (simp add: shard_list_def fin)
  have "map ts_object_key (map (\<lambda>k. the (C k)) (sorted_list_of_set ?K)) = sorted_list_of_set ?K"
    unfolding map_map by (rule map_idI) (use key fin in simp)
  then have "distinct (map ts_object_key (map (\<lambda>k. the (C k)) (sorted_list_of_set ?K)))" by simp
  then show "distinct (map ts_object_key (shard_list C r))"
    unfolding shard_list_def distinct_map [of ts_object_key] by simp
qed

lemma distinct_span: "distinct (map ts_object_key bs) \<Longrightarrow> distinct (map record_span bs)"
  by (simp add: distinct_map inj_on_def record_span_def)

lemma sort_shard_list:
  assumes ok: "contents_ok tenant C" and "set bs = scatter C r" and "distinct (map ts_object_key bs)"
  shows "sort_key record_span bs = shard_list C r"
proof (rule map_sorted_distinct_set_unique [where f = record_span])
  have "inj_on record_span (scatter C r)"
    using contents_key [OF ok] unfolding inj_on_def scatter_def record_span_def by (metis (no_types, lifting) mem_Collect_eq option.inject prod.inject)
  then show "inj_on record_span (set (sort_key record_span bs) \<union> set (shard_list C r))"
    using assms(2) set_shard_list(1) [OF ok] by simp
  have "distinct (map record_span bs)" using distinct_span assms(3) by blast
  then show "distinct (map record_span (sort_key record_span bs))" by (simp add: distinct_map)
  show "distinct (map record_span (shard_list C r))" by (rule distinct_span [OF set_shard_list(2) [OF ok]])
  show "sorted (map record_span (shard_list C r))" by (simp add: shard_list_def)
qed (use assms(2) set_shard_list(1) [OF ok] in simp_all)

lemma payload_codes:
  assumes "contents_ok tenant C" and "scatter C r \<noteq> {}"
  shows "encode_trace_shard tenant (shard_list C r) = Some (payload_of tenant C r)"
    and "length (payload_of tenant C r) \<le> usize_max \<Longrightarrow> decode_trace_shard k (payload_of tenant C r) = Inr (shard_list C r)"
proof -
  have utf8: "utf8_string tenant" using assms by (auto simp: contents_ok_def scatter_def)
  have cod: "\<forall>b \<in> set (shard_list C r). record_codable b"
    using contents_key [OF assms(1)] unfolding set_shard_list(1) [OF assms(1)] scatter_def by blast
  obtain bytes where "encode_trace_shard tenant (shard_list C r) = Some bytes"
      "length bytes \<le> usize_max \<longrightarrow> decode_trace_shard k bytes = Inr (shard_list C r)"
    using trace_shard_codes [OF utf8 cod, of k] by blast
  then show "encode_trace_shard tenant (shard_list C r) = Some (payload_of tenant C r)"
    and "length (payload_of tenant C r) \<le> usize_max \<Longrightarrow> decode_trace_shard k (payload_of tenant C r) = Inr (shard_list C r)"
    by (simp_all add: payload_of_def)
qed

section \<open>A manifest that holds contents\<close>

definition payload_at :: "'s object_client \<Rightarrow> string \<Rightarrow> string \<Rightarrow> contents \<Rightarrow> index_shard_range \<Rightarrow> string" where
  "payload_at client key tenant C r =
     shard_payload_object_key key tenant r (shard_payload_content_hash client (payload_of tenant C r))"

definition tenant_holds ::
  "'s object_client \<Rightarrow> 's object_view \<Rightarrow> string \<Rightarrow> nat \<Rightarrow> snapshot_manifest \<Rightarrow> 's \<Rightarrow> string \<Rightarrow> contents \<Rightarrow> bool" where
  "tenant_holds client view key max_bytes m s tenant C \<longleftrightarrow>
     contents_ok tenant C
     \<and> distinct (map ms_range (shards_of m tenant)) \<and> ms_range ` set (shards_of m tenant) = {r. scatter C r \<noteq> {}}
     \<and> (\<forall>sh \<in> set (shards_of m tenant).
          ms_content sh = shard_payload_content_hash client (payload_of tenant C (ms_range sh))
          \<and> view s (payload_at client key tenant C (ms_range sh)) = Some (payload_of tenant C (ms_range sh))
          \<and> length (payload_of tenant C (ms_range sh)) \<le> min max_bytes usize_max)"

definition touches :: "index_shard_range list \<Rightarrow> index_shard_range \<Rightarrow> bool" where
  "touches touched r \<longleftrightarrow> list_ex (\<lambda>t. range_overlaps r (ir_start t) (ir_end t)) touched"

lemma touches_own: "r \<in> set touched \<Longrightarrow> ir_start r \<le> ir_end r \<Longrightarrow> touches touched r"
  by (auto simp: touches_def list_ex_iff range_overlaps_def)

lemma res_fold_ok:
  assumes "P [] acc"
    and step: "\<And>before x after acc. xs = before @ x # after \<Longrightarrow> P before acc
      \<Longrightarrow> \<exists>acc'. f x acc = Inr acc' \<and> P (before @ [x]) acc'"
  shows "\<exists>acc'. res_fold f xs acc = Inr acc' \<and> P xs acc'"
proof -
  have "\<exists>acc'. res_fold f ys acc = Inr acc' \<and> P (before @ ys) acc'"
    if "P before acc" "xs = before @ ys" for before ys acc
    using that
  proof (induction ys arbitrary: before acc)
    case (Cons y ys)
    from step [OF Cons.prems(2,1)] obtain acc1 where "f y acc = Inr acc1" "P (before @ [y]) acc1" by blast
    then show ?case using Cons.IH [of "before @ [y]" acc1] Cons.prems(2) by simp
  qed simp
  from this [of "[]" acc xs] assms(1) show ?thesis by simp
qed

lemma read_payload_ok:
  assumes law: "reliable_store client view" and key: "normal_key key"
    and holds: "tenant_holds client view key max_bytes m s tenant C" and sh: "sh \<in> set (shards_of m tenant)"
  shows "read_shard_payload client (shard_payload_object_key key tenant (ms_range sh) (ms_content sh)) max_bytes s
      = Inr (payload_of tenant C (ms_range sh))"
    and "decode_trace_shard k (payload_of tenant C (ms_range sh)) = Inr (shard_list C (ms_range sh))"
proof -
  let ?r = "ms_range sh"
  have facts: "contents_ok tenant C" "scatter C ?r \<noteq> {}"
      "ms_content sh = shard_payload_content_hash client (payload_of tenant C ?r)"
      "view s (payload_at client key tenant C ?r) = Some (payload_of tenant C ?r)"
      "length (payload_of tenant C ?r) \<le> max_bytes" "length (payload_of tenant C ?r) \<le> usize_max"
    using holds sh unfolding tenant_holds_def by auto
  have "os_path client (payload_at client key tenant C ?r) = payload_at client key tenant C ?r"
    using reliable_storeD(1) [OF law] payload_key_normal [of key tenant ?r] key
    by (simp add: path_law_def normal_key_def payload_at_def shard_payload_content_hash_def)
  then show "read_shard_payload client (shard_payload_object_key key tenant ?r (ms_content sh)) max_bytes s = Inr (payload_of tenant C ?r)"
    using reliable_storeD(3) [OF law facts(4,5)]
    by (simp add: read_shard_payload_def read_capped_as_def facts(3) payload_at_def)
  show "decode_trace_shard k (payload_of tenant C ?r) = Inr (shard_list C ?r)"
    by (rule payload_codes(2) [OF facts(1,2,6)])
qed

text \<open>The reading half of a merge: the touched shards decoded, the others carried by name.\<close>

lemma read_touched_ok:
  assumes law: "reliable_store (tm_client tm) view" and key: "normal_key (tm_key tm)"
    and holds: "tenant_holds (tm_client tm) view (tm_key tm) (tm_max_bytes tm) (tm_base tm) s (tm_tenant tm) C"
  shows "\<exists>carried records fetched'. read_touched tm touched note_trace_shard [] fetched s = Inr (carried, records, fetched')
    \<and> bt_ok carried \<and> bt_ok records
    \<and> (\<forall>r. bt_get records r = (if scatter C r \<noteq> {} \<and> touches touched r then Some (shard_list C r) else None))
    \<and> (\<forall>r. bt_get carried r = (if scatter C r \<noteq> {} \<and> \<not> touches touched r
          then Some (shard_payload_content_hash (tm_client tm) (payload_of (tm_tenant tm) C r)) else None))"
proof -
  let ?shards = "shards_of (tm_base tm) (tm_tenant tm)"
  let ?hash = "\<lambda>r. shard_payload_content_hash (tm_client tm) (payload_of (tm_tenant tm) C r)"
  let ?P = "\<lambda>before (carried, records, fetched' :: nat). bt_ok carried \<and> bt_ok records
    \<and> (\<forall>r. bt_get records r = (if r \<in> ms_range ` set before \<and> touches touched r then Some (shard_list C r) else None))
    \<and> (\<forall>r. bt_get carried r = (if r \<in> ms_range ` set before \<and> \<not> touches touched r then Some (?hash r) else None))"
  have ranges: "distinct (map ms_range ?shards)" "ms_range ` set ?shards = {r. scatter C r \<noteq> {}}"
    using holds unfolding tenant_holds_def by auto
  have "\<exists>acc. res_fold (read_touched_step tm touched note_trace_shard s) ?shards ([], [], fetched) = Inr acc \<and> ?P ?shards acc"
  proof (rule res_fold_ok [where P = ?P])
    fix before sh after acc
    assume split: "?shards = before @ sh # after" and P: "?P before acc"
    then have sh: "sh \<in> set ?shards" "ms_range sh \<notin> ms_range ` set before" using ranges(1) by auto
    obtain carried records n where acc: "acc = (carried, records, n)" by (cases acc)
    have content: "ms_content sh = ?hash (ms_range sh)" using holds sh(1) unfolding tenant_holds_def by blast
    note read = read_payload_ok [OF law key holds sh(1)]
    show "\<exists>acc'. read_touched_step tm touched note_trace_shard s sh acc = Inr acc' \<and> ?P (before @ [sh]) acc'"
    proof (cases "touches touched (ms_range sh)")
      case True
      have "bt_get records (ms_range sh) = None" using P sh(2) by (simp add: acc)
      then show ?thesis using P True sh(2)
        by (auto simp: acc read_touched_step_def touches_def [symmetric] Let_def read note_trace_shard_def
            bt_ok_update)
    next
      case False
      then show ?thesis using P sh(2)
        by (auto simp: acc read_touched_step_def touches_def [symmetric] Let_def content bt_ok_insert)
    qed
  qed simp
  then show ?thesis unfolding read_touched_def ranges(2) by auto
qed

section \<open>Applying removals and contributions\<close>

definition vals :: "shard_records \<Rightarrow> index_shard_range \<Rightarrow> trace_block_stats list" where
  "vals records r = (case bt_get records r of None \<Rightarrow> [] | Some bs \<Rightarrow> bs)"

text \<open>The records in memory are those of the touched shards.\<close>

definition tracks :: "index_shard_range list \<Rightarrow> shard_records \<Rightarrow> contents \<Rightarrow> bool" where
  "tracks touched records C \<longleftrightarrow> bt_ok records
     \<and> (\<forall>r. set (vals records r) = (if touches touched r then scatter C r else {})
          \<and> distinct (map ts_object_key (vals records r)))"

lemma vals_filter: "vals (map (\<lambda>(r, bs). (r, filter p bs)) records) r = filter p (vals records r)"
  by (simp add: vals_def map_of_map split: option.split)

lemma filter_keys_ok: "bt_ok records \<Longrightarrow> bt_ok (map (\<lambda>(r, bs). (r, filter p bs)) records)"
  by (simp add: case_prod_unfold comp_def)

lemma distinct_map_filter_key: "distinct (map f xs) \<Longrightarrow> distinct (map f (filter p xs))"
  by (simp add: distinct_map inj_on_def)

lemma tracks_drop:
  assumes ok: "contents_ok tenant C" and "tracks touched records C" and b: "C k = Some b"
    and "trace_block_fingerprint hasher b = pr_fingerprint removal"
  shows "tracks touched (drop_removal hasher (k, removal) records) (C(k := None))"
proof -
  have kb: "ts_object_key b = k" using ok b by (simp add: contents_ok_def)
  have key: "ts_object_key b' = k \<longleftrightarrow> b' = b" if "b' \<in> ran C" for b'
    using contents_key [OF ok that] b kb by (metis option.inject)
  have ran: "b' \<in> ran (C(k := None)) \<longleftrightarrow> b' \<in> ran C \<and> ts_object_key b' \<noteq> k" for b'
  proof -
    have "ts_object_key b' = k'" if "C k' = Some b'" for k' using that ok by (simp add: contents_ok_def)
    then show ?thesis unfolding ran_def by (auto split: if_splits)
  qed
  have "set (filter (\<lambda>b'. ts_object_key b' \<noteq> k \<or> trace_block_fingerprint hasher b' \<noteq> pr_fingerprint removal) (vals records r))
      = (if touches touched r then scatter (C(k := None)) r else {})" for r
  proof -
    have v: "set (vals records r) = (if touches touched r then scatter C r else {})" using assms(2) by (simp add: tracks_def)
    have "b' \<in> scatter (C(k := None)) r \<longleftrightarrow> b' \<in> scatter C r \<and> ts_object_key b' \<noteq> k" for b'
      using ran by (auto simp: scatter_def)
    moreover have "ts_object_key b' \<noteq> k \<or> trace_block_fingerprint hasher b' \<noteq> pr_fingerprint removal \<longleftrightarrow> ts_object_key b' \<noteq> k"
      if "b' \<in> scatter C r" for b' using that key [of b'] assms(4) by (auto simp: scatter_def)
    ultimately show ?thesis unfolding set_filter v by auto
  qed
  moreover have "bt_ok (drop_removal hasher (k, removal) records)"
    unfolding drop_removal_def prod.case by (rule filter_keys_ok) (use assms(2) in \<open>simp add: tracks_def\<close>)
  ultimately show ?thesis
    using assms(2) unfolding tracks_def drop_removal_def prod.case vals_filter by (simp add: distinct_map_filter_key)
qed

lemma vals_place:
  assumes "distinct rs"
  shows "vals (fold (\<lambda>span. bt_update span [] (\<lambda>bs. bs @ [b])) rs m) r = vals m r @ (if r \<in> set rs then [b] else [])"
  using assms by (induction rs arbitrary: m) (auto simp: vals_def split: option.split)

lemma place_keys_ok: "bt_ok m \<Longrightarrow> bt_ok (fold (\<lambda>span. bt_update span [] (\<lambda>bs. bs @ [b])) rs m)"
  by (induction rs arbitrary: m) (auto simp: bt_ok_update)

lemma tracks_place:
  assumes ok: "contents_ok tenant C" and tr: "tracks touched records C" and cod: "record_codable b"
    and touched: "\<forall>r \<in> set (block_ranges b). touches touched r"
  shows "tracks touched (place_contributed b records) (C(ts_object_key b \<mapsto> b))"
proof -
  let ?p = "\<lambda>held. ts_object_key held \<noteq> ts_object_key b"
  have vals: "vals (place_contributed b records) r = filter ?p (vals records r) @ (if r \<in> set (block_ranges b) then [b] else [])" for r
    unfolding place_contributed_def block_ranges_def [symmetric] vals_place [OF block_ranges_props(2) [OF cod]] vals_filter ..
  have ran: "b' \<in> ran (C(ts_object_key b \<mapsto> b)) \<longleftrightarrow> b' = b \<or> b' \<in> ran C \<and> ?p b'" for b'
  proof -
    have "b' \<in> ran C \<longleftrightarrow> C (ts_object_key b') = Some b'" for b' using contents_key [OF ok] by (auto simp: ran_def)
    moreover have "ts_object_key b' = k" if "C k = Some b'" for k using that ok by (simp add: contents_ok_def)
    ultimately show ?thesis unfolding ran_def by (auto split: if_splits)
  qed
  have sc: "scatter (C(ts_object_key b \<mapsto> b)) r = {b' \<in> scatter C r. ?p b'} \<union> (if r \<in> set (block_ranges b) then {b} else {})" for r
    unfolding scatter_def using ran by auto
  have "bt_ok (place_contributed b records)"
    unfolding place_contributed_def by (intro place_keys_ok filter_keys_ok) (use tr in \<open>simp add: tracks_def\<close>)
  moreover have "set (vals (place_contributed b records) r) = (if touches touched r then scatter (C(ts_object_key b \<mapsto> b)) r else {})" for r
    using tr touched unfolding tracks_def vals sc by auto
  moreover have "distinct (map ts_object_key (vals (place_contributed b records) r))" for r
    using tr unfolding tracks_def vals by (auto simp: distinct_map_filter_key)
  ultimately show ?thesis unfolding tracks_def by blast
qed

lemma contents_ok_drop: "contents_ok tenant C \<Longrightarrow> contents_ok tenant (C(k := None))"
  by (auto simp: contents_ok_def)

lemma contents_ok_place:
  "contents_ok tenant C \<Longrightarrow> record_codable b \<Longrightarrow> utf8_string tenant \<Longrightarrow> contents_ok tenant (C(ts_object_key b \<mapsto> b))"
  by (auto simp: contents_ok_def)

definition merged_contents ::
  "(string, pending_removal) btree_map \<Rightarrow> trace_block_stats list \<Rightarrow> contents \<Rightarrow> contents" where
  "merged_contents removed news C = fold (\<lambda>b C. C(ts_object_key b \<mapsto> b)) news (C |` (- set (bt_keys removed)))"

text \<open>
  A removal is pinned when the published record is the one it names, and a contribution fits when a
  record it replaces has the same span.
\<close>

definition removals_pinned :: "record_hasher \<Rightarrow> (string, pending_removal) btree_map \<Rightarrow> contents \<Rightarrow> bool" where
  "removals_pinned hasher removed C \<longleftrightarrow> bt_ok removed
     \<and> (\<forall>(k, removal) \<in> set removed. \<exists>b. C k = Some b \<and> removal = pb_removal (removal_of hasher b))"

definition contribution_fits :: "trace_block_stats list \<Rightarrow> contents \<Rightarrow> bool" where
  "contribution_fits news C \<longleftrightarrow> (\<forall>b \<in> set news. record_codable b
     \<and> (\<forall>b'. C (ts_object_key b) = Some b' \<longrightarrow> ts_min_ts b' = ts_min_ts b \<and> ts_max_ts b' = ts_max_ts b))"

lemma restrict_Cons: "C |` (- insert k K) = (C(k := None)) |` (- K)"
  by (auto simp: restrict_map_def fun_eq_iff)

lemma tracks_drops:
  assumes "contents_ok tenant C" and "tracks touched records C" and "distinct (map fst removed)"
    and "\<forall>(k, removal) \<in> set removed. \<exists>b. C k = Some b \<and> trace_block_fingerprint hasher b = pr_fingerprint removal"
  shows "contents_ok tenant (C |` (- fst ` set removed))
    \<and> tracks touched (fold (drop_removal hasher) removed records) (C |` (- fst ` set removed))"
  using assms
proof (induction removed arbitrary: C records)
  case (Cons e removed)
  obtain k removal where e: "e = (k, removal)" by (cases e)
  then obtain b where b: "C k = Some b" "trace_block_fingerprint hasher b = pr_fingerprint removal" using Cons.prems(4) by auto
  have "\<forall>(k', removal) \<in> set removed. \<exists>b. (C(k := None)) k' = Some b \<and> trace_block_fingerprint hasher b = pr_fingerprint removal"
  proof (intro ballI, clarify)
    fix k' removal' assume mem: "(k', removal') \<in> set removed"
    then have "k' \<noteq> k" using Cons.prems(3) by (force simp: e)
    moreover have "\<exists>b. C k' = Some b \<and> trace_block_fingerprint hasher b = pr_fingerprint removal'"
      using Cons.prems(4) mem by fastforce
    ultimately show "\<exists>b. (C(k := None)) k' = Some b \<and> trace_block_fingerprint hasher b = pr_fingerprint removal'" by simp
  qed
  from Cons.IH [OF contents_ok_drop [OF Cons.prems(1)] tracks_drop [OF Cons.prems(1,2) b] _ this] Cons.prems(3)
  show ?case unfolding e list.set(2) image_insert fst_conv restrict_Cons by (simp del: fun_upd_apply)
qed (simp add: restrict_map_def)

lemma tracks_places:
  assumes "contents_ok tenant C" and "tracks touched records C" and "news \<noteq> [] \<longrightarrow> utf8_string tenant"
    and "\<forall>b \<in> set news. record_codable b \<and> (\<forall>r \<in> set (block_ranges b). touches touched r)"
  shows "contents_ok tenant (fold (\<lambda>b C. C(ts_object_key b \<mapsto> b)) news C)
    \<and> tracks touched (fold place_contributed news records) (fold (\<lambda>b C. C(ts_object_key b \<mapsto> b)) news C)"
  using assms
proof (induction news arbitrary: C records)
  case (Cons b news)
  then show ?case
    using Cons.IH [OF contents_ok_place [OF Cons.prems(1), of b] tracks_place [OF Cons.prems(1,2), of b]] by simp
qed simp

text \<open>Shards that are not touched keep their records.\<close>

lemma ran_fold_place:
  "\<forall>k b. C k = Some b \<longrightarrow> ts_object_key b = k \<Longrightarrow>
    b' \<in> ran (fold (\<lambda>b C. C(ts_object_key b \<mapsto> b)) news C) \<Longrightarrow> b' \<in> set news \<or> b' \<in> ran C"
proof (induction news arbitrary: C)
  case (Cons b news)
  have "b' \<in> set news \<or> b' \<in> ran (C(ts_object_key b \<mapsto> b))" using Cons by auto
  then show ?case by (auto simp: ran_def split: if_splits)
qed simp

lemma fold_place_keeps: "k \<notin> ts_object_key ` set news \<Longrightarrow> fold (\<lambda>b C. C(ts_object_key b \<mapsto> b)) news C k = C k"
  by (induction news arbitrary: C) auto

lemma untouched_scatter:
  assumes ok: "contents_ok tenant C"
    and removed: "\<forall>k \<in> set (bt_keys removed). \<forall>b r. C k = Some b \<longrightarrow> r \<in> set (block_ranges b) \<longrightarrow> touches touched r"
    and news: "\<forall>b \<in> set news. \<forall>r \<in> set (block_ranges b). touches touched r"
    and old: "\<forall>b \<in> set news. \<forall>b' r. C (ts_object_key b) = Some b' \<longrightarrow> r \<in> set (block_ranges b') \<longrightarrow> touches touched r"
    and r: "\<not> touches touched r"
  shows "scatter (merged_contents removed news C) r = scatter C r"
proof (intro equalityI subsetI)
  have keyed: "\<forall>k b. (C |` (- set (bt_keys removed))) k = Some b \<longrightarrow> ts_object_key b = k"
    using ok by (auto simp: contents_ok_def restrict_map_def split: if_splits)
  fix b assume "b \<in> scatter (merged_contents removed news C) r"
  then show "b \<in> scatter C r"
    using ran_fold_place [OF keyed, of b news] news r
    by (auto simp: scatter_def merged_contents_def ran_def restrict_map_def split: if_splits)
next
  fix b assume "b \<in> scatter C r"
  then have b: "C (ts_object_key b) = Some b" "r \<in> set (block_ranges b)" using contents_key [OF ok] by (auto simp: scatter_def)
  then have "ts_object_key b \<notin> set (bt_keys removed)" "ts_object_key b \<notin> ts_object_key ` set news"
    using removed old r by (auto simp: image_iff)
  then have "merged_contents removed news C (ts_object_key b) = Some b"
    using b(1) by (simp add: merged_contents_def fold_place_keeps restrict_map_def)
  then show "b \<in> scatter (merged_contents removed news C) r" using b(2) by (auto simp: scatter_def intro: ranI)
qed

lemma bt_get_set: "bt_ok m \<Longrightarrow> (k, v) \<in> set m \<longleftrightarrow> bt_get m k = Some v"
  using bt_ok_distinct [of m] by (auto dest: map_of_SomeD)

lemma in_vals: "b \<in> set (vals m r) \<longleftrightarrow> (\<exists>bs. bt_get m r = Some bs \<and> b \<in> set bs)"
  by (cases "bt_get m r") (simp_all add: vals_def)

lemma set_all_records:
  assumes "bt_ok records"
  shows "b \<in> set (concat (map snd records)) \<longleftrightarrow> (\<exists>r. b \<in> set (vals records r))"
proof -
  have "b \<in> set (concat (map snd records)) \<longleftrightarrow> (\<exists>r bs. (r, bs) \<in> set records \<and> b \<in> set bs)" by force
  also have "\<dots> \<longleftrightarrow> (\<exists>r bs. bt_get records r = Some bs \<and> b \<in> set bs)" by (simp only: bt_get_set [OF assms])
  also have "\<dots> \<longleftrightarrow> (\<exists>r. b \<in> set (vals records r))" by (simp only: in_vals)
  finally show ?thesis .
qed

lemma removal_unchanged_iff:
  assumes ok: "contents_ok tenant C" and tr: "tracks touched records C"
    and all: "\<forall>b. C k = Some b \<longrightarrow> (\<forall>r \<in> set (block_ranges b). touches touched r)"
  shows "removal_unchanged hasher records (k, removal) \<longleftrightarrow>
    (\<exists>b. C k = Some b \<and> trace_block_fingerprint hasher b = pr_fingerprint removal)"
proof -
  have rec: "b \<in> set (concat (map snd records)) \<longleftrightarrow> b \<in> ran C \<and> (\<exists>r \<in> set (block_ranges b). touches touched r)" for b
    using tr set_all_records [of records b] unfolding tracks_def by (auto simp: scatter_def split: if_splits)
  have key: "b \<in> ran C \<and> ts_object_key b = k \<longleftrightarrow> C k = Some b" for b
    using ok contents_key [OF ok, of b] by (auto simp: contents_ok_def intro: ranI)
  show ?thesis
  proof (cases "C k")
    case None
    then have "find (\<lambda>b. ts_object_key b = k) (concat (map snd records)) = None"
      using rec key unfolding find_None_iff by (metis option.distinct(1))
    then show ?thesis by (simp add: removal_unchanged_def None)
  next
    case (Some b)
    have "block_ranges b \<noteq> []" using block_ranges_props(1) Some ok by (auto simp: contents_ok_def)
    then have "b \<in> set (concat (map snd records))" using rec key Some all by (metis list.set_intros(1) neq_Nil_conv)
    moreover have "ts_object_key b = k" using key Some by blast
    ultimately have "find (\<lambda>b. ts_object_key b = k) (concat (map snd records)) \<noteq> None"
      unfolding find_None_iff by blast
    then obtain b' where b': "find (\<lambda>b. ts_object_key b = k) (concat (map snd records)) = Some b'" by blast
    then obtain i where "i < length (concat (map snd records))" "b' = concat (map snd records) ! i" "ts_object_key b' = k"
      unfolding find_Some_iff by blast
    then have "b' \<in> set (concat (map snd records))" "ts_object_key b' = k" using nth_mem by blast+
    then have "b' = b" using rec key Some by (metis option.inject)
    then show ?thesis by (simp add: removal_unchanged_def b' Some)
  qed
qed

section \<open>Publishing the shards\<close>

lemma put_payload_ok:
  assumes law: "reliable_store client view" and key: "normal_key key"
  shows "\<exists>s'. put_shard_payload client key tenant r (shard_payload_content_hash client bytes) bytes s = (Inr (), s')
    \<and> view s' = (view s)(shard_payload_object_key key tenant r (shard_payload_content_hash client bytes) \<mapsto> bytes)"
proof -
  let ?p = "shard_payload_object_key key tenant r (shard_payload_content_hash client bytes)"
  have "os_path client ?p = ?p"
    using reliable_storeD(1) [OF law] payload_key_normal [of key tenant r] key
    by (simp add: path_law_def normal_key_def shard_payload_content_hash_def)
  moreover obtain s' where "oc_put client ?p bytes s = (Inr (), s')" "view s' = (view s)(?p \<mapsto> bytes)"
    using reliable_storeD(4) [OF law] by blast
  ultimately show ?thesis by (intro exI [of _ s']) (simp add: put_shard_payload_def store_io_def)
qed

text \<open>Two payloads of one slot with the same content hash are the same bytes.\<close>

definition no_collision :: "'s object_client \<Rightarrow> string \<Rightarrow> contents \<Rightarrow> contents \<Rightarrow> bool" where
  "no_collision client tenant C C' \<longleftrightarrow> (\<forall>r.
     shard_payload_content_hash client (payload_of tenant C r) = shard_payload_content_hash client (payload_of tenant C' r)
     \<longrightarrow> payload_of tenant C r = payload_of tenant C' r)"

lemma publish_shard_ok:
  assumes law: "reliable_store (tm_client tm) view" and key: "normal_key (tm_key tm)"
    and holds: "tenant_holds (tm_client tm) view (tm_key tm) (tm_max_bytes tm) (tm_base tm) s0 (tm_tenant tm) C"
    and coll: "no_collision (tm_client tm) (tm_tenant tm) C C'"
    and same: "view s (payload_at (tm_client tm) (tm_key tm) (tm_tenant tm) C r) = view s0 (payload_at (tm_client tm) (tm_key tm) (tm_tenant tm) C r)"
  shows "\<exists>n s'. publish_shard tm r (payload_of (tm_tenant tm) C' r) mp s
      = (Inr \<lparr>mp_manifest = manifest_insert (tm_tenant tm) r
            (shard_payload_content_hash (tm_client tm) (payload_of (tm_tenant tm) C' r)) (mp_manifest mp),
          mp_fetched = mp_fetched mp, mp_written = n\<rparr>, s')
    \<and> view s' (payload_at (tm_client tm) (tm_key tm) (tm_tenant tm) C' r) = Some (payload_of (tm_tenant tm) C' r)
    \<and> (\<forall>p. p \<noteq> payload_at (tm_client tm) (tm_key tm) (tm_tenant tm) C' r \<longrightarrow> view s' p = view s p)"
proof -
  let ?c = "tm_client tm" and ?t = "tm_tenant tm" and ?bytes = "payload_of (tm_tenant tm) C' r"
  let ?named = "list_ex (\<lambda>sh. ms_range sh = r \<and> ms_content sh = shard_payload_content_hash ?c ?bytes) (shards_of (tm_base tm) ?t)"
  show ?thesis
  proof (cases ?named)
    case True
    then obtain sh where sh: "sh \<in> set (shards_of (tm_base tm) ?t)" "ms_range sh = r"
        "ms_content sh = shard_payload_content_hash ?c ?bytes" by (auto simp: list_ex_iff)
    then have "payload_of ?t C r = ?bytes"
      using holds coll unfolding tenant_holds_def no_collision_def by metis
    moreover have "view s0 (payload_at ?c (tm_key tm) ?t C r) = Some (payload_of ?t C r)"
      using holds sh(1,2) unfolding tenant_holds_def by blast
    ultimately have "view s (payload_at ?c (tm_key tm) ?t C' r) = Some ?bytes" using same by (simp add: payload_at_def)
    then show ?thesis using True by (intro exI [of _ "mp_written mp"] exI [of _ s]) (simp add: publish_shard_def Let_def io_ok_def)
  next
    case False
    obtain s' where "put_shard_payload ?c (tm_key tm) ?t r (shard_payload_content_hash ?c ?bytes) ?bytes s = (Inr (), s')"
        "view s' = (view s)(payload_at ?c (tm_key tm) ?t C' r \<mapsto> ?bytes)"
      using put_payload_ok [OF law key, of ?t r ?bytes s] unfolding payload_at_def by blast
    then show ?thesis using False
      by (intro exI [of _ "mp_written mp + 1"] exI [of _ s']) (simp add: publish_shard_def Let_def io_ok_def io_bind_ok)
  qed
qed

definition shard_entry :: "index_shard_range \<Rightarrow> string \<Rightarrow> manifest_shard" where
  "shard_entry r content = \<lparr>ms_start = ir_start r, ms_end = ir_end r, ms_content = content\<rparr>"

lemma shard_entry_simps [simp]: "ms_range (shard_entry r c) = r" "ms_content (shard_entry r c) = c"
  by (simp_all add: ms_range_def shard_entry_def)

lemma manifest_insert_simps [simp]:
  "shards_of (manifest_insert t r c m) t' = (if t' = t then shards_of m t @ [shard_entry r c] else shards_of m t')"
  "sm_version (manifest_insert t r c m) = sm_version m"
  by (simp_all add: shards_of_def manifest_insert_def shard_entry_def split: option.split)

lemma manifest_insert_ok: "bt_ok (sm_tenants m) \<Longrightarrow> bt_ok (sm_tenants (manifest_insert t r c m))"
  by (simp add: manifest_insert_def bt_ok_update)

lemma carry_simps:
  "shards_of (carry tm carried m) t = (if t = tm_tenant tm then shards_of m t @ map (\<lambda>(r, c). shard_entry r c) carried else shards_of m t)"
  "sm_version (carry tm carried m) = sm_version m"
  "bt_ok (sm_tenants m) \<Longrightarrow> bt_ok (sm_tenants (carry tm carried m))"
  unfolding carry_def by (induction carried arbitrary: m) (auto simp: manifest_insert_ok)

definition i64_range :: "index_shard_range \<Rightarrow> bool" where
  "i64_range r \<longleftrightarrow> is_i64 (ir_start r) \<and> is_i64 (ir_end r)"

lemma scatter_range:
  assumes "contents_ok tenant C" and "scatter C r \<noteq> {}"
  shows "i64_range r" and "ir_start r \<le> ir_end r"
  using assms contents_key [OF assms(1)] block_ranges_props(3) by (fastforce simp: scatter_def i64_range_def)+

lemma payload_at_inj:
  assumes "payload_at client key t C r = payload_at client key t' C' r'" and "i64_range r" and "i64_range r'"
  shows "t = t' \<and> r = r'"
  using payload_key_inj [of key t r _ t' r'] assms by (auto simp: payload_at_def i64_range_def)

definition published_entries ::
  "'s tenant_shard_merge \<Rightarrow> contents \<Rightarrow> shard_records \<Rightarrow> manifest_shard list" where
  "published_entries tm C records =
     map (\<lambda>(r, bs). shard_entry r (shard_payload_content_hash (tm_client tm) (payload_of (tm_tenant tm) C r)))
       (filter (\<lambda>(r, bs). bs \<noteq> []) records)"

definition tenant_payloads :: "'s object_client \<Rightarrow> string \<Rightarrow> string \<Rightarrow> contents \<Rightarrow> string set" where
  "tenant_payloads client key tenant C = {payload_at client key tenant C r |r. scatter C r \<noteq> {}}"

lemma publish_records_step:
  assumes law: "reliable_store (tm_client tm) view" and key: "normal_key (tm_key tm)"
    and holds: "tenant_holds (tm_client tm) view (tm_key tm) (tm_max_bytes tm) (tm_base tm) s0 (tm_tenant tm) C"
    and coll: "no_collision (tm_client tm) (tm_tenant tm) C C'"
    and ok: "contents_ok (tm_tenant tm) C'" and bs: "bs \<noteq> []" "set bs = scatter C' r" "distinct (map ts_object_key bs)"
    and same: "view s (payload_at (tm_client tm) (tm_key tm) (tm_tenant tm) C r) = view s0 (payload_at (tm_client tm) (tm_key tm) (tm_tenant tm) C r)"
  shows "\<exists>mp' s'. publish_records tm (r, bs) mp s = (Inr mp', s')
    \<and> mp_manifest mp' = manifest_insert (tm_tenant tm) r
          (shard_payload_content_hash (tm_client tm) (payload_of (tm_tenant tm) C' r)) (mp_manifest mp)
    \<and> view s' (payload_at (tm_client tm) (tm_key tm) (tm_tenant tm) C' r) = Some (payload_of (tm_tenant tm) C' r)
    \<and> (\<forall>p. p \<noteq> payload_at (tm_client tm) (tm_key tm) (tm_tenant tm) C' r \<longrightarrow> view s' p = view s p)"
proof -
  have span: "(\<lambda>b. (ts_min_ts b, ts_max_ts b, ts_object_key b)) = record_span" by (simp add: fun_eq_iff record_span_def)
  have "scatter C' r \<noteq> {}" using bs(1,2) by auto
  then have "encode_trace_shard (tm_tenant tm) (sort_key record_span bs) = Some (payload_of (tm_tenant tm) C' r)"
    using payload_codes(1) [OF ok] sort_shard_list [OF ok bs(2,3)] by simp
  then have "publish_records tm (r, bs) mp s = publish_shard tm r (payload_of (tm_tenant tm) C' r) mp s"
    using bs(1) by (simp add: publish_records_def span)
  then show ?thesis using publish_shard_ok [OF law key holds coll same, of mp] by fastforce
qed

lemma tracks_entry:
  assumes tr: "tracks touched records C" and "(r, bs) \<in> set records" and "bs \<noteq> []"
  shows "touches touched r" "set bs = scatter C r" "distinct (map ts_object_key bs)"
proof -
  have "vals records r = bs" using tr assms(2) by (simp add: tracks_def vals_def bt_get_set)
  then have "set bs = (if touches touched r then scatter C r else {})" "distinct (map ts_object_key bs)"
    using tr unfolding tracks_def by blast+
  then show "touches touched r" "set bs = scatter C r" "distinct (map ts_object_key bs)"
    using assms(3) by (auto split: if_splits)
qed

text \<open>What the loop over the shards has done after the entries in \<open>before\<close>.\<close>

definition publish_inv ::
  "'s tenant_shard_merge \<Rightarrow> 's object_view \<Rightarrow> contents \<Rightarrow> merge_progress \<Rightarrow> 's \<Rightarrow> shard_records \<Rightarrow> merge_progress \<Rightarrow> 's \<Rightarrow> bool" where
  "publish_inv tm view C mp s before mp' s' \<longleftrightarrow>
     shards_of (mp_manifest mp') (tm_tenant tm) = shards_of (mp_manifest mp) (tm_tenant tm) @ published_entries tm C before
     \<and> (\<forall>t. t \<noteq> tm_tenant tm \<longrightarrow> shards_of (mp_manifest mp') t = shards_of (mp_manifest mp) t)
     \<and> bt_ok (sm_tenants (mp_manifest mp')) \<and> sm_version (mp_manifest mp') = sm_version (mp_manifest mp)
     \<and> (\<forall>r bs. (r, bs) \<in> set before \<longrightarrow> bs \<noteq> []
          \<longrightarrow> view s' (payload_at (tm_client tm) (tm_key tm) (tm_tenant tm) C r) = Some (payload_of (tm_tenant tm) C r))
     \<and> (\<forall>p. (\<forall>r bs. (r, bs) \<in> set before \<longrightarrow> bs \<noteq> [] \<longrightarrow> p \<noteq> payload_at (tm_client tm) (tm_key tm) (tm_tenant tm) C r)
          \<longrightarrow> view s' p = view s p)"

lemma publish_inv_step:
  assumes law: "reliable_store (tm_client tm) view" and key: "normal_key (tm_key tm)"
    and holds: "tenant_holds (tm_client tm) view (tm_key tm) (tm_max_bytes tm) (tm_base tm) s0 (tm_tenant tm) C"
    and coll: "no_collision (tm_client tm) (tm_tenant tm) C C'"
    and ok: "contents_ok (tm_tenant tm) C'" and tr: "tracks touched records C'"
    and same: "\<And>r. i64_range r \<Longrightarrow> view s (payload_at (tm_client tm) (tm_key tm) (tm_tenant tm) C r)
        = view s0 (payload_at (tm_client tm) (tm_key tm) (tm_tenant tm) C r)"
    and split: "records = before @ (r, bs) # after" and P: "publish_inv tm view C' mp s before mp1 s1"
  shows "\<exists>mp' s'. publish_records tm (r, bs) mp1 s1 = (Inr mp', s') \<and> publish_inv tm view C' mp s (before @ [(r, bs)]) mp' s'"
proof (cases "bs = []")
  case True
  then show ?thesis
    using P by (intro exI [of _ mp1] exI [of _ s1]) (auto simp: publish_inv_def publish_records_def io_ok_def published_entries_def)
next
  case False
  let ?t = "tm_tenant tm" and ?at = "payload_at (tm_client tm) (tm_key tm) (tm_tenant tm)"
  have i64: "i64_range r" if "(r, bs) \<in> set records" "bs \<noteq> []" for r bs
    using scatter_range(1) [OF ok, of r] tracks_entry(2) [OF tr that] that(2) by (metis set_empty)
  have mem: "(r, bs) \<in> set records" using split by simp
  have "bt_ok records" using tr unfolding tracks_def by blast
  then have "r \<notin> fst ` set before" using bt_ok_distinct [of records] unfolding split by simp
  then have fresh: "?at D r \<noteq> ?at C' r'" if "(r', bs') \<in> set before" "bs' \<noteq> []" for D r' bs'
    using payload_at_inj [of _ _ _ _ r _ _ r'] i64 [OF mem False] i64 [of r' bs'] that split by force
  have "view s1 (?at C r) = view s (?at C r)" using P fresh [where D = C] unfolding publish_inv_def by blast
  then have "view s1 (?at C r) = view s0 (?at C r)" using same [OF i64 [OF mem False]] by simp
  from publish_records_step [OF law key holds coll ok False tracks_entry(2,3) [OF tr mem False] this, of mp1]
  obtain mp' s' where step: "publish_records tm (r, bs) mp1 s1 = (Inr mp', s')"
      "mp_manifest mp' = manifest_insert ?t r (shard_payload_content_hash (tm_client tm) (payload_of ?t C' r)) (mp_manifest mp1)"
      "view s' (?at C' r) = Some (payload_of ?t C' r)" "\<forall>p. p \<noteq> ?at C' r \<longrightarrow> view s' p = view s1 p" by blast
  have "view s' (?at C' r') = Some (payload_of ?t C' r')" if "(r', bs') \<in> set before" "bs' \<noteq> []" for r' bs'
    using step(4) fresh [OF that, of C'] P that unfolding publish_inv_def by metis
  then have "publish_inv tm view C' mp s (before @ [(r, bs)]) mp' s'"
    using P step(3,4) False unfolding publish_inv_def by (auto simp: step(2) published_entries_def manifest_insert_ok)
  then show ?thesis using step(1) by blast
qed

lemma publish_all:
  assumes "reliable_store (tm_client tm) view" and "normal_key (tm_key tm)"
    and "tenant_holds (tm_client tm) view (tm_key tm) (tm_max_bytes tm) (tm_base tm) s0 (tm_tenant tm) C"
    and "no_collision (tm_client tm) (tm_tenant tm) C C'"
    and "contents_ok (tm_tenant tm) C'" and "tracks touched records C'"
    and "\<And>r. i64_range r \<Longrightarrow> view s (payload_at (tm_client tm) (tm_key tm) (tm_tenant tm) C r)
        = view s0 (payload_at (tm_client tm) (tm_key tm) (tm_tenant tm) C r)"
    and "bt_ok (sm_tenants (mp_manifest mp))"
  shows "\<exists>mp' s'. io_fold (publish_records tm) records mp s = (Inr mp', s') \<and> publish_inv tm view C' mp s records mp' s'"
proof (rule io_fold_ok)
  show "publish_inv tm view C' mp s [] mp s" using assms(8) by (simp add: publish_inv_def published_entries_def)
  show "\<exists>mp' s'. publish_records tm x mp1 s1 = (Inr mp', s') \<and> publish_inv tm view C' mp s (before @ [x]) mp' s'"
    if "records = before @ x # after" "publish_inv tm view C' mp s before mp1 s1" for before x after mp1 s1
    using publish_inv_step [OF assms(1-7), of before "fst x" "snd x" after mp mp1 s1] that by simp
qed

section \<open>Merging one tenant\<close>

definition contributed_blocks :: "trace_index \<Rightarrow> 's tenant_shard_merge \<Rightarrow> trace_block_stats list" where
  "contributed_blocks index tm = filter (\<lambda>b. contributes tm (ts_object_key b)) (trace_blocks index (tm_tenant tm))"

definition removed_blocks :: "'s tenant_shard_merge \<Rightarrow> (string, pending_removal) btree_map" where
  "removed_blocks tm = (case tm_removed tm of None \<Rightarrow> [] | Some m \<Rightarrow> m)"

definition touched_by :: "trace_index \<Rightarrow> 's tenant_shard_merge \<Rightarrow> index_shard_range list" where
  "touched_by index tm = touched_shard_ranges
     (map (\<lambda>b. \<lparr>ir_start = ts_min_ts b, ir_end = ts_max_ts b\<rparr>) (contributed_blocks index tm)) (tm_removed tm) trace_index_shard_width"

lemma touched_contributed:
  assumes "b \<in> set (contributed_blocks index tm)" and "record_codable b'"
    and "ts_min_ts b' = ts_min_ts b" "ts_max_ts b' = ts_max_ts b" and "r \<in> set (block_ranges b')"
  shows "touches (touched_by index tm) r"
proof (rule touches_own)
  show "ir_start r \<le> ir_end r" using block_ranges_props(3) [OF assms(2,5)] by simp
  show "r \<in> set (touched_by index tm)"
    using assms(1,5) by (auto simp: touched_by_def touched_shard_ranges_def Let_def block_ranges_def assms(3,4))
qed

lemma touched_removed:
  assumes "(k, pb_removal (removal_of hasher b)) \<in> set (removed_blocks tm)" and "record_codable b" and "r \<in> set (block_ranges b)"
  shows "touches (touched_by index tm) r"
proof (rule touches_own)
  show "ir_start r \<le> ir_end r" using block_ranges_props(3) [OF assms(2,3)] by simp
  show "r \<in> set (touched_by index tm)"
    using assms(1,3)
    by (cases "tm_removed tm")
      (force simp: touched_by_def touched_shard_ranges_def Let_def block_ranges_def removed_blocks_def removal_of_def)+
qed

text \<open>The conditions under which a tenant's merge goes through.\<close>

definition save_fits ::
  "record_hasher \<Rightarrow> trace_index \<Rightarrow> 's tenant_shard_merge \<Rightarrow> contents \<Rightarrow> bool" where
  "save_fits hasher index tm C \<longleftrightarrow>
     removals_pinned hasher (removed_blocks tm) C \<and> contribution_fits (contributed_blocks index tm) C
     \<and> (contributed_blocks index tm \<noteq> [] \<longrightarrow> utf8_string (tm_tenant tm))
     \<and> no_collision (tm_client tm) (tm_tenant tm) C (merged_contents (removed_blocks tm) (contributed_blocks index tm) C)
     \<and> (\<forall>r. scatter (merged_contents (removed_blocks tm) (contributed_blocks index tm) C) r \<noteq> {} \<longrightarrow>
          length (payload_of (tm_tenant tm) (merged_contents (removed_blocks tm) (contributed_blocks index tm) C) r)
            \<le> min (tm_max_bytes tm) usize_max)"

lemma save_fits_touched:
  assumes "save_fits hasher index tm C" and ok: "contents_ok (tm_tenant tm) C"
  shows "k \<in> set (bt_keys (removed_blocks tm)) \<Longrightarrow> C k = Some b \<Longrightarrow> r \<in> set (block_ranges b) \<Longrightarrow> touches (touched_by index tm) r"
    and "b' \<in> set (contributed_blocks index tm) \<Longrightarrow> r \<in> set (block_ranges b') \<Longrightarrow> touches (touched_by index tm) r"
    and "b' \<in> set (contributed_blocks index tm) \<Longrightarrow> C (ts_object_key b') = Some b \<Longrightarrow> r \<in> set (block_ranges b)
      \<Longrightarrow> touches (touched_by index tm) r"
proof -
  have pinned: "removals_pinned hasher (removed_blocks tm) C" and fits: "contribution_fits (contributed_blocks index tm) C"
    using assms(1) by (simp_all add: save_fits_def)
  have cod: "record_codable b" if "C k = Some b" for k b using ok that by (simp add: contents_ok_def)
  show "touches (touched_by index tm) r"
    if "k \<in> set (bt_keys (removed_blocks tm))" and b: "C k = Some b" and "r \<in> set (block_ranges b)"
  proof -
    from that(1) obtain removal where mem: "(k, removal) \<in> set (removed_blocks tm)" by auto
    then have "removal = pb_removal (removal_of hasher b)" using pinned b unfolding removals_pinned_def by fastforce
    then show ?thesis using touched_removed mem cod [OF b] that(3) by blast
  qed
  show "touches (touched_by index tm) r" if "b' \<in> set (contributed_blocks index tm)" "r \<in> set (block_ranges b')"
    using touched_contributed [OF that(1) _ refl refl that(2)] fits that(1) unfolding contribution_fits_def by blast
  show "touches (touched_by index tm) r"
    if "b' \<in> set (contributed_blocks index tm)" and b: "C (ts_object_key b') = Some b" and "r \<in> set (block_ranges b)"
    using touched_contributed [OF that(1) cod [OF b] _ _ that(3)] fits that(1) b unfolding contribution_fits_def by blast
qed

lemma read_tracks:
  assumes ok: "contents_ok tenant C" and "bt_ok records"
    and "\<forall>r. bt_get records r = (if scatter C r \<noteq> {} \<and> touches touched r then Some (shard_list C r) else None)"
  shows "tracks touched records C"
proof -
  have "vals records r = (if scatter C r \<noteq> {} \<and> touches touched r then shard_list C r else [])" for r
    using assms(3) by (simp add: vals_def)
  then show ?thesis using assms(2) set_shard_list [OF ok] by (auto simp: tracks_def)
qed

lemma pinned_fingerprint: "pr_fingerprint (pb_removal (removal_of hasher b)) = trace_block_fingerprint hasher b"
  by (simp add: removal_of_def)

lemma check_removals_ok:
  assumes ok: "contents_ok tenant C" and tr: "tracks touched records C" and pinned: "removals_pinned hasher removed C"
    and touched: "\<forall>k \<in> set (bt_keys removed). \<forall>b. C k = Some b \<longrightarrow> (\<forall>r \<in> set (block_ranges b). touches touched r)"
  shows "check_removals hasher records removed = Inr ()"
proof -
  have "removal_unchanged hasher records e" if e: "e \<in> set removed" for e
  proof -
    obtain k removal where k: "e = (k, removal)" by (cases e)
    have "k \<in> set (bt_keys removed)" using e k by force
    then show ?thesis
      using removal_unchanged_iff [OF ok tr, of k hasher removal] pinned e touched pinned_fingerprint
      unfolding k removals_pinned_def by fastforce
  qed
  then have "find (\<lambda>e. \<not> removal_unchanged hasher records e) removed = None" by (simp add: find_None_iff)
  then show ?thesis by (simp add: check_removals_def)
qed

lemma merged_tracks:
  assumes m: "save_fits hasher index tm C" and ok: "contents_ok (tm_tenant tm) C"
    and tr: "tracks (touched_by index tm) records C"
  defines "C' \<equiv> merged_contents (removed_blocks tm) (contributed_blocks index tm) C"
  shows "contents_ok (tm_tenant tm) C'"
    and "tracks (touched_by index tm) (fold place_contributed (contributed_blocks index tm)
          (fold (drop_removal hasher) (removed_blocks tm) records)) C'"
proof -
  have pinned: "removals_pinned hasher (removed_blocks tm) C" and fits: "contribution_fits (contributed_blocks index tm) C"
    and utf8: "contributed_blocks index tm \<noteq> [] \<longrightarrow> utf8_string (tm_tenant tm)"
    using m by (simp_all add: save_fits_def)
  have "bt_ok (removed_blocks tm)" using pinned by (simp add: removals_pinned_def)
  then have dist: "distinct (map fst (removed_blocks tm))" by (rule bt_ok_distinct)
  have "\<forall>(k, removal) \<in> set (removed_blocks tm). \<exists>b. C k = Some b \<and> trace_block_fingerprint hasher b = pr_fingerprint removal"
    using pinned pinned_fingerprint unfolding removals_pinned_def by fastforce
  from tracks_drops [OF ok tr dist this]
  have drop: "contents_ok (tm_tenant tm) (C |` (- set (bt_keys (removed_blocks tm))))"
      "tracks (touched_by index tm) (fold (drop_removal hasher) (removed_blocks tm) records) (C |` (- set (bt_keys (removed_blocks tm))))"
    by simp_all
  have "\<forall>b \<in> set (contributed_blocks index tm). record_codable b \<and> (\<forall>r \<in> set (block_ranges b). touches (touched_by index tm) r)"
    using fits save_fits_touched(2) [OF m ok] unfolding contribution_fits_def by blast
  from tracks_places [OF drop utf8 this]
  show "contents_ok (tm_tenant tm) C'"
    and "tracks (touched_by index tm) (fold place_contributed (contributed_blocks index tm)
          (fold (drop_removal hasher) (removed_blocks tm) records)) C'"
    by (simp_all add: C'_def merged_contents_def)
qed

lemma same_scatter_payload:
  assumes "contents_ok tenant C" and "contents_ok tenant C'" and "scatter C r = scatter C' r"
  shows "payload_of tenant C r = payload_of tenant C' r"
proof -
  have "shard_list C r = sort_key record_span (shard_list C r)"
    using sort_shard_list [OF assms(1) set_shard_list [OF assms(1)]] by simp
  also have "\<dots> = shard_list C' r"
    using sort_shard_list [OF assms(2)] set_shard_list [OF assms(1)] assms(3) by simp
  finally show ?thesis by (simp add: payload_of_def)
qed

lemma published_ranges:
  assumes tr: "tracks touched records C"
  shows "map ms_range (published_entries tm C records) = map fst (filter (\<lambda>(r, bs). bs \<noteq> []) records)"
    and "r \<in> fst ` set (filter (\<lambda>(r, bs). bs \<noteq> []) records) \<longleftrightarrow> touches touched r \<and> scatter C r \<noteq> {}"
proof -
  show "map ms_range (published_entries tm C records) = map fst (filter (\<lambda>(r, bs). bs \<noteq> []) records)"
    by (auto simp: published_entries_def)
  have bt: "bt_ok records" and v: "set (vals records r) = (if touches touched r then scatter C r else {})"
    using tr unfolding tracks_def by blast+
  have "r \<in> fst ` set (filter (\<lambda>(r, bs). bs \<noteq> []) records) \<longleftrightarrow> (\<exists>bs. bt_get records r = Some bs \<and> bs \<noteq> [])"
    by (force simp: bt_get_set [OF bt, symmetric])
  also have "\<dots> \<longleftrightarrow> set (vals records r) \<noteq> {}" by (cases "bt_get records r") (simp_all add: vals_def)
  finally show "r \<in> fst ` set (filter (\<lambda>(r, bs). bs \<noteq> []) records) \<longleftrightarrow> touches touched r \<and> scatter C r \<noteq> {}"
    unfolding v by simp
qed

text \<open>The carried shards and the published ones together hold the merged contents.\<close>

lemma merged_holds:
  assumes base: "tenant_holds (tm_client tm) view (tm_key tm) (tm_max_bytes tm) (tm_base tm) s (tm_tenant tm) C"
    and ok: "contents_ok (tm_tenant tm) C'" and tr: "tracks touched records C'"
    and carried: "bt_ok carried" "\<forall>r. bt_get carried r = (if scatter C r \<noteq> {} \<and> \<not> touches touched r
          then Some (shard_payload_content_hash (tm_client tm) (payload_of (tm_tenant tm) C r)) else None)"
    and untouched: "\<And>r. \<not> touches touched r \<Longrightarrow> scatter C' r = scatter C r"
    and fits: "\<forall>r. scatter C' r \<noteq> {} \<longrightarrow> length (payload_of (tm_tenant tm) C' r) \<le> min (tm_max_bytes tm) usize_max"
    and start: "shards_of (mp_manifest mp) (tm_tenant tm) = map (\<lambda>(r, c). shard_entry r c) carried"
    and P: "publish_inv tm view C' mp s records mp' s'"
  shows "tenant_holds (tm_client tm) view (tm_key tm) (tm_max_bytes tm) (mp_manifest mp') s' (tm_tenant tm) C'"
proof -
  let ?t = "tm_tenant tm" and ?c = "tm_client tm" and ?at = "payload_at (tm_client tm) (tm_key tm) (tm_tenant tm)"
  let ?new = "filter (\<lambda>(r, bs). bs \<noteq> []) records"
  have shards: "shards_of (mp_manifest mp') ?t = map (\<lambda>(r, c). shard_entry r c) carried @ published_entries tm C' records"
    using P start by (simp add: publish_inv_def)
  have carried_iff: "(r, c) \<in> set carried \<longleftrightarrow> scatter C r \<noteq> {} \<and> \<not> touches touched r \<and> c = shard_payload_content_hash ?c (payload_of ?t C r)" for r c
    unfolding bt_get_set [OF carried(1)] by (simp add: carried(2)) blast
  have okC: "contents_ok ?t C" using base by (simp add: tenant_holds_def)
  have ranges: "map ms_range (shards_of (mp_manifest mp') ?t) = map fst carried @ map fst ?new"
    using published_ranges(1) [OF tr, of tm] by (auto simp: shards)
  have keys: "r \<in> fst ` set carried \<longleftrightarrow> scatter C r \<noteq> {} \<and> \<not> touches touched r" for r
    using carried_iff by (force simp: image_iff)
  have bt: "bt_ok records" using tr unfolding tracks_def by blast
  have dist: "distinct (map ms_range (shards_of (mp_manifest mp') ?t))"
  proof -
    have "distinct (map fst ?new)" using bt_ok_distinct [OF bt] by (simp add: distinct_map_filter_key)
    moreover have "fst ` set carried \<inter> fst ` set ?new = {}" using keys published_ranges(2) [OF tr] by blast
    ultimately show ?thesis unfolding ranges using bt_ok_distinct [OF carried(1)] by simp
  qed
  have "fst ` set carried \<union> fst ` set ?new = {r. scatter C' r \<noteq> {}}"
    by (rule set_eqI) (use untouched in \<open>auto simp only: Un_iff keys published_ranges(2) [OF tr] mem_Collect_eq\<close>)
  then have dom: "ms_range ` set (shards_of (mp_manifest mp') ?t) = {r. scatter C' r \<noteq> {}}"
    using arg_cong [OF ranges, of set] by simp
  have payload: "payload_of ?t C r = payload_of ?t C' r" if "\<not> touches touched r" for r
    using same_scatter_payload [OF okC ok] untouched [OF that] by simp
  have old: "view s' (?at C' r) = Some (payload_of ?t C' r)" if "scatter C r \<noteq> {}" "\<not> touches touched r" for r
  proof -
    have "r \<in> ms_range ` set (shards_of (tm_base tm) ?t)" using base that(1) by (simp add: tenant_holds_def)
    then have "view s (?at C r) = Some (payload_of ?t C r)" using base unfolding tenant_holds_def by blast
    moreover have "?at C r = ?at C' r" using payload [OF that(2)] by (simp add: payload_at_def)
    moreover have "?at C' r \<noteq> ?at C' r'" if mem: "(r', bs) \<in> set records" "bs \<noteq> []" for r' bs
      using payload_at_inj [of ?c "tm_key tm" ?t C' r ?t C' r'] scatter_range(1) [OF okC \<open>scatter C r \<noteq> {}\<close>]
        scatter_range(1) [OF ok, of r'] tracks_entry(1,2) [OF tr mem] mem(2) \<open>\<not> touches touched r\<close> by (metis set_empty)
    ultimately show ?thesis using P payload [OF that(2)] unfolding publish_inv_def by metis
  qed
  have new: "view s' (?at C' r) = Some (payload_of ?t C' r)" if "(r, bs) \<in> set records" "bs \<noteq> []" for r bs
    using P that unfolding publish_inv_def by blast
  have "ms_content sh = shard_payload_content_hash ?c (payload_of ?t C' (ms_range sh))
      \<and> view s' (?at C' (ms_range sh)) = Some (payload_of ?t C' (ms_range sh))" if "sh \<in> set (shards_of (mp_manifest mp') ?t)" for sh
    using that old new carried_iff payload unfolding shards published_entries_def by auto
  then show ?thesis using ok dist dom fits unfolding tenant_holds_def by blast
qed

lemma merge_trace_tenant_ok:
  assumes law: "reliable_store (tm_client tm) view" and key: "normal_key (tm_key tm)"
    and base: "tenant_holds (tm_client tm) view (tm_key tm) (tm_max_bytes tm) (tm_base tm) s (tm_tenant tm) C"
    and m: "save_fits hasher index tm C"
    and mp: "shards_of (mp_manifest mp) (tm_tenant tm) = []" "bt_ok (sm_tenants (mp_manifest mp))"
  defines "C' \<equiv> merged_contents (removed_blocks tm) (contributed_blocks index tm) C"
  shows "\<exists>mp' s'. merge_tenant_shards hasher index tm mp s = (Inr mp', s')
    \<and> tenant_holds (tm_client tm) view (tm_key tm) (tm_max_bytes tm) (mp_manifest mp') s' (tm_tenant tm) C'
    \<and> (\<forall>t. t \<noteq> tm_tenant tm \<longrightarrow> shards_of (mp_manifest mp') t = shards_of (mp_manifest mp) t)
    \<and> bt_ok (sm_tenants (mp_manifest mp')) \<and> sm_version (mp_manifest mp') = sm_version (mp_manifest mp)
    \<and> (\<forall>p. p \<notin> tenant_payloads (tm_client tm) (tm_key tm) (tm_tenant tm) C' \<longrightarrow> view s' p = view s p)"
proof -
  let ?T = "touched_by index tm"
  have ok: "contents_ok (tm_tenant tm) C" using base by (simp add: tenant_holds_def)
  obtain carried records fetched where read: "read_touched tm ?T note_trace_shard [] (mp_fetched mp) s = Inr (carried, records, fetched)"
      "bt_ok carried" "bt_ok records"
      "\<forall>r. bt_get records r = (if scatter C r \<noteq> {} \<and> touches ?T r then Some (shard_list C r) else None)"
      "\<forall>r. bt_get carried r = (if scatter C r \<noteq> {} \<and> \<not> touches ?T r
          then Some (shard_payload_content_hash (tm_client tm) (payload_of (tm_tenant tm) C r)) else None)"
    using read_touched_ok [OF law key base, of ?T "mp_fetched mp"] by (elim exE conjE) blast
  note tr = read_tracks [OF ok read(3,4)]
  define records' where "records' = fold place_contributed (contributed_blocks index tm) (fold (drop_removal hasher) (removed_blocks tm) records)"
  have C': "contents_ok (tm_tenant tm) C'" "tracks ?T records' C'"
    using merged_tracks [OF m ok tr] unfolding C'_def records'_def by blast+
  have check: "check_removals hasher records (removed_blocks tm) = Inr ()"
    using check_removals_ok [OF ok tr] m save_fits_touched(1) [OF m ok] unfolding save_fits_def by blast
  let ?mp = "mp\<lparr>mp_manifest := carry tm carried (mp_manifest mp), mp_fetched := fetched\<rparr>"
  have merge: "merge_tenant_shards hasher index tm mp s = io_fold (publish_records tm) records' ?mp s"
    using read(1) check
    by (simp add: merge_tenant_shards_def Let_def io_bind_def io_read_def records'_def contributed_blocks_def [symmetric]
        removed_blocks_def [symmetric] touched_by_def [symmetric])
  have coll: "no_collision (tm_client tm) (tm_tenant tm) C C'" using m by (simp add: save_fits_def C'_def)
  obtain mp' s' where pub: "io_fold (publish_records tm) records' ?mp s = (Inr mp', s')" "publish_inv tm view C' ?mp s records' mp' s'"
    using publish_all [OF law key base coll C', of s ?mp] carry_simps(3) [OF mp(2)] by fastforce
  have untouched: "scatter C' r = scatter C r" if "\<not> touches ?T r" for r
    using untouched_scatter [OF ok, of "removed_blocks tm" ?T "contributed_blocks index tm" r] save_fits_touched [OF m ok] that
    unfolding C'_def by blast
  have fits: "\<forall>r. scatter C' r \<noteq> {} \<longrightarrow> length (payload_of (tm_tenant tm) C' r) \<le> min (tm_max_bytes tm) usize_max"
    using m unfolding save_fits_def C'_def by blast
  have "shards_of (mp_manifest ?mp) (tm_tenant tm) = map (\<lambda>(r, c). shard_entry r c) carried"
    using mp(1) by (simp add: carry_simps(1))
  from merged_holds [OF base C' read(2,5) untouched fits this pub(2)]
  have holds: "tenant_holds (tm_client tm) view (tm_key tm) (tm_max_bytes tm) (mp_manifest mp') s' (tm_tenant tm) C'" by blast
  have "view s' p = view s p" if "p \<notin> tenant_payloads (tm_client tm) (tm_key tm) (tm_tenant tm) C'" for p
  proof -
    have "p \<noteq> payload_at (tm_client tm) (tm_key tm) (tm_tenant tm) C' r" if "(r, bs) \<in> set records'" "bs \<noteq> []" for r bs
      using tracks_entry(2) [OF C'(2) that] that(2) \<open>p \<notin> _\<close> unfolding tenant_payloads_def by (fastforce simp flip: set_empty)
    then show ?thesis using pub(2) unfolding publish_inv_def by blast
  qed
  then show ?thesis
    using merge pub holds by (intro exI [of _ mp'] exI [of _ s']) (simp add: publish_inv_def carry_simps)
qed

section \<open>Merging the whole index\<close>

lemma tenant_holds_frame:
  assumes "tenant_holds client view key max_bytes m s t C" and "shards_of m' t = shards_of m t"
    and "\<And>r. scatter C r \<noteq> {} \<Longrightarrow> view s' (payload_at client key t C r) = view s (payload_at client key t C r)"
  shows "tenant_holds client view key max_bytes m' s' t C"
proof -
  have "scatter C (ms_range sh) \<noteq> {}" if "sh \<in> set (shards_of m t)" for sh
    using assms(1) that unfolding tenant_holds_def by blast
  then show ?thesis using assms unfolding tenant_holds_def by simp
qed

lemma other_tenant_payload:
  assumes "contents_ok t C" and "contents_ok t' C'" and "t \<noteq> t'" and "scatter C r \<noteq> {}"
  shows "payload_at client key t C r \<notin> tenant_payloads client key t' C'"
  using payload_at_inj [of client key t C r t' C'] scatter_range(1) [OF assms(1,4)] scatter_range(1) [OF assms(2)] assms(3)
  by (auto simp: tenant_payloads_def)

lemma tenant_payloads_under: "p \<in> tenant_payloads client key t C \<Longrightarrow> under_prefix (shard_payload_prefix_for_key key) p"
  using payload_under by (auto simp: tenant_payloads_def payload_at_def)

lemma sort_shards:
  assumes "bt_ok (sm_tenants m)"
  shows "shards_of (manifest_sort m) t = sort_key (\<lambda>sh. (ms_start sh, ms_end sh, ms_content sh)) (shards_of m t)"
    and "sm_version (manifest_sort m) = sm_version m"
proof -
  let ?f = "\<lambda>shards. sort_key (\<lambda>sh. (ms_start sh, ms_end sh, ms_content sh)) shards"
  have filt: "map_of (filter (\<lambda>(t, shards). shards \<noteq> []) xs) t = (case map_of xs t of None \<Rightarrow> None | Some v \<Rightarrow> if v = [] then None else Some v)"
    if "distinct (map fst xs)" for xs :: "(string \<times> manifest_shard list) list"
    using that by (induction xs) (auto split: option.splits simp: map_of_eq_None_iff)
  have "distinct (map fst (map (\<lambda>(tenant, shards). (tenant, ?f shards)) (sm_tenants m)))"
    using bt_ok_distinct [OF assms] by (simp add: comp_def case_prod_unfold)
  from filt [OF this] show "shards_of (manifest_sort m) t = ?f (shards_of m t)"
    by (cases "bt_get (sm_tenants m) t") (auto simp: shards_of_def manifest_sort_def map_of_map)
  show "sm_version (manifest_sort m) = sm_version m" by (simp add: manifest_sort_def)
qed

lemma sorted_manifest_ok:
  assumes "bt_ok (sm_tenants m)"
  shows "bt_ok (sm_tenants (manifest_sort m))"
proof -
  have mapped: "bt_ok (map (\<lambda>(t, shards). (t, f shards)) xs)" if "bt_ok xs" for xs :: "(string \<times> manifest_shard list) list" and f
    using that by (simp add: comp_def case_prod_unfold)
  have filtered: "bt_ok (filter p xs)" if "bt_ok xs" for xs :: "(string \<times> manifest_shard list) list" and p
    using that by (induction xs) auto
  have "sm_tenants (manifest_sort m) = filter (\<lambda>(tenant, shards). shards \<noteq> [])
      (map (\<lambda>(tenant, shards). (tenant, sort_key (\<lambda>sh. (ms_start sh, ms_end sh, ms_content sh)) shards)) (sm_tenants m))"
    by (simp add: manifest_sort_def)
  then show ?thesis using filtered [OF mapped [OF assms]] by (simp only:)
qed

lemma sorted_holds:
  assumes "tenant_holds client view key max_bytes m s t C" and "bt_ok (sm_tenants m)"
  shows "tenant_holds client view key max_bytes (manifest_sort m) s t C"
  using assms sort_shards(1) [OF assms(2), of t] unfolding tenant_holds_def by (simp add: distinct_map)

definition save_merge ::
  "'s object_client \<Rightarrow> string \<Rightarrow> nat \<Rightarrow> trace_index \<Rightarrow> snapshot_manifest option \<Rightarrow> string \<Rightarrow> 's tenant_shard_merge" where
  "save_merge client key max_bytes index base_opt tenant =
     \<lparr>tm_client = client, tm_key = key, tm_base = (case base_opt of None \<Rightarrow> manifest_default | Some m \<Rightarrow> m),
      tm_tenant = tenant, tm_removed = bt_get (tx_pending_removals index) tenant, tm_contribute_all = (base_opt = None),
      tm_additions = tx_pending_additions index, tm_max_bytes = max_bytes\<rparr>"

text \<open>What a save publishes for a tenant that held \<open>C\<close>.\<close>

definition saved_contents :: "trace_index \<Rightarrow> 's tenant_shard_merge \<Rightarrow> contents \<Rightarrow> contents" where
  "saved_contents index tm C = merged_contents (removed_blocks tm) (contributed_blocks index tm) C"

lemma save_merge_simps [simp]:
  "tm_client (save_merge client key max_bytes index base_opt tenant) = client"
  "tm_key (save_merge client key max_bytes index base_opt tenant) = key"
  "tm_max_bytes (save_merge client key max_bytes index base_opt tenant) = max_bytes"
  "tm_tenant (save_merge client key max_bytes index base_opt tenant) = tenant"
  by (simp_all add: save_merge_def)

text \<open>The loop over the tenants, after those in \<open>before\<close>.\<close>

definition merge_inv ::
  "'s object_client \<Rightarrow> 's object_view \<Rightarrow> string \<Rightarrow> nat \<Rightarrow> snapshot_manifest \<Rightarrow> (string \<Rightarrow> contents) \<Rightarrow> (string \<Rightarrow> contents) \<Rightarrow> 's
     \<Rightarrow> string list \<Rightarrow> merge_progress \<Rightarrow> 's \<Rightarrow> bool" where
  "merge_inv client view key max_bytes base Cs Cs' s before mp s' \<longleftrightarrow>
     sm_version (mp_manifest mp) = snapshot_manifest_version \<and> bt_ok (sm_tenants (mp_manifest mp))
     \<and> (\<forall>t \<in> set before. tenant_holds client view key max_bytes (mp_manifest mp) s' t (Cs' t))
     \<and> (\<forall>t. t \<notin> set before \<longrightarrow> shards_of (mp_manifest mp) t = [] \<and> tenant_holds client view key max_bytes base s' t (Cs t))
     \<and> (\<forall>p. \<not> under_prefix (shard_payload_prefix_for_key key) p \<longrightarrow> view s' p = view s p)"

lemma merge_inv_step:
  assumes law: "reliable_store client view" and key: "normal_key key"
    and tm: "tm_base tm = base" "tm_client tm = client" "tm_key tm = key" "tm_max_bytes tm = max_bytes" "tm_tenant tm = t"
    and m: "save_fits hasher index tm (Cs t)" and C': "Cs' t = saved_contents index tm (Cs t)"
    and t: "t \<notin> set before" and P: "merge_inv client view key max_bytes base Cs Cs' s before mp s1"
  shows "\<exists>mp' s'. merge_tenant_shards hasher index tm mp s1 = (Inr mp', s')
    \<and> merge_inv client view key max_bytes base Cs Cs' s (before @ [t]) mp' s'"
proof -
  have base_t: "tenant_holds client view key max_bytes base s1 t (Cs t)" "shards_of (mp_manifest mp) t = []"
      "bt_ok (sm_tenants (mp_manifest mp))" using P t unfolding merge_inv_def by blast+
  obtain mp' s' where step: "merge_tenant_shards hasher index tm mp s1 = (Inr mp', s')"
      "tenant_holds client view key max_bytes (mp_manifest mp') s' t (Cs' t)"
      "\<forall>t'. t' \<noteq> t \<longrightarrow> shards_of (mp_manifest mp') t' = shards_of (mp_manifest mp) t'"
      "bt_ok (sm_tenants (mp_manifest mp'))" "sm_version (mp_manifest mp') = sm_version (mp_manifest mp)"
      "\<forall>p. p \<notin> tenant_payloads client key t (Cs' t) \<longrightarrow> view s' p = view s1 p"
    using merge_trace_tenant_ok [of tm view s1 "Cs t" hasher index mp, unfolded tm, OF law key base_t(1) m base_t(2,3)]
    unfolding C' saved_contents_def by (elim exE conjE) blast
  have okt: "contents_ok t (Cs' t)" using step(2) by (simp add: tenant_holds_def)
  have other: "tenant_holds client view key max_bytes m' s' t' D"
    if "tenant_holds client view key max_bytes m'' s1 t' D" "t' \<noteq> t" "shards_of m' t' = shards_of m'' t'" for m' m'' t' D
  proof (rule tenant_holds_frame [OF that(1,3)])
    have "contents_ok t' D" using that(1) by (simp add: tenant_holds_def)
    then show "view s' (payload_at client key t' D r) = view s1 (payload_at client key t' D r)" if "scatter D r \<noteq> {}" for r
      using step(6) other_tenant_payload [OF _ okt \<open>t' \<noteq> t\<close> that] by blast
  qed
  have "merge_inv client view key max_bytes base Cs Cs' s (before @ [t]) mp' s'"
    unfolding merge_inv_def
  proof (intro conjI ballI allI impI)
    show "tenant_holds client view key max_bytes (mp_manifest mp') s' t' (Cs' t')" if "t' \<in> set (before @ [t])" for t'
      using P other [of "mp_manifest mp" t' "Cs' t'" "mp_manifest mp'"] step(2,3) that
      unfolding merge_inv_def by (cases "t' = t") auto
    show "shards_of (mp_manifest mp') t' = []" if "t' \<notin> set (before @ [t])" for t'
      using P step(3) that unfolding merge_inv_def by simp
    show "tenant_holds client view key max_bytes base s' t' (Cs t')" if "t' \<notin> set (before @ [t])" for t'
      using P other [of base t' "Cs t'" base] that unfolding merge_inv_def by simp
    show "view s' p = view s p" if "\<not> under_prefix (shard_payload_prefix_for_key key) p" for p
      using P step(6) tenant_payloads_under [of p client key t "Cs' t"] that unfolding merge_inv_def by metis
  qed (use P step(4,5) in \<open>simp_all add: merge_inv_def\<close>)
  then show ?thesis using step(1) by blast
qed

lemma merged_manifest_ok:
  assumes law: "reliable_store client view" and key: "normal_key key"
    and tm_def: "tm = save_merge client key max_bytes index base_opt"
    and holds: "\<forall>t. tenant_holds client view key max_bytes (tm_base (tm t)) s t (Cs t)"
    and m: "\<forall>t. save_fits hasher index (tm t) (Cs t)"
  shows "\<exists>m s'. merged_manifest client hasher key (tx_pending_removals index) (tx_pending_additions index) max_bytes index base_opt s = (Inr m, s')
    \<and> sm_version m = snapshot_manifest_version \<and> bt_ok (sm_tenants m)
    \<and> (\<forall>t. tenant_holds client view key max_bytes m s' t (saved_contents index (tm t) (Cs t)))
    \<and> (\<forall>p. \<not> under_prefix (shard_payload_prefix_for_key key) p \<longrightarrow> view s' p = view s p)"
proof -
  define base where "base = (case base_opt of None \<Rightarrow> manifest_default | Some m \<Rightarrow> m)"
  define tenants where "tenants = bs_extend (bt_keys (tx_pending_removals index))
      (bs_extend (bt_keys (tx_tenants index)) (bs_collect (manifest_tenants base)))"
  have tm: "tm_base (tm t) = base" "tm_client (tm t) = client" "tm_key (tm t) = key" "tm_max_bytes (tm t) = max_bytes" "tm_tenant (tm t) = t" for t
    by (simp_all add: tm_def save_merge_def base_def)
  let ?C = "\<lambda>t. saved_contents index (tm t) (Cs t)" and ?start = "\<lparr>mp_manifest = manifest_new, mp_fetched = 0, mp_written = 0\<rparr>"
  let ?P = "merge_inv client view key max_bytes base Cs ?C s"
  have "bs_ok tenants" unfolding tenants_def by (intro bs_ok_extend) simp
  then have dist: "distinct tenants" by (rule bs_ok_distinct)
  have "\<exists>mp s'. io_fold (\<lambda>t. merge_tenant_shards hasher index (tm t)) tenants ?start s = (Inr mp, s') \<and> ?P tenants mp s'"
  proof (rule io_fold_ok)
    show "?P [] ?start s" using holds by (simp add: merge_inv_def manifest_new_def shards_of_def tm)
    show "\<exists>mp' s'. merge_tenant_shards hasher index (tm t) mp s1 = (Inr mp', s') \<and> ?P (before @ [t]) mp' s'"
      if "tenants = before @ t # after" "?P before mp s1" for before t after mp s1
      using merge_inv_step [OF law key tm, of hasher index t Cs ?C before s mp s1] m dist that by simp
  qed
  then obtain mp s' where fold: "io_fold (\<lambda>t. merge_tenant_shards hasher index (tm t)) tenants ?start s = (Inr mp, s')"
    and P: "?P tenants mp s'" by blast
  have merged: "merged_manifest client hasher key (tx_pending_removals index) (tx_pending_additions index) max_bytes index base_opt s
      = (Inr (manifest_sort (mp_manifest mp)), s')"
    using fold unfolding merged_manifest_def Let_def base_def [symmetric] tenants_def [symmetric] tm_def save_merge_def
    by (simp add: io_bind_def io_ok_def)
  have bt: "bt_ok (sm_tenants (mp_manifest mp))" and ver: "sm_version (mp_manifest mp) = snapshot_manifest_version"
    and frame: "\<forall>p. \<not> under_prefix (shard_payload_prefix_for_key key) p \<longrightarrow> view s' p = view s p"
    using P unfolding merge_inv_def by blast+
  have all: "tenant_holds client view key max_bytes (manifest_sort (mp_manifest mp)) s' t (?C t)" for t
  proof (rule sorted_holds [OF _ bt], cases "t \<in> set tenants")
    case False
    have "bt_get (tx_pending_removals index) t = None" "bt_get (tx_tenants index) t = None" "bt_get (sm_tenants base) t = None"
      using False by (simp_all add: tenants_def manifest_tenants_def map_of_eq_None_iff)
    then have "removed_blocks (tm t) = []" "contributed_blocks index (tm t) = []" "shards_of base t = []"
      by (simp_all add: removed_blocks_def contributed_blocks_def trace_blocks_def shards_of_def tm_def save_merge_def)
    then show "tenant_holds client view key max_bytes (mp_manifest mp) s' t (?C t)"
      using P False tenant_holds_frame [of client view key max_bytes base s' t "Cs t" "mp_manifest mp" s']
      by (simp add: merge_inv_def saved_contents_def merged_contents_def restrict_map_def)
  qed (use P in \<open>simp add: merge_inv_def\<close>)
  have "sm_version (manifest_sort (mp_manifest mp)) = snapshot_manifest_version" using sort_shards(2) [OF bt] ver by simp
  with merged all frame sorted_manifest_ok [OF bt] show ?thesis by blast
qed

section \<open>Loading\<close>

definition contents_of :: "trace_index \<Rightarrow> string \<Rightarrow> contents" where
  "contents_of index tenant = map_of (map (\<lambda>b. (ts_object_key b, b)) (trace_blocks index tenant))"

lemma map_Some_eqI:
  assumes "\<And>k b. m k = Some b \<longleftrightarrow> m' k = Some b"
  shows "m = m'"
proof
  fix k show "m k = m' k"
  proof (cases "m k")
    case None
    then show ?thesis using assms [of k] by (metis not_Some_eq)
  next
    case (Some b)
    then show ?thesis using assms [of k b] by simp
  qed
qed

text \<open>Merging records that agree on every key keeps exactly those records.\<close>

lemma finish_agreeing:
  assumes ok: "contents_ok tenant C" and "set bs = ran C"
  shows "map_of (map (\<lambda>b. (ts_object_key b, b)) (tt_blocks (finish_tenant hasher \<lparr>tt_blocks = bs\<rparr>))) = C"
    and "distinct (map ts_object_key (tt_blocks (finish_tenant hasher \<lparr>tt_blocks = bs\<rparr>)))"
proof -
  let ?m = "fold (merge_record hasher) bs []"
  have bt: "bt_ok ?m" and best: "\<And>k. best_record hasher bs k (bt_get ?m k)" using merge_records_ok by blast+
  have key: "C k = Some b \<longleftrightarrow> b \<in> set bs \<and> ts_object_key b = k" for k b
    using contents_key [OF ok, of b] ok assms(2) by (auto simp: contents_ok_def intro: ranI)
  have get: "bt_get ?m = C"
  proof
    fix k show "bt_get ?m k = C k"
    proof (cases "bt_get ?m k")
      case None
      then have "\<not> (\<exists>b. C k = Some b)" using best [of k] key by (auto simp: best_record_def)
      then show ?thesis using None by simp
    next
      case (Some b)
      then have "C k = Some b" using best [of k] key by (auto simp: best_record_def)
      then show ?thesis using Some by simp
    qed
  qed
  let ?out = "tt_blocks (finish_tenant hasher \<lparr>tt_blocks = bs\<rparr>)"
  have "map ts_object_key (map snd ?m) = map fst ?m" using bt_get_set [OF bt] key unfolding get by fastforce
  then have dist: "distinct (map ts_object_key (map snd ?m))" using bt_ok_distinct [OF bt] by (simp only:)
  have out: "?out = sort_key (\<lambda>b. (ts_min_ts b, ts_max_ts b, ts_object_key b)) (map snd ?m)"
    by (simp add: finish_tenant_def Let_def)
  show dist': "distinct (map ts_object_key ?out)" using dist unfolding out distinct_map [of ts_object_key] by simp
  have "b \<in> set ?out \<longleftrightarrow> b \<in> ran C" for b
    unfolding out set_sort get [symmetric] using bt_get_set [OF bt] by (force simp: ran_def)
  then have "map_of (map (\<lambda>b. (ts_object_key b, b)) ?out) k = Some b \<longleftrightarrow> C k = Some b" for k b
    using dist' key assms(2) by (subst map_of_eq_Some_iff) (auto simp: comp_def)
  then show "map_of (map (\<lambda>b. (ts_object_key b, b)) ?out) = C" by (rule map_Some_eqI)
qed

text \<open>A load without a window reads everything; one with a window reads the tenant's shards that meet it.\<close>

definition tenant_wanted :: "shard_window option \<Rightarrow> string \<Rightarrow> bool" where
  "tenant_wanted win t \<longleftrightarrow> (case win of None \<Rightarrow> True | Some (t', _) \<Rightarrow> t' = t)"

definition shard_wanted :: "shard_window option \<Rightarrow> index_shard_range \<Rightarrow> bool" where
  "shard_wanted win r \<longleftrightarrow> (case win of None \<Rightarrow> True | Some (_, w) \<Rightarrow> range_overlaps r (ir_start w) (ir_end w))"

definition wanted :: "shard_window option \<Rightarrow> string \<Rightarrow> contents \<Rightarrow> contents" where
  "wanted win t C = C |` {k. \<exists>b. C k = Some b \<and> tenant_wanted win t \<and> (\<exists>r \<in> set (block_ranges b). shard_wanted win r)}"

lemma wanted_ok: "contents_ok t C \<Longrightarrow> contents_ok t (wanted win t C)"
  unfolding contents_ok_def wanted_def dom_restrict by (auto simp: restrict_map_def split: if_splits)

lemma wanted_all:
  assumes "contents_ok t C"
  shows "wanted None t C = C"
proof
  fix k show "wanted None t C k = C k"
  proof (cases "C k")
    case (Some b)
    then have "block_ranges b \<noteq> []" using block_ranges_props(1) assms by (auto simp: contents_ok_def)
    then show ?thesis using Some by (simp add: wanted_def tenant_wanted_def shard_wanted_def restrict_map_def)
  qed (simp add: wanted_def restrict_map_def)
qed

definition note_load :: "string \<Rightarrow> string \<Rightarrow> byte list \<Rightarrow> trace_index \<Rightarrow> snapshot_error + trace_index" where
  "note_load tenant object_key bytes index = map_sum Bad_shard (\<lambda>i. i) (load_shard tenant object_key bytes index)"

definition raw_blocks :: "shard_window option \<Rightarrow> contents \<Rightarrow> manifest_shard list \<Rightarrow> trace_block_stats list" where
  "raw_blocks win C shards = concat (map (\<lambda>sh. shard_list C (ms_range sh)) (filter (\<lambda>sh. shard_wanted win (ms_range sh)) shards))"

lemma load_shards_ok:
  assumes law: "reliable_store client view" and key: "normal_key key"
    and holds: "tenant_holds client view key max_bytes m s t C"
    and start: "bt_ok (tx_tenants index)" "bt_get (tx_tenants index) t = None"
  shows "\<exists>reads' index'. res_fold (read_shard_step client key win max_bytes note_load s t) (shards_of m t) (reads, index) = Inr (reads', index')
    \<and> bt_ok (tx_tenants index') \<and> trace_blocks index' t = raw_blocks win C (shards_of m t)
    \<and> (\<forall>t'. t' \<noteq> t \<longrightarrow> bt_get (tx_tenants index') t' = bt_get (tx_tenants index) t')
    \<and> tx_pending_removals index' = tx_pending_removals index \<and> tx_pending_additions index' = tx_pending_additions index"
proof -
  let ?P = "\<lambda>before (reads' :: window_shard_reads, index'). bt_ok (tx_tenants index') \<and> trace_blocks index' t = raw_blocks win C before
    \<and> (\<forall>t'. t' \<noteq> t \<longrightarrow> bt_get (tx_tenants index') t' = bt_get (tx_tenants index) t')
    \<and> tx_pending_removals index' = tx_pending_removals index \<and> tx_pending_additions index' = tx_pending_additions index"
  have "\<exists>acc. res_fold (read_shard_step client key win max_bytes note_load s t) (shards_of m t) (reads, index) = Inr acc \<and> ?P (shards_of m t) acc"
  proof (rule res_fold_ok [where P = ?P])
    show "?P [] (reads, index)" using start by (simp add: trace_blocks_def raw_blocks_def)
    fix before sh after acc assume split: "shards_of m t = before @ sh # after" and P: "?P before acc"
    obtain reads1 index1 where acc: "acc = (reads1, index1)" by (cases acc)
    have sh: "sh \<in> set (shards_of m t)" using split by simp
    note read = read_payload_ok [OF law key holds sh]
    have ne: "shard_list C (ms_range sh) \<noteq> []"
      using holds sh set_shard_list(1) [of t C "ms_range sh"] unfolding tenant_holds_def by (metis (mono_tags) empty_set imageI mem_Collect_eq)
    show "\<exists>acc'. read_shard_step client key win max_bytes note_load s t sh acc = Inr acc' \<and> ?P (before @ [sh]) acc'"
    proof (cases "shard_wanted win (ms_range sh)")
      case True
      then have "\<not> (case win of None \<Rightarrow> False | Some (_, w) \<Rightarrow> \<not> range_overlaps (ms_range sh) (ir_start w) (ir_end w))"
        by (auto simp: shard_wanted_def split: option.splits)
      then show ?thesis using P True ne
        by (auto simp: acc read_shard_step_def Let_def read note_load_def load_shard_def raw_blocks_def trace_blocks_def bt_ok_update split: option.split)
    next
      case False
      then have "(case win of None \<Rightarrow> False | Some (_, w) \<Rightarrow> \<not> range_overlaps (ms_range sh) (ir_start w) (ir_end w))"
        by (auto simp: shard_wanted_def split: option.splits)
      then show ?thesis using P False by (auto simp: acc read_shard_step_def Let_def raw_blocks_def)
    qed
  qed
  then show ?thesis by auto
qed

lemma set_raw_blocks:
  assumes holds: "tenant_holds client view key max_bytes m s t C" and "tenant_wanted win t"
  shows "set (raw_blocks win C (shards_of m t)) = ran (wanted win t C)"
proof -
  have ok: "contents_ok t C" and dom: "ms_range ` set (shards_of m t) = {r. scatter C r \<noteq> {}}"
    using holds by (simp_all add: tenant_holds_def)
  have "b \<in> set (raw_blocks win C (shards_of m t)) \<longleftrightarrow> (\<exists>r \<in> ms_range ` set (shards_of m t). shard_wanted win r \<and> b \<in> scatter C r)" for b
    using set_shard_list(1) [OF ok] by (auto simp: raw_blocks_def)
  also have "\<dots> b \<longleftrightarrow> b \<in> ran C \<and> (\<exists>r \<in> set (block_ranges b). shard_wanted win r)" for b
    unfolding dom by (auto simp: scatter_def)
  also have "\<dots> b \<longleftrightarrow> b \<in> ran (wanted win t C)" for b
    using assms(2) contents_key [OF ok, of b] ok
    by (auto simp: wanted_def ran_def restrict_map_def contents_ok_def)
  finally show ?thesis by blast
qed

lemma finished_blocks:
  "trace_blocks (finish_load hasher index) t = tt_blocks (finish_tenant hasher \<lparr>tt_blocks = trace_blocks index t\<rparr>)"
proof (cases "bt_get (tx_tenants index) t")
  case (Some ti)
  have "finish_tenant hasher \<lparr>tt_blocks = tt_blocks ti\<rparr> = finish_tenant hasher ti" by (cases ti) simp
  then show ?thesis using Some by (simp add: trace_blocks_def finish_load_def map_of_map)
qed (simp add: trace_blocks_def finish_load_def map_of_map finish_tenant_def)

lemma read_shards_ok:
  assumes law: "reliable_store client view" and key: "normal_key key" and bt: "bt_ok (sm_tenants m)"
    and holds: "\<forall>t. tenant_holds client view key max_bytes m s t (Cs t)"
  shows "\<exists>reads index. read_shards client key m win max_bytes note_load trace_index_new s = Inr (reads, index)
    \<and> bt_ok (tx_tenants index)
    \<and> (\<forall>t. trace_blocks index t = (if tenant_wanted win t then raw_blocks win (Cs t) (shards_of m t) else []))
    \<and> tx_pending_removals index = [] \<and> tx_pending_additions index = []"
proof -
  let ?P = "\<lambda>before (reads :: window_shard_reads, index). bt_ok (tx_tenants index)
    \<and> (\<forall>t \<in> set before. trace_blocks index t = (if tenant_wanted win t then raw_blocks win (Cs t) (shards_of m t) else []))
    \<and> (\<forall>t. t \<notin> set before \<longrightarrow> bt_get (tx_tenants index) t = None)
    \<and> tx_pending_removals index = [] \<and> tx_pending_additions index = []"
  let ?f = "\<lambda>t acc. if (case win of None \<Rightarrow> False | Some (t', _) \<Rightarrow> t' \<noteq> t) then Inr acc
      else res_fold (read_shard_step client key win max_bytes note_load s t) (shards_of m t) acc"
  have skip: "(case win of None \<Rightarrow> False | Some (t', _) \<Rightarrow> t' \<noteq> t) \<longleftrightarrow> \<not> tenant_wanted win t" for t
    by (auto simp: tenant_wanted_def split: option.split)
  have "\<exists>acc. res_fold ?f (manifest_tenants m) (\<lparr>wr_listed = 0, wr_read = 0\<rparr>, trace_index_new) = Inr acc \<and> ?P (manifest_tenants m) acc"
  proof (rule res_fold_ok [where P = ?P])
    show "?P [] (\<lparr>wr_listed = 0, wr_read = 0\<rparr>, trace_index_new)" by (simp add: trace_index_new_def)
    fix before t after acc assume split: "manifest_tenants m = before @ t # after" and P: "?P before acc"
    obtain reads index where acc: "acc = (reads, index)" by (cases acc)
    have "t \<notin> set before" using bt_ok_distinct [OF bt] split by (simp add: manifest_tenants_def)
    then have start: "bt_ok (tx_tenants index)" "bt_get (tx_tenants index) t = None" using P acc by auto
    show "\<exists>acc'. ?f t acc = Inr acc' \<and> ?P (before @ [t]) acc'"
    proof (cases "tenant_wanted win t")
      case False
      then show ?thesis using P start(2) by (intro exI [of _ acc]) (auto simp: skip acc trace_blocks_def)
    next
      case True
      obtain reads' index' where step:
          "res_fold (read_shard_step client key win max_bytes note_load s t) (shards_of m t) (reads, index) = Inr (reads', index')"
          "bt_ok (tx_tenants index')" "trace_blocks index' t = raw_blocks win (Cs t) (shards_of m t)"
          "\<forall>t'. t' \<noteq> t \<longrightarrow> bt_get (tx_tenants index') t' = bt_get (tx_tenants index) t'"
          "tx_pending_removals index' = tx_pending_removals index" "tx_pending_additions index' = tx_pending_additions index"
        using load_shards_ok [OF law key _ start, of max_bytes m s "Cs t" win reads] holds by (elim allE exE conjE) blast
      have "?P (before @ [t]) (reads', index')"
        using P step(2-6) True \<open>t \<notin> set before\<close> by (auto simp: acc trace_blocks_def)
      then show ?thesis using step(1) True by (auto simp: skip acc)
    qed
  qed
  then obtain reads index where fold: "read_shards client key m win max_bytes note_load trace_index_new s = Inr (reads, index)"
      "?P (manifest_tenants m) (reads, index)" unfolding read_shards_def by auto
  have "trace_blocks index t = (if tenant_wanted win t then raw_blocks win (Cs t) (shards_of m t) else [])" for t
  proof (cases "t \<in> set (manifest_tenants m)")
    case False
    then have "shards_of m t = []" by (simp add: shards_of_def manifest_tenants_def map_of_eq_None_iff [symmetric])
    moreover have "trace_blocks index t = []" using fold(2) False by (simp add: trace_blocks_def)
    ultimately show ?thesis by (simp add: raw_blocks_def)
  qed (use fold(2) in simp)
  then show ?thesis using fold by auto
qed

lemma from_manifest_ok:
  assumes law: "reliable_store client view" and key: "normal_key key" and bt: "bt_ok (sm_tenants m)"
    and holds: "\<forall>t. tenant_holds client view key max_bytes m s t (Cs t)"
  shows "\<exists>index. from_manifest client hasher key m win max_bytes s = Inr index
    \<and> (\<forall>t. contents_of index t = wanted win t (Cs t) \<and> distinct (map ts_object_key (trace_blocks index t)))
    \<and> tx_pending_removals index = [] \<and> tx_pending_additions index = []"
proof -
  obtain reads index where read: "read_shards client key m win max_bytes note_load trace_index_new s = Inr (reads, index)"
      "\<forall>t. trace_blocks index t = (if tenant_wanted win t then raw_blocks win (Cs t) (shards_of m t) else [])"
      "tx_pending_removals index = []" "tx_pending_additions index = []"
    using read_shards_ok [OF law key bt holds, of win] by blast
  have load: "note_load = (\<lambda>tenant object_key bytes index. map_sum Bad_shard (\<lambda>i. i) (load_shard tenant object_key bytes index))"
    by (simp add: fun_eq_iff note_load_def)
  have "from_manifest client hasher key m win max_bytes s = Inr (finish_load hasher index)"
    using read(1) by (simp add: from_manifest_def load [symmetric])
  moreover have "contents_of (finish_load hasher index) t = wanted win t (Cs t)
      \<and> distinct (map ts_object_key (trace_blocks (finish_load hasher index) t))" for t
  proof -
    have ok: "contents_ok t (Cs t)" using holds by (simp add: tenant_holds_def)
    have "set (trace_blocks index t) = ran (wanted win t (Cs t))"
    proof (cases "tenant_wanted win t")
      case True
      then show ?thesis using set_raw_blocks [OF spec [OF holds, of t] True] read(2) by simp
    next
      case False
      then show ?thesis using read(2) by (simp add: wanted_def restrict_map_def)
    qed
    from finish_agreeing [OF wanted_ok [OF ok] this, of hasher]
    show ?thesis unfolding contents_of_def finished_blocks by blast
  qed
  ultimately show ?thesis using read(3,4) by (intro exI [of _ "finish_load hasher index"]) (simp add: finish_load_def)
qed

end
