(* ===== verification/Generations_Spec.thy ===== *)
theory Generations_Spec
  imports Snapshot_Store_Spec
begin

text \<open>
  How the generations of a snapshot advance: what pruning and sweeping leave in place, what a conditional
  create of the next generation does, a whole publication, and what becomes of a writer that read its
  base before other writers published.
\<close>

section \<open>The newest generations\<close>

definition newest :: "nat \<Rightarrow> nat set \<Rightarrow> nat set" where
  "newest retain G = {g \<in> G. card {h \<in> G. g < h} < retain}"

lemma newest_iff: "g \<in> newest retain G \<longleftrightarrow> g \<in> G \<and> card {h \<in> G. g < h} < retain"
  by (simp add: newest_def)

lemma newest_small:
  assumes "finite G" and "card G \<le> retain"
  shows "newest retain G = G"
proof -
  have "card {h \<in> G. g < h} < card G" if "g \<in> G" for g
    using that assms(1) by (intro psubset_card_mono) auto
  then show ?thesis using assms(2) by (fastforce simp: newest_def)
qed

lemma newest_insert_least:
  assumes "finite G" and "\<forall>g \<in> G. x < g" and "retain \<le> card G"
  shows "newest retain (insert x G) = newest retain G"
proof -
  have least: "{h \<in> insert x G. x < h} = G" using assms(2) by blast
  have other: "{h \<in> insert x G. g < h} = {h \<in> G. g < h}" if "g \<in> G" for g
    using assms(2) that less_asym [of x g] by blast
  have "x \<notin> newest retain (insert x G)" using assms(3) unfolding newest_iff least by simp
  moreover have "x \<notin> G" using assms(2) by blast
  ultimately show ?thesis unfolding set_eq_iff newest_iff using other by (metis insert_iff)
qed

lemma drop_newest: "sorted_wrt (<) gs \<Longrightarrow> set gs - set (take (length gs - retain) gs) = newest retain (set gs)"
proof (induction gs)
  case (Cons x gs)
  have card: "card (set gs) = length gs" and card': "card (set (x # gs)) = Suc (length gs)"
    using Cons.prems by (auto simp: strict_sorted_iff distinct_card)
  show ?case
  proof (cases "retain \<le> length gs")
    case True
    have "set (x # gs) - set (take (length (x # gs) - retain) (x # gs)) = set gs - set (take (length gs - retain) gs)"
      using True Cons.prems by (auto simp: Suc_diff_le)
    also have "\<dots> = newest retain (set (x # gs))"
      using Cons newest_insert_least [of "set gs" x retain] True card by simp
    finally show ?thesis .
  next
    case False
    then show ?thesis using newest_small [of "set (x # gs)" retain] card' by simp
  qed
qed (simp add: newest_def)

lemma kept_generations: "generations view key s - stale_generations view key retain s = newest retain (generations view key s)"
  using drop_newest [of "sorted_list_of_set (generations view key s)" retain] finite_generations [of view key s]
  by (simp add: stale_generations_def)

section \<open>What pruning and sweeping keep\<close>

definition keeps_published ::
  "('s, 'z) object_client_scheme \<Rightarrow> 's object_view \<Rightarrow> string \<Rightarrow> nat \<Rightarrow> 's \<Rightarrow> 's \<Rightarrow> bool" where
  "keeps_published client view key max_bytes s s' \<longleftrightarrow>
     only_generations view key s' \<and> manifests_readable client view key max_bytes s'
     \<and> generations view key s' \<subseteq> generations view key s
     \<and> (\<forall>g \<in> generations view key s'. \<forall>m. stored_manifest client view key max_bytes s g m
          \<longrightarrow> stored_manifest client view key max_bytes s' g m \<and> (\<forall>p \<in> set (payload_object_keys key m). view s' p = view s p))"

lemma keeps_published_trans:
  assumes "keeps_published client view key max_bytes s s1" and "keeps_published client view key max_bytes s1 s2"
  shows "keeps_published client view key max_bytes s s2"
  using assms unfolding keeps_published_def by (metis subsetD subset_trans)

lemma payload_keys_under: "p \<in> set (payload_object_keys key m) \<Longrightarrow> under_prefix (shard_payload_prefix_for_key key) p"
  using payload_under by (auto simp: payload_object_keys_def)

lemma prune_keeps:
  assumes law: "reliable_store client view" and key: "normal_key key" and clean: "only_generations view key s"
    and read: "manifests_readable client view key max_bytes s"
  shows "\<exists>s'. prune_old_index_snapshots client key retain s = (Inr (), s') \<and> keeps_published client view key max_bytes s s'
    \<and> generations view key s' = newest retain (generations view key s)"
proof -
  let ?stale = "stale_generations view key retain s" and ?key = "snapshot_key_for_generation key"
  obtain s1 where prune: "prune_old_index_snapshots client key retain s = (Inr (), s1)"
      "view s1 = (\<lambda>p. if p \<in> ?key ` ?stale then None else view s p)"
    using prune_ok [OF law key clean] by blast
  have small: "g \<le> usize_max" if "g \<in> ?stale" for g
    using that finite_generations [of view key s] by (auto simp: stale_generations_def generations_def dest!: in_set_takeD)
  have kept: "?key g \<notin> ?key ` ?stale" if "g \<le> usize_max" "g \<notin> ?stale" for g
    using snapshot_key_inj [OF that(1) small] that(2) by blast
  have gens: "generations view key s1 = generations view key s - ?stale"
    using kept small by (auto simp: generations_def prune(2))
  have clean1: "only_generations view key s1"
    using clean by (auto simp: only_generations_def prune(2) dom_def split: if_splits)
  have same1: "view s1 (?key g) = view s (?key g)" if "g \<in> generations view key s1" for g
    using that kept [of g] unfolding gens by (simp add: prune(2) generations_def)
  have read1: "manifests_readable client view key max_bytes s1"
    using read same1 stored_manifest_cong [of view s1 key _ s] gens unfolding manifests_readable_def by blast
  have payload1: "view s1 p = view s p" if "p \<in> set (payload_object_keys key m)" for p m
  proof -
    have "p \<notin> ?key ` ?stale" using prefixes_apart [of key p] snapshot_under [of key] payload_keys_under [OF that] by blast
    then show ?thesis by (simp add: prune(2))
  qed
  have "keeps_published client view key max_bytes s s1"
    unfolding keeps_published_def using clean1 read1 gens payload1 same1 by (auto simp: stored_manifest_def)
  then show ?thesis using prune(1) gens kept_generations [of view key s retain] by blast
qed

lemma sweep_keeps:
  assumes law: "reliable_store client view" and key: "normal_key key" and clean: "only_generations view key s"
    and read: "manifests_readable client view key max_bytes s"
  shows "\<exists>n s'. sweep_orphan_shard_payloads client key max_bytes label grace s = (Inr n, s')
    \<and> keeps_published client view key max_bytes s s' \<and> generations view key s' = generations view key s"
proof -
  let ?key = "snapshot_key_for_generation key"
  obtain n s2 where sweep: "sweep_orphan_shard_payloads client key max_bytes label grace s = (Inr n, s2)"
      "\<forall>p. \<not> under_prefix (shard_payload_prefix_for_key key) p \<longrightarrow> view s2 p = view s p"
      "\<forall>g \<in> generations view key s. \<forall>m. stored_manifest client view key max_bytes s g m
          \<longrightarrow> (\<forall>p \<in> set (payload_object_keys key m). view s2 p = view s p)"
    using sweep_ok [OF law key clean read] by blast
  have under2: "view s2 p = view s p" if "under_prefix (index_snapshot_prefix_for_key key) p" for p
    using sweep(2) prefixes_apart [OF that] by blast
  have same2: "view s2 (?key g) = view s (?key g)" for g using under2 [OF snapshot_under] .
  have gens2: "generations view key s2 = generations view key s" by (simp add: generations_def same2)
  have "only_generations view key s2"
    using clean under2 unfolding only_generations_def dom_def by fastforce
  moreover have "manifests_readable client view key max_bytes s2"
    using read by (simp add: manifests_readable_def gens2 stored_manifest_def same2)
  ultimately have "keeps_published client view key max_bytes s s2"
    unfolding keeps_published_def using gens2 sweep(3) by (auto simp: stored_manifest_def same2)
  then show ?thesis using sweep(1) gens2 by blast
qed

lemma after_publication_ok:
  assumes law: "reliable_store client view" and key: "normal_key key" and clean: "only_generations view key s"
    and read: "manifests_readable client view key max_bytes s"
  shows "\<exists>s'. after_publication client key retain max_bytes label generation s = (Inr (snapshot_key_for_generation key generation), s')
    \<and> keeps_published client view key max_bytes s s' \<and> generations view key s' = newest retain (generations view key s)"
proof -
  obtain s1 where prune: "prune_old_index_snapshots client key retain s = (Inr (), s1)" "keeps_published client view key max_bytes s s1"
      "generations view key s1 = newest retain (generations view key s)"
    using prune_keeps [OF assms] by blast
  then have s1: "only_generations view key s1" "manifests_readable client view key max_bytes s1" by (simp_all add: keeps_published_def)
  have "\<exists>n s2. (if generation mod snapshot_sweep_interval = 0
        then sweep_orphan_shard_payloads client key max_bytes label shard_payload_sweep_grace else io_ok 0) s1 = (Inr n, s2)
      \<and> keeps_published client view key max_bytes s1 s2 \<and> generations view key s2 = generations view key s1"
    using sweep_keeps [OF law key s1, of label shard_payload_sweep_grace] s1
    by (cases "generation mod snapshot_sweep_interval = 0") (auto simp: io_ok_def keeps_published_def)
  then obtain n s2 where sweep: "(if generation mod snapshot_sweep_interval = 0
        then sweep_orphan_shard_payloads client key max_bytes label shard_payload_sweep_grace else io_ok 0) s1 = (Inr n, s2)"
      "keeps_published client view key max_bytes s1 s2" "generations view key s2 = generations view key s1" by blast
  have "after_publication client key retain max_bytes label generation s = (Inr (snapshot_key_for_generation key generation), s2)"
    by (simp only: after_publication_def io_bind_def prune(1) sweep(1) prod.case sum.case) (simp only: io_ok_def)
  then show ?thesis using keeps_published_trans [OF prune(2) sweep(2)] prune(3) sweep(3) by auto
qed

section \<open>Creating a generation\<close>

lemma create_generation:
  assumes law: "reliable_store client view" and json: "json_law client" and key: "normal_key key"
    and clean: "only_generations view key s" and read: "manifests_readable client view key max_bytes s"
    and fresh: "g \<le> usize_max" "g \<notin> generations view key s"
    and merge: "merge base s = (Inr m, s1)" "sm_version m = snapshot_manifest_version"
    and frame: "\<And>p. \<not> under_prefix (shard_payload_prefix_for_key key) p \<Longrightarrow> view s1 p = view s p"
    and fits: "\<And>bytes. oc_to_json client m = Inr bytes \<Longrightarrow> length bytes \<le> max_bytes"
    and time: "oc_timeout client attempt = In_time"
  shows "\<exists>s'. publication client key merge attempt \<lparr>mb_manifest = base, mb_next_generation = g\<rparr> s = (Inr (Inr ()), s')
    \<and> only_generations view key s' \<and> generations view key s' = insert g (generations view key s)
    \<and> manifests_readable client view key max_bytes s' \<and> stored_manifest client view key max_bytes s' g m
    \<and> (\<forall>h \<in> generations view key s. view s' (snapshot_key_for_generation key h) = view s (snapshot_key_for_generation key h))
    \<and> (\<forall>p. under_prefix (shard_payload_prefix_for_key key) p \<longrightarrow> view s' p = view s1 p)"
proof -
  let ?key = "snapshot_key_for_generation key" and ?G = "generations view key s"
  obtain bytes where bytes: "oc_to_json client m = Inr bytes" "oc_from_json client bytes = Inr m" "length bytes \<le> max_bytes"
    using json fits unfolding json_law_def by metis
  have under1: "view s1 p = view s p" if "under_prefix (index_snapshot_prefix_for_key key) p" for p
    using frame prefixes_apart [OF that] by blast
  have "view s1 (?key g) = None" using under1 [OF snapshot_under] fresh by (simp add: generations_def)
  then obtain s' where create: "oc_create client (?key g) bytes s1 = (Inr (), s')" "view s' = (view s1)(?key g \<mapsto> bytes)"
    using reliable_storeD(5) [OF law] by blast
  have path: "os_path client (?key g) = ?key g"
    using reliable_storeD(1) [OF law] snapshot_key_normal [of key g] key by (simp add: path_law_def normal_key_def)
  have pub: "publication client key merge attempt \<lparr>mb_manifest = base, mb_next_generation = g\<rparr> s = (Inr (Inr ()), s')"
    using merge(1) bytes(1) create(1) time
    by (simp add: publication_def io_bind_def io_read_def manifest_to_bytes_def path)
  have view': "view s' (?key h) = (if h = g then Some bytes else view s (?key h))" if "h \<le> usize_max" for h
    using snapshot_key_inj [OF that fresh(1), of key] under1 [OF snapshot_under] by (auto simp: create(2))
  have gens': "generations view key s' = insert g ?G" using view' fresh(1) by (auto simp: generations_def)
  have clean': "only_generations view key s'"
    using clean fresh(1) under1 unfolding only_generations_def create(2) by (fastforce simp: dom_def split: if_splits)
  have new: "stored_manifest client view key max_bytes s' g m"
    using bytes merge(2) view' [OF fresh(1)] by (simp add: stored_manifest_def)
  have old: "view s' (?key h) = view s (?key h)" if "h \<in> ?G" for h
    using that fresh(2) view' [of h] by (auto simp: generations_def)
  have "manifests_readable client view key max_bytes s'"
    using new read old stored_manifest_cong [of view s' key _ s] unfolding gens' manifests_readable_def by blast
  moreover have "view s' p = view s1 p" if "under_prefix (shard_payload_prefix_for_key key) p" for p
    using that prefixes_apart [OF snapshot_under] by (auto simp: create(2))
  ultimately show ?thesis using pub clean' gens' new old by blast
qed

lemma create_taken:
  assumes law: "reliable_store client view" and json: "json_law client" and key: "normal_key key"
    and taken: "g \<in> generations view key s" and merge: "merge base s = (Inr m, s1)"
    and frame: "\<And>p. \<not> under_prefix (shard_payload_prefix_for_key key) p \<Longrightarrow> view s1 p = view s p"
    and time: "oc_timeout client attempt = In_time"
  shows "publication client key merge attempt \<lparr>mb_manifest = base, mb_next_generation = g\<rparr> s = (Inr (Inl Store_already_exists), s1)"
proof -
  let ?key = "snapshot_key_for_generation key"
  obtain bytes where bytes: "oc_to_json client m = Inr bytes" using json unfolding json_law_def by metis
  have "view s1 (?key g) \<noteq> None"
    using frame [OF prefixes_apart [OF snapshot_under]] taken by (simp add: generations_def)
  then have create: "oc_create client (?key g) bytes s1 = (Inl Store_already_exists, s1)"
    by (rule reliable_storeD(6) [OF law])
  have path: "os_path client (?key g) = ?key g"
    using reliable_storeD(1) [OF law] snapshot_key_normal [of key g] key by (simp add: path_law_def normal_key_def)
  show ?thesis using merge bytes create time
    by (simp add: publication_def io_bind_def io_read_def manifest_to_bytes_def path)
qed

section \<open>A whole publication\<close>

lemma newest_top:
  assumes "1 \<le> retain" and "finite G" and "G \<noteq> {}"
  shows "Max G \<in> newest retain G" and "Max (newest retain G) = Max G"
proof -
  have none: "{h \<in> G. Max G < h} = {}" using Max_ge [OF assms(2)] by (auto simp: not_less)
  show top: "Max G \<in> newest retain G" using assms Max_in [OF assms(2,3)] unfolding newest_def mem_Collect_eq none by simp
  have "newest retain G \<subseteq> G" by (auto simp: newest_def)
  then show "Max (newest retain G) = Max G"
    using top Max_ge [OF assms(2)] finite_subset [OF _ assms(2)] by (intro Max_eqI) auto
qed

lemma put_manifest_ok:
  assumes law: "reliable_store client view" and json: "json_law client" and key: "normal_key key"
    and clean: "only_generations view key s" and retain: "1 \<le> retain"
    and read: "manifests_readable client view key max_bytes s"
    and base: "published_base client view key max_bytes s base"
    and merge: "merge base s = (Inr m, s1)" "sm_version m = snapshot_manifest_version"
    and frame: "\<And>p. \<not> under_prefix (shard_payload_prefix_for_key key) p \<Longrightarrow> view s1 p = view s p"
    and fits: "\<And>bytes. oc_to_json client m = Inr bytes \<Longrightarrow> length bytes \<le> max_bytes"
    and time: "oc_timeout client 1 = In_time"
  shows "\<exists>s2. put_manifest_snapshot client key retain max_bytes label merge s
        = (Inr (snapshot_key_for_generation key (next_generation view key s)), s2)
    \<and> only_generations view key s2 \<and> manifests_readable client view key max_bytes s2
    \<and> generations view key s2 = newest retain (insert (next_generation view key s) (generations view key s))
    \<and> Max (generations view key s2) = next_generation view key s \<and> generations view key s2 \<noteq> {}
    \<and> stored_manifest client view key max_bytes s2 (next_generation view key s) m
    \<and> (\<forall>p \<in> set (payload_object_keys key m). view s2 p = view s1 p)"
proof -
  let ?g = "next_generation view key s"
  note fresh = next_generation_fresh [OF base]
  obtain s' where pub: "publication client key merge 1 \<lparr>mb_manifest = base, mb_next_generation = ?g\<rparr> s = (Inr (Inr ()), s')"
      "only_generations view key s'" "generations view key s' = insert ?g (generations view key s)"
      "manifests_readable client view key max_bytes s'" "stored_manifest client view key max_bytes s' ?g m"
      "\<forall>p. under_prefix (shard_payload_prefix_for_key key) p \<longrightarrow> view s' p = view s1 p"
    using create_generation [where merge = merge, OF law json key clean read fresh(1,2) merge frame fits time] by blast
  have put: "put_manifest_snapshot client key retain max_bytes label merge s = after_publication client key retain max_bytes label ?g s'"
    using read_base_ok [OF law key clean base, of label] pub(1)
    by (simp add: put_manifest_snapshot_def max_snapshot_write_attempts_def upt_conv_Cons io_bind_def io_read_def)
  obtain s2 where s2: "after_publication client key retain max_bytes label ?g s' = (Inr (snapshot_key_for_generation key ?g), s2)"
      "keeps_published client view key max_bytes s' s2" "generations view key s2 = newest retain (generations view key s')"
    using after_publication_ok [OF law key pub(2,4)] by blast
  have max: "Max (generations view key s') = ?g"
    using fresh(3) finite_generations [of view key s'] unfolding pub(3) by (intro Max_eqI) (auto intro: less_imp_le)
  have top: "?g \<in> generations view key s2" "Max (generations view key s2) = ?g"
    using newest_top [OF retain finite_generations, of view key s'] max unfolding s2(3) by (auto simp: pub(3))
  have "stored_manifest client view key max_bytes s2 ?g m \<and> (\<forall>p \<in> set (payload_object_keys key m). view s2 p = view s' p)"
    using s2(2) top(1) pub(5) unfolding keeps_published_def by blast
  moreover have "view s' p = view s1 p" if "p \<in> set (payload_object_keys key m)" for p
    using pub(6) payload_keys_under [OF that] by blast
  ultimately show ?thesis using put s2 top pub(3) unfolding keeps_published_def by auto
qed

section \<open>Writers that publish in between\<close>

text \<open>
  \<open>others_published view key retain n s s'\<close>: from \<open>s\<close> to \<open>s'\<close> other writers completed \<open>n\<close> publications,
  each claiming the next generation and keeping the newest \<open>retain\<close>.
\<close>

inductive others_published :: "'s object_view \<Rightarrow> string \<Rightarrow> nat \<Rightarrow> nat \<Rightarrow> 's \<Rightarrow> 's \<Rightarrow> bool" for view key retain where
  none: "others_published view key retain 0 s s"
| one: "others_published view key retain n s s1
    \<Longrightarrow> generations view key s2 = newest retain (insert (next_generation view key s1) (generations view key s1))
    \<Longrightarrow> others_published view key retain (Suc n) s s2"

text \<open>The generations from the base on that are still there after \<open>n\<close> publications, and those before it.\<close>

definition chain_ok :: "nat \<Rightarrow> nat \<Rightarrow> nat \<Rightarrow> nat set \<Rightarrow> bool" where
  "chain_ok retain g n G \<longleftrightarrow> finite G
     \<and> (\<forall>h. g \<le> h \<longrightarrow> (h \<in> G \<longleftrightarrow> h < g + n \<and> g + n \<le> h + retain))
     \<and> (\<forall>h \<in> G. h < g + n) \<and> (retain \<le> n \<longrightarrow> (\<forall>h \<in> G. g \<le> h))"

lemma chain_start:
  assumes "finite G" and "\<forall>h \<in> G. h < g" and "1 \<le> retain"
  shows "chain_ok retain g 0 G"
  using assms unfolding chain_ok_def by (auto simp: not_less [symmetric])

lemma chain_step:
  assumes ok: "chain_ok retain g n G" and retain: "1 \<le> retain"
  shows "chain_ok retain g (Suc n) (newest retain (insert (g + n) G))"
proof -
  let ?G = "insert (g + n) G"
  have fin: "finite ?G" and below: "\<forall>h \<in> G. h < g + n"
    and mem: "\<And>h. g \<le> h \<Longrightarrow> h \<in> G \<longleftrightarrow> h < g + n \<and> g + n \<le> h + retain"
    and old: "retain \<le> n \<Longrightarrow> \<forall>h \<in> G. g \<le> h"
    using ok by (auto simp: chain_ok_def)
  have above: "{x \<in> ?G. h < x} = {Suc h..g + n}" if "g \<le> h" "h \<in> ?G" for h
  proof (intro equalityI subsetI)
    fix x assume "x \<in> {Suc h..g + n}"
    moreover have "g + n \<le> h + retain" using that mem retain by (cases "h = g + n") auto
    ultimately show "x \<in> {x \<in> ?G. h < x}" using mem [of x] that by (cases "x = g + n") auto
  qed (use below in \<open>auto intro: less_imp_le\<close>)
  have "h \<in> newest retain ?G \<longleftrightarrow> h < g + Suc n \<and> g + Suc n \<le> h + retain" if "g \<le> h" for h
  proof (cases "h \<in> ?G")
    case True
    then have "card {x \<in> ?G. h < x} = g + n - h" using above [OF that] by simp
    then have "h \<in> newest retain ?G \<longleftrightarrow> g + n - h < retain" using True unfolding newest_iff by metis
    moreover have "h \<le> g + n" using True below by (auto intro: less_imp_le)
    ultimately show ?thesis by linarith
  next
    case False
    then have "h \<notin> newest retain ?G" unfolding newest_def by blast
    moreover have "h \<noteq> g + n" "h \<notin> G" using False by blast+
    ultimately show ?thesis using mem [OF that] by linarith
  qed
  moreover have "g \<le> h" if "retain \<le> Suc n" "h \<in> newest retain ?G" for h
  proof (rule ccontr)
    assume h: "\<not> g \<le> h"
    with that old have "retain = Suc n" by (cases "retain \<le> n") (auto simp: newest_def)
    then have "{g..g + n} \<subseteq> {x \<in> ?G. h < x}" using mem h by fastforce
    from card_mono [OF _ this] fin have "Suc n \<le> card {x \<in> ?G. h < x}" by simp
    with that \<open>retain = Suc n\<close> show False by (simp add: newest_def)
  qed
  moreover have "finite (newest retain ?G)" and "\<forall>h \<in> newest retain ?G. h < g + Suc n"
    using fin below by (auto simp: newest_def intro: less_SucI)
  ultimately show ?thesis unfolding chain_ok_def by blast
qed

lemma chain_next:
  assumes "chain_ok retain g n G" and "1 \<le> retain" and "0 < n"
  shows "G \<noteq> {}" and "Max G + 1 = g + n"
proof -
  have top: "g + n - 1 \<in> G" using assms by (auto simp: chain_ok_def)
  then show "G \<noteq> {}" by blast
  have "Max G = g + n - 1" using assms top by (intro Max_eqI) (auto simp: chain_ok_def)
  then show "Max G + 1 = g + n" using assms(3) by simp
qed

lemma others_chain:
  assumes "others_published view key retain n s s'" and "1 \<le> retain"
  shows "chain_ok retain (next_generation view key s) n (generations view key s')"
    and "next_generation view key s' = next_generation view key s + n"
proof -
  have "chain_ok retain (next_generation view key s) n (generations view key s')
    \<and> next_generation view key s' = next_generation view key s + n"
    using assms
  proof (induction rule: others_published.induct)
    case (none s)
    have "\<forall>g \<in> generations view key s. g < next_generation view key s"
      using Max_ge [OF finite_generations, of _ view key s] by (auto simp: next_generation_def less_Suc_eq_le)
    then show ?case using none by (intro conjI chain_start finite_generations) simp_all
  next
    case (one n s s1 s2)
    then have ok: "chain_ok retain (next_generation view key s) (Suc n) (generations view key s2)"
      using chain_step [of retain "next_generation view key s" n "generations view key s1"] by simp
    then show ?case using chain_next [OF ok one.prems] unfolding next_generation_def [of view key s2] by simp
  qed
  then show "chain_ok retain (next_generation view key s) n (generations view key s')"
    and "next_generation view key s' = next_generation view key s + n" by blast+
qed

text \<open>Whether the generation a writer claims is taken after \<open>n\<close> publications by others.\<close>

lemma claim_taken:
  assumes "others_published view key retain n s s'" and "1 \<le> retain"
  shows "next_generation view key s \<in> generations view key s' \<longleftrightarrow> 0 < n \<and> n \<le> retain"
  using others_chain(1) [OF assms] by (auto simp: chain_ok_def)

text \<open>A claim below a full set of newer generations is pruned at once.\<close>

lemma late_claim_pruned:
  assumes "others_published view key retain n s s'" and "1 \<le> retain" and "retain < n"
  shows "newest retain (insert (next_generation view key s) (generations view key s')) = generations view key s'"
proof -
  let ?g = "next_generation view key s" and ?G = "generations view key s'"
  have ok: "chain_ok retain ?g n ?G" by (rule others_chain(1) [OF assms(1,2)])
  have G: "?G = {?g + n - retain..<?g + n}"
    using ok assms(3) unfolding chain_ok_def by (force simp: le_diff_conv)
  then have card: "card ?G = retain" using assms(3) by simp
  moreover have "\<forall>h \<in> ?G. ?g < h" using assms(3) unfolding G by auto
  ultimately have "newest retain (insert ?g ?G) = newest retain ?G" using G by (intro newest_insert_least) auto
  then show ?thesis using newest_small [of ?G retain] finite_generations [of view key s'] card by simp
qed

end
