(* ===== verification/Publication_Spec.thy ===== *)
theory Publication_Spec
  imports Trace_Snapshot_Spec Generations_Spec
begin

text \<open>
  Saving and loading the trace index as a whole: a save replaces the published contents by the
  contents with the writer's removals and contributions applied, a load returns them, a windowed load
  returns what meets the window, and a removal of a block that was never published makes every save fail.
\<close>

section \<open>What is published\<close>

definition base_manifest :: "snapshot_manifest option \<Rightarrow> snapshot_manifest" where
  "base_manifest base = (case base of None \<Rightarrow> manifest_default | Some m \<Rightarrow> m)"

definition index_published ::
  "'s object_client \<Rightarrow> 's object_view \<Rightarrow> string \<Rightarrow> nat \<Rightarrow> 's \<Rightarrow> snapshot_manifest option \<Rightarrow> (string \<Rightarrow> contents) \<Rightarrow> bool" where
  "index_published client view key max_bytes s base Cs \<longleftrightarrow>
     only_generations view key s \<and> manifests_readable client view key max_bytes s
     \<and> published_base client view key max_bytes s base \<and> bt_ok (sm_tenants (base_manifest base))
     \<and> (\<forall>t. tenant_holds client view key max_bytes (base_manifest base) s t (Cs t))"

lemma published_ok: "index_published client view key max_bytes s base Cs \<Longrightarrow> contents_ok t (Cs t)"
  by (auto simp: index_published_def tenant_holds_def)

lemma save_merge_base: "tm_base (save_merge client key max_bytes index base t) = base_manifest base"
  by (simp add: save_merge_def base_manifest_def)

lemma commit_own_removals:
  assumes "removals_ok guard"
  shows "removals_commit guard guard = []"
proof -
  have ok: "removals_ok (removals_commit guard guard)" and none: "pinned (removals_commit guard guard) t k = None" for t k
    using removals_commit_ok [OF assms removals_ok_distinct [OF assms]] by (simp_all add: unless_applied_def)
  show ?thesis
  proof (rule ccontr)
    assume "removals_commit guard guard \<noteq> []"
    then obtain t pending rest where cons: "removals_commit guard guard = (t, pending) # rest"
      by (cases "removals_commit guard guard") auto
    then have "bt_ok pending" "pending \<noteq> []" using ok unfolding removals_ok_def by (metis map_of_Cons_code(2))+
    then obtain k p where "bt_get pending k = Some p" by (cases pending) (metis neq_Nil_conv prod.exhaust map_of_Cons_code(2))+
    then show False using none [of t k] by (simp add: pinned_def cons)
  qed
qed

lemma commit_own_additions: "additions_commit keys keys = []"
proof -
  have "set (fold bs_remove xs ys) = set ys - set xs" for xs ys :: "string list"
    by (induction xs arbitrary: ys) (auto simp: bs_remove_def)
  then show ?thesis by (simp add: additions_commit_def flip: set_empty)
qed

section \<open>Saving\<close>

text \<open>The conditions on the writer: its tenants merge, the manifest fits the cap, and the attempt is in time.\<close>

definition save_accepted ::
  "'s object_client \<Rightarrow> record_hasher \<Rightarrow> string \<Rightarrow> nat \<Rightarrow> trace_index \<Rightarrow> 's \<Rightarrow> snapshot_manifest option \<Rightarrow> (string \<Rightarrow> contents) \<Rightarrow> bool" where
  "save_accepted client hasher key max_bytes index s base Cs \<longleftrightarrow>
     (\<forall>t. save_fits hasher index (save_merge client key max_bytes index base t) (Cs t))
     \<and> (\<forall>m s' bytes. merged_manifest client hasher key (tx_pending_removals index) (tx_pending_additions index) max_bytes index base s = (Inr m, s')
          \<longrightarrow> oc_to_json client m = Inr bytes \<longrightarrow> length bytes \<le> max_bytes)
     \<and> oc_timeout client 1 = In_time"

definition after_save :: "'s object_client \<Rightarrow> string \<Rightarrow> nat \<Rightarrow> trace_index \<Rightarrow> snapshot_manifest option \<Rightarrow> (string \<Rightarrow> contents) \<Rightarrow> string \<Rightarrow> contents" where
  "after_save client key max_bytes index base Cs t = saved_contents index (save_merge client key max_bytes index base t) (Cs t)"

lemma payloads_kept:
  assumes holds: "tenant_holds client view key max_bytes m s1 t C"
    and kept: "\<forall>p \<in> set (payload_object_keys key m). view s2 p = view s1 p"
  shows "tenant_holds client view key max_bytes m s2 t C"
proof (rule tenant_holds_frame [OF holds refl])
  fix r assume "scatter C r \<noteq> {}"
  then obtain sh where sh: "sh \<in> set (shards_of m t)" "ms_range sh = r" "ms_content sh = shard_payload_content_hash client (payload_of t C r)"
    using holds unfolding tenant_holds_def by force
  then have "t \<in> set (manifest_tenants m)"
    by (cases "bt_get (sm_tenants m) t") (force simp: shards_of_def manifest_tenants_def dest: map_of_SomeD)+
  then have "payload_at client key t C r \<in> set (payload_object_keys key m)"
    using sh by (force simp: payload_object_keys_def payload_at_def)
  then show "view s2 (payload_at client key t C r) = view s1 (payload_at client key t C r)" using kept by blast
qed

lemma save_ok:
  assumes law: "reliable_store client view" and json: "json_law client" and key: "normal_key key" and retain: "1 \<le> retain"
    and pub: "index_published client view key max_bytes s base Cs" and acc: "save_accepted client hasher key max_bytes index s base Cs"
    and rem: "removals_ok (tx_pending_removals index)" and last_gen: "next_generation view key s < usize_max"
  shows "\<exists>m s'. save_latest_snapshot client hasher key retain max_bytes index s
        = (Inr (snapshot_key_for_generation key (next_generation view key s),
                index\<lparr>tx_pending_removals := [], tx_pending_additions := []\<rparr>), s')
    \<and> index_published client view key max_bytes s' (Some m) (after_save client key max_bytes index base Cs)"
proof -
  let ?merge = "merged_manifest client hasher key (tx_pending_removals index) (tx_pending_additions index) max_bytes index"
  have facts: "only_generations view key s" "manifests_readable client view key max_bytes s"
      "published_base client view key max_bytes s base"
      "\<forall>t. tenant_holds client view key max_bytes (base_manifest base) s t (Cs t)"
    using pub by (simp_all add: index_published_def)
  obtain m s1 where merged: "?merge base s = (Inr m, s1)" "sm_version m = snapshot_manifest_version" "bt_ok (sm_tenants m)"
      "\<forall>t. tenant_holds client view key max_bytes m s1 t (after_save client key max_bytes index base Cs t)"
      "\<forall>p. \<not> under_prefix (shard_payload_prefix_for_key key) p \<longrightarrow> view s1 p = view s p"
    using merged_manifest_ok [OF law key refl, of max_bytes index base s Cs hasher] facts(4) acc
    unfolding save_merge_base save_accepted_def after_save_def by blast
  have timely: "oc_timeout client 1 = In_time" using acc by (simp add: save_accepted_def)
  have fits: "length bytes \<le> max_bytes" if "oc_to_json client m = Inr bytes" for bytes
    using acc merged(1) that unfolding save_accepted_def by blast
  obtain s2 where put: "put_manifest_snapshot client key retain max_bytes trace_snapshot_label ?merge s
        = (Inr (snapshot_key_for_generation key (next_generation view key s)), s2)"
      "only_generations view key s2" "manifests_readable client view key max_bytes s2"
      "Max (generations view key s2) = next_generation view key s" "generations view key s2 \<noteq> {}"
      "stored_manifest client view key max_bytes s2 (next_generation view key s) m"
      "\<forall>p \<in> set (payload_object_keys key m). view s2 p = view s1 p"
    using put_manifest_ok [where merge = ?merge, OF law json key facts(1) retain facts(2,3) merged(1,2) merged(5) [rule_format] fits timely]
    by blast
  have save: "save_latest_snapshot client hasher key retain max_bytes index s
      = (Inr (snapshot_key_for_generation key (next_generation view key s),
                index\<lparr>tx_pending_removals := [], tx_pending_additions := []\<rparr>), s2)"
    using put(1) commit_own_removals [OF rem] commit_own_additions
    by (simp add: save_latest_snapshot_def Let_def io_bind_def io_ok_def)
  have holds: "tenant_holds client view key max_bytes m s2 t (after_save client key max_bytes index base Cs t)" for t
    using payloads_kept [OF merged(4) [rule_format] put(7)] .
  have "published_base client view key max_bytes s2 (Some m)"
    using put(4,5,6) last_gen by (auto simp: published_base_def)
  then show ?thesis using save put(2,3) merged(3) holds
    by (intro exI [of _ m] exI [of _ s2]) (simp add: index_published_def base_manifest_def)
qed

section \<open>What a save leaves alone\<close>

definition io_keeps :: "'s object_view \<Rightarrow> (string \<Rightarrow> bool) \<Rightarrow> ('s, 'e, 'a) io \<Rightarrow> bool" where
  "io_keeps view P f \<longleftrightarrow> (\<forall>s p. P p \<longrightarrow> view (snd (f s)) p = view s p)"

lemma io_keeps_simps [simp]: "io_keeps view P (io_ok a)" "io_keeps view P (io_read g)" "io_keeps view P (\<lambda>s. (Inl e, s))"
  by (auto simp: io_keeps_def io_ok_def io_read_def)

lemma io_keeps_bind:
  assumes "io_keeps view P f" and "\<And>a. io_keeps view P (g a)"
  shows "io_keeps view P (io_bind f g)"
  using assms unfolding io_keeps_def io_bind_def by (auto split: prod.splits sum.splits) (metis snd_conv)+

lemma io_keeps_fold:
  assumes "\<And>x acc. io_keeps view P (f x acc)"
  shows "io_keeps view P (io_fold f xs acc)"
proof (induction xs arbitrary: acc)
  case (Cons x xs)
  have step: "io_fold f (x # xs) acc = io_bind (f x acc) (io_fold f xs)" by (simp add: fun_eq_iff)
  show ?case unfolding step by (rule io_keeps_bind [OF assms Cons.IH])
qed (simp add: io_keeps_def)

text \<open>Merging a tenant writes payloads of that tenant and nothing else, whatever it returns.\<close>

definition foreign_path :: "string \<Rightarrow> string \<Rightarrow> string \<Rightarrow> bool" where
  "foreign_path key tenant p \<longleftrightarrow> (\<forall>r c. p \<noteq> shard_payload_object_key key tenant r c)"

lemma publish_shard_keeps:
  assumes law: "reliable_store (tm_client tm) view" and key: "normal_key (tm_key tm)"
  shows "io_keeps view (foreign_path (tm_key tm) (tm_tenant tm)) (publish_shard tm span bytes mp)"
proof -
  have "io_keeps view (foreign_path (tm_key tm) (tm_tenant tm))
      (put_shard_payload (tm_client tm) (tm_key tm) (tm_tenant tm) span (shard_payload_content_hash (tm_client tm) bytes) bytes)"
    unfolding io_keeps_def
  proof (intro allI impI)
    fix s p assume p: "foreign_path (tm_key tm) (tm_tenant tm) p"
    let ?k = "shard_payload_object_key (tm_key tm) (tm_tenant tm) span (shard_payload_content_hash (tm_client tm) bytes)"
    have path: "os_path (tm_client tm) ?k = ?k"
      using reliable_storeD(1) [OF law] payload_key_normal key
      by (simp add: path_law_def normal_key_def shard_payload_content_hash_def)
    obtain s' where "oc_put (tm_client tm) ?k bytes s = (Inr (), s')" "view s' = (view s)(?k \<mapsto> bytes)"
      using reliable_storeD(4) [OF law] by blast
    then show "view (snd (put_shard_payload (tm_client tm) (tm_key tm) (tm_tenant tm) span
        (shard_payload_content_hash (tm_client tm) bytes) bytes s)) p = view s p"
      using p by (auto simp: put_shard_payload_def store_io_def path foreign_path_def)
  qed
  then show ?thesis unfolding publish_shard_def Let_def by (intro io_keeps_bind) (simp_all split: if_splits)
qed

lemma merge_tenant_keeps:
  assumes "reliable_store (tm_client tm) view" and "normal_key (tm_key tm)"
  shows "io_keeps view (foreign_path (tm_key tm) (tm_tenant tm)) (merge_tenant_shards hasher index tm mp)"
proof -
  have "io_keeps view (foreign_path (tm_key tm) (tm_tenant tm)) (publish_records tm entry mp)" for entry mp
    using publish_shard_keeps [OF assms] by (auto simp: publish_records_def split: prod.splits option.splits)
  then show ?thesis
    unfolding merge_tenant_shards_def Let_def
    by (intro io_keeps_bind io_keeps_simps) (auto intro!: io_keeps_bind io_keeps_fold split: prod.splits)
qed

lemma payload_tenant_inj:
  assumes "shard_payload_object_key key t r c = shard_payload_object_key key t' r' c'"
  shows "t = t'"
proof -
  have "escape_object_path_segment t @ CHR ''/'' # (''time='' @ shard_bound_key (ir_start r) @ CHR ''-'' # shard_bound_key (ir_end r) @ CHR ''/'' # c @ ''.kbs'')
      = escape_object_path_segment t' @ CHR ''/'' # (''time='' @ shard_bound_key (ir_start r') @ CHR ''-'' # shard_bound_key (ir_end r') @ CHR ''/'' # c' @ ''.kbs'')"
    using assms by (simp add: shard_payload_object_key_def)
  then show ?thesis unfolding append_sep_eq [OF escape_no_slash escape_no_slash] using escape_inj by blast
qed

section \<open>A removal of a block that was never published\<close>

lemma merge_tenant_rejects:
  assumes law: "reliable_store (tm_client tm) view" and key: "normal_key (tm_key tm)"
    and holds: "tenant_holds (tm_client tm) view (tm_key tm) (tm_max_bytes tm) (tm_base tm) s (tm_tenant tm) C"
    and k: "k \<in> set (bt_keys (removed_blocks tm))" and absent: "C k = None"
  shows "\<exists>k'. merge_tenant_shards hasher index tm mp s = (Inl (Input_changed k'), s)"
proof -
  let ?T = "touched_by index tm"
  obtain carried records fetched where read: "read_touched tm ?T note_trace_shard [] (mp_fetched mp) s = Inr (carried, records, fetched)"
      "bt_ok records" "\<forall>r. bt_get records r = (if scatter C r \<noteq> {} \<and> touches ?T r then Some (shard_list C r) else None)"
    using read_touched_ok [OF law key holds, of ?T "mp_fetched mp"] by blast
  have ok: "contents_ok (tm_tenant tm) C" using holds by (simp add: tenant_holds_def)
  note tracks = read_tracks [OF ok read(2,3)]
  obtain removal where mem: "(k, removal) \<in> set (removed_blocks tm)" using k by auto
  have "\<not> removal_unchanged hasher records (k, removal)"
    using removal_unchanged_iff [OF ok tracks, of k hasher removal] absent by simp
  then obtain k' removal' where "find (\<lambda>e. \<not> removal_unchanged hasher records e) (removed_blocks tm) = Some (k', removal')"
    using mem by (cases "find (\<lambda>e. \<not> removal_unchanged hasher records e) (removed_blocks tm)") (auto simp: find_None_iff)
  then have "check_removals hasher records (removed_blocks tm) = Inl (Input_changed k')" by (simp add: check_removals_def)
  then show ?thesis using read(1)
    by (simp add: merge_tenant_shards_def Let_def io_bind_def io_read_def removed_blocks_def [symmetric]
        contributed_blocks_def [symmetric] touched_by_def [symmetric])
qed

lemma io_fold_fails:
  assumes "\<And>acc s. P s \<Longrightarrow> \<exists>e s'. f x acc s = (Inl e, s')"
    and "\<And>y acc s. y \<noteq> x \<Longrightarrow> P s \<Longrightarrow> P (snd (f y acc s))" and "x \<in> set xs" and "P s"
  shows "\<exists>e s'. io_fold f xs acc s = (Inl e, s')"
  using assms(3,4)
proof (induction xs arbitrary: acc s)
  case (Cons y xs)
  show ?case
  proof (cases "y = x")
    case True
    then show ?thesis using assms(1) [OF Cons.prems(2), of acc] by (auto simp: io_bind_def)
  next
    case False
    then show ?thesis using Cons assms(2) [OF False Cons.prems(2), of acc]
      by (cases "f y acc s"; cases "fst (f y acc s)") (auto simp: io_bind_def)
  qed
qed simp

lemma tenant_holds_foreign:
  assumes "tenant_holds client view key max_bytes m s t C" and "\<And>p. foreign_path key t' p \<Longrightarrow> view s' p = view s p" and "t' \<noteq> t"
  shows "tenant_holds client view key max_bytes m s' t C"
proof (rule tenant_holds_frame [OF assms(1) refl])
  fix r
  have "foreign_path key t' (payload_at client key t C r)"
    unfolding foreign_path_def payload_at_def using payload_tenant_inj assms(3) by metis
  then show "view s' (payload_at client key t C r) = view s (payload_at client key t C r)" by (rule assms(2))
qed

lemma merged_manifest_rejects:
  assumes law: "reliable_store client view" and key: "normal_key key"
    and holds: "tenant_holds client view key max_bytes (base_manifest base) s t C"
    and pin: "pinned removals t k \<noteq> None" and absent: "C k = None"
  shows "\<exists>e s'. merged_manifest client hasher key removals additions max_bytes index base s = (Inl e, s')
    \<and> (\<forall>p. \<not> under_prefix (shard_payload_prefix_for_key key) p \<longrightarrow> view s' p = view s p)"
proof -
  define tm where "tm = (\<lambda>tenant. \<lparr>tm_client = client, tm_key = key, tm_base = base_manifest base, tm_tenant = tenant,
      tm_removed = bt_get removals tenant, tm_contribute_all = (base = None), tm_additions = additions, tm_max_bytes = max_bytes\<rparr>)"
  define tenants where "tenants = bs_extend (bt_keys removals)
      (bs_extend (bt_keys (tx_tenants index)) (bs_collect (manifest_tenants (base_manifest base))))"
  let ?start = "\<lparr>mp_manifest = manifest_new, mp_fetched = 0, mp_written = 0\<rparr>"
  let ?run = "io_fold (\<lambda>tenant. merge_tenant_shards hasher index (tm tenant)) tenants ?start"
  have run: "merged_manifest client hasher key removals additions max_bytes index base = io_bind ?run (\<lambda>mp. io_ok (manifest_sort (mp_manifest mp)))"
    by (simp add: merged_manifest_def Let_def tm_def tenants_def base_manifest_def)
  have keeps: "io_keeps view (foreign_path key t') (merge_tenant_shards hasher index (tm t') mp)" for t' mp
    using merge_tenant_keeps [of "tm t'" view] law key by (simp add: tm_def)
  obtain pending where pending: "bt_get removals t = Some pending" "bt_get pending k \<noteq> None"
    using pin by (auto simp: pinned_def split: option.splits)
  have keys: "t \<in> set (bt_keys removals)" "k \<in> set (bt_keys pending)"
    using pending by (metis map_of_eq_None_iff list.set_map option.distinct(1))+
  have "\<exists>e s'. ?run s = (Inl e, s')"
  proof (rule io_fold_fails [where P = "\<lambda>s. tenant_holds client view key max_bytes (base_manifest base) s t C" and x = t])
    show "\<exists>e s'. merge_tenant_shards hasher index (tm t) mp s = (Inl e, s')"
      if "tenant_holds client view key max_bytes (base_manifest base) s t C" for mp s
      using merge_tenant_rejects [of "tm t" view s C k hasher index mp] law key that keys(2) pending(1) absent
      by (auto simp: tm_def removed_blocks_def)
    show "tenant_holds client view key max_bytes (base_manifest base) (snd (merge_tenant_shards hasher index (tm t') mp s)) t C"
      if "t' \<noteq> t" "tenant_holds client view key max_bytes (base_manifest base) s t C" for t' mp s
      using tenant_holds_foreign [OF that(2) _ that(1)] keeps [of t' mp] by (simp add: io_keeps_def)
    show "t \<in> set tenants" using keys(1) by (simp add: tenants_def)
  qed (rule holds)
  then obtain e s' where fails: "?run s = (Inl e, s')" by blast
  have "io_keeps view (\<lambda>p. \<not> under_prefix (shard_payload_prefix_for_key key) p) ?run"
  proof (rule io_keeps_fold)
    have "foreign_path key t' p" if "\<not> under_prefix (shard_payload_prefix_for_key key) p" for t' p
      unfolding foreign_path_def using payload_under that by metis
    then show "io_keeps view (\<lambda>p. \<not> under_prefix (shard_payload_prefix_for_key key) p) (merge_tenant_shards hasher index (tm t') mp)" for t' mp
      using keeps [of t' mp] unfolding io_keeps_def by blast
  qed
  then have "\<forall>p. \<not> under_prefix (shard_payload_prefix_for_key key) p \<longrightarrow> view s' p = view s p"
    unfolding io_keeps_def using fails by (metis snd_conv)
  moreover have "io_bind ?run (\<lambda>mp. io_ok (manifest_sort (mp_manifest mp))) s = (Inl e, s')" using fails by (simp add: io_bind_def)
  ultimately show ?thesis unfolding run by blast
qed

lemma save_rejects:
  assumes law: "reliable_store client view" and key: "normal_key key" and pub: "index_published client view key max_bytes s base Cs"
    and pin: "pinned (tx_pending_removals index) t k \<noteq> None" and absent: "Cs t k = None"
  shows "\<exists>e s'. save_latest_snapshot client hasher key retain max_bytes index s = (Inl e, s')
    \<and> (\<forall>p. \<not> under_prefix (shard_payload_prefix_for_key key) p \<longrightarrow> view s' p = view s p)"
proof -
  let ?merge = "merged_manifest client hasher key (tx_pending_removals index) (tx_pending_additions index) max_bytes index"
  have facts: "only_generations view key s" "published_base client view key max_bytes s base"
      "tenant_holds client view key max_bytes (base_manifest base) s t (Cs t)"
    using pub by (simp_all add: index_published_def)
  obtain e s' where merge: "?merge base s = (Inl e, s')"
      and kept: "\<forall>p. \<not> under_prefix (shard_payload_prefix_for_key key) p \<longrightarrow> view s' p = view s p"
    using merged_manifest_rejects [OF law key facts(3) pin absent] by blast
  have "[1..<Suc max_snapshot_write_attempts] = 1 # [2..<Suc max_snapshot_write_attempts]"
    by (simp add: max_snapshot_write_attempts_def upt_rec)
  then have "put_manifest_snapshot client key retain max_bytes trace_snapshot_label ?merge s = (Inl e, s')"
    using read_base_ok [OF law key facts(1,2), of trace_snapshot_label] merge
    by (simp add: put_manifest_snapshot_def publication_def io_bind_def io_read_def)
  then show ?thesis using kept by (simp add: save_latest_snapshot_def Let_def io_bind_def)
qed

end
