(* ===== verification/Publication_Props.thy ===== *)
theory Publication_Props
  imports Publication_Spec "HOL-Library.Countable"
begin

text \<open>
  The properties of the published trace index, with a store that keeps its objects in memory as the
  instance on which their hypotheses are met.
\<close>

section \<open>What a save means\<close>

text \<open>
  The contents after a save: a block the writer contributes, nothing where it removed one, and otherwise
  what was published.  The first save contributes every block, a later one the additions only.
\<close>

definition saved_spec :: "trace_index \<Rightarrow> bool \<Rightarrow> (string \<Rightarrow> contents) \<Rightarrow> string \<Rightarrow> contents" where
  "saved_spec index first Cs t k =
     (let kept = (if pinned (tx_pending_removals index) t k = None then Cs t k else None)
      in case contents_of index t k of
           None \<Rightarrow> kept
         | Some b \<Rightarrow> if first \<or> k \<in> set (tx_pending_additions index) then Some b else kept)"

lemma fold_place:
  assumes "distinct (map ts_object_key news)"
  shows "fold (\<lambda>b C. C(ts_object_key b \<mapsto> b)) news C = C ++ map_of (map (\<lambda>b. (ts_object_key b, b)) news)"
  using assms
proof (induction news arbitrary: C)
  case (Cons b news)
  then have "map_of (map (\<lambda>b. (ts_object_key b, b)) news) (ts_object_key b) = None"
    by (auto simp: map_of_eq_None_iff)
  then show ?case using Cons by (auto simp: fun_eq_iff map_add_def split: option.splits)
qed simp

lemma map_of_filter_keys:
  "map_of (map (\<lambda>b. (ts_object_key b, b)) (filter (\<lambda>b. P (ts_object_key b)) blocks)) k
     = (if P k then map_of (map (\<lambda>b. (ts_object_key b, b)) blocks) k else None)"
  by (induction blocks) auto

lemma pinned_keys: "set (bt_keys (pins_of removals t)) = {k. pinned removals t k \<noteq> None}"
proof -
  have "k \<in> set (bt_keys m) \<longleftrightarrow> bt_get m k \<noteq> None" for k and m :: "(string, pending_removal) btree_map"
    by (simp add: map_of_eq_None_iff del: not_None_eq)
  then show ?thesis unfolding pins_of_get [symmetric] by blast
qed

lemma after_save_spec:
  assumes "trace_ok index"
  shows "after_save client key max_bytes index base Cs = saved_spec index (base = None) Cs"
proof (intro ext)
  fix t k
  let ?tm = "save_merge client key max_bytes index base t"
  have tm: "removed_blocks ?tm = (case bt_get (tx_pending_removals index) t of None \<Rightarrow> [] | Some m \<Rightarrow> m)"
    "contributed_blocks index ?tm = filter (\<lambda>b. base = None \<or> ts_object_key b \<in> set (tx_pending_additions index)) (trace_blocks index t)"
    by (simp_all add: removed_blocks_def contributed_blocks_def contributes_def save_merge_def)
  have dist: "distinct (map ts_object_key (contributed_blocks index ?tm))"
    unfolding tm(2) by (rule distinct_map_filter [OF trace_okD(4) [OF assms]])
  have "after_save client key max_bytes index base Cs t k
      = (Cs t |` (- {k. pinned (tx_pending_removals index) t k \<noteq> None}) ++ map_of (map (\<lambda>b. (ts_object_key b, b)) (contributed_blocks index ?tm))) k"
    unfolding after_save_def saved_contents_def merged_contents_def fold_place [OF dist] tm(1) pinned_keys ..
  then show "after_save client key max_bytes index base Cs t k = saved_spec index (base = None) Cs t k"
    unfolding tm(2) map_add_def map_of_filter_keys [of "\<lambda>k. base = None \<or> k \<in> set (tx_pending_additions index)"]
    by (cases "map_of (map (\<lambda>b. (ts_object_key b, b)) (trace_blocks index t)) k")
      (simp_all add: saved_spec_def contents_of_def restrict_map_def)
qed

section \<open>Loading\<close>

lemma load_ok:
  assumes law: "reliable_store client view" and key: "normal_key key"
    and pub: "index_published client view key max_bytes s (Some m) Cs"
  shows "\<exists>index. load_latest_snapshot_read client hasher key win max_bytes s = Inr index
    \<and> (\<forall>t. contents_of index t = wanted win t (Cs t))"
    and "load_latest_snapshot client hasher key max_bytes s = load_latest_snapshot_read client hasher key None max_bytes s"
proof -
  have facts: "only_generations view key s" "published_base client view key max_bytes s (Some m)" "bt_ok (sm_tenants m)"
      "\<forall>t. tenant_holds client view key max_bytes m s t (Cs t)"
    using pub by (simp_all add: index_published_def base_manifest_def)
  have read: "read_latest_snapshot_manifest client key max_bytes label s = Inr (Some m)" for label
    using latest_manifest(3) [OF law key facts(1)] facts(2) by (simp add: published_base_def)
  show "\<exists>index. load_latest_snapshot_read client hasher key win max_bytes s = Inr index
      \<and> (\<forall>t. contents_of index t = wanted win t (Cs t))"
    using from_manifest_ok [OF law key facts(3,4), of hasher win] read
    by (auto simp: load_latest_snapshot_read_def)
  show "load_latest_snapshot client hasher key max_bytes s = load_latest_snapshot_read client hasher key None max_bytes s"
    using read by (simp add: load_latest_snapshot_def load_latest_snapshot_read_def)
qed

text \<open>A block that meets the window has a shard that does.\<close>

lemma ranges_cover:
  assumes "is_i64 a" "is_i64 b" and "1 \<le> w" "is_i64 w" and "min a b \<le> x" "x \<le> max a b"
  shows "\<exists>r \<in> set (shard_ranges_for_span a b w). ir_start r \<le> x \<and> x \<le> ir_end r"
proof -
  have span: "ordered_span a b = (min a b, max a b)" by (auto simp: ordered_span_def)
  have x: "is_i64 x" using assms by (auto simp: is_i64_def)
  show ?thesis
  proof (cases "max a b div w - min a b div w \<ge> 32")
    case True
    then show ?thesis using x unfolding shard_ranges_eq [OF assms(1-3) span]
      by (simp add: unbounded_shard_range_def is_i64_def)
  next
    case False
    have "x div w \<in> {min a b div w..max a b div w}" using assms(3,5,6) by (simp add: zdiv_mono1)
    then have "shard_range_of_slot (x div w) w \<in> set (shard_ranges_for_span a b w)"
      using False unfolding shard_ranges_eq [OF assms(1-3) span] by simp
    then show ?thesis using shard_range_of_ts [OF x assms(3)] assms(4) by blast
  qed
qed

lemma window_meets:
  assumes ok: "contents_ok t C" and b: "C k = Some b"
    and meets: "ts_min_ts b \<le> ir_end w" "ir_start w \<le> ts_max_ts b" "ts_min_ts b \<le> ts_max_ts b" "ir_start w \<le> ir_end w"
  shows "wanted (Some (t, w)) t C k = Some b"
proof -
  let ?x = "max (ts_min_ts b) (ir_start w)"
  have "record_codable b" using ok b by (simp add: contents_ok_def)
  then obtain r where "r \<in> set (block_ranges b)" "ir_start r \<le> ?x" "?x \<le> ir_end r"
    using ranges_cover [of "ts_min_ts b" "ts_max_ts b" trace_index_shard_width ?x] codable_i64 [of b] width_i64 meets unfolding block_ranges_def by auto
  then have "\<exists>r \<in> set (block_ranges b). shard_wanted (Some (t, w)) r"
    using meets by (intro bexI [of _ r]) (auto simp: shard_wanted_def range_overlaps_def)
  then show ?thesis using b by (simp add: wanted_def tenant_wanted_def restrict_map_def)
qed

lemma wanted_sub: "wanted win t C k = Some b \<Longrightarrow> C k = Some b"
  by (simp add: wanted_def restrict_map_def split: if_splits)

section \<open>A store in memory\<close>

lemma under_prefix_code [code]: "under_prefix prefix p \<longleftrightarrow> take (Suc (length prefix)) p = prefix @ ''/''"
proof
  assume "take (Suc (length prefix)) p = prefix @ ''/''"
  then have "p = (prefix @ ''/'') @ drop (Suc (length prefix)) p" by (metis append_take_drop_id)
  then show "under_prefix prefix p" unfolding under_prefix_def by (metis append.assoc append_Cons append_Nil)
qed (auto simp: under_prefix_def)

definition manifest_tuple :: "snapshot_manifest \<Rightarrow> nat \<times> (string \<times> (int \<times> int \<times> string) list) list" where
  "manifest_tuple m = (sm_version m,
     map (\<lambda>(t, shards). (t, map (\<lambda>sh. (ms_start sh, ms_end sh, ms_content sh)) shards)) (sm_tenants m))"

definition tuple_manifest :: "nat \<times> (string \<times> (int \<times> int \<times> string) list) list \<Rightarrow> snapshot_manifest" where
  "tuple_manifest = (\<lambda>(v, tenants). \<lparr>sm_version = v,
     sm_tenants = map (\<lambda>(t, shards). (t, map (\<lambda>(a, b, c). \<lparr>ms_start = a, ms_end = b, ms_content = c\<rparr>) shards)) tenants\<rparr>)"

text \<open>The client over an association list, whose content hash is 1 on \<open>known\<close> and 0 elsewhere.\<close>

definition memory_store ::
  "(snapshot_manifest \<Rightarrow> byte list) \<Rightarrow> (byte list \<Rightarrow> snapshot_manifest) \<Rightarrow> byte list \<Rightarrow> (string \<times> byte list) list object_client" where
  "memory_store write_json read_json known =
     \<lparr>os_path = (\<lambda>p. p),
      os_delete = (\<lambda>p s. (if map_of s p = None then Not_found else Deleted, filter (\<lambda>e. fst e \<noteq> p) s)),
      os_list = (\<lambda>prefix s. map (\<lambda>p. Inr \<lparr>om_location = p, om_timestamp = 0, om_size = 0, om_version = []\<rparr>)
        (filter (under_prefix prefix) (remdups (map fst s)))),
      os_delete_stream = (\<lambda>ps s. (map (\<lambda>_. Deleted) ps, filter (\<lambda>e. fst e \<notin> set ps) s)),
      oc_read = (\<lambda>p cap s. case map_of s p of None \<Rightarrow> Inl Capped_not_found
        | Some b \<Rightarrow> if length b \<le> cap then Inr b else Inl (Capped_too_large (length b) cap)),
      oc_head = (\<lambda>p s. Inr \<lparr>om_location = p, om_timestamp = 0, om_size = 0, om_version = []\<rparr>),
      oc_put = (\<lambda>p b s. (Inr (), (p, b) # s)),
      oc_create = (\<lambda>p b s. if map_of s p = None then (Inr (), (p, b) # s) else (Inl Store_already_exists, s)),
      oc_update = (\<lambda>p b v s. if v = [] then (Inr (), (p, b) # s) else (Inl Store_precondition, s)),
      oc_to_json = (\<lambda>m. Inr (write_json m)),
      oc_from_json = (\<lambda>bytes. Inr (read_json bytes)),
      oc_xxh3_128 = (\<lambda>bytes. if bytes = known then 1 else 0),
      oc_now = 0,
      oc_timeout = (\<lambda>attempt. In_time)\<rparr>"

definition memory_client :: "byte list \<Rightarrow> (string \<times> byte list) list object_client" where
  "memory_client = memory_store (\<lambda>m. replicate (to_nat (manifest_tuple m)) 0) (\<lambda>bytes. tuple_manifest (from_nat (length bytes)))"

lemma tuple_manifest_inverse: "tuple_manifest (manifest_tuple m) = m"
proof -
  have "(\<lambda>sh. \<lparr>ms_start = ms_start sh, ms_end = ms_end sh, ms_content = ms_content sh\<rparr>) = (\<lambda>sh :: manifest_shard. sh)"
    by (intro ext manifest_shard.equality) simp_all
  then show ?thesis by (cases m) (simp add: tuple_manifest_def manifest_tuple_def case_prod_beta comp_def)
qed

lemma memory_json: "json_law (memory_client known)"
  by (simp add: json_law_def memory_client_def memory_store_def tuple_manifest_inverse)

lemma memory_reliable: "reliable_store (memory_client known) map_of"
proof -
  have "map_of (filter (\<lambda>e. fst e \<noteq> p) s) = (map_of s)(p := None)" for p and s :: "(string \<times> byte list) list"
    by (induction s) auto
  then have "remove_law (memory_client known) map_of" by (simp add: remove_law_def memory_client_def memory_store_def)
  moreover have "listing_law (memory_client known) map_of"
    unfolding listing_law_def
  proof (intro allI)
    fix prefix and s :: "(string \<times> byte list) list"
    let ?meta = "\<lambda>p. \<lparr>om_location = p, om_timestamp = 0, om_size = 0, om_version = []\<rparr>"
    let ?listed = "map ?meta (filter (under_prefix prefix) (remdups (map fst s)))"
    have "os_list (memory_client known) prefix s = map Inr ?listed" by (simp add: memory_client_def memory_store_def comp_def)
    moreover have "distinct (map om_location ?listed)" by (simp add: comp_def)
    moreover have "om_location ` set ?listed = {p \<in> dom (map_of s). under_prefix prefix p}"
      by (auto simp: image_image dom_map_of_conv_image_fst)
    ultimately show "\<exists>listed. os_list (memory_client known) prefix s = map Inr listed \<and> distinct (map om_location listed)
        \<and> om_location ` set listed = {p \<in> dom (map_of s). under_prefix prefix p}" by blast
  qed
  moreover have "path_law (memory_client known)" "read_law (memory_client known) map_of" "put_law (memory_client known) map_of"
    "create_law (memory_client known) map_of" "update_law (memory_client known) map_of"
    by (simp_all add: path_law_def read_law_def put_law_def create_law_def update_law_def memory_client_def memory_store_def)
  ultimately show ?thesis by (simp add: reliable_store_def)
qed

lemma memory_simps [simp]:
  "oc_timeout (memory_client known) attempt = In_time"
  "oc_to_json (memory_client known) m = Inr (replicate (to_nat (manifest_tuple m)) 0)"
  "oc_from_json (memory_client known) (replicate (to_nat (manifest_tuple m)) 0) = Inr m"
  by (simp_all add: memory_client_def memory_store_def tuple_manifest_inverse)

lemma empty_store:
  "only_generations map_of key []" "generations map_of key [] = {}" "manifests_readable client map_of key max_bytes []"
  "next_generation map_of key [] = 0"
  by (simp_all add: only_generations_def generations_def manifests_readable_def next_generation_def)

lemma empty_published: "index_published client map_of key max_bytes [] None (\<lambda>_. Map.empty)"
  by (simp add: index_published_def empty_store published_base_def base_manifest_def tenant_holds_def contents_ok_def
      shards_of_def manifest_default_def manifest_new_def scatter_def)

lemma sample_key: "normal_key ''i.bin''"
  by code_simp

text \<open>An index with one block, and the object, manifest and cap its first save needs.\<close>

definition sample_index :: trace_index where
  "sample_index = add_trace_block ''t'' (span_block ''a'' ''x'') trace_index_new"

definition sample_bytes :: "byte list" where
  "sample_bytes = the (encode_trace_shard ''t'' [span_block ''a'' ''x''])"

definition sample_manifest :: snapshot_manifest where
  "sample_manifest = \<lparr>sm_version = 1, sm_tenants = [(''t'', [\<lparr>ms_start = 0, ms_end = trace_index_shard_width - 1,
     ms_content = padded_hex 32 1\<rparr>])]\<rparr>"

definition sample_max :: nat where
  "sample_max = max 1000 (to_nat (manifest_tuple sample_manifest))"

lemma sample_ranges: "block_ranges (span_block ''a'' ''x'') = [\<lparr>ir_start = 0, ir_end = trace_index_shard_width - 1\<rparr>]"
  by code_simp

lemma sample_encodes: "length sample_bytes \<le> 1000" "encode_trace_shard ''t'' [span_block ''a'' ''x''] = Some sample_bytes"
proof -
  show "length sample_bytes \<le> 1000" by code_simp
  have "encode_trace_shard ''t'' [span_block ''a'' ''x''] \<noteq> None" by code_simp
  then show "encode_trace_shard ''t'' [span_block ''a'' ''x''] = Some sample_bytes" by (simp add: sample_bytes_def)
qed

lemma sample_blocks: "trace_blocks sample_index ''t'' = [span_block ''a'' ''x'']" "bt_keys (tx_tenants sample_index) = [''t'']"
  "tx_pending_additions sample_index = [''a'']" "tx_pending_removals sample_index = []"
  by code_simp+

lemma sample_place: "place_contributed (span_block ''a'' ''x'') [] = [(\<lparr>ir_start = 0, ir_end = trace_index_shard_width - 1\<rparr>, [span_block ''a'' ''x''])]"
  by code_simp

lemma sample_merge:
  "fst (merged_manifest (memory_client sample_bytes) (\<lambda>f. 0) ''i.bin'' [] [''a''] cap sample_index None []) = Inr sample_manifest"
proof -
  have tenants: "bs_extend [] (bs_extend [''t''] (bs_collect (manifest_tenants manifest_default))) = [''t'']" by code_simp
  have hash: "shard_payload_content_hash (memory_client sample_bytes) sample_bytes = padded_hex 32 1"
    by (simp add: shard_payload_content_hash_def memory_client_def memory_store_def)
  have none: "shards_of manifest_default t = []" for t by (simp add: shards_of_def manifest_default_def)
  have memory_put: "oc_put (memory_client known) p bytes s = (Inr (), (p, bytes) # s)" for known p bytes s
    by (simp add: memory_client_def memory_store_def)
  have inserted: "manifest_sort (manifest_insert ''t'' \<lparr>ir_start = 0, ir_end = trace_index_shard_width - 1\<rparr> (padded_hex 32 1) manifest_new) = sample_manifest"
    by code_simp
  show ?thesis
    by (simp add: merged_manifest_def Let_def tenants sample_blocks merge_tenant_shards_def read_touched_def none
        io_bind_def io_read_def io_ok_def check_removals_def contributes_def sample_place carry_def
        publish_records_def sample_encodes publish_shard_def hash put_shard_payload_def store_io_def memory_put inserted del: One_nat_def)
qed

lemma sample_codable: "utf8_string ''t''" "record_codable (span_block ''a'' ''x'')"
proof -
  have "utf8_valid (string_bytes ''t'')" "utf8_valid (string_bytes ''a'')" "utf8_valid (string_bytes ''x'')"
    "utf8_valid (string_bytes ''v'')" by code_simp+
  then have utf8: "utf8_string ''t''" "utf8_string ''a''" "utf8_string ''x''" "utf8_string ''v''"
    by (simp_all add: utf8_string_def)
  then show "utf8_string ''t''" by simp
  have "bloom_codable empty_bloom"
    by (simp add: bloom_codable_def empty_bloom_def bloom_ok_def shard_ok_def)
  then show "record_codable (span_block ''a'' ''x'')"
    using utf8 by (simp add: record_codable_def span_block_def stats_prefix_def prefix_valid_def block_strings_def is_i64_def)
qed

lemma sample_payload:
  "payload_of ''t'' [''a'' \<mapsto> span_block ''a'' ''x''] r
     = (if r \<in> set (block_ranges (span_block ''a'' ''x'')) then sample_bytes else payload_of ''t'' Map.empty r)"
proof -
  have "{k \<in> dom [''a'' \<mapsto> b]. r \<in> set (block_ranges (the ([''a'' \<mapsto> b] k)))} = (if r \<in> set (block_ranges b) then {''a''} else {})"
    for b by auto
  then show ?thesis by (simp add: payload_of_def shard_list_def sample_bytes_def)
qed

lemma sample_fits:
  "save_fits (\<lambda>f. 0) sample_index (save_merge (memory_client sample_bytes) ''i.bin'' sample_max sample_index None t) Map.empty"
proof -
  let ?tm = "save_merge (memory_client sample_bytes) ''i.bin'' sample_max sample_index None t"
  have removed: "removed_blocks ?tm = []" by (simp add: removed_blocks_def save_merge_def sample_blocks)
  have blocks: "trace_blocks sample_index t = (if t = ''t'' then [span_block ''a'' ''x''] else [])"
    using sample_blocks(1,2) by (auto simp: trace_blocks_def map_of_eq_None_iff split: option.splits)
  then have contributed: "contributed_blocks sample_index ?tm = (if t = ''t'' then [span_block ''a'' ''x''] else [])"
    by (simp add: contributed_blocks_def contributes_def save_merge_def)
  have key: "ts_object_key (span_block ''a'' ''x'') = ''a''" by (simp add: span_block_def)
  have merged: "merged_contents (removed_blocks ?tm) (contributed_blocks sample_index ?tm) Map.empty
      = (if t = ''t'' then [''a'' \<mapsto> span_block ''a'' ''x''] else Map.empty)"
    by (simp add: removed contributed merged_contents_def key)
  have differ: "payload_of ''t'' Map.empty r \<noteq> sample_bytes" for r
    unfolding payload_of_def shard_list_def by simp code_simp
  have hex: "padded_hex 32 0 \<noteq> padded_hex 32 (Suc 0)" by code_simp
  have "no_collision (memory_client sample_bytes) ''t'' Map.empty [''a'' \<mapsto> span_block ''a'' ''x'']"
    using differ hex unfolding no_collision_def sample_payload shard_payload_content_hash_def
    by (simp add: memory_client_def memory_store_def)
  moreover have "length sample_bytes \<le> min sample_max usize_max" using sample_encodes(1) by (simp add: sample_max_def)
  ultimately show ?thesis
    using sample_codable unfolding save_fits_def merged
    by (auto simp: removed contributed removals_pinned_def contribution_fits_def no_collision_def scatter_def sample_payload)
qed

lemma sample_accepted: "save_accepted (memory_client sample_bytes) (\<lambda>f. 0) ''i.bin'' sample_max sample_index [] None (\<lambda>_. Map.empty)"
proof -
  have "m = sample_manifest"
    if "merged_manifest (memory_client sample_bytes) (\<lambda>f. 0) ''i.bin'' [] [''a''] sample_max sample_index None [] = (Inr m, s')" for m s'
    using sample_merge [of sample_max] that by simp
  then show ?thesis unfolding save_accepted_def sample_blocks using sample_fits by (auto simp: sample_max_def)
qed

lemma sample_trace_ok: "trace_ok sample_index"
  unfolding sample_index_def
  by (rule add_trace_block_ok)
    (simp_all add: trace_index_new_ok span_block_def empty_bloom_def bloom_ok_def shard_ok_def)

lemma manifest_new_version: "sm_version manifest_new = snapshot_manifest_version"
  by (simp add: manifest_new_def)

text \<open>A store that holds one generation, with an empty manifest.\<close>

definition one_object :: "nat \<Rightarrow> (string \<times> byte list) list" where
  "one_object g = [(snapshot_key_for_generation ''i.bin'' g, replicate (to_nat (manifest_tuple manifest_new)) 0)]"

lemma one_object_ok:
  assumes "g \<le> usize_max"
  shows "generations map_of ''i.bin'' (one_object g) = {g}" and "only_generations map_of ''i.bin'' (one_object g)"
    and "manifests_readable (memory_client known) map_of ''i.bin'' (to_nat (manifest_tuple manifest_new)) (one_object g)"
proof -
  show gens: "generations map_of ''i.bin'' (one_object g) = {g}"
    using assms snapshot_key_inj [OF _ assms, of _ "''i.bin''"] by (auto simp: generations_def one_object_def split: if_splits)
  show "only_generations map_of ''i.bin'' (one_object g)"
    using assms by (auto simp: only_generations_def one_object_def)
  show "manifests_readable (memory_client known) map_of ''i.bin'' (to_nat (manifest_tuple manifest_new)) (one_object g)"
    unfolding manifests_readable_def gens
    by (intro ballI exI [of _ manifest_new]) (simp add: stored_manifest_def one_object_def manifest_new_version)
qed

section \<open>Properties\<close>



text \<open>
  C27. A windowed load of one tenant returns published records only, and every published record whose span
  meets the window: reading only the shards that overlap the window loses nothing.
\<close>

theorem window_load_complete:
  assumes "reliable_store client view" and "normal_key key" and "index_published client view key max_bytes s (Some m) Cs"
    and "ir_start w \<le> ir_end w"
  shows "\<exists>loaded. load_latest_snapshot_read client hasher key (Some (t, w)) max_bytes s = Inr loaded
    \<and> (\<forall>t' k b. contents_of loaded t' k = Some b \<longrightarrow> t' = t \<and> Cs t k = Some b)
    \<and> (\<forall>k b. Cs t k = Some b \<and> ts_min_ts b \<le> ts_max_ts b \<and> ts_min_ts b \<le> ir_end w \<and> ir_start w \<le> ts_max_ts b
          \<longrightarrow> contents_of loaded t k = Some b)"
proof -
  obtain loaded where load: "load_latest_snapshot_read client hasher key (Some (t, w)) max_bytes s = Inr loaded"
      "\<forall>t'. contents_of loaded t' = wanted (Some (t, w)) t' (Cs t')"
    using load_ok(1) [OF assms(1-3)] by blast
  have "t' = t \<and> Cs t k = Some b" if "contents_of loaded t' k = Some b" for t' k b
    using that by (auto simp: load(2) wanted_def tenant_wanted_def restrict_map_def split: if_splits)
  moreover have "contents_of loaded t k = Some b"
    if "Cs t k = Some b \<and> ts_min_ts b \<le> ts_max_ts b \<and> ts_min_ts b \<le> ir_end w \<and> ir_start w \<le> ts_max_ts b" for k b
    unfolding load(2) [rule_format] using window_meets [OF published_ok [OF assms(3)]] that assms(4) by blast
  ultimately show ?thesis using load(1) by blast
qed

theorem window_load_complete_witness:
  "\<exists>s loaded. load_latest_snapshot_read (memory_client sample_bytes) (\<lambda>f. 0) ''i.bin'' (Some (''t'', \<lparr>ir_start = 5, ir_end = 7\<rparr>)) sample_max s = Inr loaded
    \<and> contents_of loaded ''t'' ''a'' = Some (span_block ''a'' ''x'')"
proof -
  obtain m s where "index_published (memory_client sample_bytes) map_of ''i.bin'' sample_max s (Some m)
      (after_save (memory_client sample_bytes) ''i.bin'' sample_max sample_index None (\<lambda>_. Map.empty))"
    using save_ok [OF memory_reliable memory_json sample_key _ empty_published sample_accepted, of 8]
    by (auto simp: sample_blocks removals_ok_def empty_store)
  then have pub: "index_published (memory_client sample_bytes) map_of ''i.bin'' sample_max s (Some m) (saved_spec sample_index True (\<lambda>_. Map.empty))"
    by (simp add: after_save_spec [OF sample_trace_ok])
  have held: "saved_spec sample_index True (\<lambda>_. Map.empty) ''t'' ''a'' = Some (span_block ''a'' ''x'')" by code_simp
  have span: "ts_min_ts (span_block ''a'' ''x'') = 0" "ts_max_ts (span_block ''a'' ''x'') = 9" by (simp_all add: span_block_def)
  have "\<exists>loaded. load_latest_snapshot_read (memory_client sample_bytes) (\<lambda>f. 0) ''i.bin'' (Some (''t'', \<lparr>ir_start = 5, ir_end = 7\<rparr>)) sample_max s = Inr loaded
      \<and> contents_of loaded ''t'' ''a'' = Some (span_block ''a'' ''x'')"
    using window_load_complete [OF memory_reliable sample_key pub, of "\<lparr>ir_start = 5, ir_end = 7\<rparr>" "\<lambda>f. 0" "''t''"] held span by force
  then show ?thesis by blast
qed

text \<open>
  C28. A pending removal of a block that is not among the published contents makes the save fail, and no
  manifest changes.  The pending set is kept, so every later save of this writer fails the same way.
\<close>

theorem unpublished_removal_rejected:
  assumes "reliable_store client view" and "normal_key key" and "index_published client view key max_bytes s base Cs"
    and "pinned (tx_pending_removals index) t k \<noteq> None" and "Cs t k = None"
  shows "\<exists>e s'. save_latest_snapshot client hasher key retain max_bytes index s = (Inl e, s')
    \<and> (\<forall>p. \<not> under_prefix (shard_payload_prefix_for_key key) p \<longrightarrow> view s' p = view s p)"
  using assms by (rule save_rejects)

text \<open>The index that indexed one block and removed it before any save.\<close>

definition removed_early :: trace_index where
  "removed_early = retire_trace_blocks (\<lambda>f. 0) ''t'' [''a''] (add_trace_block ''t'' (span_block ''a'' ''x'') trace_index_new)"

theorem unpublished_removal_rejected_witness:
  "\<exists>e s'. save_latest_snapshot (memory_client []) (\<lambda>f. 0) ''i.bin'' 8 1000 removed_early [] = (Inl e, s')
    \<and> (\<forall>p. \<not> under_prefix (shard_payload_prefix_for_key ''i.bin'') p \<longrightarrow> map_of s' p = map_of [] p)"
proof (rule unpublished_removal_rejected [OF memory_reliable sample_key empty_published])
  show "pinned (tx_pending_removals removed_early) ''t'' ''a'' \<noteq> None" by code_simp
qed simp



text \<open>
  C30. If more than \<open>retain\<close> publications came between, the generation the late writer claims was pruned, so
  its conditional create succeeds and the publication is acknowledged.  Yet the newest manifests are those
  of the other writers as before: nothing the late writer merged is published.
\<close>

theorem late_publication_lost:
  assumes "reliable_store client view" and "json_law client" and "normal_key key" and "1 \<le> retain"
    and "others_published view key retain n s0 s" and "only_generations view key s" and "manifests_readable client view key max_bytes s"
    and "next_generation view key s0 \<le> usize_max"
    and "merge base s = (Inr m, s1)" and "sm_version m = snapshot_manifest_version"
    and "\<And>p. \<not> under_prefix (shard_payload_prefix_for_key key) p \<Longrightarrow> view s1 p = view s p"
    and "\<And>bytes. oc_to_json client m = Inr bytes \<Longrightarrow> length bytes \<le> max_bytes" and "oc_timeout client attempt = In_time"
    and "retain < n"
  shows "\<exists>s' s2. publication client key merge attempt \<lparr>mb_manifest = base, mb_next_generation = next_generation view key s0\<rparr> s = (Inr (Inr ()), s')
    \<and> after_publication client key retain max_bytes label (next_generation view key s0) s'
        = (Inr (snapshot_key_for_generation key (next_generation view key s0)), s2)
    \<and> next_generation view key s0 \<notin> generations view key s2 \<and> generations view key s2 = generations view key s
    \<and> (\<forall>g \<in> generations view key s. \<forall>m. stored_manifest client view key max_bytes s g m \<longrightarrow> stored_manifest client view key max_bytes s2 g m)"
proof -
  let ?g = "next_generation view key s0"
  have fresh: "?g \<notin> generations view key s" using claim_taken [OF assms(5,4)] assms(14) by simp
  obtain s' where pub: "publication client key merge attempt \<lparr>mb_manifest = base, mb_next_generation = ?g\<rparr> s = (Inr (Inr ()), s')"
      "only_generations view key s'" "generations view key s' = insert ?g (generations view key s)"
      "manifests_readable client view key max_bytes s'"
      "\<forall>h \<in> generations view key s. view s' (snapshot_key_for_generation key h) = view s (snapshot_key_for_generation key h)"
    using create_generation [where merge = merge, OF assms(1-3,6,7,8) fresh assms(9-13)] by blast
  obtain s2 where s2: "after_publication client key retain max_bytes label ?g s' = (Inr (snapshot_key_for_generation key ?g), s2)"
      "keeps_published client view key max_bytes s' s2" "generations view key s2 = newest retain (generations view key s')"
    using after_publication_ok [OF assms(1,3) pub(2,4)] by blast
  have gens: "generations view key s2 = generations view key s"
    using s2(3) late_claim_pruned [OF assms(5,4,14)] pub(3) by simp
  have "stored_manifest client view key max_bytes s2 g m'"
    if "g \<in> generations view key s" "stored_manifest client view key max_bytes s g m'" for g m'
    using that s2(2) pub(5) unfolding keeps_published_def gens by (auto simp: stored_manifest_def)
  then show ?thesis using pub(1) s2(1) gens fresh by blast
qed

theorem late_publication_lost_witness:
  "\<exists>s' s2. publication (memory_client []) ''i.bin'' (\<lambda>base s. (Inr manifest_new, s)) 1 \<lparr>mb_manifest = None, mb_next_generation = 0\<rparr> (one_object (Suc 0)) = (Inr (Inr ()), s')
    \<and> after_publication (memory_client []) ''i.bin'' 1 (to_nat (manifest_tuple manifest_new)) ''label'' 0 s' = (Inr (snapshot_key_for_generation ''i.bin'' 0), s2)
    \<and> generations map_of ''i.bin'' s2 = {Suc 0}"
proof -
  note one = one_object_ok [of 0] and two = one_object_ok [of "Suc 0"]
  have first: "others_published map_of ''i.bin'' 1 (Suc 0) [] (one_object 0)"
    by (rule others_published.one [OF others_published.none]) (simp add: one empty_store newest_small)
  have "newest 1 {0, 1} = {1}"
    using newest_insert_least [of "{1}" 0 1] newest_small [of "{1}" 1] by simp
  then have others: "others_published map_of ''i.bin'' 1 (Suc (Suc 0)) [] (one_object (Suc 0))"
    by (intro others_published.one [OF first]) (simp add: one two next_generation_def insert_commute)
  show ?thesis
    using late_publication_lost [where merge = "\<lambda>base s. (Inr manifest_new, s)" and attempt = 1 and base = None and label = "''label''",
        OF memory_reliable memory_json sample_key _ others two(2,3) _ refl, of "[]"] two(1)
    by (auto simp: empty_store manifest_new_version)
qed

end
