(* ===== verification/Admission.thy ===== *)
theory Admission
  imports O11y_Prelude
begin

text \<open>
  Admission of queries (\<open>crates/query-frontend/src/admission.rs\<close>): the limits, the state the controller
  keeps under its lock, and the four critical sections that change it.  A critical section runs to its end
  under the lock, so each is one function on the state; \<open>None\<close> is an arithmetic panic.
\<close>

section \<open>Limits\<close>

record admission_limits =
  al_requests :: usize
  al_requests_per_tenant :: usize
  al_subqueries :: usize
  al_subqueries_per_tenant :: usize
  al_bytes_per_subquery :: usize
  al_bytes :: usize
  al_bytes_per_tenant :: usize
  al_queued :: usize
  al_queued_per_tenant :: usize
  al_retry_after :: nat

definition limits_default :: admission_limits where
  "limits_default = \<lparr>al_requests = 256, al_requests_per_tenant = 32, al_subqueries = 2048, al_subqueries_per_tenant = 256,
     al_bytes_per_subquery = 8 * 1024 * 1024, al_bytes = min usize_max (8 * (1024 * 1024 * 1024)), al_bytes_per_tenant = 1024 * 1024 * 1024,
     al_queued = 1024, al_queued_per_tenant = 128, al_retry_after = 1\<rparr>"

record admission_limits_override =
  ao_requests :: "usize option"
  ao_requests_per_tenant :: "usize option"
  ao_subqueries :: "usize option"
  ao_subqueries_per_tenant :: "usize option"
  ao_bytes_per_subquery :: "usize option"
  ao_bytes :: "usize option"
  ao_bytes_per_tenant :: "usize option"
  ao_queued :: "usize option"
  ao_queued_per_tenant :: "usize option"
  ao_retry_after :: "nat option"

definition unwrap_or :: "'a \<Rightarrow> 'a option \<Rightarrow> 'a" where
  "unwrap_or d x = (case x of None \<Rightarrow> d | Some v \<Rightarrow> v)"

definition limits_merge :: "admission_limits \<Rightarrow> admission_limits_override \<Rightarrow> admission_limits" where
  "limits_merge l p =
     \<lparr>al_requests = unwrap_or (al_requests l) (ao_requests p),
      al_requests_per_tenant = unwrap_or (al_requests_per_tenant l) (ao_requests_per_tenant p),
      al_subqueries = unwrap_or (al_subqueries l) (ao_subqueries p),
      al_subqueries_per_tenant = unwrap_or (al_subqueries_per_tenant l) (ao_subqueries_per_tenant p),
      al_bytes_per_subquery = unwrap_or (al_bytes_per_subquery l) (ao_bytes_per_subquery p),
      al_bytes = unwrap_or (al_bytes l) (ao_bytes p),
      al_bytes_per_tenant = unwrap_or (al_bytes_per_tenant l) (ao_bytes_per_tenant p),
      al_queued = unwrap_or (al_queued l) (ao_queued p),
      al_queued_per_tenant = unwrap_or (al_queued_per_tenant l) (ao_queued_per_tenant p),
      al_retry_after = unwrap_or (al_retry_after l) (ao_retry_after p)\<rparr>"

section \<open>The state\<close>

datatype admission_error = Queue_full nat | Request_too_large nat

record usage =
  us_requests :: usize
  us_subqueries :: usize
  us_bytes :: usize

definition usage_default :: usage where
  "usage_default = \<lparr>us_requests = 0, us_subqueries = 0, us_bytes = 0\<rparr>"

record waiting =
  wt_id :: u64
  wt_tenant :: string
  wt_subqueries :: usize
  wt_bytes :: usize
  wt_limits :: admission_limits

record admission_state =
  ad_limits :: admission_limits
  ad_next_id :: u64
  ad_active :: usage
  ad_tenants :: "(string, usage) btree_map"
  ad_queue :: "waiting list"

definition controller_new :: "admission_limits \<Rightarrow> admission_state" where
  "controller_new limits = \<lparr>ad_limits = limits, ad_next_id = 0, ad_active = usage_default, ad_tenants = [], ad_queue = []\<rparr>"

definition reload :: "admission_limits \<Rightarrow> admission_state \<Rightarrow> admission_state" where
  "reload limits st = st\<lparr>ad_limits := limits\<rparr>"

section \<open>Usage\<close>

definition checked_add :: "usize \<Rightarrow> usize \<Rightarrow> usize option" where
  "checked_add a b = (if a + b \<le> usize_max then Some (a + b) else None)"

definition checked_sub :: "usize \<Rightarrow> usize \<Rightarrow> usize option" where
  "checked_sub a b = (if b \<le> a then Some (a - b) else None)"

definition sum_within :: "usize \<Rightarrow> usize \<Rightarrow> usize \<Rightarrow> bool" where
  "sum_within a b limit = (case checked_add a b of None \<Rightarrow> False | Some n \<Rightarrow> n \<le> limit)"

definition tenant_usage :: "admission_state \<Rightarrow> string \<Rightarrow> usage" where
  "tenant_usage st tenant = unwrap_or usage_default (bt_get (ad_tenants st) tenant)"

definition fits :: "admission_state \<Rightarrow> waiting \<Rightarrow> bool" where
  "fits st work =
     (let tenant = tenant_usage st (wt_tenant work)
      in us_requests (ad_active st) < al_requests (wt_limits work)
         \<and> us_requests tenant < al_requests_per_tenant (wt_limits work)
         \<and> sum_within (us_subqueries (ad_active st)) (wt_subqueries work) (al_subqueries (wt_limits work))
         \<and> sum_within (us_subqueries tenant) (wt_subqueries work) (al_subqueries_per_tenant (wt_limits work))
         \<and> sum_within (us_bytes (ad_active st)) (wt_bytes work) (al_bytes (wt_limits work))
         \<and> sum_within (us_bytes tenant) (wt_bytes work) (al_bytes_per_tenant (wt_limits work)))"

definition add_usage :: "usage \<Rightarrow> waiting \<Rightarrow> usage option" where
  "add_usage usage work =
     Option.bind (checked_add (us_requests usage) 1) (\<lambda>r.
     Option.bind (checked_add (us_subqueries usage) (wt_subqueries work)) (\<lambda>q.
     Option.bind (checked_add (us_bytes usage) (wt_bytes work)) (\<lambda>b.
       Some \<lparr>us_requests = r, us_subqueries = q, us_bytes = b\<rparr>)))"

definition subtract_usage :: "usage \<Rightarrow> waiting \<Rightarrow> usage option" where
  "subtract_usage usage work =
     Option.bind (checked_sub (us_requests usage) 1) (\<lambda>r.
     Option.bind (checked_sub (us_subqueries usage) (wt_subqueries work)) (\<lambda>q.
     Option.bind (checked_sub (us_bytes usage) (wt_bytes work)) (\<lambda>b.
       Some \<lparr>us_requests = r, us_subqueries = q, us_bytes = b\<rparr>)))"

section \<open>The critical sections\<close>

definition too_large :: "usize \<Rightarrow> usize \<Rightarrow> admission_limits \<Rightarrow> bool" where
  "too_large subqueries bytes limits \<longleftrightarrow>
     al_requests limits = 0 \<or> al_requests_per_tenant limits = 0
     \<or> subqueries > al_subqueries limits \<or> subqueries > al_subqueries_per_tenant limits
     \<or> bytes > al_bytes limits \<or> bytes > al_bytes_per_tenant limits"

definition queue_full :: "admission_state \<Rightarrow> string \<Rightarrow> admission_limits \<Rightarrow> bool" where
  "queue_full st tenant limits \<longleftrightarrow>
     length (ad_queue st) \<ge> al_queued limits
     \<or> length (filter (\<lambda>w. wt_tenant w = tenant) (ad_queue st)) \<ge> al_queued_per_tenant limits"

definition enqueue ::
  "string \<Rightarrow> usize \<Rightarrow> usize \<Rightarrow> admission_limits \<Rightarrow> admission_state \<Rightarrow> (admission_error + u64) \<times> admission_state" where
  "enqueue tenant subqueries bytes limits st =
     (let retry_after = max (al_retry_after limits) 1
      in if too_large subqueries bytes limits then (Inl (Request_too_large retry_after), st)
         else if queue_full st tenant limits then (Inl (Queue_full retry_after), st)
         else let waiter = \<lparr>wt_id = ad_next_id st, wt_tenant = tenant, wt_subqueries = subqueries, wt_bytes = bytes, wt_limits = limits\<rparr>
              in (Inr (ad_next_id st), st\<lparr>ad_next_id := ad_next_id st + 1, ad_queue := ad_queue st @ [waiter]\<rparr>))"

definition position :: "('a \<Rightarrow> bool) \<Rightarrow> 'a list \<Rightarrow> nat option" where
  "position P xs = (let i = length (takeWhile (\<lambda>x. \<not> P x) xs) in if i < length xs then Some i else None)"

definition must_wait :: "admission_state \<Rightarrow> nat \<Rightarrow> waiting \<Rightarrow> bool" where
  "must_wait st i work \<longleftrightarrow> \<not> fits st work
     \<or> list_ex (\<lambda>earlier. wt_tenant earlier = wt_tenant work \<or> fits st earlier) (take i (ad_queue st))"

definition try_admit :: "u64 \<Rightarrow> admission_state \<Rightarrow> (waiting option \<times> admission_state) option" where
  "try_admit ident st =
     (case position (\<lambda>w. wt_id w = ident) (ad_queue st) of
        None \<Rightarrow> Some (None, st)
      | Some i \<Rightarrow>
          let work = ad_queue st ! i
          in if must_wait st i work then Some (None, st)
             else Option.bind (add_usage (ad_active st) work) (\<lambda>active.
                  Option.bind (add_usage (tenant_usage st (wt_tenant work)) work) (\<lambda>tenant.
                    Some (Some work, st\<lparr>ad_queue := take i (ad_queue st) @ drop (Suc i) (ad_queue st),
                                        ad_active := active,
                                        ad_tenants := bt_insert (wt_tenant work) tenant (ad_tenants st)\<rparr>))))"

definition remove_waiter :: "u64 \<Rightarrow> admission_state \<Rightarrow> admission_state" where
  "remove_waiter ident st = st\<lparr>ad_queue := filter (\<lambda>w. wt_id w \<noteq> ident) (ad_queue st)\<rparr>"

definition release :: "waiting \<Rightarrow> admission_state \<Rightarrow> admission_state option" where
  "release work st =
     Option.bind (subtract_usage (ad_active st) work) (\<lambda>active.
       case bt_get (ad_tenants st) (wt_tenant work) of
         None \<Rightarrow> Some (st\<lparr>ad_active := active\<rparr>)
       | Some tenant \<Rightarrow> Option.bind (subtract_usage tenant work) (\<lambda>tenant.
           Some (st\<lparr>ad_active := active,
                    ad_tenants := (if tenant = usage_default then bt_remove (wt_tenant work) (ad_tenants st)
                                   else bt_insert (wt_tenant work) tenant (ad_tenants st))\<rparr>)))"

section \<open>Requests in flight\<close>

text \<open>
  The controller with the requests that use it: the permits that are held, and the queued requests that
  will poll again.  A request that polled in vain sleeps until the next notification, which wakes every
  queued request; enqueuing and being admitted notify nobody.
\<close>

record admission_system =
  sy_state :: admission_state
  sy_permits :: "waiting list"
  sy_ready :: "u64 set"

definition notify_waiters :: "admission_system \<Rightarrow> admission_system" where
  "notify_waiters sy = sy\<lparr>sy_ready := wt_id ` set (ad_queue (sy_state sy))\<rparr>"

definition system_new :: "admission_limits \<Rightarrow> admission_system" where
  "system_new limits = \<lparr>sy_state = controller_new limits, sy_permits = [], sy_ready = {}\<rparr>"

definition limits_usize :: "admission_limits \<Rightarrow> bool" where
  "limits_usize l \<longleftrightarrow> al_requests l \<le> usize_max \<and> al_subqueries l \<le> usize_max \<and> al_bytes l \<le> usize_max"

inductive admission_step :: "admission_system \<Rightarrow> admission_system \<Rightarrow> bool" where
  reloaded: "admission_step sy (notify_waiters (sy\<lparr>sy_state := reload limits (sy_state sy)\<rparr>))"
| queued: "enqueue tenant subqueries bytes limits (sy_state sy) = (Inr ident, st)
    \<Longrightarrow> limits_usize limits \<Longrightarrow> ident \<notin> wt_id ` set (ad_queue (sy_state sy))
    \<Longrightarrow> admission_step sy (sy\<lparr>sy_state := st, sy_ready := insert ident (sy_ready sy)\<rparr>)"
| asleep: "ident \<in> sy_ready sy \<Longrightarrow> try_admit ident (sy_state sy) = Some (None, st)
    \<Longrightarrow> admission_step sy (sy\<lparr>sy_state := st, sy_ready := sy_ready sy - {ident}\<rparr>)"
| admitted: "ident \<in> sy_ready sy \<Longrightarrow> try_admit ident (sy_state sy) = Some (Some work, st)
    \<Longrightarrow> admission_step sy (sy\<lparr>sy_state := st, sy_permits := work # sy_permits sy, sy_ready := sy_ready sy - {ident}\<rparr>)"
| cancelled: "ident \<in> wt_id ` set (ad_queue (sy_state sy))
    \<Longrightarrow> admission_step sy (notify_waiters (sy\<lparr>sy_state := remove_waiter ident (sy_state sy)\<rparr>))"
| released: "work \<in> set (sy_permits sy) \<Longrightarrow> release work (sy_state sy) = Some st
    \<Longrightarrow> admission_step sy (notify_waiters (sy\<lparr>sy_state := st, sy_permits := remove1 work (sy_permits sy)\<rparr>))"

inductive_cases admission_stepE: "admission_step sy sy'"

end
