(* ===== verification/Query_Cache.thy ===== *)
theory Query_Cache
  imports O11y_Prelude
begin

text \<open>
  The in-memory query cache (\<open>crates/query-frontend/src/cache.rs\<close>): the ceilings, the entries with the
  order they were stored in, and get, insert, sweep and invalidate with the counters they move.  The clock
  and the weigher are parameters; \<open>None\<close> is an overflow of a byte sum, which panics.
\<close>

section \<open>Ceilings, counters and keys\<close>

record cache_policy =
  cp_max_objects :: "usize option"
  cp_max_bytes :: "usize option"
  cp_max_objects_per_tenant :: "usize option"
  cp_max_bytes_per_tenant :: "usize option"

definition policy_default :: cache_policy where
  "policy_default = \<lparr>cp_max_objects = Some 10000, cp_max_bytes = Some (512 * 1024 * 1024),
     cp_max_objects_per_tenant = Some 1000, cp_max_bytes_per_tenant = Some (64 * 1024 * 1024)\<rparr>"

record cache_metrics =
  cm_hits :: u64
  cm_misses :: u64
  cm_stale :: u64
  cm_evictions :: u64
  cm_sweeps :: u64
  cm_bytes :: i64
  cm_errors :: u64

definition metrics_default :: cache_metrics where
  "metrics_default = \<lparr>cm_hits = 0, cm_misses = 0, cm_stale = 0, cm_evictions = 0, cm_sweeps = 0, cm_bytes = 0, cm_errors = 0\<rparr>"

text \<open>A cache key is a tenant and the bytes that identify a subquery, ordered in this order.\<close>

type_synonym cache_key = "string \<times> u8 list"

definition key_tenant :: "cache_key \<Rightarrow> string" where
  "key_tenant key = fst key"

record 'v memory_cache_entry =
  me_stored_at :: i64
  me_bytes :: usize
  me_value :: 'v

record 'v memory_cache =
  mc_entries :: "(cache_key, 'v memory_cache_entry) btree_map"
  mc_order :: "cache_key list"
  mc_ttl :: "nat option"
  mc_policy :: cache_policy
  mc_metrics :: cache_metrics

definition cache_new :: "nat option \<Rightarrow> cache_policy \<Rightarrow> 'v memory_cache" where
  "cache_new ttl policy = \<lparr>mc_entries = [], mc_order = [], mc_ttl = ttl, mc_policy = policy, mc_metrics = metrics_default\<rparr>"

definition gauge_bytes :: "usize \<Rightarrow> i64" where
  "gauge_bytes bytes = (if int bytes \<le> i64_max then int bytes else i64_max)"

definition is_expired :: "i64 \<Rightarrow> i64 \<Rightarrow> nat \<Rightarrow> bool" where
  "is_expired stored_at now ttl \<longleftrightarrow> nat (saturating_sub now stored_at) > ttl"

section \<open>Counting and removing\<close>

definition usize_sum :: "usize list \<Rightarrow> usize option" where
  "usize_sum ns = fold_opt (\<lambda>n acc. if acc + n \<le> usize_max then Some (acc + n) else None) ns 0"

definition tenant_objects :: "string \<Rightarrow> 'v memory_cache \<Rightarrow> usize" where
  "tenant_objects tenant mc = length (filter (\<lambda>key. key_tenant key = tenant) (bt_keys (mc_entries mc)))"

definition tenant_bytes :: "string \<Rightarrow> 'v memory_cache \<Rightarrow> usize option" where
  "tenant_bytes tenant mc = usize_sum (map (me_bytes \<circ> snd) (filter (\<lambda>(key, _). key_tenant key = tenant) (mc_entries mc)))"

definition all_bytes :: "'v memory_cache \<Rightarrow> usize option" where
  "all_bytes mc = usize_sum (map (me_bytes \<circ> snd) (mc_entries mc))"

definition remove_memory_entry :: "cache_key \<Rightarrow> 'v memory_cache \<Rightarrow> bool \<times> 'v memory_cache" where
  "remove_memory_entry key mc =
     (case bt_get (mc_entries mc) key of
        None \<Rightarrow> (False, mc)
      | Some entry \<Rightarrow> (True, mc\<lparr>mc_entries := bt_remove key (mc_entries mc),
                               mc_order := filter (\<lambda>candidate. candidate \<noteq> key) (mc_order mc),
                               mc_metrics := (mc_metrics mc)\<lparr>cm_bytes := wrap_i64 (cm_bytes (mc_metrics mc) - gauge_bytes (me_bytes entry))\<rparr>\<rparr>))"

definition evict_oldest_memory :: "string option \<Rightarrow> 'v memory_cache \<Rightarrow> bool \<times> 'v memory_cache" where
  "evict_oldest_memory tenant mc =
     (case find (\<lambda>key. case tenant of None \<Rightarrow> True | Some t \<Rightarrow> key_tenant key = t) (mc_order mc) of
        None \<Rightarrow> (False, mc)
      | Some key \<Rightarrow>
          (case remove_memory_entry key mc of
             (removed, mc') \<Rightarrow>
               (removed, if removed then mc'\<lparr>mc_metrics := (mc_metrics mc')\<lparr>cm_evictions := cm_evictions (mc_metrics mc') + 1\<rparr>\<rparr> else mc')))"

definition remove_all :: "cache_key list \<Rightarrow> 'v memory_cache \<Rightarrow> 'v memory_cache" where
  "remove_all keys mc = fold (\<lambda>key mc. snd (remove_memory_entry key mc)) keys mc"

section \<open>The operations\<close>

definition sweep_expired :: "i64 \<Rightarrow> 'v memory_cache \<Rightarrow> usize \<times> 'v memory_cache" where
  "sweep_expired now mc =
     (case mc_ttl mc of
        None \<Rightarrow> (0, mc)
      | Some ttl \<Rightarrow>
          let expired = map fst (filter (\<lambda>(_, entry). is_expired (me_stored_at entry) now ttl) (mc_entries mc));
              mc' = remove_all expired mc
          in (length expired,
              mc'\<lparr>mc_metrics := (mc_metrics mc')\<lparr>cm_sweeps := cm_sweeps (mc_metrics mc') + of_nat (length expired)\<rparr>\<rparr>))"

definition cache_get :: "i64 \<Rightarrow> cache_key \<Rightarrow> 'v memory_cache \<Rightarrow> 'v option \<times> 'v memory_cache" where
  "cache_get now key mc =
     (case bt_get (mc_entries mc) key of
        None \<Rightarrow> (None, mc\<lparr>mc_metrics := (mc_metrics mc)\<lparr>cm_misses := cm_misses (mc_metrics mc) + 1\<rparr>\<rparr>)
      | Some entry \<Rightarrow>
          if (case mc_ttl mc of None \<Rightarrow> False | Some ttl \<Rightarrow> is_expired (me_stored_at entry) now ttl)
          then let mc' = snd (remove_memory_entry key mc)
               in (None, mc'\<lparr>mc_metrics := (mc_metrics mc')\<lparr>cm_stale := cm_stale (mc_metrics mc') + 1,
                                                            cm_misses := cm_misses (mc_metrics mc') + 1\<rparr>\<rparr>)
          else (Some (me_value entry), mc\<lparr>mc_metrics := (mc_metrics mc)\<lparr>cm_hits := cm_hits (mc_metrics mc) + 1\<rparr>\<rparr>))"

definition over_limit :: "usize \<Rightarrow> usize option \<Rightarrow> bool" where
  "over_limit bytes limit = (case limit of None \<Rightarrow> False | Some n \<Rightarrow> bytes > n)"

definition limit_or_max :: "usize option \<Rightarrow> usize" where
  "limit_or_max limit = (case limit of None \<Rightarrow> usize_max | Some n \<Rightarrow> n)"

definition tenant_is_full :: "string \<Rightarrow> usize \<Rightarrow> 'v memory_cache \<Rightarrow> bool option" where
  "tenant_is_full tenant bytes mc =
     (if tenant_objects tenant mc \<ge> limit_or_max (cp_max_objects_per_tenant (mc_policy mc)) then Some True
      else map_option (\<lambda>held. usize_saturating_add held bytes > limit_or_max (cp_max_bytes_per_tenant (mc_policy mc)))
             (tenant_bytes tenant mc))"

definition cache_is_full :: "usize \<Rightarrow> 'v memory_cache \<Rightarrow> bool option" where
  "cache_is_full bytes mc =
     (if length (mc_entries mc) \<ge> limit_or_max (cp_max_objects (mc_policy mc)) then Some True
      else map_option (\<lambda>held. usize_saturating_add held bytes > limit_or_max (cp_max_bytes (mc_policy mc))) (all_bytes mc))"

lemma evict_shrinks:
  assumes "evict_oldest_memory tenant mc = (True, mc')"
  shows "length (mc_order mc') < length (mc_order mc)"
proof -
  obtain key where key: "find (\<lambda>key. case tenant of None \<Rightarrow> True | Some t \<Rightarrow> key_tenant key = t) (mc_order mc) = Some key"
      "fst (remove_memory_entry key mc)" "mc_order mc' = mc_order (snd (remove_memory_entry key mc))"
    using assms by (auto simp: evict_oldest_memory_def split: option.splits prod.splits if_splits)
  then have "mc_order mc' = filter (\<lambda>candidate. candidate \<noteq> key) (mc_order mc)" "key \<in> set (mc_order mc)"
    by (auto simp: remove_memory_entry_def find_Some_iff split: option.splits)
  then show ?thesis by (simp add: length_filter_less)
qed

function evict_while :: "('v memory_cache \<Rightarrow> bool option) \<Rightarrow> string option \<Rightarrow> 'v memory_cache \<Rightarrow> 'v memory_cache option" where
  "evict_while full tenant mc =
     (case full mc of
        None \<Rightarrow> None
      | Some False \<Rightarrow> Some mc
      | Some True \<Rightarrow>
          (case evict_oldest_memory tenant mc of
             (removed, mc') \<Rightarrow> if removed then evict_while full tenant mc' else Some mc'))"
  by pat_completeness auto
termination
  by (relation "measure (\<lambda>(full, tenant, mc). length (mc_order mc))") (auto dest: evict_shrinks [OF sym])

declare evict_while.simps [simp del]

definition store_entry :: "i64 \<Rightarrow> cache_key \<Rightarrow> usize \<Rightarrow> 'v \<Rightarrow> 'v memory_cache \<Rightarrow> 'v memory_cache" where
  "store_entry now key bytes v mc =
     mc\<lparr>mc_order := mc_order mc @ [key],
        mc_entries := bt_insert key \<lparr>me_stored_at = now, me_bytes = bytes, me_value = v\<rparr> (mc_entries mc),
        mc_metrics := (mc_metrics mc)\<lparr>cm_bytes := wrap_i64 (cm_bytes (mc_metrics mc) + gauge_bytes bytes)\<rparr>\<rparr>"

text \<open>The clock is read once for the sweep and once for the time the entry is stored at.\<close>

definition cache_insert ::
  "('v \<Rightarrow> usize) \<Rightarrow> i64 \<Rightarrow> i64 \<Rightarrow> cache_key \<Rightarrow> 'v \<Rightarrow> 'v memory_cache \<Rightarrow> 'v memory_cache option" where
  "cache_insert weigh sweep_now now key v mc =
     (let mc = snd (sweep_expired sweep_now mc);
          mc = (if bt_get (mc_entries mc) key = None then mc else snd (remove_memory_entry key mc));
          bytes = weigh v
      in if over_limit bytes (cp_max_bytes (mc_policy mc)) \<or> over_limit bytes (cp_max_bytes_per_tenant (mc_policy mc))
         then Some (mc\<lparr>mc_metrics := (mc_metrics mc)\<lparr>cm_errors := cm_errors (mc_metrics mc) + 1\<rparr>\<rparr>)
         else Option.bind (evict_while (tenant_is_full (key_tenant key) bytes) (Some (key_tenant key)) mc) (\<lambda>mc.
              Option.bind (evict_while (cache_is_full bytes) None mc) (\<lambda>mc.
                Some (store_entry now key bytes v mc))))"

definition invalidate_tenant :: "string \<Rightarrow> 'v memory_cache \<Rightarrow> usize \<times> 'v memory_cache" where
  "invalidate_tenant tenant mc =
     (let keys = filter (\<lambda>key. key_tenant key = tenant) (bt_keys (mc_entries mc))
      in (length keys, remove_all keys mc))"

end
