(* ===== verification/Query_Frontend.thy ===== *)
theory Query_Frontend
  imports Admission Query_Cache
begin

text \<open>
  The query pipeline (\<open>crates/query-frontend/src/execute.rs\<close>): plan, look up the cache, admit and run the
  missing subqueries in batches with retries, store what may be cached, and merge in plan order.  The signal
  adapter is a parameter.  \<open>None\<close> is a panic of the cache or the controller, or a request that is still
  waiting after the polls it was given.
\<close>

section \<open>Plans, options and adapters\<close>

record 'q planned_query =
  pq_query :: 'q
  pq_key :: cache_key
  pq_end :: i64
  pq_bytes :: usize

record execution_options =
  eo_parallelism :: usize
  eo_max_retries :: usize
  eo_freshness :: nat

definition options_default :: execution_options where
  "options_default = \<lparr>eo_parallelism = 14, eo_max_retries = 5, eo_freshness = 10 * 60 * 1000\<rparr>"

record ('req, 'q, 'out, 'resp, 'err, 's) query_adapter =
  qa_plan :: "'req \<Rightarrow> 'err + 'q planned_query list"
  qa_execute :: "'q \<Rightarrow> 's \<Rightarrow> ('err + 'out) \<times> 's"
  qa_is_retryable :: "'err \<Rightarrow> bool"
  qa_should_cache :: "'out \<Rightarrow> bool"
  qa_admission_limits :: "'req \<Rightarrow> admission_limits option"
  qa_merge :: "'req \<Rightarrow> 'out list \<Rightarrow> 'err + 'resp"

datatype 'err frontend_error = Adapter_error 'err | Admission_failed admission_error

text \<open>
  What a request runs against: the cache and the controller, the state of the backend, and the readings of
  the clock.  The order in which the futures of a batch complete, the weight of a result, and what other
  requests do to the controller while this one sleeps belong to the environment.
\<close>

record ('out, 's) frontend_world =
  fw_cache :: "'out memory_cache"
  fw_admission :: admission_state
  fw_backend :: 's
  fw_readings :: "nat \<Rightarrow> i64"
  fw_reading :: nat

record ('q, 'out) frontend_env =
  fe_complete :: "(nat \<times> 'q planned_query) list \<Rightarrow> (nat \<times> 'q planned_query) list"
  fe_weigh :: "'out \<Rightarrow> usize"
  fe_others :: "admission_state \<Rightarrow> admission_state"
  fe_polls :: nat

definition read_clock :: "('out, 's) frontend_world \<Rightarrow> i64 \<times> ('out, 's) frontend_world" where
  "read_clock w = (fw_readings w (fw_reading w), w\<lparr>fw_reading := Suc (fw_reading w)\<rparr>)"

section \<open>The cache and the controller\<close>

definition lookup :: "cache_key \<Rightarrow> ('out, 's) frontend_world \<Rightarrow> 'out option \<times> ('out, 's) frontend_world" where
  "lookup key w =
     (case read_clock w of
        (now, w) \<Rightarrow> case cache_get now key (fw_cache w) of (r, mc) \<Rightarrow> (r, w\<lparr>fw_cache := mc\<rparr>))"

fun lookup_all :: "cache_key list \<Rightarrow> ('out, 's) frontend_world \<Rightarrow> 'out option list \<times> ('out, 's) frontend_world" where
  "lookup_all [] w = ([], w)"
| "lookup_all (key # keys) w =
     (case lookup key w of (r, w) \<Rightarrow> case lookup_all keys w of (rs, w) \<Rightarrow> (r # rs, w))"

fun poll_until_admitted :: "(admission_state \<Rightarrow> admission_state) \<Rightarrow> nat \<Rightarrow> u64 \<Rightarrow> admission_state \<Rightarrow> (waiting \<times> admission_state) option" where
  "poll_until_admitted others 0 ident st = None"
| "poll_until_admitted others (Suc polls) ident st =
     (case try_admit ident st of
        None \<Rightarrow> None
      | Some (Some work, st) \<Rightarrow> Some (work, st)
      | Some (None, st) \<Rightarrow> poll_until_admitted others polls ident (others st))"

definition acquire_with_limits ::
  "('q, 'out) frontend_env \<Rightarrow> string \<Rightarrow> usize \<Rightarrow> usize \<Rightarrow> admission_limits \<Rightarrow> admission_state
     \<Rightarrow> ((admission_error + waiting) \<times> admission_state) option" where
  "acquire_with_limits env tenant subqueries bytes limits st =
     (case enqueue tenant subqueries bytes limits st of
        (Inl e, st) \<Rightarrow> Some (Inl e, st)
      | (Inr ident, st) \<Rightarrow> map_option (\<lambda>(work, st). (Inr work, st)) (poll_until_admitted (fe_others env) (fe_polls env) ident st))"

definition acquire ::
  "('q, 'out) frontend_env \<Rightarrow> string \<Rightarrow> usize \<Rightarrow> usize \<Rightarrow> admission_limits option \<Rightarrow> admission_state
     \<Rightarrow> ((admission_error + waiting) \<times> admission_state) option" where
  "acquire env tenant subqueries bytes limits st =
     acquire_with_limits env tenant subqueries bytes (unwrap_or (ad_limits st) limits) st"

section \<open>One subquery\<close>

fun run_with_retries ::
  "('req, 'q, 'out, 'resp, 'err, 's) query_adapter \<Rightarrow> nat \<Rightarrow> 'q \<Rightarrow> 's \<Rightarrow> ('err + 'out) \<times> 's" where
  "run_with_retries ad 0 q s = qa_execute ad q s"
| "run_with_retries ad (Suc retries) q s =
     (case qa_execute ad q s of
        (Inr r, s) \<Rightarrow> (Inr r, s)
      | (Inl e, s) \<Rightarrow> if qa_is_retryable ad e then run_with_retries ad retries q s else (Inl e, s))"

definition cacheable :: "i64 \<Rightarrow> i64 \<Rightarrow> nat \<Rightarrow> bool" where
  "cacheable end_ms now freshness \<longleftrightarrow> end_ms \<le> saturating_sub now (min (int freshness) i64_max)"

definition execute_uncached ::
  "('q, 'out) frontend_env \<Rightarrow> ('req, 'q, 'out, 'resp, 'err, 's) query_adapter \<Rightarrow> execution_options \<Rightarrow> 'q planned_query
     \<Rightarrow> ('out, 's) frontend_world \<Rightarrow> (('err frontend_error + 'out) \<times> ('out, 's) frontend_world) option" where
  "execute_uncached env ad options planned w =
     (case run_with_retries ad (eo_max_retries options) (pq_query planned) (fw_backend w) of
        (Inl e, s) \<Rightarrow> Some (Inl (Adapter_error e), w\<lparr>fw_backend := s\<rparr>)
      | (Inr r, s) \<Rightarrow>
          let w = w\<lparr>fw_backend := s\<rparr>
          in if \<not> qa_should_cache ad r then Some (Inr r, w)
             else case read_clock w of
                    (now, w) \<Rightarrow>
                      if \<not> cacheable (pq_end planned) now (eo_freshness options) then Some (Inr r, w)
                      else case read_clock w of
                             (swept, w) \<Rightarrow> case read_clock w of
                               (stored, w) \<Rightarrow> map_option (\<lambda>mc. (Inr r, w\<lparr>fw_cache := mc\<rparr>))
                                 (cache_insert (fe_weigh env) swept stored (pq_key planned) r (fw_cache w)))"

section \<open>A request\<close>

fun run_batch ::
  "('q, 'out) frontend_env \<Rightarrow> ('req, 'q, 'out, 'resp, 'err, 's) query_adapter \<Rightarrow> execution_options \<Rightarrow> (nat \<times> 'q planned_query) list
     \<Rightarrow> ('out, 's) frontend_world \<Rightarrow> (('err frontend_error + (nat \<times> 'out) list) \<times> ('out, 's) frontend_world) option" where
  "run_batch env ad options [] w = Some (Inr [], w)"
| "run_batch env ad options ((i, planned) # batch) w =
     (case execute_uncached env ad options planned w of
        None \<Rightarrow> None
      | Some (Inl e, w) \<Rightarrow> Some (Inl e, w)
      | Some (Inr r, w) \<Rightarrow> map_option (\<lambda>(rs, w). (map_sum (\<lambda>e. e) (\<lambda>rs. (i, r) # rs) rs, w)) (run_batch env ad options batch w))"

definition batch_bytes :: "usize \<Rightarrow> (nat \<times> 'q planned_query) list \<Rightarrow> usize" where
  "batch_bytes fallback batch = fold (\<lambda>(_, planned) acc. usize_saturating_add acc (max (pq_bytes planned) fallback)) batch 0"

definition run_admitted ::
  "('q, 'out) frontend_env \<Rightarrow> ('req, 'q, 'out, 'resp, 'err, 's) query_adapter \<Rightarrow> execution_options \<Rightarrow> admission_limits option
     \<Rightarrow> (nat \<times> 'q planned_query) list \<Rightarrow> ('out, 's) frontend_world
     \<Rightarrow> (('err frontend_error + (nat \<times> 'out) list) \<times> ('out, 's) frontend_world) option" where
  "run_admitted env ad options limits batch w =
     (let fallback = (case limits of None \<Rightarrow> 1 | Some l \<Rightarrow> al_bytes_per_subquery l);
          tenant = key_tenant (pq_key (snd (hd batch)))
      in case acquire env tenant (length batch) (batch_bytes fallback batch) limits (fw_admission w) of
           None \<Rightarrow> None
         | Some (Inl e, st) \<Rightarrow> Some (Inl (Admission_failed e), w\<lparr>fw_admission := st\<rparr>)
         | Some (Inr permit, st) \<Rightarrow>
             Option.bind (run_batch env ad options (fe_complete env batch) (w\<lparr>fw_admission := st\<rparr>)) (\<lambda>(r, w).
             Option.bind (release permit (fw_admission w)) (\<lambda>st.
               Some (r, w\<lparr>fw_admission := st\<rparr>))))"

function run_missing ::
  "('q, 'out) frontend_env \<Rightarrow> ('req, 'q, 'out, 'resp, 'err, 's) query_adapter \<Rightarrow> execution_options \<Rightarrow> admission_limits option
     \<Rightarrow> (nat \<times> 'q planned_query) list \<Rightarrow> (nat \<times> 'out) list \<Rightarrow> ('out, 's) frontend_world
     \<Rightarrow> (('err frontend_error + (nat \<times> 'out) list) \<times> ('out, 's) frontend_world) option" where
  "run_missing env ad options limits missing results w =
     (if missing = [] \<or> eo_parallelism options = 0 then Some (Inr results, w)
      else let n = min (length missing) (eo_parallelism options)
           in case run_admitted env ad options limits (take n missing) w of
                None \<Rightarrow> None
              | Some (Inl e, w) \<Rightarrow> Some (Inl e, w)
              | Some (Inr rs, w) \<Rightarrow> run_missing env ad options limits (drop n missing) (results @ rs) w)"
  by pat_completeness auto
termination
  by (relation "measure (\<lambda>(env, ad, options, limits, missing, results, w). length missing)") auto

declare run_missing.simps [simp del]

definition missing_queries :: "'out option list \<Rightarrow> 'q planned_query list \<Rightarrow> (nat \<times> 'q planned_query) list" where
  "missing_queries cached planned = map snd (filter (\<lambda>(c, _). c = None) (zip cached (zip [0..<length planned] planned)))"

definition cached_results :: "'out option list \<Rightarrow> (nat \<times> 'out) list" where
  "cached_results cached = map (\<lambda>(i, c). (i, the c)) (filter (\<lambda>(_, c). c \<noteq> None) (zip [0..<length cached] cached))"

definition frontend_execute ::
  "('q, 'out) frontend_env \<Rightarrow> ('req, 'q, 'out, 'resp, 'err, 's) query_adapter \<Rightarrow> execution_options \<Rightarrow> 'req
     \<Rightarrow> ('out, 's) frontend_world \<Rightarrow> (('err frontend_error + 'resp) \<times> ('out, 's) frontend_world) option" where
  "frontend_execute env ad options request w =
     (case qa_plan ad request of
        Inl e \<Rightarrow> Some (Inl (Adapter_error e), w)
      | Inr planned \<Rightarrow>
          case lookup_all (map pq_key planned) w of
            (cached, w) \<Rightarrow>
              map_option (\<lambda>(r, w).
                  (case r of
                     Inl e \<Rightarrow> Inl e
                   | Inr results \<Rightarrow> map_sum Adapter_error (\<lambda>resp. resp) (qa_merge ad request (map snd (sort_key fst results))), w))
                (run_missing env ad options (qa_admission_limits ad request) (missing_queries cached planned) (cached_results cached) w))"

end
