(* ===== verification/Query_Cache_Spec.thy ===== *)
theory Query_Cache_Spec
  imports Query_Cache "HOL-Library.Sublist"
begin

text \<open>
  The in-memory cache keeps its ceilings: the entries and the order agree, the byte gauge is the sum of the
  entries, an insert never panics and leaves every ceiling kept, evicting the oldest first, and a stored
  value is what a get returns until it expires.
\<close>

section \<open>The invariant\<close>

definition bytes_of :: "(cache_key \<times> 'v memory_cache_entry) list \<Rightarrow> nat" where
  "bytes_of es = sum_list (map (me_bytes \<circ> snd) es)"

abbreviation tenant_entries :: "string \<Rightarrow> (cache_key \<times> 'v memory_cache_entry) list \<Rightarrow> (cache_key \<times> 'v memory_cache_entry) list" where
  "tenant_entries t es \<equiv> filter (\<lambda>(key, _). key_tenant key = t) es"

definition cache_inv :: "'v memory_cache \<Rightarrow> bool" where
  "cache_inv mc \<longleftrightarrow> bt_ok (mc_entries mc) \<and> distinct (mc_order mc) \<and> set (mc_order mc) = set (bt_keys (mc_entries mc))
     \<and> int (bytes_of (mc_entries mc)) \<le> i64_max \<and> cm_bytes (mc_metrics mc) = int (bytes_of (mc_entries mc))"

definition within :: "nat \<Rightarrow> usize option \<Rightarrow> bool" where
  "within n limit = (case limit of None \<Rightarrow> True | Some m \<Rightarrow> n \<le> m)"

definition cache_bounded :: "'v memory_cache \<Rightarrow> bool" where
  "cache_bounded mc \<longleftrightarrow> within (length (mc_entries mc)) (cp_max_objects (mc_policy mc)) \<and> within (bytes_of (mc_entries mc)) (cp_max_bytes (mc_policy mc))
     \<and> (\<forall>t. within (length (tenant_entries t (mc_entries mc))) (cp_max_objects_per_tenant (mc_policy mc))
          \<and> within (bytes_of (tenant_entries t (mc_entries mc))) (cp_max_bytes_per_tenant (mc_policy mc)))"

text \<open>The ceilings are not zero, and the bytes are bounded by what the gauge can hold.\<close>

definition policy_ok :: "cache_policy \<Rightarrow> bool" where
  "policy_ok p \<longleftrightarrow> (\<exists>n. cp_max_bytes p = Some n \<and> 1 \<le> n \<and> int n \<le> i64_max)
     \<and> cp_max_objects p \<noteq> Some 0 \<and> cp_max_objects_per_tenant p \<noteq> Some 0 \<and> cp_max_bytes_per_tenant p \<noteq> Some 0"

section \<open>Dropping entries\<close>

definition drops :: "(cache_key \<Rightarrow> bool) \<Rightarrow> 'v memory_cache \<Rightarrow> 'v memory_cache \<Rightarrow> bool" where
  "drops P mc mc' \<longleftrightarrow> mc_entries mc' = filter (\<lambda>(k, _). P k) (mc_entries mc) \<and> mc_order mc' = filter P (mc_order mc)
     \<and> mc_ttl mc' = mc_ttl mc \<and> mc_policy mc' = mc_policy mc \<and> cache_inv mc'"

lemma drops_inv: "drops P mc mc' \<Longrightarrow> cache_inv mc'" "drops P mc mc' \<Longrightarrow> mc_policy mc' = mc_policy mc"
  by (simp_all add: drops_def)

lemma drops_trans:
  assumes "drops P mc mc1" and "drops Q mc1 mc2"
  shows "drops (\<lambda>k. P k \<and> Q k) mc mc2"
proof -
  have "(\<lambda>x. (case x of (k, _) \<Rightarrow> Q k) \<and> (case x of (k, _) \<Rightarrow> P k)) = (\<lambda>(k, _ :: 'a memory_cache_entry). P k \<and> Q k)" by auto
  then show ?thesis using assms by (simp add: drops_def conj_commute)
qed

lemma drops_cong:
  assumes "drops P mc mc'" and same: "\<And>k. k \<in> set (mc_order mc) \<Longrightarrow> P k = Q k" and "cache_inv mc"
  shows "drops Q mc mc'"
proof -
  have "set (mc_order mc) = fst ` set (mc_entries mc)" using assms(3) by (simp add: cache_inv_def)
  then have "filter (\<lambda>(k, _). P k) (mc_entries mc) = filter (\<lambda>(k, _). Q k) (mc_entries mc)"
    using same by (intro filter_cong) (auto simp: image_iff, force+)
  moreover have "filter P (mc_order mc) = filter Q (mc_order mc)" using same by (intro filter_cong) auto
  ultimately show ?thesis using assms(1) by (simp add: drops_def)
qed

lemma drops_refl: "cache_inv mc \<Longrightarrow> drops (\<lambda>_. True) mc mc"
  by (simp add: drops_def)

lemma drops_metrics:
  assumes "drops P mc mc'" and "cm_bytes m = cm_bytes (mc_metrics mc')"
  shows "drops P mc (mc'\<lparr>mc_metrics := m\<rparr>)"
proof -
  have "cache_inv (mc'\<lparr>mc_metrics := m\<rparr>) \<longleftrightarrow> cache_inv mc'" using assms(2) by (simp add: cache_inv_def)
  then show ?thesis using assms(1) by (simp add: drops_def)
qed

lemma bytes_filter_le: "bytes_of (filter P es) \<le> bytes_of es"
  by (induction es) (auto simp: bytes_of_def)

lemma bytes_remove:
  assumes "bt_ok es" and "bt_get es k = Some e"
  shows "bytes_of (filter (\<lambda>(k', _). k' \<noteq> k) es) + me_bytes e = bytes_of es"
  using assms
proof (induction es)
  case (Cons x es)
  show ?case
  proof (cases "fst x = k")
    case True
    then have "filter (\<lambda>(k', _). k' \<noteq> k) es = es" using Cons.prems(1) by (force simp: filter_id_conv)
    then show ?thesis using True Cons.prems(2) by (cases x) (simp add: bytes_of_def)
  next
    case False
    then show ?thesis using Cons by (cases x) (auto simp: bytes_of_def)
  qed
qed simp

lemma bt_ok_filter: "bt_ok m \<Longrightarrow> bt_ok (filter P m)"
  by (induction m) auto

lemma remove_drops:
  assumes "cache_inv mc"
  shows "drops (\<lambda>k. k \<noteq> key) mc (snd (remove_memory_entry key mc))"
    and "fst (remove_memory_entry key mc) \<longleftrightarrow> key \<in> set (mc_order mc)"
proof -
  have keys: "set (mc_order mc) = fst ` set (mc_entries mc)" using assms by (simp add: cache_inv_def)
  show "fst (remove_memory_entry key mc) \<longleftrightarrow> key \<in> set (mc_order mc)"
    unfolding keys map_of_eq_None_iff [THEN arg_cong [of _ _ Not], simplified not_not, symmetric]
    by (simp add: remove_memory_entry_def split: option.split)
  show "drops (\<lambda>k. k \<noteq> key) mc (snd (remove_memory_entry key mc))"
  proof (cases "bt_get (mc_entries mc) key")
    case None
    then have absent: "key \<notin> fst ` set (mc_entries mc)" by (simp add: map_of_eq_None_iff)
    then have "filter (\<lambda>(k, _). k \<noteq> key) (mc_entries mc) = mc_entries mc" "filter (\<lambda>k. k \<noteq> key) (mc_order mc) = mc_order mc"
      using keys by (force simp: filter_id_conv)+
    then show ?thesis using assms None by (simp add: drops_def remove_memory_entry_def)
  next
    case (Some e)
    let ?es = "filter (\<lambda>(k, _). k \<noteq> key) (mc_entries mc)"
    have ok: "bt_ok (mc_entries mc)" and gauge: "cm_bytes (mc_metrics mc) = int (bytes_of (mc_entries mc))"
      and small: "int (bytes_of (mc_entries mc)) \<le> i64_max" using assms by (simp_all add: cache_inv_def)
    have es: "bt_remove key (mc_entries mc) = ?es" by (simp add: bt_remove_def case_prod_beta)
    have sum: "bytes_of ?es + me_bytes e = bytes_of (mc_entries mc)" by (rule bytes_remove [OF ok Some])
    then have "wrap_i64 (cm_bytes (mc_metrics mc) - gauge_bytes (me_bytes e)) = int (bytes_of ?es)"
      using small by (simp add: gauge gauge_bytes_def wrap_i64_id is_i64_def)
    moreover have "set (filter (\<lambda>k. k \<noteq> key) (mc_order mc)) = fst ` set ?es" using keys by force
    ultimately show ?thesis using assms Some sum small bt_ok_filter [OF ok]
      by (simp add: drops_def remove_memory_entry_def es cache_inv_def)
  qed
qed

lemma remove_all_drops:
  assumes "cache_inv mc"
  shows "drops (\<lambda>k. k \<notin> set keys) mc (remove_all keys mc)"
  using assms
proof (induction keys arbitrary: mc)
  case Nil
  then show ?case using drops_refl by (simp add: remove_all_def)
next
  case (Cons key keys)
  note one = remove_drops(1) [OF Cons.prems, of key]
  then have "cache_inv (snd (remove_memory_entry key mc))" by (simp add: drops_def)
  from drops_trans [OF one Cons.IH [OF this]] show ?case by (simp add: remove_all_def)
qed

section \<open>Evicting\<close>

definition matches :: "string option \<Rightarrow> cache_key \<Rightarrow> bool" where
  "matches tenant key = (case tenant of None \<Rightarrow> True | Some t \<Rightarrow> key_tenant key = t)"

lemma find_filter: "find P xs = (case filter P xs of [] \<Rightarrow> None | x # _ \<Rightarrow> Some x)"
  by (induction xs) auto

lemma evict_oldest:
  assumes "cache_inv mc"
  shows "filter (matches tenant) (mc_order mc) = [] \<Longrightarrow> evict_oldest_memory tenant mc = (False, mc)"
    and "filter (matches tenant) (mc_order mc) = key # rest \<Longrightarrow>
      \<exists>mc'. evict_oldest_memory tenant mc = (True, mc') \<and> drops (\<lambda>k. k \<noteq> key) mc mc'"
proof -
  have find: "find (\<lambda>key. case tenant of None \<Rightarrow> True | Some t \<Rightarrow> key_tenant key = t) (mc_order mc)
      = (case filter (matches tenant) (mc_order mc) of [] \<Rightarrow> None | k # _ \<Rightarrow> Some k)"
    using find_filter [of "matches tenant" "mc_order mc"] unfolding matches_def .
  show "evict_oldest_memory tenant mc = (False, mc)" if "filter (matches tenant) (mc_order mc) = []"
    using find that by (simp add: evict_oldest_memory_def)
  show "\<exists>mc'. evict_oldest_memory tenant mc = (True, mc') \<and> drops (\<lambda>k. k \<noteq> key) mc mc'"
    if cand: "filter (matches tenant) (mc_order mc) = key # rest"
  proof -
    have "key \<in> set (mc_order mc)" using cand by (metis filter_is_subset list.set_intros(1) subsetD)
    then have removed: "fst (remove_memory_entry key mc)" using remove_drops(2) [OF assms] by blast
    let ?mc = "snd (remove_memory_entry key mc)"
    have "evict_oldest_memory tenant mc = (True, ?mc\<lparr>mc_metrics := (mc_metrics ?mc)\<lparr>cm_evictions := cm_evictions (mc_metrics ?mc) + 1\<rparr>\<rparr>)"
      using find cand removed by (cases "remove_memory_entry key mc") (simp add: evict_oldest_memory_def)
    then show ?thesis using drops_metrics [OF remove_drops(1) [OF assms]] by simp
  qed
qed

text \<open>
  The loop drops a prefix of the candidates in the order they were stored, and stops where the ceiling is
  kept: when no candidate is left it is kept too.
\<close>

lemma evict_while_ok:
  assumes "cache_inv mc" and total: "\<And>P mc'. drops P mc mc' \<Longrightarrow> full mc' \<noteq> None"
    and empty: "\<And>P mc'. drops P mc mc' \<Longrightarrow> filter (matches tenant) (mc_order mc') = [] \<Longrightarrow> full mc' = Some False"
  shows "\<exists>n mc'. evict_while full tenant mc = Some mc' \<and> full mc' = Some False
    \<and> drops (\<lambda>k. k \<notin> set (take n (filter (matches tenant) (mc_order mc)))) mc mc'"
  using assms
proof (induction full tenant mc rule: evict_while.induct)
  case (1 full tenant mc)
  let ?cand = "filter (matches tenant) (mc_order mc)"
  have "full mc \<noteq> None" using 1(3) [OF drops_refl [OF 1(2)]] .
  then consider "full mc = Some False" | "full mc = Some True" by (cases "full mc") auto
  then show ?case
  proof cases
    case 1
    then show ?thesis using drops_refl [OF \<open>cache_inv mc\<close>] by (intro exI [of _ 0]) (simp add: evict_while.simps)
  next
    case 2
    have "?cand \<noteq> []" using 1(4) [OF drops_refl [OF 1(2)]] 2 by auto
    then obtain key rest where cand: "?cand = key # rest" by (cases ?cand) auto
    obtain mc1 where ev: "evict_oldest_memory tenant mc = (True, mc1)" "drops (\<lambda>k. k \<noteq> key) mc mc1"
      using evict_oldest(2) [OF 1(2) cand] by blast
    have inv: "cache_inv mc1" using ev(2) by (simp add: drops_def)
    have dist: "distinct ?cand" using 1(2) by (simp add: cache_inv_def)
    have "filter (matches tenant) (mc_order mc1) = filter (\<lambda>k. k \<noteq> key) ?cand"
      using ev(2) by (simp add: drops_def conj_commute)
    also have "\<dots> = rest" using dist by (auto simp: cand filter_id_conv)
    finally have cand1: "filter (matches tenant) (mc_order mc1) = rest" .
    obtain n mc' where rec: "evict_while full tenant mc1 = Some mc'" "full mc' = Some False"
        "drops (\<lambda>k. k \<notin> set (take n rest)) mc1 mc'"
      using 1(1) [OF 2 refl ev(1) [symmetric] TrueI inv] 1(3,4) drops_trans [OF ev(2)] unfolding cand1 by blast
    have "drops (\<lambda>k. k \<notin> set (take (Suc n) ?cand)) mc mc'"
      using drops_trans [OF ev(2) rec(3)] by (simp add: cand)
    moreover have "evict_while full tenant mc = Some mc'" using 2 ev(1) rec(1) by (subst evict_while.simps) simp
    ultimately show ?thesis using rec(2) by blast
  qed
qed

section \<open>When a ceiling is reached\<close>

lemma usize_sum_ok:
  assumes "sum_list ns \<le> usize_max"
  shows "usize_sum ns = Some (sum_list ns)"
proof -
  have "fold_opt (\<lambda>n acc. if acc + n \<le> usize_max then Some (acc + n) else None) ns a = Some (a + sum_list ns)"
    if "a + sum_list ns \<le> usize_max" for a
    using that by (induction ns arbitrary: a) (auto simp: add.assoc)
  from this [of 0] show ?thesis using assms by (simp add: usize_sum_def)
qed

lemma cache_inv_small: "cache_inv mc \<Longrightarrow> bytes_of (filter P (mc_entries mc)) \<le> nat i64_max"
  using bytes_filter_le [of P "mc_entries mc"] by (auto simp: cache_inv_def)

lemma tenant_full_eq:
  assumes "cache_inv mc" and "int bytes \<le> i64_max"
  shows "tenant_is_full t bytes mc = Some (limit_or_max (cp_max_objects_per_tenant (mc_policy mc)) \<le> length (tenant_entries t (mc_entries mc))
    \<or> limit_or_max (cp_max_bytes_per_tenant (mc_policy mc)) < bytes_of (tenant_entries t (mc_entries mc)) + bytes)"
proof -
  have small: "bytes_of (tenant_entries t (mc_entries mc)) \<le> nat i64_max" by (rule cache_inv_small [OF assms(1)])
  then have "tenant_bytes t mc = Some (bytes_of (tenant_entries t (mc_entries mc)))"
    unfolding tenant_bytes_def by (subst usize_sum_ok) (simp_all add: bytes_of_def)
  moreover have "tenant_objects t mc = length (tenant_entries t (mc_entries mc))"
    by (simp add: tenant_objects_def filter_map comp_def case_prod_unfold)
  ultimately show ?thesis using small assms(2) by (simp add: tenant_is_full_def usize_saturating_add_def min_def)
qed

lemma cache_full_eq:
  assumes "cache_inv mc" and "int bytes \<le> i64_max"
  shows "cache_is_full bytes mc = Some (limit_or_max (cp_max_objects (mc_policy mc)) \<le> length (mc_entries mc)
    \<or> limit_or_max (cp_max_bytes (mc_policy mc)) < bytes_of (mc_entries mc) + bytes)"
proof -
  have small: "bytes_of (mc_entries mc) \<le> nat i64_max" using cache_inv_small [OF assms(1), of "\<lambda>_. True"] by simp
  then have "all_bytes mc = Some (bytes_of (mc_entries mc))"
    unfolding all_bytes_def by (subst usize_sum_ok) (simp_all add: bytes_of_def)
  then show ?thesis using small assms(2) by (simp add: cache_is_full_def usize_saturating_add_def min_def)
qed

lemma entries_matching:
  assumes "cache_inv mc"
  shows "filter (matches (Some t)) (mc_order mc) = [] \<Longrightarrow> tenant_entries t (mc_entries mc) = []"
    and "filter (matches None) (mc_order mc) = [] \<Longrightarrow> mc_entries mc = []"
proof -
  have keys: "set (mc_order mc) = fst ` set (mc_entries mc)" using assms by (simp add: cache_inv_def)
  show "tenant_entries t (mc_entries mc) = []" if "filter (matches (Some t)) (mc_order mc) = []"
    using that keys by (auto simp: filter_empty_conv matches_def)
  show "mc_entries mc = []" if "filter (matches None) (mc_order mc) = []"
    using that keys by (auto simp: matches_def)
qed

text \<open>Room is made for a value that is not itself over a ceiling.\<close>

lemma make_room:
  assumes inv: "cache_inv mc" and pol: "policy_ok (mc_policy mc)"
    and fits: "\<not> over_limit bytes (cp_max_bytes (mc_policy mc))" "\<not> over_limit bytes (cp_max_bytes_per_tenant (mc_policy mc))"
  shows "\<exists>i j mc1 mc2. evict_while (tenant_is_full t bytes) (Some t) mc = Some mc1 \<and> evict_while (cache_is_full bytes) None mc1 = Some mc2
    \<and> drops (\<lambda>k. k \<notin> set (take i (filter (matches (Some t)) (mc_order mc)))) mc mc1 \<and> drops (\<lambda>k. k \<notin> set (take j (mc_order mc1))) mc1 mc2
    \<and> tenant_is_full t bytes mc2 = Some False \<and> cache_is_full bytes mc2 = Some False"
proof -
  obtain n where n: "cp_max_bytes (mc_policy mc) = Some n" "1 \<le> n" "int n \<le> i64_max" using pol by (auto simp: policy_ok_def)
  have small: "int bytes \<le> i64_max" using fits(1) n by (simp add: over_limit_def)
  have tenant_some: "tenant_is_full t bytes mc' \<noteq> None" if "drops P mc mc'" for P mc'
    using tenant_full_eq [OF drops_inv(1) [OF that] small, of t] by simp
  have tenant_empty: "tenant_is_full t bytes mc' = Some False"
    if "drops P mc mc'" "filter (matches (Some t)) (mc_order mc') = []" for P mc'
    using tenant_full_eq [OF drops_inv(1) [OF that(1)] small, of t] entries_matching(1) [OF drops_inv(1) [OF that(1)] that(2)]
      drops_inv(2) [OF that(1)] pol fits(2) small
    by (auto simp: limit_or_max_def over_limit_def policy_ok_def bytes_of_def split: option.splits)
  obtain i mc1 where one: "evict_while (tenant_is_full t bytes) (Some t) mc = Some mc1" "tenant_is_full t bytes mc1 = Some False"
      "drops (\<lambda>k. k \<notin> set (take i (filter (matches (Some t)) (mc_order mc)))) mc mc1"
    using evict_while_ok [of mc "tenant_is_full t bytes" "Some t"] inv tenant_some tenant_empty by blast
  have inv1: "cache_inv mc1" and pol1: "mc_policy mc1 = mc_policy mc" using one(3) by (simp_all add: drops_def)
  have cache_empty: "cache_is_full bytes mc' = Some False"
    if "drops P mc1 mc'" "filter (matches None) (mc_order mc') = []" for P mc'
    using cache_full_eq [OF drops_inv(1) [OF that(1)] small] entries_matching(2) [OF drops_inv(1) [OF that(1)] that(2)]
      drops_inv(2) [OF that(1)] pol fits(1) pol1 small
    by (auto simp: limit_or_max_def over_limit_def policy_ok_def bytes_of_def split: option.splits)
  have cache_some: "cache_is_full bytes mc' \<noteq> None" if "drops P mc1 mc'" for P mc'
    using cache_full_eq [OF drops_inv(1) [OF that] small] by simp
  have all: "filter (matches None) xs = xs" for xs by (induction xs) (simp_all add: matches_def)
  obtain j mc2 where two: "evict_while (cache_is_full bytes) None mc1 = Some mc2" "cache_is_full bytes mc2 = Some False"
      "drops (\<lambda>k. k \<notin> set (take j (mc_order mc1))) mc1 mc2"
    using evict_while_ok [of mc1 "cache_is_full bytes" None] inv1 cache_some cache_empty unfolding all by blast
  have "cache_inv mc2" and sub: "mc_policy mc2 = mc_policy mc1" "mc_entries mc2 = filter (\<lambda>(k, _). k \<notin> set (take j (mc_order mc1))) (mc_entries mc1)"
    using two(3) by (simp_all add: drops_def)
  moreover have "length (tenant_entries t (mc_entries mc2)) \<le> length (tenant_entries t (mc_entries mc1))"
      "bytes_of (tenant_entries t (mc_entries mc2)) \<le> bytes_of (tenant_entries t (mc_entries mc1))"
    unfolding sub(2) filter_filter conj_commute [of "case _ of (k, _) \<Rightarrow> k \<notin> set (take j (mc_order mc1))"]
    by (simp_all flip: filter_filter add: bytes_filter_le)
  ultimately have "tenant_is_full t bytes mc2 = Some False"
    using one(2) tenant_full_eq [OF inv1 small, of t] tenant_full_eq [OF _ small, of mc2 t] by simp
  then show ?thesis using one(1,3) two by blast
qed

section \<open>Storing\<close>

lemma bytes_insert:
  assumes "bt_get es k = None"
  shows "bytes_of (bt_insert k e es) = bytes_of es + me_bytes e" and "length (bt_insert k e es) = Suc (length es)"
    and "length (tenant_entries t (bt_insert k e es)) = length (tenant_entries t es) + (if key_tenant k = t then 1 else 0)"
    and "bytes_of (tenant_entries t (bt_insert k e es)) = bytes_of (tenant_entries t es) + (if key_tenant k = t then me_bytes e else 0)"
  using assms by (induction k e es rule: bt_insert.induct) (auto simp: bytes_of_def split: if_splits)

lemma keys_insert: "fst ` set (bt_insert k e es) = insert k (fst ` set es)"
  by (induction k e es rule: bt_insert.induct) auto

lemma within_mono: "m \<le> n \<Longrightarrow> within n limit \<Longrightarrow> within m limit"
  by (auto simp: within_def split: option.splits)

lemma drops_bounded:
  assumes "drops P mc mc'" and "cache_bounded mc"
  shows "cache_bounded mc'"
proof -
  have es: "mc_entries mc' = filter (\<lambda>(k, _). P k) (mc_entries mc)" and pol: "mc_policy mc' = mc_policy mc"
    using assms(1) by (simp_all add: drops_def)
  have "tenant_entries t (mc_entries mc') = filter (\<lambda>(k, _). P k) (tenant_entries t (mc_entries mc))" for t
    by (simp add: es conj_commute)
  moreover have "length (filter Q xs) \<le> length xs" "bytes_of (filter Q xs) \<le> bytes_of xs"
    for Q and xs :: "(cache_key \<times> 'a memory_cache_entry) list" by (simp_all add: bytes_filter_le)
  ultimately show ?thesis
    using assms(2) unfolding cache_bounded_def pol by (simp only: es) (blast intro: within_mono)
qed

lemma store_ok:
  assumes inv: "cache_inv mc" and bound: "cache_bounded mc" and pol: "policy_ok (mc_policy mc)"
    and fresh: "key \<notin> set (mc_order mc)" and small: "\<not> over_limit bytes (cp_max_bytes (mc_policy mc))"
    and room: "tenant_is_full (key_tenant key) bytes mc = Some False" "cache_is_full bytes mc = Some False"
  shows "cache_inv (store_entry now key bytes v mc) \<and> cache_bounded (store_entry now key bytes v mc)"
proof -
  obtain n where n: "cp_max_bytes (mc_policy mc) = Some n" "int n \<le> i64_max" using pol by (auto simp: policy_ok_def)
  have b: "int bytes \<le> i64_max" using small n by (simp add: over_limit_def)
  let ?e = "\<lparr>me_stored_at = now, me_bytes = bytes, me_value = v\<rparr>"
  have keys: "set (mc_order mc) = fst ` set (mc_entries mc)" using inv by (simp add: cache_inv_def)
  then have absent: "bt_get (mc_entries mc) key = None" using fresh by (simp add: map_of_eq_None_iff)
  note ins = bytes_insert [OF absent, where e = ?e]
  have all: "length (mc_entries mc) < limit_or_max (cp_max_objects (mc_policy mc))" "bytes_of (mc_entries mc) + bytes \<le> n"
    using room(2) n(1) unfolding cache_full_eq [OF inv b] by (simp_all add: limit_or_max_def not_le)
  have own: "length (tenant_entries (key_tenant key) (mc_entries mc)) < limit_or_max (cp_max_objects_per_tenant (mc_policy mc))"
      "bytes_of (tenant_entries (key_tenant key) (mc_entries mc)) + bytes \<le> limit_or_max (cp_max_bytes_per_tenant (mc_policy mc))"
    using room(1) unfolding tenant_full_eq [OF inv b] by (simp_all add: not_le)
  have "set (bt_keys (bt_insert key ?e (mc_entries mc))) = insert key (set (mc_order mc))"
    unfolding keys set_map by (rule keys_insert)
  then have "cache_inv (store_entry now key bytes v mc)"
    using inv fresh ins(1) all(2) n(2)
    by (simp add: cache_inv_def store_entry_def bt_ok_insert gauge_bytes_def wrap_i64_id is_i64_def)
  moreover have "cache_bounded (store_entry now key bytes v mc)"
    using bound all own ins(2-4) n(1) ins(1) unfolding cache_bounded_def
    by (auto simp: store_entry_def within_def limit_or_max_def split: option.splits)
  ultimately show ?thesis by blast
qed

section \<open>Properties\<close>

lemma filter_not_taken: "distinct xs \<Longrightarrow> filter (\<lambda>x. x \<notin> set (take n xs)) xs = drop n xs"
proof -
  assume dist: "distinct xs"
  have split: "xs = take n xs @ drop n xs" by simp
  have "filter (\<lambda>x. x \<notin> set (take n xs)) (drop n xs) = drop n xs"
    using set_take_disj_set_drop_if_distinct [OF dist, of n n] by (auto simp: filter_id_conv)
  moreover have "filter (\<lambda>x. x \<notin> set (take n xs)) (take n xs) = []" by simp
  ultimately show ?thesis by (subst (2) split) (simp only: filter_append append_Nil)
qed

lemma sweep_drops:
  assumes "cache_inv mc"
  shows "\<exists>P. drops P mc (snd (sweep_expired now mc))"
proof (cases "mc_ttl mc")
  case None
  then show ?thesis using drops_refl [OF assms] by (auto simp: sweep_expired_def)
next
  case (Some ttl)
  let ?expired = "map fst (filter (\<lambda>(_, entry). is_expired (me_stored_at entry) now ttl) (mc_entries mc))"
  show ?thesis
    using drops_metrics [OF remove_all_drops [OF assms, of ?expired]] Some
    by (intro exI [of _ "\<lambda>k. k \<notin> set ?expired"]) (simp add: sweep_expired_def Let_def)
qed

lemma insert_cleared:
  assumes "cache_inv mc"
  shows "drops (\<lambda>k. k \<noteq> key) mc (if bt_get (mc_entries mc) key = None then mc else snd (remove_memory_entry key mc))"
proof (cases "bt_get (mc_entries mc) key")
  case None
  have "set (mc_order mc) = fst ` set (mc_entries mc)" using assms by (simp add: cache_inv_def)
  then have "key \<notin> set (mc_order mc)" using None by (simp add: map_of_eq_None_iff)
  then have "drops (\<lambda>k. k \<noteq> key) mc mc" by (intro drops_cong [OF drops_refl [OF assms] _ assms]) auto
  then show ?thesis using None by simp
qed (use remove_drops(1) [OF assms, of key] in simp)

lemma drops_get: "drops P mc mc' \<Longrightarrow> bt_get (mc_entries mc') k = (if P k then bt_get (mc_entries mc) k else None)"
proof -
  have "bt_get (filter (\<lambda>(k, _). P k) es) k = (if P k then bt_get es k else None)" for es :: "(cache_key, 'a memory_cache_entry) btree_map"
    by (induction es) auto
  then show "drops P mc mc' \<Longrightarrow> ?thesis" by (simp add: drops_def)
qed

lemma insert_total:
  assumes "cache_inv mc" and "cache_bounded mc" and "policy_ok (mc_policy mc)"
  shows "\<exists>mc'. cache_insert weigh sweep_now now key v mc = Some mc' \<and> cache_inv mc' \<and> cache_bounded mc'
    \<and> mc_policy mc' = mc_policy mc \<and> (bt_get (mc_entries mc') key = None \<or> map_option me_value (bt_get (mc_entries mc') key) = Some v)
    \<and> (\<forall>k. k \<noteq> key \<longrightarrow> bt_get (mc_entries mc') k \<in> {None, bt_get (mc_entries mc) k})
    \<and> (\<not> over_limit (weigh v) (cp_max_bytes (mc_policy mc)) \<and> \<not> over_limit (weigh v) (cp_max_bytes_per_tenant (mc_policy mc)) \<longrightarrow>
        (\<forall>later. fst (cache_get later key mc') = (if \<exists>ttl. mc_ttl mc = Some ttl \<and> is_expired now later ttl then None else Some v))
        \<and> (\<exists>P i j. mc_order mc' = drop j (filter (\<lambda>k. k \<notin> set (take i (filter (\<lambda>k. key_tenant k = key_tenant key)
              (filter P (mc_order mc))))) (filter P (mc_order mc))) @ [key]))"
proof -
  obtain P0 where swept: "drops P0 mc (snd (sweep_expired sweep_now mc))" using sweep_drops [OF assms(1)] by blast
  define mc0 where "mc0 = snd (sweep_expired sweep_now mc)"
  define mc1 where "mc1 = (if bt_get (mc_entries mc0) key = None then mc0 else snd (remove_memory_entry key mc0))"
  define P where "P = (\<lambda>k. P0 k \<and> k \<noteq> key)"
  have dr: "drops P mc mc1"
    using drops_trans [OF swept insert_cleared [OF drops_inv(1) [OF swept], of key]] unfolding P_def mc1_def mc0_def .
  have fresh: "\<not> P key" by (simp add: P_def)
  have inv: "cache_inv mc1" and bound: "cache_bounded mc1" and pol: "mc_policy mc1 = mc_policy mc" and ttl: "mc_ttl mc1 = mc_ttl mc"
    and order: "mc_order mc1 = filter P (mc_order mc)"
    using dr drops_bounded [OF dr assms(2)] by (simp_all add: drops_def)
  let ?big = "over_limit (weigh v) (cp_max_bytes (mc_policy mc)) \<or> over_limit (weigh v) (cp_max_bytes_per_tenant (mc_policy mc))"
  show ?thesis
  proof (cases ?big)
    case True
    let ?mc = "mc1\<lparr>mc_metrics := (mc_metrics mc1)\<lparr>cm_errors := cm_errors (mc_metrics mc1) + 1\<rparr>\<rparr>"
    have "cache_insert weigh sweep_now now key v mc = Some ?mc"
      using True by (simp add: cache_insert_def Let_def mc0_def [symmetric] mc1_def [symmetric] pol)
    moreover have d: "drops P mc ?mc" by (rule drops_metrics [OF dr]) simp
    moreover have "bt_get (mc_entries ?mc) k \<in> {None, bt_get (mc_entries mc) k}" for k unfolding drops_get [OF d] by simp
    moreover have gone: "bt_get (mc_entries ?mc) key = None" unfolding drops_get [OF d] using fresh by simp
    ultimately show ?thesis using True drops_inv(1) [OF d] drops_bounded [OF d assms(2)] drops_inv(2) [OF d] gone by blast
  next
    case False
    then obtain i j mc2 mc3 where room: "evict_while (tenant_is_full (key_tenant key) (weigh v)) (Some (key_tenant key)) mc1 = Some mc2"
        "evict_while (cache_is_full (weigh v)) None mc2 = Some mc3"
        "drops (\<lambda>k. k \<notin> set (take i (filter (matches (Some (key_tenant key))) (mc_order mc1)))) mc1 mc2"
        "drops (\<lambda>k. k \<notin> set (take j (mc_order mc2))) mc2 mc3"
        "tenant_is_full (key_tenant key) (weigh v) mc3 = Some False" "cache_is_full (weigh v) mc3 = Some False"
      using make_room [OF inv, of "weigh v" "key_tenant key"] assms(3) unfolding pol by blast
    let ?mc = "store_entry now key (weigh v) v mc3"
    have ins: "cache_insert weigh sweep_now now key v mc = Some ?mc"
      using False room(1,2) by (simp add: cache_insert_def Let_def mc0_def [symmetric] mc1_def [symmetric] pol)
    note dr2 = drops_trans [OF dr room(3)]
    note dr3 = drops_trans [OF dr2 room(4)]
    have "key \<notin> set (mc_order mc3)" using dr3 fresh by (simp add: drops_def)
    then have ok: "cache_inv ?mc \<and> cache_bounded ?mc"
      using store_ok [OF drops_inv(1) [OF dr3] drops_bounded [OF dr3 assms(2)], of key "weigh v"] room(5,6) False assms(3) drops_inv(2) [OF dr3]
      by simp
    have others: "bt_get (mc_entries ?mc) k \<in> {None, bt_get (mc_entries mc) k}" if "k \<noteq> key" for k
      using that drops_get [OF dr3, of k] by (simp add: store_entry_def)
    have get: "fst (cache_get later key ?mc) = (if \<exists>ttl. mc_ttl mc = Some ttl \<and> is_expired now later ttl then None else Some v)" for later
      using dr3 by (cases "mc_ttl mc") (simp_all add: cache_get_def store_entry_def drops_def Let_def)
    have "distinct (mc_order mc2)" using drops_inv(1) [OF room(3)] by (simp add: cache_inv_def)
    then have "filter (\<lambda>k. k \<notin> set (take j (mc_order mc2))) (mc_order mc2) = drop j (mc_order mc2)"
      using filter_not_taken by blast
    then have "mc_order ?mc = drop j (filter (\<lambda>k. k \<notin> set (take i (filter (\<lambda>k. key_tenant k = key_tenant key)
        (filter P (mc_order mc))))) (filter P (mc_order mc))) @ [key]"
      using room(3,4) order by (simp add: drops_def store_entry_def matches_def)
    moreover have "mc_policy ?mc = mc_policy mc" "map_option me_value (bt_get (mc_entries ?mc) key) = Some v"
      using drops_inv(2) [OF dr3] by (simp_all add: store_entry_def)
    ultimately show ?thesis using ins ok others get by blast
  qed
qed


definition small_policy :: cache_policy where
  "small_policy = \<lparr>cp_max_objects = Some 1, cp_max_bytes = Some 10, cp_max_objects_per_tenant = Some 1, cp_max_bytes_per_tenant = Some 10\<rparr>"

definition one_entry :: "string memory_cache" where
  "one_entry = store_entry 3 (''t'', [1]) 5 ''first'' (cache_new (Some 100) small_policy)"


end
