(* ===== verification/Admission_Spec.thy ===== *)
theory Admission_Spec
  imports Admission
begin

text \<open>
  The admission invariant: what the controller counts as active is what the held permits add up to, in all
  and per tenant, so no operation panics; the limits a request was admitted under hold when it is admitted;
  and a queue is never left with nobody to make progress.
\<close>

section \<open>What the permits add up to\<close>

definition usage_of :: "waiting list \<Rightarrow> usage" where
  "usage_of ws = \<lparr>us_requests = length ws, us_subqueries = sum_list (map wt_subqueries ws), us_bytes = sum_list (map wt_bytes ws)\<rparr>"

abbreviation of_tenant :: "string \<Rightarrow> waiting list \<Rightarrow> waiting list" where
  "of_tenant t ws \<equiv> filter (\<lambda>w. wt_tenant w = t) ws"

definition usage_fits :: "usage \<Rightarrow> bool" where
  "usage_fits u \<longleftrightarrow> us_requests u \<le> usize_max \<and> us_subqueries u \<le> usize_max \<and> us_bytes u \<le> usize_max"

definition counted :: "admission_state \<Rightarrow> waiting list \<Rightarrow> bool" where
  "counted st permits \<longleftrightarrow> ad_active st = usage_of permits \<and> usage_fits (usage_of permits) \<and> bt_ok (ad_tenants st)
     \<and> (\<forall>t. bt_get (ad_tenants st) t = (if of_tenant t permits = [] then None else Some (usage_of (of_tenant t permits))))"

text \<open>A queued request passed the check that it fits an idle controller.\<close>

definition admissible :: "waiting \<Rightarrow> bool" where
  "admissible w \<longleftrightarrow> \<not> too_large (wt_subqueries w) (wt_bytes w) (wt_limits w)
     \<and> wt_subqueries w \<le> usize_max \<and> wt_bytes w \<le> usize_max \<and> al_requests (wt_limits w) \<le> usize_max"

definition system_ok :: "admission_system \<Rightarrow> bool" where
  "system_ok sy \<longleftrightarrow> counted (sy_state sy) (sy_permits sy)
     \<and> distinct (map wt_id (ad_queue (sy_state sy))) \<and> (\<forall>w \<in> set (ad_queue (sy_state sy)). admissible w)
     \<and> sy_ready sy \<subseteq> wt_id ` set (ad_queue (sy_state sy))
     \<and> (sy_permits sy = [] \<and> ad_queue (sy_state sy) \<noteq> [] \<longrightarrow> wt_id (hd (ad_queue (sy_state sy))) \<in> sy_ready sy)"

lemma usage_of_simps [simp]:
  "usage_of [] = usage_default"
  "us_requests (usage_of ws) = length ws" "us_subqueries (usage_of ws) = sum_list (map wt_subqueries ws)"
  "us_bytes (usage_of ws) = sum_list (map wt_bytes ws)"
  by (simp_all add: usage_of_def usage_default_def)

lemma usage_empty: "usage_of ws = usage_default \<longleftrightarrow> ws = []"
  by (auto simp: usage_of_def usage_default_def)

lemma tenant_usage_counted: "counted st permits \<Longrightarrow> tenant_usage st t = usage_of (of_tenant t permits)"
  by (simp add: counted_def tenant_usage_def unwrap_or_def)

lemma sum_list_filter_le: "sum_list (map f (filter P xs)) \<le> sum_list (map f (xs :: 'a list) :: nat list)"
  by (induction xs) auto

section \<open>Adding and taking away\<close>

lemma add_usage_ok:
  assumes "us_requests (usage_of ws) < usize_max" and "us_subqueries (usage_of ws) + wt_subqueries w \<le> usize_max"
    and "us_bytes (usage_of ws) + wt_bytes w \<le> usize_max"
  shows "add_usage (usage_of ws) w = Some (usage_of (w # ws))"
  using assms by (simp add: add_usage_def checked_add_def usage_of_def add.commute)

lemma subtract_usage_ok:
  assumes "w \<in> set ws"
  shows "subtract_usage (usage_of ws) w = Some (usage_of (remove1 w ws))"
proof -
  have le: "wt_subqueries w \<le> sum_list (map wt_subqueries ws)" "wt_bytes w \<le> sum_list (map wt_bytes ws)"
    using assms by (auto intro: member_le_sum_list)
  have "1 \<le> length ws" using assms by (cases ws) auto
  then show ?thesis
    using le assms by (simp add: subtract_usage_def checked_sub_def usage_of_def sum_list_map_remove1 length_remove1)
qed

section \<open>What admission checks\<close>

lemma fitsD:
  assumes "fits st w" and "counted st permits"
  shows "length permits < al_requests (wt_limits w)" and "length (of_tenant (wt_tenant w) permits) < al_requests_per_tenant (wt_limits w)"
    and "sum_list (map wt_subqueries permits) + wt_subqueries w \<le> min usize_max (al_subqueries (wt_limits w))"
    and "sum_list (map wt_subqueries (of_tenant (wt_tenant w) permits)) + wt_subqueries w \<le> min usize_max (al_subqueries_per_tenant (wt_limits w))"
    and "sum_list (map wt_bytes permits) + wt_bytes w \<le> min usize_max (al_bytes (wt_limits w))"
    and "sum_list (map wt_bytes (of_tenant (wt_tenant w) permits)) + wt_bytes w \<le> min usize_max (al_bytes_per_tenant (wt_limits w))"
  using assms(1) tenant_usage_counted [OF assms(2)] assms(2)
  by (auto simp: fits_def Let_def sum_within_def checked_add_def counted_def split: option.splits if_splits)

lemma idle_fits:
  assumes "counted st []" and "admissible w"
  shows "fits st w"
  using assms tenant_usage_counted [OF assms(1)]
  by (auto simp: fits_def sum_within_def checked_add_def counted_def admissible_def too_large_def usage_default_def)

lemma position_Some:
  assumes "position P xs = Some i"
  shows "i < length xs" "P (xs ! i)" "\<forall>x \<in> set (take i xs). \<not> P x"
proof -
  have i: "i = length (takeWhile (\<lambda>x. \<not> P x) xs)" "i < length xs"
    using assms by (auto simp: position_def Let_def split: if_splits)
  then show "i < length xs" by simp
  show "P (xs ! i)" using nth_length_takeWhile [of "\<lambda>x. \<not> P x" xs] i by simp
  show "\<forall>x \<in> set (take i xs). \<not> P x" using i(1) takeWhile_eq_take [of "\<lambda>x. \<not> P x" xs] by (metis set_takeWhileD)
qed

lemma position_None: "position P xs = None \<Longrightarrow> \<forall>x \<in> set xs. \<not> P x"
proof -
  assume "position P xs = None"
  then have "length (takeWhile (\<lambda>x. \<not> P x) xs) = length xs"
    using length_takeWhile_le [of "\<lambda>x. \<not> P x" xs] by (simp add: position_def Let_def split: if_splits)
  then have "takeWhile (\<lambda>x. \<not> P x) xs = xs" by (metis takeWhile_eq_take take_all order_refl)
  then show ?thesis by (metis set_takeWhileD)
qed

text \<open>A poll: it never panics, and it either changes nothing or moves one request into the permits.\<close>

lemma try_admit_total:
  assumes "counted st permits" and "\<forall>w \<in> set (ad_queue st). admissible w"
  shows "\<exists>r st'. try_admit ident st = Some (r, st') \<and>
    (case r of
       None \<Rightarrow> st' = st
     | Some w \<Rightarrow> \<exists>before after. ad_queue st = before @ w # after \<and> wt_id w = ident \<and> fits st w
         \<and> (\<forall>e \<in> set before. wt_tenant e \<noteq> wt_tenant w \<and> \<not> fits st e) \<and> ad_queue st' = before @ after
         \<and> counted st' (w # permits))"
proof (cases "position (\<lambda>w. wt_id w = ident) (ad_queue st)")
  case None
  then show ?thesis by (simp add: try_admit_def)
next
  case (Some i)
  let ?w = "ad_queue st ! i" and ?before = "take i (ad_queue st)" and ?after = "drop (Suc i) (ad_queue st)"
  note pos = position_Some [OF Some]
  show ?thesis
  proof (cases "must_wait st i ?w")
    case True
    then show ?thesis by (simp add: try_admit_def Some Let_def)
  next
    case False
    then have fit: "fits st ?w" and before: "\<forall>e \<in> set ?before. wt_tenant e \<noteq> wt_tenant ?w \<and> \<not> fits st e"
      by (auto simp: must_wait_def list_ex_iff)
    note limits = fitsD [OF fit assms(1)]
    have "?w \<in> set (ad_queue st)" using pos(1) by simp
    then have cap: "al_requests (wt_limits ?w) \<le> usize_max" using assms(2) by (simp add: admissible_def)
    let ?own = "of_tenant (wt_tenant ?w) permits"
    have own: "length ?own < usize_max"
      using length_filter_le [of "\<lambda>v. wt_tenant v = wt_tenant ?w" permits] limits(1) cap by linarith
    have "add_usage (ad_active st) ?w = Some (usage_of (?w # permits))"
      and tenant: "add_usage (tenant_usage st (wt_tenant ?w)) ?w = Some (usage_of (?w # ?own))"
      using assms(1) limits cap own tenant_usage_counted [OF assms(1)]
      by (auto simp: counted_def intro!: add_usage_ok)
    let ?st = "st\<lparr>ad_queue := ?before @ ?after, ad_active := usage_of (?w # permits),
        ad_tenants := bt_insert (wt_tenant ?w) (usage_of (?w # ?own)) (ad_tenants st)\<rparr>"
    from \<open>add_usage (ad_active st) ?w = _\<close> tenant have run: "try_admit ident st = Some (Some ?w, ?st)"
      using False by (simp add: try_admit_def Some Let_def)
    have "usage_fits (usage_of (?w # permits))" using limits cap by (simp add: usage_fits_def add.commute)
    then have "counted ?st (?w # permits)"
      using assms(1) by (simp add: counted_def bt_ok_insert bt_get_insert)
    moreover have "ad_queue ?st = ?before @ ?after" by simp
    ultimately have "\<exists>before after. ad_queue st = before @ ?w # after \<and> wt_id ?w = ident \<and> fits st ?w
        \<and> (\<forall>e \<in> set before. wt_tenant e \<noteq> wt_tenant ?w \<and> \<not> fits st e) \<and> ad_queue ?st = before @ after
        \<and> counted ?st (?w # permits)"
      using fit before pos(2) id_take_nth_drop [OF pos(1)] by blast
    then show ?thesis unfolding run by (intro exI [of _ "Some ?w"] exI [of _ ?st] conjI refl) (simp only: option.case)
  qed
qed

lemma try_admit_grants:
  assumes "counted st permits" and "\<forall>w \<in> set (ad_queue st). admissible w" and "try_admit ident st = Some (Some w, st')"
  shows "\<exists>before after. ad_queue st = before @ w # after \<and> wt_id w = ident \<and> fits st w
    \<and> (\<forall>e \<in> set before. wt_tenant e \<noteq> wt_tenant w \<and> \<not> fits st e) \<and> ad_queue st' = before @ after
    \<and> counted st' (w # permits)"
proof -
  obtain r st'' where "try_admit ident st = Some (r, st'')" and grant: "case r of
       None \<Rightarrow> st'' = st
     | Some w \<Rightarrow> \<exists>before after. ad_queue st = before @ w # after \<and> wt_id w = ident \<and> fits st w
         \<and> (\<forall>e \<in> set before. wt_tenant e \<noteq> wt_tenant w \<and> \<not> fits st e) \<and> ad_queue st'' = before @ after
         \<and> counted st'' (w # permits)"
    using try_admit_total [OF assms(1,2), of ident] by blast
  then have "r = Some w" "st'' = st'" using assms(3) by simp_all
  with grant show ?thesis by simp
qed

text \<open>A release of a held permit never panics either.\<close>

lemma filter_remove1_same: "P w \<Longrightarrow> filter P (remove1 w ws) = remove1 w (filter P ws)"
  by (induction ws) auto

lemma filter_remove1_other: "\<not> P w \<Longrightarrow> filter P (remove1 w ws) = filter P ws"
  by (induction ws) auto

lemma release_total:
  assumes "counted st permits" and "w \<in> set permits"
  shows "\<exists>st'. release w st = Some st' \<and> ad_queue st' = ad_queue st \<and> counted st' (remove1 w permits)"
proof -
  let ?own = "of_tenant (wt_tenant w) permits"
  have own: "w \<in> set ?own" using assms(2) by simp
  then have "?own \<noteq> []" by (metis empty_iff empty_set)
  then have held: "bt_get (ad_tenants st) (wt_tenant w) = Some (usage_of ?own)"
    using assms(1) by (simp add: counted_def)
  have rest: "of_tenant (wt_tenant w) (remove1 w permits) = remove1 w ?own" by (rule filter_remove1_same) simp
  have others: "of_tenant t (remove1 w permits) = of_tenant t permits" if "t \<noteq> wt_tenant w" for t
    using that by (simp add: filter_remove1_other)
  let ?st = "st\<lparr>ad_active := usage_of (remove1 w permits),
      ad_tenants := (if usage_of (remove1 w ?own) = usage_default then bt_remove (wt_tenant w) (ad_tenants st)
                     else bt_insert (wt_tenant w) (usage_of (remove1 w ?own)) (ad_tenants st))\<rparr>"
  have "release w st = Some ?st"
    using held subtract_usage_ok [OF assms(2)] subtract_usage_ok [OF own] assms(1)
    by (simp add: release_def counted_def)
  moreover have "usage_fits (usage_of (remove1 w permits))"
    using assms by (auto simp: counted_def usage_fits_def length_remove1 sum_list_map_remove1 [OF assms(2)] elim: order_trans [rotated])
  then have "counted ?st (remove1 w permits)"
    using assms(1) others unfolding counted_def usage_empty
    by (auto simp: rest bt_ok_insert bt_ok_remove)
  ultimately show ?thesis by (intro exI [of _ ?st]) simp
qed

section \<open>Every reachable state\<close>

lemma enqueue_ok:
  assumes "enqueue tenant subqueries bytes limits st = (Inr ident, st')"
  shows "ident = ad_next_id st" and "st' = st\<lparr>ad_next_id := ad_next_id st + 1,
      ad_queue := ad_queue st @ [\<lparr>wt_id = ident, wt_tenant = tenant, wt_subqueries = subqueries, wt_bytes = bytes, wt_limits = limits\<rparr>]\<rparr>"
    and "\<not> too_large subqueries bytes limits" and "\<not> queue_full st tenant limits"
  using assms by (auto simp: enqueue_def Let_def split: if_splits)

lemma system_okD:
  assumes "system_ok sy"
  shows "counted (sy_state sy) (sy_permits sy)" "distinct (map wt_id (ad_queue (sy_state sy)))"
    "\<forall>w \<in> set (ad_queue (sy_state sy)). admissible w" "sy_ready sy \<subseteq> wt_id ` set (ad_queue (sy_state sy))"
    "sy_permits sy = [] \<Longrightarrow> ad_queue (sy_state sy) \<noteq> [] \<Longrightarrow> wt_id (hd (ad_queue (sy_state sy))) \<in> sy_ready sy"
  using assms by (simp_all add: system_ok_def)

lemma notified_ok:
  assumes "counted (sy_state sy) (sy_permits sy)" and "distinct (map wt_id (ad_queue (sy_state sy)))"
    and "\<forall>w \<in> set (ad_queue (sy_state sy)). admissible w"
  shows "system_ok (notify_waiters sy)"
  using assms by (simp add: system_ok_def notify_waiters_def)

text \<open>When nothing is held, the head of the queue is admitted when it polls.\<close>

lemma head_admitted:
  assumes "counted st []" and "ad_queue st = w # rest" and "\<forall>w \<in> set (ad_queue st). admissible w"
  shows "\<exists>st'. try_admit (wt_id w) st = Some (Some w, st')"
proof -
  have "fits st w" using idle_fits [OF assms(1)] assms(2,3) by simp
  then have go: "\<not> must_wait st 0 w" by (simp add: must_wait_def)
  have pos: "position (\<lambda>v. wt_id v = wt_id w) (ad_queue st) = Some 0" by (simp add: position_def assms(2))
  obtain r st' where run: "try_admit (wt_id w) st = Some (r, st')"
    using try_admit_total [OF assms(1,3), of "wt_id w"] by blast
  then have "r = Some w"
    using go pos by (auto simp: try_admit_def Let_def assms(2) bind_eq_Some_conv)
  then show ?thesis using run by blast
qed

lemma step_ok:
  assumes "admission_step sy sy'" and "system_ok sy"
  shows "system_ok sy'"
  using assms(1)
proof cases
  case (reloaded limits)
  have "counted (reload limits (sy_state sy)) (sy_permits sy)"
    using system_okD(1) [OF assms(2)] by (simp add: counted_def reload_def)
  then show ?thesis unfolding reloaded using system_okD(2,3) [OF assms(2)]
    by (intro notified_ok) (simp_all add: reload_def)
next
  case (queued tenant subqueries bytes limits ident st)
  note enq = enqueue_ok [OF queued(2)] and ok = system_okD [OF assms(2)]
  have "counted st (sy_permits sy)" using ok(1) by (simp add: enq(2) counted_def)
  moreover have "admissible \<lparr>wt_id = ident, wt_tenant = tenant, wt_subqueries = subqueries, wt_bytes = bytes, wt_limits = limits\<rparr>"
    using enq(3) queued(3) by (auto simp: admissible_def limits_usize_def too_large_def)
  ultimately show ?thesis
    unfolding queued(1) using ok queued(4) by (auto simp: system_ok_def enq(2) hd_append)
next
  case (asleep ident st)
  note ok = system_okD [OF assms(2)]
  have st: "st = sy_state sy" using try_admit_total [OF ok(1,3), of ident] asleep(3) by auto
  have "ident \<noteq> wt_id w" if "sy_permits sy = []" "ad_queue (sy_state sy) = w # rest" for w rest
    using head_admitted [of "sy_state sy" w rest] ok(1,3) asleep(3) that by auto
  then show ?thesis
    unfolding asleep(1) using assms(2) by (cases "ad_queue (sy_state sy)") (auto simp: system_ok_def st)
next
  case (admitted ident work st)
  note ok = system_okD [OF assms(2)]
  obtain before after where poll: "ad_queue (sy_state sy) = before @ work # after" "wt_id work = ident"
      "ad_queue st = before @ after" "counted st (work # sy_permits sy)"
    using try_admit_grants [OF ok(1,3) admitted(3)] by blast
  then show ?thesis
    unfolding admitted(1) using ok(2-4) by (auto simp: system_ok_def)
next
  case (cancelled ident)
  note ok = system_okD [OF assms(2)]
  have "counted (remove_waiter ident (sy_state sy)) (sy_permits sy)" using ok(1) by (simp add: counted_def remove_waiter_def)
  then show ?thesis
    unfolding cancelled using ok(2,3) by (intro notified_ok) (auto simp: remove_waiter_def distinct_map_filter)
next
  case (released work st)
  note ok = system_okD [OF assms(2)]
  have "ad_queue st = ad_queue (sy_state sy)" "counted st (remove1 work (sy_permits sy))"
    using release_total [OF ok(1) released(2)] released(3) by auto
  then show ?thesis unfolding released(1) using ok(2,3) by (intro notified_ok) simp_all
qed

lemma reachable_ok:
  assumes "admission_step\<^sup>*\<^sup>* (system_new limits) sy"
  shows "system_ok sy"
  using assms
proof (induction rule: rtranclp_induct)
  case base
  show ?case
    by (simp add: system_ok_def system_new_def controller_new_def counted_def usage_fits_def usage_default_def usage_of_def)
qed (rule step_ok)

definition within_limits :: "waiting \<Rightarrow> waiting list \<Rightarrow> bool" where
  "within_limits w held \<longleftrightarrow> length held \<le> al_requests (wt_limits w) \<and> length (of_tenant (wt_tenant w) held) \<le> al_requests_per_tenant (wt_limits w)
     \<and> sum_list (map wt_subqueries held) \<le> al_subqueries (wt_limits w)
     \<and> sum_list (map wt_subqueries (of_tenant (wt_tenant w) held)) \<le> al_subqueries_per_tenant (wt_limits w)
     \<and> sum_list (map wt_bytes held) \<le> al_bytes (wt_limits w)
     \<and> sum_list (map wt_bytes (of_tenant (wt_tenant w) held)) \<le> al_bytes_per_tenant (wt_limits w)"

lemma admitted_within:
  assumes "fits st w" and "counted st permits"
  shows "within_limits w (w # permits)"
  using fitsD [OF assms] by (simp add: within_limits_def add.commute)

lemma find_first: "\<forall>e \<in> set before. \<not> P e \<Longrightarrow> P w \<Longrightarrow> find P (before @ w # after) = Some w"
  by (induction before) auto

section \<open>Properties\<close>

text \<open>
  C33. In every reachable state the controller counts exactly what the held permits add up to, in all and for
  each tenant, and neither a poll nor the release of a permit panics.  A request that a poll admits is the
  oldest of its tenant in the queue, and with it the held permits keep within every limit it came with.
\<close>

theorem admission_counts_permits:
  assumes "admission_step\<^sup>*\<^sup>* (system_new limits) sy"
  shows "ad_active (sy_state sy) = usage_of (sy_permits sy)
    \<and> (\<forall>t. tenant_usage (sy_state sy) t = usage_of (filter (\<lambda>w. wt_tenant w = t) (sy_permits sy)))
    \<and> (\<forall>w \<in> set (sy_permits sy). release w (sy_state sy) \<noteq> None)
    \<and> (\<forall>ident. try_admit ident (sy_state sy) \<noteq> None)
    \<and> (\<forall>ident work st. try_admit ident (sy_state sy) = Some (Some work, st) \<longrightarrow> within_limits work (work # sy_permits sy)
        \<and> find (\<lambda>v. wt_tenant v = wt_tenant work) (ad_queue (sy_state sy)) = Some work)"
proof -
  note ok = system_okD [OF reachable_ok [OF assms]]
  have "within_limits work (work # sy_permits sy) \<and> find (\<lambda>v. wt_tenant v = wt_tenant work) (ad_queue (sy_state sy)) = Some work"
    if grant: "try_admit ident (sy_state sy) = Some (Some work, st)" for ident work st
  proof -
    obtain before after where q: "ad_queue (sy_state sy) = before @ work # after" "fits (sy_state sy) work"
        "\<forall>e \<in> set before. wt_tenant e \<noteq> wt_tenant work"
      using try_admit_grants [OF ok(1,3) grant] by blast
    then show ?thesis using admitted_within [OF q(2) ok(1)] find_first [of before "\<lambda>v. wt_tenant v = wt_tenant work" work after] by simp
  qed
  moreover have "try_admit ident (sy_state sy) \<noteq> None" for ident using try_admit_total [OF ok(1,3), of ident] by auto
  moreover have "release w (sy_state sy) \<noteq> None" if "w \<in> set (sy_permits sy)" for w
    using release_total [OF ok(1) that] by auto
  moreover have "ad_active (sy_state sy) = usage_of (sy_permits sy)" using ok(1) by (simp add: counted_def)
  ultimately show ?thesis using tenant_usage_counted [OF ok(1)] by blast
qed

text \<open>
  C34. No request is stranded.  In every reachable state with queued requests, either some permit is held,
  whose release wakes every queued request, or the request at the head is awake and its poll is admitted.
\<close>

theorem admission_no_deadlock:
  assumes "admission_step\<^sup>*\<^sup>* (system_new limits) sy" and "ad_queue (sy_state sy) \<noteq> []"
  shows "sy_permits sy \<noteq> [] \<or> (\<exists>w st. w = hd (ad_queue (sy_state sy)) \<and> wt_id w \<in> sy_ready sy
    \<and> try_admit (wt_id w) (sy_state sy) = Some (Some w, st))"
proof (cases "sy_permits sy = []")
  case True
  note ok = system_okD [OF reachable_ok [OF assms(1)]]
  obtain w rest where "ad_queue (sy_state sy) = w # rest" using assms(2) by (cases "ad_queue (sy_state sy)") auto
  then show ?thesis using head_admitted [of "sy_state sy" w rest] ok(1,3,5) True by auto
qed simp

text \<open>A controller with room for one request: one is admitted and one of another tenant waits.\<close>

definition one_at_a_time :: admission_limits where
  "one_at_a_time = limits_default\<lparr>al_requests := 1\<rparr>"

definition waiter :: "u64 \<Rightarrow> string \<Rightarrow> waiting" where
  "waiter ident tenant = \<lparr>wt_id = ident, wt_tenant = tenant, wt_subqueries = 1, wt_bytes = 10, wt_limits = one_at_a_time\<rparr>"

definition busy :: admission_system where
  "busy = \<lparr>sy_state = \<lparr>ad_limits = one_at_a_time, ad_next_id = 2, ad_active = \<lparr>us_requests = 1, us_subqueries = 1, us_bytes = 10\<rparr>,
        ad_tenants = [(''a'', \<lparr>us_requests = 1, us_subqueries = 1, us_bytes = 10\<rparr>)], ad_queue = [waiter 1 ''b'']\<rparr>,
      sy_permits = [waiter 0 ''a''], sy_ready = {1}\<rparr>"

lemma busy_reached: "admission_step\<^sup>*\<^sup>* (system_new one_at_a_time) busy"
proof -
  define s1 where "s1 = (system_new one_at_a_time)\<lparr>sy_state := (controller_new one_at_a_time)\<lparr>ad_next_id := 1, ad_queue := [waiter 0 ''a'']\<rparr>, sy_ready := {0}\<rparr>"
  define s2 where "s2 = busy\<lparr>sy_state := (sy_state busy)\<lparr>ad_next_id := 1, ad_queue := []\<rparr>, sy_ready := {}\<rparr>"
  note defs = s1_def s2_def busy_def system_new_def controller_new_def waiter_def one_at_a_time_def limits_default_def
  have e1: "enqueue ''a'' 1 10 one_at_a_time (sy_state (system_new one_at_a_time)) = (Inr 0, sy_state s1)"
    by (simp add: defs enqueue_def too_large_def queue_full_def)
  have "admission_step (system_new one_at_a_time) s1"
    using admission_step.queued [OF e1] by (simp add: defs limits_usize_def)
  moreover have a1: "try_admit 0 (sy_state s1) = Some (Some (waiter 0 ''a''), sy_state s2)"
    by (simp add: defs try_admit_def position_def must_wait_def fits_def sum_within_def checked_add_def tenant_usage_def unwrap_or_def
        add_usage_def usage_default_def)
  have "admission_step s1 s2"
    using admission_step.admitted [OF _ a1] by (simp add: defs)
  moreover have e2: "enqueue ''b'' 1 10 one_at_a_time (sy_state s2) = (Inr 1, sy_state busy)"
    by (simp add: defs enqueue_def too_large_def queue_full_def)
  have "admission_step s2 busy"
    using admission_step.queued [OF e2] by (simp add: defs limits_usize_def)
  ultimately show ?thesis by (meson converse_rtranclp_into_rtranclp rtranclp.rtrancl_refl)
qed

theorem admission_counts_permits_witness:
  "ad_active (sy_state busy) = usage_of [waiter 0 ''a''] \<and> release (waiter 0 ''a'') (sy_state busy) \<noteq> None"
proof -
  have "sy_permits busy = [waiter 0 ''a'']" by (simp add: busy_def)
  then show ?thesis using admission_counts_permits [OF busy_reached] by (metis list.set_intros(1))
qed

theorem admission_no_deadlock_witness:
  "ad_queue (sy_state busy) \<noteq> [] \<and> sy_permits busy \<noteq> []"
  using admission_no_deadlock [OF busy_reached] by (simp add: busy_def)

definition default_waiter :: "u64 \<Rightarrow> string \<Rightarrow> waiting" where
  "default_waiter ident tenant = \<lparr>wt_id = ident, wt_tenant = tenant, wt_subqueries = 1, wt_bytes = 10, wt_limits = limits_default\<rparr>"

text \<open>
  C40. A request can sleep although it may be admitted.  From a fresh controller with the default limits a state
  is reached in which a queued request fits but is not awake: it polled while an earlier request fitted, and
  admitting that one woke nobody.
\<close>

theorem admitted_leaves_sleeper:
  "\<exists>sy w. admission_step\<^sup>*\<^sup>* (system_new limits_default) sy \<and> ad_queue (sy_state sy) = [w] \<and> fits (sy_state sy) w \<and> wt_id w \<notin> sy_ready sy"
proof -
  let ?w = "default_waiter 0 ''a''" and ?v = "default_waiter 1 ''b''"
  define s1 where "s1 = (system_new limits_default)\<lparr>sy_state := (controller_new limits_default)\<lparr>ad_next_id := 1, ad_queue := [?w]\<rparr>, sy_ready := {0}\<rparr>"
  define s2 where "s2 = s1\<lparr>sy_state := (controller_new limits_default)\<lparr>ad_next_id := 2, ad_queue := [?w, ?v]\<rparr>, sy_ready := {0, 1}\<rparr>"
  define s3 where "s3 = s2\<lparr>sy_ready := {0}\<rparr>"
  define used where "used = \<lparr>us_requests = 1, us_subqueries = 1, us_bytes = 10\<rparr>"
  define s4 where "s4 = s3\<lparr>sy_state := (sy_state s2)\<lparr>ad_queue := [?v], ad_active := used, ad_tenants := [(''a'', used)]\<rparr>, sy_permits := [?w], sy_ready := {}\<rparr>"
  note defs = s1_def s2_def s3_def s4_def used_def system_new_def controller_new_def default_waiter_def limits_default_def
  note polls = try_admit_def position_def must_wait_def fits_def sum_within_def checked_add_def tenant_usage_def unwrap_or_def add_usage_def usage_default_def
  have e1: "enqueue ''a'' 1 10 limits_default (sy_state (system_new limits_default)) = (Inr 0, sy_state s1)"
    by (simp add: defs enqueue_def too_large_def queue_full_def)
  have e2: "enqueue ''b'' 1 10 limits_default (sy_state s1) = (Inr 1, sy_state s2)"
    by (simp add: defs enqueue_def too_large_def queue_full_def)
  have p2: "try_admit 1 (sy_state s2) = Some (None, sy_state s2)" by (simp add: defs polls)
  have p1: "try_admit 0 (sy_state s3) = Some (Some ?w, sy_state s4)" by (simp add: defs polls)
  have "admission_step (system_new limits_default) s1" using admission_step.queued [OF e1] by (simp add: defs limits_usize_def)
  moreover have "admission_step s1 s2" using admission_step.queued [OF e2] by (simp add: defs limits_usize_def insert_commute)
  moreover have "s3 = s2\<lparr>sy_state := sy_state s2, sy_ready := sy_ready s2 - {1}\<rparr>" by (simp add: s3_def s2_def insert_Diff_if)
  then have "admission_step s2 s3" using admission_step.asleep [OF _ p2] by (simp add: s2_def)
  moreover have "admission_step s3 s4" using admission_step.admitted [OF _ p1] by (simp add: defs)
  ultimately have "admission_step\<^sup>*\<^sup>* (system_new limits_default) s4" by (meson converse_rtranclp_into_rtranclp rtranclp.rtrancl_refl)
  moreover have "ad_queue (sy_state s4) = [?v]" "fits (sy_state s4) ?v" "wt_id ?v \<notin> sy_ready s4" by (simp_all add: defs polls)
  ultimately show ?thesis by blast
qed

end
