(* ===== verification/Query_Frontend_Spec.thy ===== *)
theory Query_Frontend_Spec
  imports Query_Frontend Query_Cache_Spec Admission_Spec "HOL-Library.Multiset"
begin

text \<open>
  The pipeline is transparent: caching, batching, admission and retries change nothing of the answer.  What
  the pipeline needs of a cache is an interface of its own, which the in-memory cache provides.
\<close>

section \<open>What the pipeline needs of a cache\<close>

locale value_cache =
  fixes ok :: "'c \<Rightarrow> bool" and held :: "'c \<Rightarrow> cache_key \<Rightarrow> 'v option"
    and get :: "i64 \<Rightarrow> cache_key \<Rightarrow> 'c \<Rightarrow> 'v option \<times> 'c" and insert :: "i64 \<Rightarrow> i64 \<Rightarrow> cache_key \<Rightarrow> 'v \<Rightarrow> 'c \<Rightarrow> 'c option"
  assumes get_ok: "ok c \<Longrightarrow> ok (snd (get now k c))" and get_held: "ok c \<Longrightarrow> fst (get now k c) \<in> {None, held c k}"
    and get_drops: "ok c \<Longrightarrow> held (snd (get now k c)) k' \<in> {None, held c k'}"
    and insert_ok: "ok c \<Longrightarrow> \<exists>c'. insert swept now k v c = Some c' \<and> ok c'"
    and insert_held: "ok c \<Longrightarrow> insert swept now k v c = Some c' \<Longrightarrow> held c' k' \<in> {None, held c k'} \<or> k' = k \<and> held c' k' = Some v"
begin

definition agrees :: "(cache_key \<Rightarrow> 'v) \<Rightarrow> 'c \<Rightarrow> bool" where
  "agrees answer c \<longleftrightarrow> ok c \<and> (\<forall>k v. held c k = Some v \<longrightarrow> v = answer k)"

lemma get_agrees:
  assumes "agrees answer c"
  shows "agrees answer (snd (get now k c))" and "fst (get now k c) \<in> {None, Some (answer k)}"
proof -
  have ok: "ok c" and held: "\<And>k v. held c k = Some v \<Longrightarrow> v = answer k" using assms unfolding agrees_def by blast+
  show "agrees answer (snd (get now k c))"
    unfolding agrees_def using get_ok [OF ok] get_drops [OF ok] held by (metis empty_iff insert_iff option.distinct(1))
  show "fst (get now k c) \<in> {None, Some (answer k)}"
    using get_held [OF ok, of now k] held [of k] by (cases "held c k") auto
qed

lemma insert_agrees:
  assumes "agrees answer c"
  shows "\<exists>c'. insert swept now k (answer k) c = Some c' \<and> agrees answer c'"
proof -
  have ok: "ok c" and held: "\<And>k v. held c k = Some v \<Longrightarrow> v = answer k" using assms unfolding agrees_def by blast+
  obtain c' where c': "insert swept now k (answer k) c = Some c'" "ok c'" using insert_ok [OF ok] by blast
  have "v = answer k'" if "held c' k' = Some v" for k' v
    using insert_held [OF ok c'(1), of k'] that held [of k'] by auto
  then show ?thesis using c' by (auto simp: agrees_def)
qed

end

section \<open>The in-memory cache\<close>

definition cache_ok :: "'v memory_cache \<Rightarrow> bool" where
  "cache_ok mc \<longleftrightarrow> cache_inv mc \<and> cache_bounded mc \<and> policy_ok (mc_policy mc)"

definition cache_held :: "'v memory_cache \<Rightarrow> cache_key \<Rightarrow> 'v option" where
  "cache_held mc k = map_option me_value (bt_get (mc_entries mc) k)"

lemma cache_get_drops:
  assumes "cache_inv mc"
  shows "\<exists>P. drops P mc (snd (cache_get now k mc))"
proof -
  have keep: "\<exists>P. drops P mc (mc\<lparr>mc_metrics := m\<rparr>)" if "cm_bytes m = cm_bytes (mc_metrics mc)" for m
    using drops_metrics [OF drops_refl [OF assms] that] by blast
  have gone: "\<exists>P. drops P mc ((snd (remove_memory_entry k mc))\<lparr>mc_metrics := m\<rparr>)"
    if "cm_bytes m = cm_bytes (mc_metrics (snd (remove_memory_entry k mc)))" for m
    using drops_metrics [OF remove_drops(1) [OF assms] that] by blast
  show ?thesis
    by (auto simp: cache_get_def Let_def split: option.splits intro!: keep gone)
qed

interpretation memory: value_cache cache_ok cache_held cache_get "cache_insert weigh" for weigh :: "'v \<Rightarrow> usize"
proof (unfold_locales)
  fix c :: "'v memory_cache" and now k k'
  assume ok: "cache_ok c"
  obtain P where P: "drops P c (snd (cache_get now k c))" using cache_get_drops ok unfolding cache_ok_def by blast
  show "cache_ok (snd (cache_get now k c))"
    using ok drops_inv [OF P] drops_bounded [OF P] by (simp add: cache_ok_def)
  show "cache_held (snd (cache_get now k c)) k' \<in> {None, cache_held c k'}"
    using drops_get [OF P, of k'] by (simp add: cache_held_def)
  show "fst (cache_get now k c) \<in> {None, cache_held c k}"
    by (simp add: cache_get_def cache_held_def Let_def split: option.splits)
next
  fix c :: "'v memory_cache" and swept now k v
  assume ok: "cache_ok c"
  then obtain c' where c': "cache_insert weigh swept now k v c = Some c'" "cache_inv c'" "cache_bounded c'" "mc_policy c' = mc_policy c"
    using insert_total [of c weigh swept now k v] unfolding cache_ok_def by blast
  then show "\<exists>c'. cache_insert weigh swept now k v c = Some c' \<and> cache_ok c'" using ok by (auto simp: cache_ok_def)
next
  fix c c' :: "'v memory_cache" and swept now k k' v
  assume "cache_ok c" and ins: "cache_insert weigh swept now k v c = Some c'"
  then have ok: "cache_inv c" "cache_bounded c" "policy_ok (mc_policy c)" by (simp_all add: cache_ok_def)
  have new: "bt_get (mc_entries c') k = None \<or> map_option me_value (bt_get (mc_entries c') k) = Some v"
    and other: "k' \<noteq> k \<Longrightarrow> bt_get (mc_entries c') k' \<in> {None, bt_get (mc_entries c) k'}"
    using insert_total [OF ok, of weigh swept now k v] ins by (metis option.inject)+
  show "cache_held c' k' \<in> {None, cache_held c k'} \<or> k' = k \<and> cache_held c' k' = Some v"
    using new other by (cases "k' = k") (auto simp: cache_held_def)
qed

section \<open>An idle controller admits\<close>

definition idle :: "admission_limits \<Rightarrow> admission_state \<Rightarrow> bool" where
  "idle limits st \<longleftrightarrow> counted st [] \<and> ad_queue st = [] \<and> ad_limits st = limits"

lemma try_admit_limits: "try_admit ident st = Some (r, st') \<Longrightarrow> ad_limits st' = ad_limits st"
  by (auto simp: try_admit_def Let_def split: option.splits if_splits Option.bind_splits)

lemma release_limits: "release work st = Some st' \<Longrightarrow> ad_limits st' = ad_limits st"
  by (auto simp: release_def split: option.splits Option.bind_splits)

lemma acquire_idle:
  assumes idle: "idle base st" and room: "\<not> too_large n bytes (unwrap_or base limits)" "limits_usize (unwrap_or base limits)"
    and queue: "0 < al_queued (unwrap_or base limits)" "0 < al_queued_per_tenant (unwrap_or base limits)" and polls: "0 < fe_polls env"
  shows "\<exists>permit st'. acquire env tenant n bytes limits st = Some (Inr permit, st') \<and> counted st' [permit] \<and> ad_queue st' = [] \<and> ad_limits st' = base"
proof -
  let ?l = "unwrap_or base limits"
  let ?w = "\<lparr>wt_id = ad_next_id st, wt_tenant = tenant, wt_subqueries = n, wt_bytes = bytes, wt_limits = ?l\<rparr>"
  let ?st = "st\<lparr>ad_next_id := ad_next_id st + 1, ad_queue := [?w]\<rparr>"
  have enq: "enqueue tenant n bytes ?l st = (Inr (wt_id ?w), ?st)"
    using idle room queue by (simp add: enqueue_def queue_full_def idle_def)
  have counted: "counted ?st []" using idle by (simp add: idle_def counted_def)
  have adm: "\<forall>w \<in> set (ad_queue ?st). admissible w"
    using room by (auto simp: admissible_def limits_usize_def too_large_def)
  obtain st' where run: "try_admit (wt_id ?w) ?st = Some (Some ?w, st')"
    using head_admitted [OF counted _ adm, of ?w "[]"] by auto
  obtain before after where at: "ad_queue ?st = before @ ?w # after" "ad_queue st' = before @ after" and st': "counted st' [?w]"
    using try_admit_grants [OF counted adm run] by blast
  have "before = [] \<and> after = []" using at(1) by (cases before) simp_all
  then have "counted st' [?w] \<and> ad_queue st' = []" using at(2) st' by simp
  moreover have "ad_limits st' = base" using try_admit_limits [OF run] idle by (simp add: idle_def)
  moreover have "acquire env tenant n bytes limits st = Some (Inr ?w, st')"
    using idle polls run by (cases "fe_polls env") (simp_all add: acquire_def acquire_with_limits_def enq idle_def)
  ultimately show ?thesis by blast
qed

lemma release_idle:
  assumes "counted st [permit]" and "ad_queue st = []" and "ad_limits st = base"
  shows "\<exists>st'. release permit st = Some st' \<and> idle base st'"
  using release_total [OF assms(1), of permit] release_limits assms(2,3) by (force simp: idle_def)

section \<open>Steps of the pipeline\<close>

text \<open>What a pipeline is run with: a cache that holds answers only, and room for each of its batches.\<close>

definition cache_agrees :: "(cache_key \<Rightarrow> 'out) \<Rightarrow> 'out memory_cache \<Rightarrow> bool" where
  "cache_agrees answer mc \<longleftrightarrow> cache_ok mc \<and> (\<forall>k v. cache_held mc k = Some v \<longrightarrow> v = answer k)"

definition answers :: "('req, 'q, 'out, 'resp, 'err, 's) query_adapter \<Rightarrow> nat \<Rightarrow> (cache_key \<Rightarrow> 'out) \<Rightarrow> 'q planned_query \<Rightarrow> bool" where
  "answers ad retries answer planned \<longleftrightarrow> (\<forall>s. fst (run_with_retries ad retries (pq_query planned) s) = Inr (answer (pq_key planned)))"

definition room_for :: "admission_limits \<Rightarrow> admission_limits option \<Rightarrow> execution_options \<Rightarrow> 'q planned_query list \<Rightarrow> bool" where
  "room_for base limits options planned \<longleftrightarrow>
     (let l = unwrap_or base limits;
          fallback = (case limits of None \<Rightarrow> 1 | Some l \<Rightarrow> al_bytes_per_subquery l);
          bytes = sum_list (map (\<lambda>p. max (pq_bytes p) fallback) planned)
      in limits_usize l \<and> 0 < al_requests l \<and> 0 < al_requests_per_tenant l \<and> 0 < al_queued l \<and> 0 < al_queued_per_tenant l
         \<and> eo_parallelism options \<le> al_subqueries l \<and> eo_parallelism options \<le> al_subqueries_per_tenant l
         \<and> bytes \<le> al_bytes l \<and> bytes \<le> al_bytes_per_tenant l)"

lemma agrees_memory: "cache_agrees answer mc = memory.agrees answer mc"
  by (simp add: cache_agrees_def memory.agrees_def)

lemma lookup_all_ok:
  assumes "cache_agrees answer (fw_cache w)" and "lookup_all keys w = (rs, w')"
  shows "list_all2 (\<lambda>k r. r \<in> {None, Some (answer k)}) keys rs \<and> cache_agrees answer (fw_cache w') \<and> fw_admission w' = fw_admission w"
  using assms
proof (induction keys arbitrary: w rs)
  case Nil
  then show ?case by simp
next
  case (Cons k keys)
  obtain r mc where get: "cache_get (fw_readings w (fw_reading w)) k (fw_cache w) = (r, mc)" by force
  let ?w = "w\<lparr>fw_reading := Suc (fw_reading w), fw_cache := mc\<rparr>"
  have "cache_agrees answer mc" and r: "r \<in> {None, Some (answer k)}"
    using memory.get_agrees [of answer "fw_cache w" "fw_readings w (fw_reading w)" k] Cons.prems(1) get by (simp_all add: agrees_memory)
  obtain rs' where rs': "lookup_all keys ?w = (rs', w')" "rs = r # rs'"
    using Cons.prems(2) by (auto simp: lookup_def read_clock_def get split: prod.splits)
  show ?case using Cons.IH [of ?w rs'] \<open>cache_agrees answer mc\<close> r rs' by simp
qed

lemma execute_uncached_ok:
  assumes "cache_agrees answer (fw_cache w)" and "answers ad (eo_max_retries options) answer planned"
  shows "\<exists>w'. execute_uncached env ad options planned w = Some (Inr (answer (pq_key planned)), w')
    \<and> cache_agrees answer (fw_cache w') \<and> fw_admission w' = fw_admission w"
proof -
  obtain s where run: "run_with_retries ad (eo_max_retries options) (pq_query planned) (fw_backend w) = (Inr (answer (pq_key planned)), s)"
    using assms(2) by (metis answers_def prod.collapse)
  have ins: "\<exists>mc. cache_insert (fe_weigh env) swept now (pq_key planned) (answer (pq_key planned)) (fw_cache w) = Some mc \<and> cache_agrees answer mc" for swept now
    using memory.insert_agrees assms(1) unfolding agrees_memory by blast
  show ?thesis
    using ins [of "fw_readings w (Suc (fw_reading w))" "fw_readings w (Suc (Suc (fw_reading w)))"] assms(1)
    by (auto simp: execute_uncached_def run read_clock_def Let_def)
qed

abbreviation answered :: "(cache_key \<Rightarrow> 'out) \<Rightarrow> nat \<times> 'q planned_query \<Rightarrow> nat \<times> 'out" where
  "answered answer \<equiv> map_prod (\<lambda>i. i) (\<lambda>p. answer (pq_key p))"

lemma run_batch_ok:
  assumes "cache_agrees answer (fw_cache w)" and "\<forall>p \<in> set batch. answers ad (eo_max_retries options) answer (snd p)"
  shows "\<exists>w'. run_batch env ad options batch w = Some (Inr (map (answered answer) batch), w')
    \<and> cache_agrees answer (fw_cache w') \<and> fw_admission w' = fw_admission w"
  using assms
proof (induction batch arbitrary: w)
  case Nil
  then show ?case by simp
next
  case (Cons p batch)
  obtain w1 where one: "execute_uncached env ad options (snd p) w = Some (Inr (answer (pq_key (snd p))), w1)"
    and w1: "cache_agrees answer (fw_cache w1)" "fw_admission w1 = fw_admission w"
    using execute_uncached_ok [of answer w ad options "snd p" env] Cons.prems by auto
  obtain w2 where "run_batch env ad options batch w1 = Some (Inr (map (answered answer) batch), w2)"
      "cache_agrees answer (fw_cache w2)" "fw_admission w2 = fw_admission w1"
    using Cons.IH [OF w1(1)] Cons.prems(2) by auto
  with one w1(2) show ?case by (cases p) simp
qed

lemma batch_bytes_sum:
  assumes "sum_list (map (\<lambda>p. max (pq_bytes (snd p)) fallback) batch) \<le> usize_max"
  shows "batch_bytes fallback batch = sum_list (map (\<lambda>p. max (pq_bytes (snd p)) fallback) batch)"
proof -
  have "fold (\<lambda>(_, planned) acc. usize_saturating_add acc (max (pq_bytes planned) fallback)) batch acc
      = acc + sum_list (map (\<lambda>p. max (pq_bytes (snd p)) fallback) batch)"
    if "acc + sum_list (map (\<lambda>p. max (pq_bytes (snd p)) fallback) batch) \<le> usize_max" for acc
    using that by (induction batch arbitrary: acc) (auto simp: usize_saturating_add_def case_prod_unfold add.assoc)
  from this [of 0] assms show ?thesis by (simp add: batch_bytes_def)
qed

definition pipeline_ok :: "admission_limits \<Rightarrow> (cache_key \<Rightarrow> 'out) \<Rightarrow> ('out, 's) frontend_world \<Rightarrow> bool" where
  "pipeline_ok base answer w \<longleftrightarrow> cache_agrees answer (fw_cache w) \<and> idle base (fw_admission w)"

lemma room_not_too_large:
  fixes batch :: "(nat \<times> 'q planned_query) list"
  assumes "room_for base limits options (map snd batch)" and "length batch \<le> eo_parallelism options"
  shows "\<not> too_large (length batch) (batch_bytes (case limits of None \<Rightarrow> 1 | Some l \<Rightarrow> al_bytes_per_subquery l) batch) (unwrap_or base limits)"
proof -
  let ?l = "unwrap_or base limits" and ?fallback = "case limits of None \<Rightarrow> 1 | Some l \<Rightarrow> al_bytes_per_subquery l"
  let ?sum = "sum_list (map (\<lambda>p. max (pq_bytes (snd p)) ?fallback) batch)"
  have "limits_usize ?l" "?sum \<le> al_bytes ?l" "?sum \<le> al_bytes_per_tenant ?l"
    using assms(1) by (simp_all add: room_for_def Let_def o_def)
  then have "batch_bytes ?fallback batch = ?sum" by (intro batch_bytes_sum) (simp add: limits_usize_def)
  then show ?thesis using assms by (simp add: room_for_def Let_def o_def too_large_def)
qed

lemma run_admitted_ok:
  assumes w: "pipeline_ok base answer w" and answers: "\<forall>p \<in> set batch. answers ad (eo_max_retries options) answer (snd p)"
    and room: "room_for base limits options (map snd batch)" and n: "length batch \<le> eo_parallelism options"
    and env: "0 < fe_polls env" "\<And>b. mset (fe_complete env b) = mset b"
  shows "\<exists>rs w'. run_admitted env ad options limits batch w = Some (Inr rs, w') \<and> mset rs = mset (map (answered answer) batch) \<and> pipeline_ok base answer w'"
proof -
  let ?l = "unwrap_or base limits" and ?fallback = "case limits of None \<Rightarrow> 1 | Some l \<Rightarrow> al_bytes_per_subquery l"
  let ?tenant = "key_tenant (pq_key (snd (hd batch)))"
  note small = room_not_too_large [OF room n]
  have lim: "limits_usize ?l" "0 < al_queued ?l" "0 < al_queued_per_tenant ?l" using room by (simp_all add: room_for_def Let_def)
  have idle: "idle base (fw_admission w)" using w by (simp add: pipeline_ok_def)
  obtain permit st where acq: "acquire env ?tenant (length batch) (batch_bytes ?fallback batch) limits (fw_admission w) = Some (Inr permit, st)"
    and st: "counted st [permit]" "ad_queue st = []" "ad_limits st = base"
    using acquire_idle [OF idle small lim env(1)] by blast
  let ?batch = "fe_complete env batch" and ?w = "w\<lparr>fw_admission := st\<rparr>"
  have "set ?batch = set batch" using env(2) by (metis set_mset_mset)
  then obtain w' where run: "run_batch env ad options ?batch ?w = Some (Inr (map (answered answer) ?batch), w')"
    and w': "cache_agrees answer (fw_cache w')" "fw_admission w' = st"
    using run_batch_ok [of answer ?w ?batch ad options env] w answers by (auto simp: pipeline_ok_def)
  obtain st' where rel: "release permit st = Some st'" "idle base st'" using release_idle [OF st] by blast
  have "mset (map (answered answer) ?batch) = mset (map (answered answer) batch)" by (simp add: env(2))
  then show ?thesis
    using acq run w' rel by (simp add: run_admitted_def pipeline_ok_def)
qed

lemma room_sub: "room_for base limits options (xs @ ys) \<Longrightarrow> room_for base limits options xs \<and> room_for base limits options ys"
  by (auto simp: room_for_def Let_def)

lemma run_missing_ok:
  assumes "pipeline_ok base answer w" and "\<forall>p \<in> set missing. answers ad (eo_max_retries options) answer (snd p)"
    and "room_for base limits options (map snd missing)" and "0 < eo_parallelism options"
    and env: "0 < fe_polls env" "\<And>b. mset (fe_complete env b) = mset b"
  shows "\<exists>rs w'. run_missing env ad options limits missing results w = Some (Inr rs, w')
    \<and> mset rs = mset results + mset (map (answered answer) missing) \<and> pipeline_ok base answer w'"
  using assms(1-4)
proof (induction missing arbitrary: results w rule: length_induct)
  case (1 missing)
  show ?case
  proof (cases "missing = []")
    case True
    then show ?thesis using "1.prems" by (simp add: run_missing.simps)
  next
    case False
    define n where "n = min (length missing) (eo_parallelism options)"
    have "map snd missing = map snd (take n missing) @ map snd (drop n missing)" by (simp flip: map_append)
    then have room: "room_for base limits options (map snd (take n missing))" "room_for base limits options (map snd (drop n missing))"
      using "1.prems"(3) room_sub by metis+
    have sub: "\<forall>p \<in> set (take n missing). answers ad (eo_max_retries options) answer (snd p)"
      "\<forall>p \<in> set (drop n missing). answers ad (eo_max_retries options) answer (snd p)"
      using "1.prems"(2) by (auto dest: in_set_takeD in_set_dropD)
    have "length (take n missing) \<le> eo_parallelism options" by (simp add: n_def)
    then obtain rs w1 where one: "run_admitted env ad options limits (take n missing) w = Some (Inr rs, w1)"
      and rs: "mset rs = mset (map (answered answer) (take n missing))" and w1: "pipeline_ok base answer w1"
      using run_admitted_ok [OF "1.prems"(1) sub(1) room(1) _ env] by blast
    have "length (drop n missing) < length missing" using False "1.prems"(4) by (auto simp: n_def)
    then obtain rs' w' where rest: "run_missing env ad options limits (drop n missing) (results @ rs) w1 = Some (Inr rs', w')"
      and rs': "mset rs' = mset (results @ rs) + mset (map (answered answer) (drop n missing))" "pipeline_ok base answer w'"
      using "1.IH" w1 sub(2) room(2) "1.prems"(4) by blast
    have "mset (map (answered answer) missing) = mset (map (answered answer) (take n missing)) + mset (map (answered answer) (drop n missing))"
      by (metis append_take_drop_id map_append mset_append)
    then have "mset rs' = mset results + mset (map (answered answer) missing)" using rs rs'(1) by simp
    moreover have "run_missing env ad options limits missing results w = Some (Inr rs', w')"
      using one rest False "1.prems"(4) by (subst run_missing.simps) (simp add: n_def Let_def)
    ultimately show ?thesis using rs'(2) by blast
  qed
qed

section \<open>A request\<close>

text \<open>What the cache answered and what the backend must answer are the plan, each query once.\<close>

lemma cached_and_missing:
  assumes "list_all2 (\<lambda>p r. r \<in> {None, Some (answer (pq_key p))}) planned cached" and "length js = length planned"
  shows "mset (map (\<lambda>(i, c). (i, the c)) (filter (\<lambda>(_, c). c \<noteq> None) (zip js cached)))
      + mset (map (answered answer) (map snd (filter (\<lambda>(c, _). c = None) (zip cached (zip js planned)))))
    = mset (zip js (map (answer \<circ> pq_key) planned))"
  using assms
proof (induction planned cached arbitrary: js rule: list_all2_induct)
  case Nil
  then show ?case by simp
next
  case (Cons p planned r cached)
  then obtain j js' where js: "js = j # js'" "length js' = length planned" by (cases js) auto
  show ?case using Cons.IH [OF js(2)] Cons.hyps(1) by (auto simp: js(1))
qed

lemma missing_sub:
  assumes "length cached = length planned"
  shows "set (map snd (missing_queries cached planned)) \<subseteq> set planned"
    and "room_for base limits options planned \<Longrightarrow> room_for base limits options (map snd (missing_queries cached planned))"
proof -
  let ?zs = "zip cached (zip [0..<length planned] planned)"
  have planned: "map (snd \<circ> snd) ?zs = planned" using assms by (simp flip: map_map)
  have missing: "map snd (missing_queries cached planned) = map (snd \<circ> snd) (filter (\<lambda>(c, _). c = None) ?zs)"
    by (simp add: missing_queries_def)
  then show "set (map snd (missing_queries cached planned)) \<subseteq> set planned" by (subst planned [symmetric]) (auto simp: missing)
  have less: "sum_list (map f (map snd (missing_queries cached planned))) \<le> sum_list (map f planned)" for f :: "_ \<Rightarrow> nat"
    unfolding missing by (subst (2) planned [symmetric]) (simp only: map_map sum_list_filter_le)
  show "room_for base limits options (map snd (missing_queries cached planned))" if "room_for base limits options planned"
    using that le_trans [OF less] by (simp add: room_for_def Let_def)
qed

lemma sort_by_index:
  assumes "mset rs = mset (zip [0..<length outs] outs)"
  shows "map snd (sort_key fst rs) = outs"
proof -
  have "set rs = set (zip [0..<length outs] outs)" using assms by (metis set_mset_mset)
  then have "inj_on fst (set rs)" by (auto simp: inj_on_def in_set_zip)
  then have "sort_key fst rs = zip [0..<length outs] outs"
    using assms by (intro sort_key_inj_key_eq) simp_all
  then show ?thesis by simp
qed

text \<open>
  C31. The query pipeline is transparent.  When every subquery of the plan answers within its retries, the
  cache holds nothing but such answers, and the controller is idle with room for each batch, a request
  returns exactly what the adapter merges from the answers in plan order: neither the cache, nor the split
  into admitted batches, nor the order in which the futures complete, nor the clock shows.  The request
  returns (it neither panics nor is left waiting), its permits are all given back and the cache still holds
  only answers, so the next request finds the same situation.
\<close>

theorem frontend_transparent:
  assumes "qa_plan ad request = Inr planned" and "\<forall>p \<in> set planned. answers ad (eo_max_retries options) answer p"
    and "pipeline_ok base answer w" and "room_for base (qa_admission_limits ad request) options planned"
    and "0 < eo_parallelism options" and "0 < fe_polls env" and "\<And>b. mset (fe_complete env b) = mset b"
  shows "\<exists>w'. frontend_execute env ad options request w
      = Some (map_sum Adapter_error (\<lambda>resp. resp) (qa_merge ad request (map (answer \<circ> pq_key) planned)), w')
    \<and> pipeline_ok base answer w'"
proof -
  obtain cached w1 where look: "lookup_all (map pq_key planned) w = (cached, w1)" by force
  then have cached: "list_all2 (\<lambda>p r. r \<in> {None, Some (answer (pq_key p))}) planned cached" and w1: "pipeline_ok base answer w1"
    using lookup_all_ok [of answer, OF _ look] assms(3) by (simp_all add: pipeline_ok_def list.rel_map)
  then have n: "length cached = length planned" by (metis list_all2_lengthD)
  let ?missing = "missing_queries cached planned"
  have "\<forall>p \<in> set ?missing. answers ad (eo_max_retries options) answer (snd p)" using assms(2) missing_sub(1) [OF n] by auto
  then obtain rs w' where run: "run_missing env ad options (qa_admission_limits ad request) ?missing (cached_results cached) w1 = Some (Inr rs, w')"
    and rs: "mset rs = mset (cached_results cached) + mset (map (answered answer) ?missing)" and w': "pipeline_ok base answer w'"
    using run_missing_ok [OF w1 _ missing_sub(2) [OF n assms(4)] assms(5-7)] by blast
  have "mset rs = mset (zip [0..<length planned] (map (answer \<circ> pq_key) planned))"
    unfolding rs cached_results_def missing_queries_def n using cached_and_missing [OF cached, of "[0..<length planned]"] by simp
  then have "map snd (sort_key fst rs) = map (answer \<circ> pq_key) planned"
    using sort_by_index [of rs "map (answer \<circ> pq_key) planned"] by simp
  then show ?thesis
    using w' by (simp add: frontend_execute_def assms(1) look run)
qed

section \<open>Failing requests\<close>

definition refused :: "'err frontend_error + 'a \<Rightarrow> bool" where
  "refused r = (case r of Inl (Admission_failed e) \<Rightarrow> True | _ \<Rightarrow> False)"

definition settled :: "admission_limits \<Rightarrow> ('out, 's) frontend_world \<Rightarrow> bool" where
  "settled base w \<longleftrightarrow> cache_ok (fw_cache w) \<and> idle base (fw_admission w)"

lemma refused_simps [simp]:
  "\<not> refused (Inr x)" "refused (Inl err) \<longleftrightarrow> (\<exists>e. err = Admission_failed e)"
  by (simp_all add: refused_def split: frontend_error.splits)

lemma refused_map_sum [simp]: "refused (map_sum (\<lambda>e. e) f r) = refused r" "\<not> refused (map_sum Adapter_error g r')"
  by (cases r; simp) (cases r'; simp)

lemma acquire_reject:
  assumes "too_large n bytes (unwrap_or (ad_limits st) limits) \<or> al_queued (unwrap_or (ad_limits st) limits) = 0
    \<or> al_queued_per_tenant (unwrap_or (ad_limits st) limits) = 0"
  shows "\<exists>e. acquire env tenant n bytes limits st = Some (Inl e, st)"
  using assms by (auto simp: acquire_def acquire_with_limits_def enqueue_def queue_full_def Let_def)

lemma execute_uncached_total:
  assumes "cache_ok (fw_cache w)"
  shows "\<exists>r w'. execute_uncached env ad options planned w = Some (r, w') \<and> \<not> refused r \<and> cache_ok (fw_cache w') \<and> fw_admission w' = fw_admission w"
proof -
  obtain r s where run: "run_with_retries ad (eo_max_retries options) (pq_query planned) (fw_backend w) = (r, s)" by force
  have "\<exists>mc. cache_insert (fe_weigh env) swept now k v (fw_cache w) = Some mc \<and> cache_ok mc" for swept now k v
    using memory.insert_ok [OF assms] by blast
  note ins = this [of "fw_readings w (Suc (fw_reading w))" "fw_readings w (Suc (Suc (fw_reading w)))" "pq_key planned"]
  show ?thesis
  proof (cases r)
    case (Inl e)
    then show ?thesis using assms by (simp add: execute_uncached_def run)
  next
    case (Inr v)
    then show ?thesis using ins [of v] assms by (auto simp: execute_uncached_def run read_clock_def Let_def)
  qed
qed

lemma run_batch_total:
  assumes "cache_ok (fw_cache w)"
  shows "\<exists>r w'. run_batch env ad options batch w = Some (r, w') \<and> \<not> refused r \<and> cache_ok (fw_cache w') \<and> fw_admission w' = fw_admission w"
  using assms
proof (induction batch arbitrary: w)
  case Nil
  then show ?case by simp
next
  case (Cons p batch)
  obtain r w1 where one: "execute_uncached env ad options (snd p) w = Some (r, w1)" "\<not> refused r" "cache_ok (fw_cache w1)" "fw_admission w1 = fw_admission w"
    using execute_uncached_total [OF Cons.prems] by blast
  obtain rs w2 where "run_batch env ad options batch w1 = Some (rs, w2)" "\<not> refused rs" "cache_ok (fw_cache w2)" "fw_admission w2 = fw_admission w1"
    using Cons.IH [OF one(3)] by blast
  with one show ?case by (cases p; cases r) simp_all
qed

lemma run_admitted_total:
  assumes w: "settled base w" and usize: "limits_usize (unwrap_or base limits)" and polls: "0 < fe_polls env"
  shows "\<exists>r w'. run_admitted env ad options limits batch w = Some (r, w') \<and> settled base w'
    \<and> (refused r \<longrightarrow> \<not> (room_for base limits options (map snd batch) \<and> length batch \<le> eo_parallelism options))"
proof -
  let ?l = "unwrap_or base limits" and ?fallback = "case limits of None \<Rightarrow> 1 | Some l \<Rightarrow> al_bytes_per_subquery l"
  let ?bytes = "batch_bytes ?fallback batch" and ?tenant = "key_tenant (pq_key (snd (hd batch)))"
  have idle: "idle base (fw_admission w)" and base: "ad_limits (fw_admission w) = base" using w by (simp_all add: settled_def idle_def)
  show ?thesis
  proof (cases "too_large (length batch) ?bytes ?l \<or> al_queued ?l = 0 \<or> al_queued_per_tenant ?l = 0")
    case True
    then obtain e where "acquire env ?tenant (length batch) ?bytes limits (fw_admission w) = Some (Inl e, fw_admission w)"
      using acquire_reject [of "length batch" ?bytes "fw_admission w" limits] unfolding base by blast
    moreover have "\<not> (room_for base limits options (map snd batch) \<and> length batch \<le> eo_parallelism options)"
      using True room_not_too_large [of base limits options batch] by (auto simp: room_for_def Let_def)
    ultimately show ?thesis using w by (simp add: run_admitted_def)
  next
    case False
    then obtain permit st where acq: "acquire env ?tenant (length batch) ?bytes limits (fw_admission w) = Some (Inr permit, st)"
      and st: "counted st [permit]" "ad_queue st = []" "ad_limits st = base"
      using acquire_idle [OF idle _ usize _ _ polls, of "length batch" ?bytes ?tenant] by auto
    obtain r w' where run: "run_batch env ad options (fe_complete env batch) (w\<lparr>fw_admission := st\<rparr>) = Some (r, w')"
      "\<not> refused r" "cache_ok (fw_cache w')" "fw_admission w' = st"
      using run_batch_total [of "w\<lparr>fw_admission := st\<rparr>" env ad options "fe_complete env batch"] w by (auto simp: settled_def)
    obtain st' where "release permit st = Some st'" "idle base st'" using release_idle [OF st] by blast
    with acq run show ?thesis by (simp add: run_admitted_def settled_def)
  qed
qed

lemma run_missing_total:
  assumes "settled base w" and usize: "limits_usize (unwrap_or base limits)" and polls: "0 < fe_polls env"
  shows "\<exists>r w'. run_missing env ad options limits missing results w = Some (r, w') \<and> settled base w'
    \<and> (refused r \<longrightarrow> \<not> room_for base limits options (map snd missing))"
  using assms(1)
proof (induction missing arbitrary: results w rule: length_induct)
  case (1 missing)
  show ?case
  proof (cases "missing = [] \<or> eo_parallelism options = 0")
    case True
    then show ?thesis using "1.prems" by (simp add: run_missing.simps)
  next
    case False
    define n where "n = min (length missing) (eo_parallelism options)"
    have "map snd missing = map snd (take n missing) @ map snd (drop n missing)" by (simp flip: map_append)
    then have room: "room_for base limits options (map snd (take n missing)) \<and> room_for base limits options (map snd (drop n missing))"
      if "room_for base limits options (map snd missing)" using that room_sub by metis
    have step: "run_missing env ad options limits missing results w
        = (case run_admitted env ad options limits (take n missing) w of
             None \<Rightarrow> None
           | Some (Inl e, w) \<Rightarrow> Some (Inl e, w)
           | Some (Inr rs, w) \<Rightarrow> run_missing env ad options limits (drop n missing) (results @ rs) w)"
      using False by (subst run_missing.simps) (simp add: Let_def flip: n_def)
    obtain r w1 where one: "run_admitted env ad options limits (take n missing) w = Some (r, w1)" "settled base w1"
      "refused r \<longrightarrow> \<not> (room_for base limits options (map snd (take n missing)) \<and> length (take n missing) \<le> eo_parallelism options)"
      using run_admitted_total [OF "1.prems" usize polls] by blast
    have shorter: "length (drop n missing) < length missing" using False by (auto simp: n_def)
    show ?thesis
    proof (cases r)
      case (Inl e)
      then show ?thesis using one room by (auto simp: step n_def)
    next
      case (Inr rs)
      obtain r' w' where "run_missing env ad options limits (drop n missing) (results @ rs) w1 = Some (r', w')" "settled base w'"
        "refused r' \<longrightarrow> \<not> room_for base limits options (map snd (drop n missing))"
        using "1.IH" shorter one(2) by blast
      then show ?thesis using one room by (auto simp: step Inr)
    qed
  qed
qed

lemma lookup_all_total:
  assumes "cache_ok (fw_cache w)" and "lookup_all keys w = (rs, w')"
  shows "length rs = length keys \<and> cache_ok (fw_cache w') \<and> fw_admission w' = fw_admission w"
  using assms
proof (induction keys arbitrary: w rs)
  case Nil
  then show ?case by simp
next
  case (Cons k keys)
  let ?now = "fw_readings w (fw_reading w)"
  let ?w = "w\<lparr>fw_reading := Suc (fw_reading w), fw_cache := snd (cache_get ?now k (fw_cache w))\<rparr>"
  have "cache_ok (fw_cache ?w)" using memory.get_ok [OF Cons.prems(1)] by simp
  moreover obtain rs' where "lookup_all keys ?w = (rs', w')" "length rs = Suc (length rs')"
    using Cons.prems(2) by (auto simp: lookup_def read_clock_def split: prod.splits)
  ultimately show ?case using Cons.IH [of ?w rs'] by simp
qed

text \<open>
  C32. A request always comes back and leaves nothing behind.  Run alone against a bounded cache and an idle
  controller, with any adapter, it returns a response or an error without a panic; the permit of a batch is
  given back also when a subquery fails; the cache stays within its ceilings; and admission refuses it only
  when its plan, in batches, has no room in the limits.
\<close>

theorem frontend_settles:
  assumes "settled base w" and "limits_usize (unwrap_or base (qa_admission_limits ad request))" and "0 < fe_polls env"
  shows "\<exists>r w'. frontend_execute env ad options request w = Some (r, w') \<and> settled base w'
    \<and> (refused r \<longrightarrow> (\<exists>planned. qa_plan ad request = Inr planned \<and> \<not> room_for base (qa_admission_limits ad request) options planned))"
proof (cases "qa_plan ad request")
  case (Inl e)
  then show ?thesis using assms(1) by (simp add: frontend_execute_def)
next
  case (Inr planned)
  obtain cached w1 where look: "lookup_all (map pq_key planned) w = (cached, w1)" by force
  have w1: "settled base w1" and n: "length cached = length planned"
    using lookup_all_total [OF _ look] assms(1) by (simp_all add: settled_def)
  obtain r w' where run: "run_missing env ad options (qa_admission_limits ad request) (missing_queries cached planned) (cached_results cached) w1 = Some (r, w')"
    and w': "settled base w'" and r: "refused r \<longrightarrow> \<not> room_for base (qa_admission_limits ad request) options (map snd (missing_queries cached planned))"
    using run_missing_total [OF w1 assms(2,3)] by blast
  show ?thesis
    using w' r missing_sub(2) [OF n, of base "qa_admission_limits ad request" options]
    by (cases r) (auto simp: frontend_execute_def Inr look run)
qed

section \<open>A pipeline over a backend that fails every other time\<close>

definition sample_adapter :: "(nat, nat, nat, nat, unit, nat) query_adapter" where
  "sample_adapter = \<lparr>qa_plan = (\<lambda>n. Inr (map (\<lambda>q. \<lparr>pq_query = q, pq_key = (''t'', [of_nat q]), pq_end = 0, pq_bytes = 10\<rparr>) [0..<n])),
     qa_execute = (\<lambda>q s. (if even s then Inl () else Inr (q mod 256), Suc s)), qa_is_retryable = (\<lambda>_. True), qa_should_cache = (\<lambda>_. True),
     qa_admission_limits = (\<lambda>_. None), qa_merge = (\<lambda>_ rs. Inr (sum_list rs))\<rparr>"

definition sample_env :: "(nat, nat) frontend_env" where
  "sample_env = \<lparr>fe_complete = rev, fe_weigh = (\<lambda>_. 1), fe_others = (\<lambda>st. st), fe_polls = 1\<rparr>"

definition sample_options :: execution_options where
  "sample_options = \<lparr>eo_parallelism = 2, eo_max_retries = 1, eo_freshness = 0\<rparr>"

definition sample_limits :: admission_limits where
  "sample_limits = limits_default\<lparr>al_bytes := 1000, al_bytes_per_tenant := 1000\<rparr>"

definition sample_world :: "(nat, nat) frontend_world" where
  "sample_world = \<lparr>fw_cache = cache_new (Some 100) small_policy, fw_admission = controller_new sample_limits, fw_backend = 0,
     fw_readings = int, fw_reading = 0\<rparr>"

lemma sample_limits_usize: "limits_usize sample_limits"
  by (simp add: sample_limits_def limits_default_def limits_usize_def)

lemma sample_ready: "cache_ok (fw_cache sample_world)" "idle sample_limits (fw_admission sample_world)" "cache_held (fw_cache sample_world) k = None"
  by (simp_all add: sample_world_def cache_ok_def cache_new_def cache_inv_def cache_bounded_def policy_ok_def small_policy_def bytes_of_def
      metrics_default_def within_def idle_def counted_def controller_new_def usage_fits_def usage_default_def cache_held_def)

lemma sample_room: "room_for sample_limits None sample_options (map (\<lambda>q. \<lparr>pq_query = q, pq_key = (''t'', [of_nat q]), pq_end = 0, pq_bytes = 10\<rparr>) [0..<5])"
  using sample_limits_usize
  by (simp add: room_for_def sample_limits_def limits_default_def sample_options_def unwrap_or_def upt_rec)

theorem frontend_transparent_witness:
  "\<exists>w'. frontend_execute sample_env sample_adapter sample_options 5 sample_world = Some (Inr 10, w')"
proof -
  define answer :: "cache_key \<Rightarrow> nat" where "answer = (\<lambda>(_, bs). unat (hd bs))"
  let ?planned = "map (\<lambda>q. \<lparr>pq_query = q, pq_key = (''t'', [of_nat q]), pq_end = 0, pq_bytes = 10\<rparr>) [0..<5]"
  have plan: "qa_plan sample_adapter 5 = Inr ?planned" by (simp add: sample_adapter_def)
  have ans: "\<forall>p \<in> set ?planned. answers sample_adapter (eo_max_retries sample_options) answer p"
    by (auto simp: answers_def sample_options_def sample_adapter_def answer_def unat_of_nat)
  have ok: "pipeline_ok sample_limits answer sample_world"
    using sample_ready by (simp add: pipeline_ok_def cache_agrees_def)
  have room: "room_for sample_limits (qa_admission_limits sample_adapter 5) sample_options ?planned"
    using sample_room by (simp add: sample_adapter_def)
  have "\<exists>w'. frontend_execute sample_env sample_adapter sample_options 5 sample_world
      = Some (map_sum Adapter_error (\<lambda>resp. resp) (qa_merge sample_adapter 5 (map (answer \<circ> pq_key) ?planned)), w')"
    using frontend_transparent [OF plan ans ok room, of sample_env] by (auto simp: sample_options_def sample_env_def)
  moreover have "qa_merge sample_adapter 5 (map (answer \<circ> pq_key) ?planned) = Inr 10"
    by (simp add: sample_adapter_def answer_def upt_rec)
  ultimately show ?thesis by simp
qed

theorem frontend_settles_witness:
  "\<exists>r w'. frontend_execute sample_env (sample_adapter\<lparr>qa_is_retryable := \<lambda>_. False\<rparr>) sample_options 5 sample_world = Some (r, w')
    \<and> settled sample_limits w'"
proof -
  let ?ad = "sample_adapter\<lparr>qa_is_retryable := \<lambda>_. False\<rparr>"
  have "settled sample_limits sample_world" using sample_ready by (simp add: settled_def)
  moreover have "limits_usize (unwrap_or sample_limits (qa_admission_limits ?ad 5))"
    using sample_limits_usize by (simp add: sample_adapter_def unwrap_or_def)
  moreover have "0 < fe_polls sample_env" by (simp add: sample_env_def)
  ultimately show ?thesis using frontend_settles [of sample_limits sample_world ?ad 5 sample_env sample_options] by blast
qed

end
