(* ===== verification/Nested_Set.thy ===== *)
theory Nested_Set
  imports O11y_Prelude
begin

text \<open>
  Nested-set intervals of the spans of a trace (\<open>crates/blockstore/src/nested_set.rs\<close>): parent links are
  resolved by position, and a depth-first walk with an explicit stack numbers each span when it is entered
  and when it is left.  \<open>None\<close> is a panic: an index out of range or a counter beyond \<open>i32\<close>.
\<close>

section \<open>Spans and intervals\<close>

type_synonym i32 = int

definition i32_max :: i32 where
  "i32_max = 2147483647"

datatype cycle_spans = Assign_intervals | Leave_unassigned

record nested_set =
  ns_left :: i32
  ns_right :: i32
  ns_parent_id :: i32

record span_node =
  sn_span_id :: "u8 list"
  sn_parent_span_id :: "u8 list option"

section \<open>Parent links\<close>

definition span_positions :: "span_node list \<Rightarrow> (u8 list \<rightharpoonup> nat)" where
  "span_positions spans = fold (\<lambda>(i, span) pos. pos(sn_span_id span \<mapsto> i)) (enumerate 0 spans) Map.empty"

definition parent_index :: "(u8 list \<rightharpoonup> nat) \<Rightarrow> nat \<Rightarrow> span_node \<Rightarrow> nat option" where
  "parent_index pos i span =
     (case Option.bind (sn_parent_span_id span) pos of
        None \<Rightarrow> None
      | Some parent \<Rightarrow> if parent \<noteq> i then Some parent else None)"

definition link_span :: "(u8 list \<rightharpoonup> nat) \<Rightarrow> nat \<times> span_node \<Rightarrow> nat list list \<times> nat list \<Rightarrow> nat list list \<times> nat list" where
  "link_span pos entry links =
     (case parent_index pos (fst entry) (snd entry) of
        Some parent \<Rightarrow> ((fst links)[parent := fst links ! parent @ [fst entry]], snd links)
      | None \<Rightarrow> (fst links, snd links @ [fst entry]))"

definition link_spans :: "span_node list \<Rightarrow> nat list list \<times> nat list" where
  "link_spans spans = fold (link_span (span_positions spans)) (enumerate 0 spans) (replicate (length spans) [], [])"

section \<open>The walk\<close>

datatype frame = Enter nat i32 | Exit nat

record walk_state =
  wk_out :: "nested_set list"
  wk_counter :: i32
  wk_visited :: "bool list"

definition bump :: "i32 \<Rightarrow> i32 option" where
  "bump counter = (if counter < i32_max then Some (counter + 1) else None)"

definition walk_new :: "nat \<Rightarrow> walk_state" where
  "walk_new n = \<lparr>wk_out = replicate n \<lparr>ns_left = 0, ns_right = 0, ns_parent_id = 0\<rparr>, wk_counter = 1, wk_visited = replicate n False\<rparr>"

definition enter_span :: "nat list list \<Rightarrow> nat \<Rightarrow> i32 \<Rightarrow> walk_state \<Rightarrow> (frame list \<times> walk_state) option" where
  "enter_span children idx parent_left st =
     Option.bind (nth_opt (wk_visited st) idx) (\<lambda>visited.
       if visited then Some ([], st)
       else Option.bind (bump (wk_counter st)) (\<lambda>counter.
            Option.bind (nth_opt (wk_out st) idx) (\<lambda>held.
            Option.bind (nth_opt children idx) (\<lambda>cs.
              Some (map (\<lambda>child. Enter child (wk_counter st)) cs @ [Exit idx],
                    st\<lparr>wk_visited := (wk_visited st)[idx := True], wk_counter := counter,
                       wk_out := (wk_out st)[idx := held\<lparr>ns_left := wk_counter st, ns_parent_id := parent_left\<rparr>]\<rparr>)))))"

definition exit_span :: "nat \<Rightarrow> walk_state \<Rightarrow> walk_state option" where
  "exit_span idx st =
     Option.bind (nth_opt (wk_out st) idx) (\<lambda>held.
     Option.bind (bump (wk_counter st)) (\<lambda>counter.
       Some (st\<lparr>wk_out := (wk_out st)[idx := held\<lparr>ns_right := wk_counter st\<rparr>], wk_counter := counter\<rparr>)))"

abbreviation unvisited :: "walk_state \<Rightarrow> nat" where
  "unvisited st \<equiv> length (filter Not (wk_visited st))"

lemma filter_update_less:
  assumes "i < length xs" and "\<not> xs ! i"
  shows "length (filter Not (xs[i := True])) < length (filter Not xs)"
  using assms
proof (induction xs arbitrary: i)
  case (Cons x xs)
  then show ?case by (cases i) auto
qed simp

lemma enter_span_measure:
  assumes "enter_span children idx parent_left st = Some (frames, st')"
  shows "frames = [] \<and> st' = st \<or> unvisited st' < unvisited st"
  using assms
  by (auto simp: enter_span_def nth_opt_def filter_update_less split: if_splits Option.bind_splits)

lemma exit_span_measure: "exit_span idx st = Some st' \<Longrightarrow> wk_visited st' = wk_visited st"
  by (auto simp: exit_span_def split: Option.bind_splits)

function walk :: "nat list list \<Rightarrow> frame list \<Rightarrow> walk_state \<Rightarrow> walk_state option" where
  "walk children [] st = Some st"
| "walk children (Enter idx parent_left # stack) st =
     (case enter_span children idx parent_left st of
        None \<Rightarrow> None
      | Some (frames, st') \<Rightarrow> walk children (frames @ stack) st')"
| "walk children (Exit idx # stack) st =
     (case exit_span idx st of
        None \<Rightarrow> None
      | Some st' \<Rightarrow> walk children stack st')"
  by pat_completeness auto
termination
proof (relation "measures [\<lambda>(_, _, st). unvisited st, \<lambda>(_, stack, _). length stack]", goal_cases)
  case 1
  show ?case by simp
next
  case (2 children idx parent_left stack st p frames st')
  then have "enter_span children idx parent_left st = Some (frames, st')" by simp
  then show ?case using enter_span_measure by fastforce
next
  case (3 children idx stack st st')
  then show ?case by (simp add: exit_span_measure)
qed

fun walk_roots :: "nat list list \<Rightarrow> nat list \<Rightarrow> walk_state \<Rightarrow> walk_state option" where
  "walk_roots children [] st = Some st"
| "walk_roots children (root # roots) st = Option.bind (walk children [Enter root (- 1)] st) (walk_roots children roots)"

definition assign_nested_set :: "span_node list \<Rightarrow> cycle_spans \<Rightarrow> nested_set list option" where
  "assign_nested_set spans cycle_spans =
     (case link_spans spans of
        (children, roots) \<Rightarrow>
          map_option wk_out
            (walk_roots children
              (roots @ (case cycle_spans of Assign_intervals \<Rightarrow> [0..<length spans] | Leave_unassigned \<Rightarrow> []))
              (walk_new (length spans))))"

end
