(* ===== verification/Nested_Set_Spec.thy ===== *)
theory Nested_Set_Spec
  imports Nested_Set
begin

text \<open>
  The intervals are a laminar family that mirrors the parent links: one span lies inside another exactly
  when it descends from it, whatever order the spans come in.
\<close>

section \<open>Links\<close>

definition links :: "nat list list \<Rightarrow> (nat \<times> nat) set" where
  "links children = {(p, c). p < length children \<and> c \<in> set (children ! p)}"

definition open_spans :: "frame list \<Rightarrow> nat list" where
  "open_spans stack = List.map_filter (\<lambda>f. case f of Enter _ _ \<Rightarrow> None | Exit i \<Rightarrow> Some i) stack"

lemma open_spans_simps [simp]:
  "open_spans [] = []" "open_spans (Enter i l # stack) = open_spans stack" "open_spans (Exit i # stack) = i # open_spans stack"
  "open_spans (xs @ ys) = open_spans xs @ open_spans ys" "open_spans (map (\<lambda>c. Enter c l) cs) = []"
  by (simp_all add: open_spans_def map_filter_simps List.map_filter_def o_def)

abbreviation left_of :: "walk_state \<Rightarrow> nat \<Rightarrow> i32" where
  "left_of st i \<equiv> ns_left (wk_out st ! i)"

abbreviation right_of :: "walk_state \<Rightarrow> nat \<Rightarrow> i32" where
  "right_of st i \<equiv> ns_right (wk_out st ! i)"

abbreviation seen :: "walk_state \<Rightarrow> nat \<Rightarrow> bool" where
  "seen st i \<equiv> i < length (wk_visited st) \<and> wk_visited st ! i"

section \<open>The invariant of the walk\<close>

text \<open>Each pending span was pushed by the innermost open span below it, or is a seed.\<close>

fun frames_ok :: "nat list list \<Rightarrow> nat set \<Rightarrow> walk_state \<Rightarrow> frame list \<Rightarrow> bool" where
  "frames_ok children seeds st [] = True"
| "frames_ok children seeds st (Exit i # stack) = frames_ok children seeds st stack"
| "frames_ok children seeds st (Enter c l # stack) =
     (frames_ok children seeds st stack \<and>
      (case open_spans stack of [] \<Rightarrow> l = - 1 \<and> c \<in> seeds | p # _ \<Rightarrow> (p, c) \<in> links children \<and> l = left_of st p))"

definition sizes_ok :: "nat list list \<Rightarrow> nat set \<Rightarrow> walk_state \<Rightarrow> bool" where
  "sizes_ok children seeds st \<longleftrightarrow> length (wk_out st) = length children \<and> length (wk_visited st) = length children
     \<and> (\<forall>cs \<in> set children. \<forall>c \<in> set cs. c < length children) \<and> (\<forall>c \<in> seeds. c < length children)
     \<and> 2 * int (length children) < i32_max"

text \<open>Open spans are nested in each other; closed ones have their interval.\<close>

definition open_ok :: "walk_state \<Rightarrow> nat list \<Rightarrow> bool" where
  "open_ok st opened \<longleftrightarrow> sorted_wrt (\<lambda>i j. left_of st j < left_of st i) opened \<and> (\<forall>i \<in> set opened. seen st i)
     \<and> wk_counter st + int (length opened) = 1 + 2 * (int (length (wk_visited st)) - int (unvisited st))"

definition numbered :: "walk_state \<Rightarrow> nat list \<Rightarrow> bool" where
  "numbered st opened \<longleftrightarrow> (\<forall>i. seen st i \<longrightarrow> 1 \<le> left_of st i \<and> left_of st i < wk_counter st
       \<and> (i \<notin> set opened \<longrightarrow> left_of st i < right_of st i \<and> right_of st i < wk_counter st))
     \<and> (\<forall>i < length (wk_visited st). \<not> wk_visited st ! i \<longrightarrow> wk_out st ! i = \<lparr>ns_left = 0, ns_right = 0, ns_parent_id = 0\<rparr>)"

definition laminar :: "nat list list \<Rightarrow> walk_state \<Rightarrow> nat list \<Rightarrow> bool" where
  "laminar children st opened \<longleftrightarrow> (\<forall>i j. seen st i \<and> seen st j \<and> i \<noteq> j \<longrightarrow> left_of st i \<noteq> left_of st j
     \<and> (left_of st i < left_of st j \<longrightarrow>
          (if i \<in> set opened then (i, j) \<in> (links children)\<^sup>+
           else right_of st i < left_of st j \<or> j \<notin> set opened \<and> right_of st j < right_of st i \<and> (i, j) \<in> (links children)\<^sup>+)))"

definition parented :: "nat list list \<Rightarrow> nat set \<Rightarrow> walk_state \<Rightarrow> nat list \<Rightarrow> bool" where
  "parented children seeds st opened \<longleftrightarrow> (\<forall>j. seen st j \<longrightarrow>
     ns_parent_id (wk_out st ! j) = - 1 \<and> j \<in> seeds
     \<or> (\<exists>p. (p, j) \<in> links children \<and> seen st p \<and> ns_parent_id (wk_out st ! j) = left_of st p \<and> left_of st p < left_of st j
          \<and> (p \<in> set opened \<or> j \<notin> set opened \<and> right_of st j < right_of st p)))"

definition pending_ok :: "nat list list \<Rightarrow> walk_state \<Rightarrow> frame list \<Rightarrow> bool" where
  "pending_ok children st stack \<longleftrightarrow> (\<forall>p c. (p, c) \<in> links children \<and> seen st p \<longrightarrow> seen st c \<or> (\<exists>l. Enter c l \<in> set stack))"

definition walk_inv :: "nat list list \<Rightarrow> nat set \<Rightarrow> walk_state \<Rightarrow> frame list \<Rightarrow> bool" where
  "walk_inv children seeds st stack \<longleftrightarrow> sizes_ok children seeds st \<and> frames_ok children seeds st stack \<and> open_ok st (open_spans stack)
     \<and> numbered st (open_spans stack) \<and> laminar children st (open_spans stack) \<and> parented children seeds st (open_spans stack)
     \<and> pending_ok children st stack"

lemma unvisited_update:
  assumes "i < length xs" and "\<not> xs ! i"
  shows "length (filter Not xs) = Suc (length (filter Not (xs[i := True])))"
  using assms
proof (induction xs arbitrary: i)
  case (Cons x xs)
  then show ?case by (cases i) auto
qed simp

lemma links_range: "sizes_ok children seeds st \<Longrightarrow> (p, c) \<in> links children \<Longrightarrow> p < length children \<and> c < length children"
  by (auto simp: sizes_ok_def links_def)

lemma frames_ok_in_range:
  assumes "frames_ok children seeds st stack" and "sizes_ok children seeds st" and "Enter c l \<in> set stack"
  shows "c < length children"
  using assms
proof (induction stack)
  case (Cons f stack)
  show ?case
  proof (cases "f = Enter c l")
    case True
    then show ?thesis using Cons.prems(1,2) links_range [OF Cons.prems(2)] by (auto simp: sizes_ok_def split: list.splits)
  next
    case False
    then show ?thesis using Cons by (cases f) auto
  qed
qed simp

text \<open>The facts of \<^term>\<open>frames_ok\<close> speak of the left ends of open spans only.\<close>

lemma frames_ok_cong:
  assumes "\<And>i. i \<in> set (open_spans stack) \<Longrightarrow> left_of st' i = left_of st i"
  shows "frames_ok children seeds st' stack = frames_ok children seeds st stack"
  using assms
proof (induction stack)
  case (Cons f stack)
  then show ?case by (cases f) (auto split: list.splits)
qed simp

section \<open>Entering a span\<close>

definition entered :: "nat \<Rightarrow> i32 \<Rightarrow> walk_state \<Rightarrow> walk_state" where
  "entered c l st = st\<lparr>wk_visited := (wk_visited st)[c := True], wk_counter := wk_counter st + 1,
     wk_out := (wk_out st)[c := (wk_out st ! c)\<lparr>ns_left := wk_counter st, ns_parent_id := l\<rparr>]\<rparr>"

lemma entered_simps:
  assumes "sizes_ok children seeds st" and "c < length children"
  shows "left_of (entered c l st) j = (if j = c then wk_counter st else left_of st j)"
    and "right_of (entered c l st) j = right_of st j"
    and "ns_parent_id (wk_out (entered c l st) ! j) = (if j = c then l else ns_parent_id (wk_out st ! j))"
    and "seen (entered c l st) j \<longleftrightarrow> j = c \<or> seen st j"
    and "wk_counter (entered c l st) = wk_counter st + 1"
  using assms by (auto simp: entered_def sizes_ok_def nth_list_update)

lemma enter_open:
  assumes ok: "sizes_ok children seeds st" "c < length children" and new: "\<not> seen st c"
    and opened: "open_ok st opened" and num: "numbered st opened"
  shows "open_ok (entered c l st) (c # opened)"
proof -
  note simps = entered_simps [OF ok]
  have c: "c < length (wk_visited st)" "\<not> wk_visited st ! c" using ok new by (auto simp: sizes_ok_def)
  have seen: "\<forall>i \<in> set opened. seen st i" using opened by (simp add: open_ok_def)
  then have ne: "\<forall>i \<in> set opened. i \<noteq> c" using new by auto
  let ?st = "entered c l st"
  have same: "left_of ?st i = left_of st i" if "i \<in> set opened" for i using that ne by (simp only: simps if_False simp_thms)
  have top: "left_of ?st c = wk_counter st" by (simp only: simps simp_thms if_True)
  have "sorted_wrt (\<lambda>i j. left_of ?st j < left_of ?st i) opened"
    by (rule sorted_wrt_mono_rel [of opened "\<lambda>i j. left_of st j < left_of st i"])
      (use opened same in \<open>simp_all only: open_ok_def\<close>)
  moreover have "\<forall>i \<in> set opened. left_of ?st i < left_of ?st c"
    using num seen unfolding top by (metis same numbered_def)
  ultimately have "sorted_wrt (\<lambda>i j. left_of ?st j < left_of ?st i) (c # opened)" by (simp only: sorted_wrt.simps simp_thms)
  moreover have "\<forall>i \<in> set (c # opened). seen ?st i" using seen by (simp only: simps) simp
  moreover have "unvisited st = Suc (unvisited ?st)" "length (wk_visited ?st) = length (wk_visited st)"
    using unvisited_update [OF c] by (simp_all add: entered_def)
  then have "wk_counter ?st + int (length (c # opened)) = 1 + 2 * (int (length (wk_visited ?st)) - int (unvisited ?st))"
    using opened by (simp add: open_ok_def simps(5))
  ultimately show ?thesis unfolding open_ok_def by (intro conjI)
qed

lemma enter_numbered:
  assumes ok: "sizes_ok children seeds st" "c < length children" and new: "\<not> seen st c" and num: "numbered st opened" and pos: "1 \<le> wk_counter st"
  shows "numbered (entered c l st) (c # opened)"
proof -
  note simps = entered_simps [OF ok]
  have "1 \<le> left_of (entered c l st) i \<and> left_of (entered c l st) i < wk_counter (entered c l st)
      \<and> (i \<notin> set (c # opened) \<longrightarrow> left_of (entered c l st) i < right_of (entered c l st) i \<and> right_of (entered c l st) i < wk_counter (entered c l st))"
    if "seen (entered c l st) i" for i
    using that num pos unfolding simps numbered_def by (cases "i = c") (auto dest: spec [of _ i])
  moreover have "wk_out (entered c l st) ! i = \<lparr>ns_left = 0, ns_right = 0, ns_parent_id = 0\<rparr>"
    if "i < length (wk_visited (entered c l st))" "\<not> wk_visited (entered c l st) ! i" for i
    using that num ok by (auto simp: numbered_def entered_def sizes_ok_def nth_list_update split: if_splits)
  ultimately show ?thesis by (simp add: numbered_def)
qed

text \<open>A span is entered with its pusher as the innermost open span, so every open span is its ancestor.\<close>

definition pushed_by :: "nat list list \<Rightarrow> nat set \<Rightarrow> walk_state \<Rightarrow> nat \<Rightarrow> i32 \<Rightarrow> nat list \<Rightarrow> bool" where
  "pushed_by children seeds st c l opened \<longleftrightarrow>
     (case opened of [] \<Rightarrow> l = - 1 \<and> c \<in> seeds | p # _ \<Rightarrow> (p, c) \<in> links children \<and> l = left_of st p)"

lemma open_ancestors:
  assumes "open_ok st opened" and "laminar children st opened" and "pushed_by children seeds st c l opened" and "i \<in> set opened"
  shows "(i, c) \<in> (links children)\<^sup>+"
proof -
  obtain p rest where op: "opened = p # rest" using assms(4) by (cases opened) auto
  then have link: "(p, c) \<in> links children" using assms(3) by (simp add: pushed_by_def)
  show ?thesis
  proof (cases "i = p")
    case True
    then show ?thesis using link by blast
  next
    case False
    then have "i \<in> set rest" using assms(4) op by simp
    then have "left_of st i < left_of st p" "seen st i" "seen st p" using assms(1) op by (auto simp: open_ok_def)
    then have "(i, p) \<in> (links children)\<^sup>+" using assms(2,4) False unfolding laminar_def by fastforce
    then show ?thesis using link by (rule trancl_into_trancl)
  qed
qed

lemma enter_laminar:
  assumes ok: "sizes_ok children seeds st" "c < length children" and new: "\<not> seen st c"
    and opened: "open_ok st opened" and num: "numbered st opened" and lam: "laminar children st opened"
    and push: "pushed_by children seeds st c l opened"
  shows "laminar children (entered c l st) (c # opened)"
  unfolding laminar_def
proof (intro allI impI)
  note simps = entered_simps [OF ok]
  fix i j
  assume ij: "seen (entered c l st) i \<and> seen (entered c l st) j \<and> i \<noteq> j"
  have lt: "seen st k \<Longrightarrow> left_of st k < wk_counter st" and closed: "seen st k \<Longrightarrow> k \<notin> set opened \<Longrightarrow> right_of st k < wk_counter st" for k
    using num by (auto simp: numbered_def)
  have old: "i \<noteq> c \<Longrightarrow> seen st i" "j \<noteq> c \<Longrightarrow> seen st j" using ij by (auto simp: simps)
  have c: "c \<notin> set opened" using new opened by (auto simp: open_ok_def)
  consider (first) "i = c" "j \<noteq> c" | (second) "j = c" "i \<noteq> c" | (both) "i \<noteq> c" "j \<noteq> c" using ij by blast
  then show "left_of (entered c l st) i \<noteq> left_of (entered c l st) j \<and> (left_of (entered c l st) i < left_of (entered c l st) j \<longrightarrow>
      (if i \<in> set (c # opened) then (i, j) \<in> (links children)\<^sup>+
       else right_of (entered c l st) i < left_of (entered c l st) j
         \<or> j \<notin> set (c # opened) \<and> right_of (entered c l st) j < right_of (entered c l st) i \<and> (i, j) \<in> (links children)\<^sup>+))"
  proof cases
    case first
    then show ?thesis using lt [OF old(2)] by (simp add: simps)
  next
    case second
    then show ?thesis using lt [OF old(1)] closed [OF old(1)] open_ancestors [OF opened lam push, of i] by (simp add: simps)
  next
    case both
    have "seen st i" "seen st j" "i \<noteq> j" using both old ij by blast+
    then have "left_of st i \<noteq> left_of st j \<and> (left_of st i < left_of st j \<longrightarrow>
        (if i \<in> set opened then (i, j) \<in> (links children)\<^sup>+
         else right_of st i < left_of st j \<or> j \<notin> set opened \<and> right_of st j < right_of st i \<and> (i, j) \<in> (links children)\<^sup>+))"
      using lam unfolding laminar_def by blast
    then show ?thesis using both by (simp add: simps)
  qed
qed

lemma parentedE:
  assumes "parented children seeds st opened" and "seen st j"
  obtains (seed) "ns_parent_id (wk_out st ! j) = - 1" and "j \<in> seeds"
  | (child) q where "(q, j) \<in> links children" and "seen st q" and "ns_parent_id (wk_out st ! j) = left_of st q" and "left_of st q < left_of st j"
      and "q \<in> set opened \<or> j \<notin> set opened \<and> right_of st j < right_of st q"
  using spec [OF assms(1) [unfolded parented_def], of j, THEN mp, OF assms(2)] by blast

lemma enter_parented:
  assumes ok: "sizes_ok children seeds st" "c < length children" and new: "\<not> seen st c"
    and opened: "open_ok st opened" and num: "numbered st opened" and par: "parented children seeds st opened"
    and push: "pushed_by children seeds st c l opened"
  shows "parented children seeds (entered c l st) (c # opened)"
  unfolding parented_def
proof (intro allI impI)
  note simps = entered_simps [OF ok]
  fix j
  assume j: "seen (entered c l st) j"
  let ?st = "entered c l st"
  show "ns_parent_id (wk_out ?st ! j) = - 1 \<and> j \<in> seeds
     \<or> (\<exists>p. (p, j) \<in> links children \<and> seen ?st p \<and> ns_parent_id (wk_out ?st ! j) = left_of ?st p \<and> left_of ?st p < left_of ?st j
          \<and> (p \<in> set (c # opened) \<or> j \<notin> set (c # opened) \<and> right_of ?st j < right_of ?st p))"
  proof (cases "j = c")
    case True
    show ?thesis
    proof (cases opened)
      case Nil
      then show ?thesis using push True by (simp add: pushed_by_def simps)
    next
      case (Cons p rest)
      then have "seen st p" "p \<noteq> c" using opened new by (auto simp: open_ok_def)
      moreover have "left_of st p < wk_counter st" using num \<open>seen st p\<close> by (auto simp: numbered_def)
      ultimately show ?thesis using push Cons True by (intro disjI2 exI [of _ p]) (simp add: pushed_by_def simps)
    qed
  next
    case False
    then have sj: "seen st j" using j by (simp add: simps)
    from par sj show ?thesis
    proof (cases rule: parentedE)
      case seed
      then show ?thesis using False by (simp add: simps)
    next
      case (child p)
      have "p \<noteq> c" using new child(2) by metis
      then have "seen ?st p" "ns_parent_id (wk_out ?st ! j) = left_of ?st p" "left_of ?st p < left_of ?st j"
        using child(2-4) False by (simp_all only: simps if_False simp_thms)
      moreover have "p \<in> set (c # opened) \<or> j \<notin> set (c # opened) \<and> right_of ?st j < right_of ?st p"
        using child(5) False by (simp only: simps list.set insert_iff) blast
      ultimately show ?thesis using child(1) by (intro disjI2 exI [of _ p]) (simp only: simp_thms)
    qed
  qed
qed

lemma frames_ok_push:
  assumes "frames_ok children seeds st (Exit p # stack)" and "p < length children" and "set cs \<subseteq> set (children ! p)" and "l = left_of st p"
  shows "frames_ok children seeds st (map (\<lambda>c. Enter c l) cs @ Exit p # stack)"
  using assms(3)
proof (induction cs)
  case Nil
  then show ?case using assms(1) by simp
next
  case (Cons c cs)
  then show ?case using assms by (simp add: links_def)
qed

lemma enter_inv:
  assumes inv: "walk_inv children seeds st (Enter c l # stack)" and new: "\<not> seen st c"
  shows "walk_inv children seeds (entered c l st) (map (\<lambda>ch. Enter ch (wk_counter st)) (children ! c) @ Exit c # stack)"
proof -
  let ?st = "entered c l st" and ?opened = "open_spans stack"
  have ok: "sizes_ok children seeds st" and frames: "frames_ok children seeds st (Enter c l # stack)"
    and opened: "open_ok st ?opened" and num: "numbered st ?opened" and lam: "laminar children st ?opened"
    and par: "parented children seeds st ?opened" and pend: "pending_ok children st (Enter c l # stack)"
    using inv by (simp_all add: walk_inv_def)
  have c: "c < length children" using frames_ok_in_range [OF frames ok, of c l] by simp
  have push: "pushed_by children seeds st c l ?opened" using frames by (simp add: pushed_by_def split: list.splits)
  have "int (unvisited st) \<le> int (length (wk_visited st))" by simp
  then have pos: "1 \<le> wk_counter st + int (length ?opened)" using opened by (simp add: open_ok_def)
  have pos: "1 \<le> wk_counter st"
  proof (cases ?opened)
    case Nil
    then show ?thesis using pos by simp
  next
    case (Cons p rest)
    then have "seen st p" using opened by (simp add: open_ok_def)
    then show ?thesis using num by (auto simp: numbered_def)
  qed
  have "sizes_ok children seeds ?st" using ok by (simp add: sizes_ok_def entered_def)
  moreover have "frames_ok children seeds ?st (map (\<lambda>ch. Enter ch (wk_counter st)) (children ! c) @ Exit c # stack)"
  proof (rule frames_ok_push)
    have "c \<notin> set ?opened" using opened new by (auto simp: open_ok_def)
    then have "left_of ?st i = left_of st i" if "i \<in> set ?opened" for i
      using that by (auto simp: entered_simps [OF ok c])
    then show "frames_ok children seeds ?st (Exit c # stack)"
      using frames frames_ok_cong [of stack ?st st children seeds] by simp
  qed (simp_all add: c entered_simps [OF ok c])
  moreover have "pending_ok children ?st (map (\<lambda>ch. Enter ch (wk_counter st)) (children ! c) @ Exit c # stack)"
    using pend unfolding pending_ok_def entered_simps [OF ok c] by (auto simp: links_def)
  ultimately show ?thesis
    using enter_open [OF ok c new opened num, of l] enter_numbered [OF ok c new num pos, of l]
      enter_laminar [OF ok c new opened num lam push] enter_parented [OF ok c new opened num par push]
    by (simp add: walk_inv_def)
qed

lemma enter_total:
  assumes inv: "walk_inv children seeds st (Enter c l # stack)" and new: "\<not> seen st c"
  shows "enter_span children c l st = Some (map (\<lambda>ch. Enter ch (wk_counter st)) (children ! c) @ [Exit c], entered c l st)"
proof -
  have ok: "sizes_ok children seeds st" and frames: "frames_ok children seeds st (Enter c l # stack)" and opened: "open_ok st (open_spans stack)"
    using inv by (simp_all add: walk_inv_def)
  have c: "c < length children" using frames_ok_in_range [OF frames ok, of c l] by simp
  then have "c < length (wk_visited st)" "\<not> wk_visited st ! c" using ok new by (auto simp: sizes_ok_def)
  then obtain k where "unvisited st = Suc k" using unvisited_update by blast
  moreover have "wk_counter st + int (length (open_spans stack)) = 1 + 2 * (int (length (wk_visited st)) - int (unvisited st))"
    and "2 * int (length (wk_visited st)) < i32_max" using opened ok by (simp_all add: open_ok_def sizes_ok_def)
  ultimately have "wk_counter st < i32_max" by simp
  then show ?thesis
    using c ok new by (simp add: enter_span_def nth_opt_def bump_def sizes_ok_def entered_def)
qed

lemma skip_inv:
  assumes "walk_inv children seeds st (Enter c l # stack)" and "seen st c"
  shows "walk_inv children seeds st stack" and "enter_span children c l st = Some ([], st)"
proof -
  have "pending_ok children st stack"
    using assms unfolding walk_inv_def pending_ok_def by auto
  then show "walk_inv children seeds st stack" using assms(1) by (simp add: walk_inv_def)
  show "enter_span children c l st = Some ([], st)" using assms(2) by (simp add: enter_span_def nth_opt_def)
qed

section \<open>Leaving a span\<close>

definition left_span :: "nat \<Rightarrow> walk_state \<Rightarrow> walk_state" where
  "left_span p st = st\<lparr>wk_counter := wk_counter st + 1, wk_out := (wk_out st)[p := (wk_out st ! p)\<lparr>ns_right := wk_counter st\<rparr>]\<rparr>"

lemma left_span_simps:
  assumes "sizes_ok children seeds st" and "p < length children"
  shows "left_of (left_span p st) j = left_of st j"
    and "right_of (left_span p st) j = (if j = p then wk_counter st else right_of st j)"
    and "ns_parent_id (wk_out (left_span p st) ! j) = ns_parent_id (wk_out st ! j)"
    and "wk_visited (left_span p st) = wk_visited st" and "wk_counter (left_span p st) = wk_counter st + 1"
  using assms by (auto simp: left_span_def sizes_ok_def nth_list_update)

lemma exit_numbered:
  assumes ok: "sizes_ok children seeds st" "p < length children" and num: "numbered st (p # opened)" and seen: "seen st p"
  shows "numbered (left_span p st) opened"
proof -
  have "wk_out (left_span p st) ! i = wk_out st ! i" if "\<not> seen st i" for i
    using that seen by (cases "i = p") (auto simp: left_span_def)
  then show ?thesis
    using num unfolding numbered_def left_span_simps [OF ok] by (auto simp: less_imp_le)
qed

lemma exit_laminar:
  assumes ok: "sizes_ok children seeds st" "p < length children" and num: "numbered st (p # opened)"
    and opened: "open_ok st (p # opened)" and lam: "laminar children st (p # opened)"
  shows "laminar children (left_span p st) opened"
  unfolding laminar_def left_span_simps [OF ok]
proof (intro allI impI)
  fix i j
  assume ij: "seen st i \<and> seen st j \<and> i \<noteq> j"
  have p: "p \<notin> set opened" and lower: "\<And>k. k \<in> set opened \<Longrightarrow> left_of st k < left_of st p" using opened by (auto simp: open_ok_def)
  have lt: "left_of st j < wk_counter st" and closed: "j \<notin> set (p # opened) \<Longrightarrow> right_of st j < wk_counter st"
    using num ij by (auto simp: numbered_def)
  have "left_of st i \<noteq> left_of st j \<and> (left_of st i < left_of st j \<longrightarrow>
      (if i \<in> set (p # opened) then (i, j) \<in> (links children)\<^sup>+
       else right_of st i < left_of st j \<or> j \<notin> set (p # opened) \<and> right_of st j < right_of st i \<and> (i, j) \<in> (links children)\<^sup>+))"
    using lam ij unfolding laminar_def by blast
  then show "left_of st i \<noteq> left_of st j \<and> (left_of st i < left_of st j \<longrightarrow>
      (if i \<in> set opened then (i, j) \<in> (links children)\<^sup>+
       else (if i = p then wk_counter st else right_of st i) < left_of st j
         \<or> j \<notin> set opened \<and> (if j = p then wk_counter st else right_of st j) < (if i = p then wk_counter st else right_of st i)
           \<and> (i, j) \<in> (links children)\<^sup>+))"
    using p lower [of j] lt closed ij by (cases "i = p"; cases "j = p"; cases "j \<in> set opened") auto
qed

lemma exit_parented:
  assumes ok: "sizes_ok children seeds st" "p < length children" and num: "numbered st (p # opened)"
    and opened: "open_ok st (p # opened)" and par: "parented children seeds st (p # opened)"
  shows "parented children seeds (left_span p st) opened"
  unfolding parented_def left_span_simps [OF ok]
proof (intro allI impI)
  fix j
  assume j: "seen st j"
  have p: "p \<notin> set opened" and lower: "k \<in> set opened \<Longrightarrow> left_of st k < left_of st p" for k using opened by (auto simp: open_ok_def)
  have closed: "j \<notin> set (p # opened) \<Longrightarrow> right_of st j < wk_counter st" using num j by (auto simp: numbered_def)
  from par j show "ns_parent_id (wk_out st ! j) = - 1 \<and> j \<in> seeds
     \<or> (\<exists>q. (q, j) \<in> links children \<and> seen st q \<and> ns_parent_id (wk_out st ! j) = left_of st q \<and> left_of st q < left_of st j
          \<and> (q \<in> set opened \<or> j \<notin> set opened \<and> (if j = p then wk_counter st else right_of st j) < (if q = p then wk_counter st else right_of st q)))"
  proof (cases rule: parentedE)
    case seed
    then show ?thesis by simp
  next
    case (child q)
    have "q \<in> set opened \<or> j \<notin> set opened \<and> (if j = p then wk_counter st else right_of st j) < (if q = p then wk_counter st else right_of st q)"
    proof (cases "q = p")
      case True
      then have "j \<noteq> p" "j \<notin> set opened" using child(4) lower [of j] by force+
      then show ?thesis using closed True by simp
    next
      case False
      then show ?thesis using child(5) by auto
    qed
    with child(1-4) show ?thesis by (intro disjI2 exI [of _ q]) (simp only: simp_thms)
  qed
qed

lemma exit_inv:
  assumes inv: "walk_inv children seeds st (Exit p # stack)"
  shows "exit_span p st = Some (left_span p st)" and "walk_inv children seeds (left_span p st) stack"
proof -
  let ?opened = "open_spans stack" and ?st = "left_span p st"
  have ok: "sizes_ok children seeds st" and frames: "frames_ok children seeds st stack"
    and opened: "open_ok st (p # ?opened)" and num: "numbered st (p # ?opened)" and lam: "laminar children st (p # ?opened)"
    and par: "parented children seeds st (p # ?opened)" and pend: "pending_ok children st (Exit p # stack)"
    using inv by (simp_all add: walk_inv_def)
  have seen: "seen st p" using opened by (simp add: open_ok_def)
  then have p: "p < length children" using ok by (simp add: sizes_ok_def)
  have count: "wk_counter st + int (length ?opened) = 2 * (int (length (wk_visited st)) - int (unvisited st))"
    using opened by (simp add: open_ok_def)
  moreover have "2 * int (length (wk_visited st)) < i32_max" using ok by (simp add: sizes_ok_def)
  ultimately have "wk_counter st < i32_max" by simp
  then show "exit_span p st = Some ?st"
    using p ok by (simp add: exit_span_def nth_opt_def bump_def sizes_ok_def left_span_def)
  have "open_ok ?st ?opened"
    using opened count unfolding open_ok_def left_span_simps [OF ok p] by simp
  moreover have "frames_ok children seeds ?st stack"
    using frames frames_ok_cong [of stack ?st st children seeds] left_span_simps(1) [OF ok p] by simp
  moreover have "sizes_ok children seeds ?st" using ok by (simp add: sizes_ok_def left_span_def)
  moreover have "pending_ok children ?st stack" using pend unfolding pending_ok_def left_span_simps [OF ok p] by auto
  ultimately show "walk_inv children seeds ?st stack"
    using exit_numbered [OF ok p num seen] exit_laminar [OF ok p num opened lam] exit_parented [OF ok p num opened par]
    by (simp add: walk_inv_def)
qed

section \<open>The whole walk\<close>

lemma walk_ok:
  assumes "walk_inv children seeds st stack"
  shows "\<exists>st'. walk children stack st = Some st' \<and> walk_inv children seeds st' []
    \<and> (\<forall>i. seen st i \<or> (\<exists>l. Enter i l \<in> set stack) \<longrightarrow> seen st' i)"
  using assms
proof (induction children stack st rule: walk.induct)
  case (1 children st)
  then show ?case by simp
next
  case (2 children c l stack st)
  show ?case
  proof (cases "seen st c")
    case True
    note skip = skip_inv [OF "2.prems" True]
    show ?thesis using "2.IH" [OF skip(2)] skip True by auto
  next
    case False
    note go = enter_total [OF "2.prems" False] and inv = enter_inv [OF "2.prems" False]
    have c: "c < length children" using "2.prems" frames_ok_in_range [of children seeds st "Enter c l # stack" c l] by (simp add: walk_inv_def)
    have "seen (entered c l st) i" if "seen st i \<or> i = c" for i
      using that entered_simps(4) [of children seeds st c i l] c "2.prems" by (auto simp: walk_inv_def)
    then show ?thesis using "2.IH" [OF go] inv by (auto simp: go)
  qed
next
  case (3 children p stack st)
  note go = exit_inv [OF "3.prems"]
  have "wk_visited (left_span p st) = wk_visited st" by (simp add: left_span_def)
  then show ?case using "3.IH" [OF go(1) go(2)] by (auto simp: go(1))
qed

lemma seed_inv: "walk_inv children seeds st [] \<Longrightarrow> root \<in> seeds \<Longrightarrow> walk_inv children seeds st [Enter root (- 1)]"
  unfolding walk_inv_def pending_ok_def by (simp only: open_spans_simps frames_ok.simps list.case list.set simp_thms) blast

lemma walk_roots_ok:
  assumes "walk_inv children seeds st []" and "set roots \<subseteq> seeds"
  shows "\<exists>st'. walk_roots children roots st = Some st' \<and> walk_inv children seeds st' [] \<and> (\<forall>i. seen st i \<or> i \<in> set roots \<longrightarrow> seen st' i)"
  using assms
proof (induction roots arbitrary: st)
  case Nil
  then show ?case by simp
next
  case (Cons root roots)
  obtain st1 where one: "walk children [Enter root (- 1)] st = Some st1" "walk_inv children seeds st1 []"
    "\<forall>i. seen st i \<or> (\<exists>l. Enter i l \<in> set [Enter root (- 1)]) \<longrightarrow> seen st1 i"
    using walk_ok [OF seed_inv [OF Cons.prems(1)], of root] Cons.prems(2) by auto
  obtain st2 where "walk_roots children roots st1 = Some st2" "walk_inv children seeds st2 []" "\<forall>i. seen st1 i \<or> i \<in> set roots \<longrightarrow> seen st2 i"
    using Cons.IH [OF one(2)] Cons.prems(2) by auto
  with one show ?case by auto
qed

lemma walk_roots_append: "walk_roots children (xs @ ys) st = Option.bind (walk_roots children xs st) (walk_roots children ys)"
proof (induction xs arbitrary: st)
  case (Cons x xs)
  then show ?case by (cases "walk children [Enter x (- 1)] st") simp_all
qed simp

lemma walk_roots_seen:
  assumes "\<forall>i \<in> set roots. seen st i"
  shows "walk_roots children roots st = Some st"
  using assms
proof (induction roots)
  case (Cons root roots)
  have "enter_span children root (- 1) st = Some ([], st)" using Cons.prems by (simp add: enter_span_def nth_opt_def)
  then have "walk children [Enter root (- 1)] st = Some st" by simp
  then show ?case using Cons by simp
qed simp

lemma walk_new_inv:
  assumes "\<forall>cs \<in> set children. \<forall>c \<in> set cs. c < length children" and "\<forall>c \<in> seeds. c < length children" and "2 * int (length children) < i32_max"
  shows "walk_inv children seeds (walk_new (length children)) []"
  using assms
  by (auto simp: walk_inv_def walk_new_def sizes_ok_def open_ok_def numbered_def laminar_def parented_def pending_ok_def)

section \<open>The parent links of a trace\<close>

text \<open>A span is a child of the last span that has the id it names as its parent, unless that is the span itself.\<close>

definition child_of :: "span_node list \<Rightarrow> (nat \<times> nat) set" where
  "child_of spans = {(p, c). p < length spans \<and> c < length spans \<and> p \<noteq> c
     \<and> sn_parent_span_id (spans ! c) = Some (sn_span_id (spans ! p))
     \<and> (\<forall>q. p < q \<and> q < length spans \<longrightarrow> sn_span_id (spans ! q) \<noteq> sn_span_id (spans ! p))}"

lemma span_positions_snoc: "span_positions (spans @ [span]) = (span_positions spans)(sn_span_id span \<mapsto> length spans)"
  by (simp add: span_positions_def enumerate_append_eq)

lemma span_positions_last:
  "span_positions spans k = Some p \<longleftrightarrow> p < length spans \<and> sn_span_id (spans ! p) = k
     \<and> (\<forall>q. p < q \<and> q < length spans \<longrightarrow> sn_span_id (spans ! q) \<noteq> k)"
proof (induction spans rule: rev_induct)
  case Nil
  then show ?case by (simp add: span_positions_def)
next
  case (snoc span spans)
  let ?n = "length spans"
  have old: "(spans @ [span]) ! q = spans ! q" if "q < ?n" for q using that by (simp add: nth_append)
  have rest: "(\<forall>q. p < q \<and> q < Suc ?n \<longrightarrow> sn_span_id ((spans @ [span]) ! q) \<noteq> k)
      \<longleftrightarrow> (\<forall>q. p < q \<and> q < ?n \<longrightarrow> sn_span_id (spans ! q) \<noteq> k) \<and> (p < ?n \<longrightarrow> sn_span_id span \<noteq> k)"
    by (auto simp: less_Suc_eq old)
  have "(p < Suc ?n \<and> sn_span_id ((spans @ [span]) ! p) = k) \<longleftrightarrow> p < ?n \<and> sn_span_id (spans ! p) = k \<or> p = ?n \<and> sn_span_id span = k"
    by (cases "p = ?n") (auto simp: old)
  then have "(p < length (spans @ [span]) \<and> sn_span_id ((spans @ [span]) ! p) = k \<and> (\<forall>q. p < q \<and> q < length (spans @ [span]) \<longrightarrow> sn_span_id ((spans @ [span]) ! q) \<noteq> k))
      \<longleftrightarrow> (if sn_span_id span = k then p = ?n else span_positions spans k = Some p)"
    unfolding snoc length_append_singleton conj_assoc [symmetric] rest by (cases "p = ?n"; cases "sn_span_id span = k") (simp_all, auto)
  then show ?case by (auto simp: span_positions_snoc)
qed

lemma parent_index_child:
  assumes "c < length spans"
  shows "parent_index (span_positions spans) c (spans ! c) = Some p \<longleftrightarrow> (p, c) \<in> child_of spans"
proof (cases "sn_parent_span_id (spans ! c)")
  case None
  then show ?thesis by (simp add: parent_index_def child_of_def)
next
  case (Some k)
  have "parent_index (span_positions spans) c (spans ! c) = Some p \<longleftrightarrow> span_positions spans k = Some p \<and> p \<noteq> c"
    by (auto simp: parent_index_def Some split: option.splits)
  also have "\<dots> \<longleftrightarrow> (p, c) \<in> child_of spans"
    unfolding span_positions_last child_of_def mem_Collect_eq prod.case Some option.inject using assms by (cases "sn_span_id (spans ! p) = k") (simp_all add: conj_ac)
  finally show ?thesis .
qed

lemma link_fold:
  assumes "\<forall>k p. pos k = Some p \<longrightarrow> p < length children" and "fold (link_span pos) es (children, roots) = (children', roots')"
  shows "length children' = length children
    \<and> (\<forall>p < length children. \<forall>c. c \<in> set (children' ! p) \<longleftrightarrow> c \<in> set (children ! p) \<or> (\<exists>x. (c, x) \<in> set es \<and> parent_index pos c x = Some p))
    \<and> (\<forall>c. c \<in> set roots' \<longleftrightarrow> c \<in> set roots \<or> (\<exists>x. (c, x) \<in> set es \<and> parent_index pos c x = None))"
  using assms
proof (induction es arbitrary: children roots)
  case Nil
  then show ?case by simp
next
  case (Cons e es)
  obtain n x where e: "e = (n, x)" by force
  show ?case
  proof (cases "parent_index pos n x")
    case None
    then have "link_span pos e (children, roots) = (children, roots @ [n])" by (simp add: e link_span_def)
    then have "fold (link_span pos) es (children, roots @ [n]) = (children', roots')" using Cons.prems(2) by simp
    from Cons.IH [OF Cons.prems(1) this] None show ?thesis by (auto simp: e)
  next
    case (Some p)
    then have p: "p < length children" using Cons.prems(1) by (auto simp: parent_index_def split: option.splits Option.bind_splits if_splits)
    have "link_span pos e (children, roots) = (children[p := children ! p @ [n]], roots)" using Some by (simp add: e link_span_def)
    then have "fold (link_span pos) es (children[p := children ! p @ [n]], roots) = (children', roots')" using Cons.prems(2) by simp
    from Cons.IH [OF _ this] Cons.prems(1) Some p show ?thesis by (auto simp: e nth_list_update)
  qed
qed

lemma link_spans_ok:
  assumes "link_spans spans = (children, roots)"
  shows "length children = length spans" and "links children = child_of spans"
    and "set roots = {c. c < length spans \<and> (\<nexists>p. (p, c) \<in> child_of spans)}"
proof -
  have "\<forall>k p. span_positions spans k = Some p \<longrightarrow> p < length (replicate (length spans) ([] :: nat list))"
    by (simp add: span_positions_last)
  note fold = link_fold [OF this assms [unfolded link_spans_def]]
  show len: "length children = length spans" using fold by simp
  have child: "c \<in> set (children ! p) \<longleftrightarrow> (p, c) \<in> child_of spans" if "p < length spans" for p c
  proof -
    have "c \<in> set (children ! p) \<longleftrightarrow> c < length spans \<and> parent_index (span_positions spans) c (spans ! c) = Some p"
      using fold that by (simp add: in_set_enumerate_eq)
    also have "\<dots> \<longleftrightarrow> (p, c) \<in> child_of spans" using parent_index_child [of c spans p] by (auto simp: child_of_def)
    finally show ?thesis .
  qed
  have "(p, c) \<in> links children \<longleftrightarrow> p < length spans \<and> (p, c) \<in> child_of spans" for p c
    unfolding links_def len mem_Collect_eq prod.case using child by blast
  then show "links children = child_of spans" by (auto simp: child_of_def)
  have "c \<in> set roots \<longleftrightarrow> c < length spans \<and> parent_index (span_positions spans) c (spans ! c) = None" for c
    using fold by (simp add: in_set_enumerate_eq)
  moreover have "parent_index (span_positions spans) c (spans ! c) = None \<longleftrightarrow> (\<nexists>p. (p, c) \<in> child_of spans)" if "c < length spans" for c
    using parent_index_child [OF that] by (metis not_None_eq)
  ultimately show "set roots = {c. c < length spans \<and> (\<nexists>p. (p, c) \<in> child_of spans)}" by blast
qed

section \<open>What the intervals say\<close>

definition inside :: "nested_set list \<Rightarrow> nat \<Rightarrow> nat \<Rightarrow> bool" where
  "inside out j i \<longleftrightarrow> ns_left (out ! i) < ns_left (out ! j) \<and> ns_right (out ! j) < ns_right (out ! i)"

definition apart :: "nested_set list \<Rightarrow> nat \<Rightarrow> nat \<Rightarrow> bool" where
  "apart out i j \<longleftrightarrow> ns_right (out ! i) < ns_left (out ! j) \<or> ns_right (out ! j) < ns_left (out ! i)"

text \<open>Proper intervals within the first \<open>2n\<close> numbers, any two apart or one inside the other.\<close>

definition intervals_ok :: "nested_set list \<Rightarrow> nat \<Rightarrow> bool" where
  "intervals_ok out n \<longleftrightarrow> length out = n
     \<and> (\<forall>i < n. 1 \<le> ns_left (out ! i) \<and> ns_left (out ! i) < ns_right (out ! i) \<and> ns_right (out ! i) \<le> 2 * int n)
     \<and> (\<forall>i < n. \<forall>j < n. i \<noteq> j \<longrightarrow> apart out i j \<or> inside out i j \<or> inside out j i)"

lemma link_range:
  assumes "link_spans spans = (children, roots)"
  shows "\<forall>cs \<in> set children. \<forall>c \<in> set cs. c < length children" and "set roots \<subseteq> {..<length children}"
proof -
  note ok = link_spans_ok [OF assms]
  show "\<forall>cs \<in> set children. \<forall>c \<in> set cs. c < length children"
  proof (intro ballI)
    fix cs c
    assume "cs \<in> set children" "c \<in> set cs"
    then obtain p where "(p, c) \<in> links children" by (auto simp: links_def in_set_conv_nth)
    then show "c < length children" unfolding ok(1,2) child_of_def by simp
  qed
  show "set roots \<subseteq> {..<length children}" using ok(1,3) by auto
qed

lemma all_seen_intervals:
  assumes inv: "walk_inv children seeds st []" and all: "\<forall>i < length children. seen st i"
  shows "intervals_ok (wk_out st) (length children)"
    and "\<And>i j. i < length children \<Longrightarrow> j < length children \<Longrightarrow> i \<noteq> j \<Longrightarrow> inside (wk_out st) j i \<Longrightarrow> (i, j) \<in> (links children)\<^sup>+"
proof -
  have len: "length (wk_out st) = length children" "length (wk_visited st) = length children" using inv by (simp_all add: walk_inv_def sizes_ok_def)
  have num: "numbered st []" and lam: "laminar children st []" and "open_ok st []" using inv by (simp_all add: walk_inv_def)
  then have top: "wk_counter st \<le> 1 + 2 * int (length children)" using len by (simp add: open_ok_def)
  have bounds: "1 \<le> left_of st i \<and> left_of st i < right_of st i \<and> right_of st i < wk_counter st" if "i < length children" for i
    using num all that by (simp add: numbered_def)
  have nest: "left_of st i \<noteq> left_of st j \<and> (left_of st i < left_of st j \<longrightarrow>
      right_of st i < left_of st j \<or> right_of st j < right_of st i \<and> (i, j) \<in> (links children)\<^sup>+)"
    if "i < length children" "j < length children" "i \<noteq> j" for i j
    using lam all that by (simp add: laminar_def)
  show "intervals_ok (wk_out st) (length children)"
    unfolding intervals_ok_def
  proof (intro conjI allI impI)
    fix i j
    assume ij: "i < length children" "j < length children" "i \<noteq> j"
    consider "left_of st i < left_of st j" | "left_of st j < left_of st i" using nest [OF ij] by linarith
    then show "apart (wk_out st) i j \<or> inside (wk_out st) i j \<or> inside (wk_out st) j i"
      using nest [OF ij] nest [OF ij(2,1) ij(3) [symmetric]] by cases (auto simp: apart_def inside_def)
  next
    fix i
    assume i: "i < length children"
    show "right_of st i \<le> 2 * int (length children)" using bounds [OF i] top by linarith
  qed (use len bounds in simp_all)
  show "(i, j) \<in> (links children)\<^sup>+" if "i < length children" "j < length children" "i \<noteq> j" "inside (wk_out st) j i" for i j
    using nest [OF that(1-3)] bounds [OF that(2)] that(4) by (auto simp: inside_def)
qed

text \<open>
  C37. With \<open>AssignIntervals\<close> every span gets a proper interval, whatever its parent links: also links in a
  cycle, to itself, to a span that is not there, or to an id that several spans have.  The walk ends without
  a panic, any two intervals are apart or nested, nesting follows parent links only, and the parent id of a
  span is the sentinel or the left end of the span it links to, whose interval encloses its own.
\<close>

theorem nested_set_total:
  assumes "2 * int (length spans) < i32_max"
  shows "\<exists>out. assign_nested_set spans Assign_intervals = Some out \<and> intervals_ok out (length spans)
    \<and> (\<forall>i < length spans. \<forall>j < length spans. i \<noteq> j \<and> inside out j i \<longrightarrow> (i, j) \<in> (child_of spans)\<^sup>+)
    \<and> (\<forall>j < length spans. ns_parent_id (out ! j) = - 1
         \<or> (\<exists>p. (p, j) \<in> child_of spans \<and> ns_parent_id (out ! j) = ns_left (out ! p) \<and> inside out j p))"
proof -
  obtain children roots where link: "link_spans spans = (children, roots)" by force
  note ok = link_spans_ok [OF link] and range = link_range [OF link]
  have new: "walk_inv children {..<length children} (walk_new (length children)) []"
    using walk_new_inv [OF range(1)] assms ok(1) by simp
  have seeds: "set (roots @ [0..<length spans]) \<subseteq> {..<length children}" using range(2) ok(1) by auto
  obtain st where run: "walk_roots children (roots @ [0..<length spans]) (walk_new (length children)) = Some st"
    and inv: "walk_inv children {..<length children} st []" and seen: "\<forall>i < length children. seen st i"
    using walk_roots_ok [OF new seeds] ok(1) by auto
  have out: "assign_nested_set spans Assign_intervals = Some (wk_out st)" using run by (simp add: assign_nested_set_def link ok(1))
  have par: "parented children {..<length children} st []" using inv by (simp add: walk_inv_def)
  have "ns_parent_id (wk_out st ! j) = - 1 \<or> (\<exists>p. (p, j) \<in> child_of spans \<and> ns_parent_id (wk_out st ! j) = left_of st p \<and> inside (wk_out st) j p)"
    if "j < length spans" for j
  proof -
    have "seen st j" using seen that ok(1) by simp
    with par show ?thesis by (cases rule: parentedE) (auto simp: inside_def ok(2))
  qed
  moreover have "intervals_ok (wk_out st) (length spans)" using all_seen_intervals(1) [OF inv seen] ok(1) by simp
  moreover have "\<forall>i < length spans. \<forall>j < length spans. i \<noteq> j \<and> inside (wk_out st) j i \<longrightarrow> (i, j) \<in> (child_of spans)\<^sup>+"
    using all_seen_intervals(2) [OF inv seen] unfolding ok(1,2) by simp
  ultimately show ?thesis using out by (intro exI [of _ "wk_out st"]) simp
qed

lemma child_of_unique: "(p, c) \<in> child_of spans \<Longrightarrow> (q, c) \<in> child_of spans \<Longrightarrow> p = q"
  using parent_index_child [of c spans] by (metis (no_types, lifting) child_of_def case_prodD mem_Collect_eq option.inject)

lemma child_of_wf:
  assumes "acyclic (child_of spans)"
  shows "wf (child_of spans)"
proof -
  have "child_of spans \<subseteq> {..<length spans} \<times> {..<length spans}" by (auto simp: child_of_def)
  then have "finite (child_of spans)" by (rule finite_subset) simp
  then show ?thesis using assms by (rule finite_acyclic_wf)
qed

text \<open>Without cycles the roots reach every span.\<close>

lemma acyclic_all_seen:
  assumes "link_spans spans = (children, roots)" and "acyclic (child_of spans)" and inv: "walk_inv children seeds st []"
    and seen: "\<forall>i \<in> set roots. seen st i"
  shows "c < length spans \<Longrightarrow> seen st c"
proof (induction c rule: wf_induct_rule [OF child_of_wf [OF assms(2)]])
  case (1 c)
  note ok = link_spans_ok [OF assms(1)]
  show ?case
  proof (cases "\<exists>p. (p, c) \<in> child_of spans")
    case True
    then obtain p where p: "(p, c) \<in> child_of spans" ..
    then have "seen st p" using "1.IH" by (simp add: child_of_def)
    moreover have "pending_ok children st []" using inv by (simp add: walk_inv_def)
    moreover have "(p, c) \<in> links children" using p ok(2) by simp
    ultimately have "seen st c \<or> (\<exists>l. Enter c l \<in> set [])" unfolding pending_ok_def by blast
    then show ?thesis by simp
  next
    case False
    then show ?thesis using seen ok(3) "1.prems" by blast
  qed
qed

lemma ancestor_inside:
  assumes link: "link_spans spans = (children, roots)" and inv: "walk_inv children (set roots) st []" and all: "\<forall>i < length children. seen st i"
  shows "(p, c) \<in> child_of spans \<Longrightarrow> inside (wk_out st) c p \<and> ns_parent_id (wk_out st ! c) = left_of st p"
    and "(i, j) \<in> (child_of spans)\<^sup>+ \<Longrightarrow> inside (wk_out st) j i"
proof -
  note ok = link_spans_ok [OF link]
  have par: "parented children (set roots) st []" using inv by (simp add: walk_inv_def)
  show one: "inside (wk_out st) c p \<and> ns_parent_id (wk_out st ! c) = left_of st p" if pc: "(p, c) \<in> child_of spans" for p c
  proof -
    have "c < length children" using pc unfolding ok(1) child_of_def by simp
    then have "seen st c" using all by blast
    with par show ?thesis
    proof (cases rule: parentedE)
      case seed
      then show ?thesis using pc ok(3) by blast
    next
      case (child q)
      then have "q = p" using child_of_unique [OF _ pc] ok(2) by simp
      then show ?thesis using child by (simp add: inside_def)
    qed
  qed
  show "inside (wk_out st) j i" if "(i, j) \<in> (child_of spans)\<^sup>+"
    using that
  proof (induction rule: trancl_induct)
    case (base j)
    then show ?case using one by simp
  next
    case (step j k)
    then show ?case using one [OF step.hyps(2)] by (simp add: inside_def)
  qed
qed

text \<open>
  C36. When the parent links have no cycle, the intervals answer every question about the tree: one span lies
  inside another exactly when it descends from it, the parent id of a span is the left end of its parent, and
  of a root the sentinel.  Both modes for cycles give this, and neither panics.
\<close>

theorem nested_set_ancestry:
  assumes "acyclic (child_of spans)" and "2 * int (length spans) < i32_max"
  shows "\<exists>out. assign_nested_set spans cycles = Some out \<and> intervals_ok out (length spans)
    \<and> (\<forall>i < length spans. \<forall>j < length spans. inside out j i \<longleftrightarrow> (i, j) \<in> (child_of spans)\<^sup>+)
    \<and> (\<forall>p c. (p, c) \<in> child_of spans \<longrightarrow> ns_parent_id (out ! c) = ns_left (out ! p))
    \<and> (\<forall>c < length spans. (\<nexists>p. (p, c) \<in> child_of spans) \<longrightarrow> ns_parent_id (out ! c) = - 1)"
proof -
  obtain children roots where link: "link_spans spans = (children, roots)" by force
  note ok = link_spans_ok [OF link] and range = link_range [OF link]
  have new: "walk_inv children (set roots) (walk_new (length children)) []"
    using walk_new_inv [OF range(1)] range(2) assms(2) ok(1) by auto
  obtain st where run: "walk_roots children roots (walk_new (length children)) = Some st"
    and inv: "walk_inv children (set roots) st []" and rooted: "\<forall>i \<in> set roots. seen st i"
    using walk_roots_ok [OF new order_refl] by blast
  have seen: "\<forall>i < length children. seen st i" using acyclic_all_seen [OF link assms(1) inv rooted] ok(1) by simp
  have "\<forall>i \<in> set (case cycles of Assign_intervals \<Rightarrow> [0..<length spans] | Leave_unassigned \<Rightarrow> []). seen st i"
    using seen ok(1) by (simp split: cycle_spans.splits)
  from walk_roots_seen [OF this] have out: "assign_nested_set spans cycles = Some (wk_out st)"
    using run by (simp add: assign_nested_set_def link walk_roots_append ok(1))
  note above = ancestor_inside [OF link inv seen]
  have "inside (wk_out st) j i \<longleftrightarrow> (i, j) \<in> (child_of spans)\<^sup>+" if "i < length spans" "j < length spans" for i j
  proof
    assume "inside (wk_out st) j i"
    moreover from this have "i \<noteq> j" by (auto simp: inside_def)
    ultimately show "(i, j) \<in> (child_of spans)\<^sup>+"
      using all_seen_intervals(2) [OF inv seen, of i j] that unfolding ok(1,2) by blast
  qed (rule above(2))
  moreover have "ns_parent_id (wk_out st ! c) = - 1" if c: "c < length spans" "\<nexists>p. (p, c) \<in> child_of spans" for c
  proof -
    have "parented children (set roots) st []" "seen st c" using inv seen c(1) ok(1) by (simp_all add: walk_inv_def)
    then show ?thesis
    proof (cases rule: parentedE)
      case (child q)
      then show ?thesis using c(2) ok(2) by blast
    qed
  qed
  moreover have "intervals_ok (wk_out st) (length spans)" using all_seen_intervals(1) [OF inv seen] ok(1) by simp
  moreover have "\<forall>p c. (p, c) \<in> child_of spans \<longrightarrow> ns_parent_id (wk_out st ! c) = left_of st p" using above(1) by simp
  ultimately show ?thesis using out by (intro exI [of _ "wk_out st"]) simp
qed

section \<open>Two traces\<close>

definition span_named :: "u8 \<Rightarrow> u8 option \<Rightarrow> span_node" where
  "span_named n parent = \<lparr>sn_span_id = [n, 0, 0, 0, 0, 0, 0, 0], sn_parent_span_id = map_option (\<lambda>p. [p, 0, 0, 0, 0, 0, 0, 0]) parent\<rparr>"

definition sample_tree :: "span_node list" where
  "sample_tree = [span_named 1 None, span_named 2 (Some 1), span_named 3 (Some 1), span_named 4 (Some 3)]"

definition sample_cycle :: "span_node list" where
  "sample_cycle = [span_named 1 (Some 2), span_named 2 (Some 1), span_named 3 (Some 9)]"

lemma sample_tree_child: "(p, c) \<in> child_of sample_tree \<longleftrightarrow> (p, c) \<in> {(0, 1), (0, 2), (2, 3)}"
  unfolding child_of_def sample_tree_def span_named_def
  by (auto simp: less_Suc_eq nth_Cons' split: if_splits)

lemma sample_tree_acyclic: "acyclic (child_of sample_tree)"
proof -
  have "child_of sample_tree \<subseteq> {(p, c). p < c}" using sample_tree_child by auto
  then show ?thesis by (rule acyclic_subset [OF wf_acyclic [OF wf]])
qed

theorem nested_set_total_witness:
  "\<exists>out. assign_nested_set sample_cycle Assign_intervals = Some out \<and> intervals_ok out 3"
proof -
  have "length sample_cycle = 3" by (simp add: sample_cycle_def)
  then show ?thesis using nested_set_total [of sample_cycle] by (auto simp: i32_max_def)
qed

theorem nested_set_ancestry_witness:
  "\<exists>out. assign_nested_set sample_tree Leave_unassigned = Some out \<and> inside out 3 0 \<and> inside out 3 2 \<and> \<not> inside out 3 1
    \<and> ns_parent_id (out ! 0) = - 1"
proof -
  have len: "length sample_tree = 4" by (simp add: sample_tree_def)
  obtain out where out: "assign_nested_set sample_tree Leave_unassigned = Some out"
    and iff: "\<And>i j. i < 4 \<Longrightarrow> j < 4 \<Longrightarrow> inside out j i \<longleftrightarrow> (i, j) \<in> (child_of sample_tree)\<^sup>+"
    and root: "(\<nexists>p. (p, 0) \<in> child_of sample_tree) \<longrightarrow> ns_parent_id (out ! 0) = - 1"
    using nested_set_ancestry [OF sample_tree_acyclic, of Leave_unassigned] unfolding len by (auto simp: i32_max_def)
  have "(2, 3) \<in> child_of sample_tree" "(0, 2) \<in> child_of sample_tree" by (simp_all add: sample_tree_child)
  then have "(2, 3) \<in> (child_of sample_tree)\<^sup>+" "(0, 3) \<in> (child_of sample_tree)\<^sup>+" by (blast intro: trancl.intros)+
  then have "inside out 3 2" "inside out 3 0" using iff [of 2 3] iff [of 0 3] by simp_all
  moreover have "(1, 3) \<notin> (child_of sample_tree)\<^sup>+"
  proof
    assume "(1, 3) \<in> (child_of sample_tree)\<^sup>+"
    then obtain c where "(1, c) \<in> child_of sample_tree" by (metis tranclD)
    then show False by (simp add: sample_tree_child)
  qed
  moreover have "ns_parent_id (out ! 0) = - 1" using root by (simp add: sample_tree_child)
  ultimately show ?thesis using out iff [of 1 3] by simp
qed

end
