(* ===== verification/Profile_Tree.thy ===== *)
theory Profile_Tree
  imports O11y_Prelude "HOL-Library.Char_ord" "HOL-Library.List_Lexorder"
begin

text \<open>
  The symbolized profile tree (\<open>crates/pprof/src/tree.rs\<close>, \<open>tree/tree_type.rs\<close>, \<open>tree/append_children.rs\<close>):
  an arena of nodes with their children in name order.  Sample values are \<open>i64\<close> words whose sums wrap, as
  they do in a release build.  \<open>None\<close> is a panic, or a recursion deeper than the arena has nodes.
\<close>

section \<open>Nodes\<close>

type_synonym i64w = "64 word"

record stack_frame =
  fr_function :: string
  fr_file :: string
  fr_line :: int

record tree_node =
  tn_name :: string
  tn_total :: i64w
  tn_self :: i64w
  tn_children :: "nat list"
  tn_child_by_name :: "string \<rightharpoonup> nat"

record profile_tree =
  pt_nodes :: "tree_node list"
  pt_root :: nat

record sample_path =
  sp_frames :: "string list"
  sp_self_value :: i64w

definition root_name :: string where
  "root_name = ''total''"

definition other_name :: string where
  "other_name = ''other''"

definition empty_node :: "string \<Rightarrow> tree_node" where
  "empty_node name = \<lparr>tn_name = name, tn_total = 0, tn_self = 0, tn_children = [], tn_child_by_name = Map.empty\<rparr>"

definition tree_new :: profile_tree where
  "tree_new = \<lparr>pt_nodes = [empty_node root_name], pt_root = 0\<rparr>"

definition update_node :: "nat \<Rightarrow> (tree_node \<Rightarrow> tree_node) \<Rightarrow> profile_tree \<Rightarrow> profile_tree option" where
  "update_node i f t = map_option (\<lambda>node. t\<lparr>pt_nodes := (pt_nodes t)[i := f node]\<rparr>) (nth_opt (pt_nodes t) i)"

section \<open>Building\<close>

text \<open>The binary search finds the first child whose name is not smaller.\<close>

definition sorted_child_position :: "nat list \<Rightarrow> tree_node list \<Rightarrow> string \<Rightarrow> nat" where
  "sorted_child_position children nodes name = length (takeWhile (\<lambda>c. tn_name (nodes ! c) < name) children)"

definition child_named :: "nat \<Rightarrow> string \<Rightarrow> profile_tree \<Rightarrow> (nat \<times> profile_tree) option" where
  "child_named parent name t =
     Option.bind (nth_opt (pt_nodes t) parent) (\<lambda>node.
       case tn_child_by_name node name of
         Some child \<Rightarrow> Some (child, t)
       | None \<Rightarrow>
           let idx = length (pt_nodes t);
               nodes = pt_nodes t @ [empty_node name];
               pos = sorted_child_position (tn_children node) nodes name;
               node = node\<lparr>tn_children := take pos (tn_children node) @ idx # drop pos (tn_children node),
                           tn_child_by_name := (tn_child_by_name node)(name \<mapsto> idx)\<rparr>
           in Some (idx, t\<lparr>pt_nodes := nodes[parent := node]\<rparr>))"

definition add_total :: "nat \<Rightarrow> i64w \<Rightarrow> profile_tree \<Rightarrow> profile_tree option" where
  "add_total i v = update_node i (\<lambda>node. node\<lparr>tn_total := tn_total node + v\<rparr>)"

definition add_self :: "nat \<Rightarrow> i64w \<Rightarrow> profile_tree \<Rightarrow> profile_tree option" where
  "add_self i v = update_node i (\<lambda>node. node\<lparr>tn_self := tn_self node + v\<rparr>)"

fun add_frames :: "string list \<Rightarrow> i64w \<Rightarrow> nat \<Rightarrow> profile_tree \<Rightarrow> profile_tree option" where
  "add_frames [] v current t = add_self current v t"
| "add_frames (name # names) v current t =
     Option.bind (child_named current name t) (\<lambda>(child, t).
     Option.bind (add_total child v t) (add_frames names v child))"

definition add_stack :: "stack_frame list \<Rightarrow> i64w \<Rightarrow> profile_tree \<Rightarrow> profile_tree option" where
  "add_stack frames v t =
     (if frames = [] then Some t
      else Option.bind (add_total (pt_root t) v t) (add_frames (map fr_function (rev frames)) v (pt_root t)))"

fun merge_node :: "nat \<Rightarrow> profile_tree \<Rightarrow> nat \<Rightarrow> nat \<Rightarrow> profile_tree \<Rightarrow> profile_tree option" where
  "merge_node 0 other source target t = None"
| "merge_node (Suc fuel) other source target t =
     Option.bind (nth_opt (pt_nodes other) source) (\<lambda>s.
     Option.bind (add_total target (tn_total s) t) (\<lambda>t.
     Option.bind (add_self target (tn_self s) t) (\<lambda>t.
       fold_opt (\<lambda>source_child t.
           Option.bind (nth_opt (pt_nodes other) source_child) (\<lambda>sc.
           Option.bind (child_named target (tn_name sc) t) (\<lambda>(target_child, t).
             merge_node fuel other source_child target_child t)))
         (tn_children s) t)))"

definition merge_trees :: "profile_tree \<Rightarrow> profile_tree \<Rightarrow> profile_tree option" where
  "merge_trees other t = merge_node (length (pt_nodes other)) other (pt_root other) (pt_root t) t"

section \<open>Truncation\<close>

definition parents :: "profile_tree \<Rightarrow> nat option list option" where
  "parents t =
     fold_opt (\<lambda>(parent, node). fold_opt (\<lambda>child ps. upd_opt ps child (Some parent)) (tn_children node))
       (enumerate 0 (pt_nodes t)) (replicate (length (pt_nodes t)) None)"

fun climb :: "nat \<Rightarrow> profile_tree \<Rightarrow> i64w \<Rightarrow> nat option list \<Rightarrow> nat option \<Rightarrow> nat list \<Rightarrow> (nat option \<times> nat list) option" where
  "climb 0 t threshold ps current path = None"
| "climb (Suc fuel) t threshold ps current path =
     (case current of
        None \<Rightarrow> Some (None, path)
      | Some index \<Rightarrow>
          if index = pt_root t then Some (current, path)
          else Option.bind (nth_opt (pt_nodes t) index) (\<lambda>node.
                 if tn_total node <s threshold then Some (current, path)
                 else Option.bind (nth_opt ps index) (\<lambda>parent. climb fuel t threshold ps parent (path @ [index]))))"

definition keep_node :: "profile_tree \<Rightarrow> i64w \<Rightarrow> nat option list \<Rightarrow> nat \<Rightarrow> nat set \<Rightarrow> nat set option" where
  "keep_node t threshold ps node keep =
     map_option (\<lambda>(current, path). if current = Some (pt_root t) then keep \<union> set path else keep)
       (climb (Suc (length (pt_nodes t))) t threshold ps (Some node) [])"

definition keep_set :: "int \<Rightarrow> profile_tree \<Rightarrow> nat set option" where
  "keep_set max_nodes t =
     (let max_nodes = nat (max max_nodes 1)
      in if length (pt_nodes t) \<le> max_nodes then Some (set [0..<length (pt_nodes t)])
         else if max_nodes - 1 = 0 then Some {pt_root t}
         else let totals = map (\<lambda>i. tn_total (pt_nodes t ! i)) (filter (\<lambda>i. i \<noteq> pt_root t) [0..<length (pt_nodes t)])
              in Option.bind (nth_opt (rev (sort_key sint totals)) (max_nodes - 1 - 1)) (\<lambda>threshold.
                 Option.bind (parents t) (\<lambda>ps.
                   fold_opt (keep_node t threshold ps) [0..<length (pt_nodes t)] {pt_root t})))"

fun subtree_self :: "nat \<Rightarrow> profile_tree \<Rightarrow> nat \<Rightarrow> i64w option" where
  "subtree_self 0 t i = None"
| "subtree_self (Suc fuel) t i =
     Option.bind (nth_opt (pt_nodes t) i) (\<lambda>node.
       map_option (\<lambda>total. tn_self node + total)
         (fold_opt (\<lambda>child total. map_option (\<lambda>v. total + v) (subtree_self fuel t child)) (tn_children node) 0))"

section \<open>Samples\<close>

fun collect_sample_paths ::
  "nat \<Rightarrow> profile_tree \<Rightarrow> nat set \<Rightarrow> nat \<Rightarrow> string list \<Rightarrow> sample_path list \<Rightarrow> sample_path list option" where
  "collect_sample_paths 0 t keep i path samples = None"
| "collect_sample_paths (Suc fuel) t keep i path samples =
     Option.bind (nth_opt (pt_nodes t) i) (\<lambda>node.
       let path = (if i \<noteq> pt_root t then path @ [tn_name node] else path);
           samples = (if tn_self node \<noteq> 0 \<and> path \<noteq> [] then samples @ [\<lparr>sp_frames = path, sp_self_value = tn_self node\<rparr>] else samples)
       in map_option (\<lambda>(samples, other_self).
              if other_self \<noteq> 0 then samples @ [\<lparr>sp_frames = path @ [other_name], sp_self_value = other_self\<rparr>] else samples)
            (fold_opt (\<lambda>child (samples, other_self).
                if child \<in> keep then map_option (\<lambda>samples. (samples, other_self)) (collect_sample_paths fuel t keep child path samples)
                else map_option (\<lambda>v. (samples, other_self + v)) (subtree_self (length (pt_nodes t)) t child))
              (tn_children node) (samples, 0)))"

definition sample_paths :: "int \<Rightarrow> profile_tree \<Rightarrow> sample_path list option" where
  "sample_paths max_nodes t =
     Option.bind (keep_set max_nodes t) (\<lambda>keep. collect_sample_paths (length (pt_nodes t)) t keep (pt_root t) [] [])"

end
