(* ===== verification/Profile_Tree_Spec.thy ===== *)
theory Profile_Tree_Spec
  imports Profile_Tree "HOL-Library.Sublist"
begin

text \<open>
  What a profile tree stands for: the total and the self value at each path of function names.  Adding a
  stack adds its value along one path; merging adds two trees path by path.
\<close>

section \<open>Paths\<close>

abbreviation node_of :: "profile_tree \<Rightarrow> nat \<Rightarrow> tree_node" where
  "node_of t i \<equiv> pt_nodes t ! i"

abbreviation child :: "profile_tree \<Rightarrow> nat \<Rightarrow> string \<rightharpoonup> nat" where
  "child t i \<equiv> tn_child_by_name (pt_nodes t ! i)"

fun locate :: "profile_tree \<Rightarrow> nat \<Rightarrow> string list \<Rightarrow> nat option" where
  "locate t i [] = Some i"
| "locate t i (name # names) = (case child t i name of None \<Rightarrow> None | Some c \<Rightarrow> locate t c names)"

definition value_from :: "(tree_node \<Rightarrow> i64w) \<Rightarrow> profile_tree \<Rightarrow> nat \<Rightarrow> string list \<Rightarrow> i64w" where
  "value_from field t i path = (case locate t i path of None \<Rightarrow> 0 | Some j \<Rightarrow> field (node_of t j))"

abbreviation total_at :: "profile_tree \<Rightarrow> string list \<Rightarrow> i64w" where
  "total_at t \<equiv> value_from tn_total t 0"

abbreviation self_at :: "profile_tree \<Rightarrow> string list \<Rightarrow> i64w" where
  "self_at t \<equiv> value_from tn_self t 0"

section \<open>Well-formed arenas\<close>

text \<open>Children come after their parent, have one parent, and are listed once each in name order.\<close>

definition children_ok :: "profile_tree \<Rightarrow> nat \<Rightarrow> bool" where
  "children_ok t i \<longleftrightarrow> sorted_wrt (<) (map (\<lambda>c. tn_name (node_of t c)) (tn_children (node_of t i)))
     \<and> set (tn_children (node_of t i)) = {c. \<exists>n. child t i n = Some c}"

definition tree_ok :: "profile_tree \<Rightarrow> bool" where
  "tree_ok t \<longleftrightarrow> pt_root t = 0 \<and> 0 < length (pt_nodes t)
     \<and> (\<forall>i n c. i < length (pt_nodes t) \<and> child t i n = Some c \<longrightarrow> i < c \<and> c < length (pt_nodes t) \<and> tn_name (node_of t c) = n)
     \<and> (\<forall>i j n m c. i < length (pt_nodes t) \<and> j < length (pt_nodes t) \<and> child t i n = Some c \<and> child t j m = Some c \<longrightarrow> i = j)
     \<and> (\<forall>i < length (pt_nodes t). children_ok t i)"

lemma tree_okD:
  assumes "tree_ok t"
  shows "pt_root t = 0" and "0 < length (pt_nodes t)" and "i < length (pt_nodes t) \<Longrightarrow> children_ok t i"
    and "i < length (pt_nodes t) \<Longrightarrow> child t i n = Some c \<Longrightarrow> i < c \<and> c < length (pt_nodes t) \<and> tn_name (node_of t c) = n"
    and "i < length (pt_nodes t) \<Longrightarrow> j < length (pt_nodes t) \<Longrightarrow> child t i n = Some c \<Longrightarrow> child t j m = Some c \<Longrightarrow> i = j"
  using assms unfolding tree_ok_def by blast+

lemma tree_new_ok: "tree_ok tree_new"
  by (simp add: tree_ok_def tree_new_def children_ok_def empty_node_def)

lemma locate_append: "locate t i (p @ q) = Option.bind (locate t i p) (\<lambda>j. locate t j q)"
  by (induction p arbitrary: i) (auto split: option.splits)

lemma locate_range:
  assumes "tree_ok t" and "i < length (pt_nodes t)" and "locate t i p = Some j"
  shows "i \<le> j \<and> j < length (pt_nodes t)"
  using assms(2,3)
proof (induction p arbitrary: i)
  case (Cons n p)
  then obtain c where c: "child t i n = Some c" "locate t c p = Some j" by (auto split: option.splits)
  then show ?case using Cons.IH [of c] tree_okD(4) [OF assms(1) Cons.prems(1) c(1)] by linarith
qed simp

lemma locate_inj:
  assumes ok: "tree_ok t" and "locate t 0 p = Some i" and "locate t 0 q = Some i"
  shows "p = q"
  using assms(2,3)
proof (induction p arbitrary: q i rule: rev_induct)
  case Nil
  then show ?case
  proof (cases q rule: rev_cases)
    case (snoc q' m)
    then obtain j where "locate t 0 q' = Some j" "child t j m = Some i"
      using Nil by (auto simp: locate_append Option.bind_eq_Some_conv split: option.splits)
    then show ?thesis using Nil tree_okD(4) [OF ok, of j m i] locate_range [OF ok tree_okD(2) [OF ok], of q' j] by simp
  qed simp
next
  case (snoc n p)
  then obtain j where j: "locate t 0 p = Some j" "child t j n = Some i"
    by (auto simp: locate_append Option.bind_eq_Some_conv split: option.splits)
  have jr: "j < length (pt_nodes t)" using locate_range [OF ok tree_okD(2) [OF ok] j(1)] by simp
  note ji = tree_okD(4) [OF ok jr j(2)]
  show ?case
  proof (cases q rule: rev_cases)
    case Nil
    then show ?thesis using snoc.prems(2) ji by simp
  next
    case (snoc q' m)
    then obtain k where k: "locate t 0 q' = Some k" "child t k m = Some i"
      using snoc.prems(2) by (auto simp: locate_append Option.bind_eq_Some_conv split: option.splits)
    have kr: "k < length (pt_nodes t)" using locate_range [OF ok tree_okD(2) [OF ok] k(1)] by simp
    have "j = k" using tree_okD(5) [OF ok jr kr j(2) k(2)] .
    moreover have "n = m" using ji tree_okD(4) [OF ok kr k(2)] by simp
    ultimately show ?thesis using snoc.IH [OF j(1), of q'] k(1) snoc by simp
  qed
qed

section \<open>Changing a value\<close>

text \<open>A change of the values of one node keeps the shape of the tree.\<close>

definition same_shape :: "profile_tree \<Rightarrow> profile_tree \<Rightarrow> bool" where
  "same_shape t t' \<longleftrightarrow> pt_root t' = pt_root t \<and> length (pt_nodes t') = length (pt_nodes t)
     \<and> (\<forall>i. tn_name (node_of t' i) = tn_name (node_of t i) \<and> tn_children (node_of t' i) = tn_children (node_of t i) \<and> child t' i = child t i)"

lemma same_shape_locate: "same_shape t t' \<Longrightarrow> locate t' i p = locate t i p"
  by (induction p arbitrary: i) (auto simp: same_shape_def split: option.splits)

lemma same_shape_ok: "same_shape t t' \<Longrightarrow> tree_ok t' = tree_ok t"
  by (simp add: same_shape_def tree_ok_def children_ok_def)

lemma add_value_ok:
  assumes ok: "tree_ok t" and at: "locate t 0 p = Some i"
  shows "\<exists>t'. add_total i v t = Some t' \<and> same_shape t t'
      \<and> (\<forall>q. total_at t' q = total_at t q + (if q = p then v else 0)) \<and> (\<forall>q. self_at t' q = self_at t q)"
    and "\<exists>t'. add_self i v t = Some t' \<and> same_shape t t'
      \<and> (\<forall>q. total_at t' q = total_at t q) \<and> (\<forall>q. self_at t' q = self_at t q + (if q = p then v else 0))"
proof -
  have i: "i < length (pt_nodes t)" using locate_range [OF ok tree_okD(2) [OF ok] at] by simp
  have eq: "q = p \<longleftrightarrow> locate t 0 q = Some i" for q using locate_inj [OF ok at] at by metis
  let ?t = "t\<lparr>pt_nodes := (pt_nodes t)[i := (node_of t i)\<lparr>tn_total := tn_total (node_of t i) + v\<rparr>]\<rparr>"
  have shape: "same_shape t ?t" using i by (simp add: same_shape_def nth_list_update)
  have "add_total i v t = Some ?t" using i by (simp add: add_total_def update_node_def nth_opt_def)
  moreover have "\<forall>q. total_at ?t q = total_at t q + (if q = p then v else 0)" "\<forall>q. self_at ?t q = self_at t q"
    unfolding value_from_def same_shape_locate [OF shape] eq using i by (auto simp: nth_list_update split: option.splits)
  ultimately show "\<exists>t'. add_total i v t = Some t' \<and> same_shape t t'
      \<and> (\<forall>q. total_at t' q = total_at t q + (if q = p then v else 0)) \<and> (\<forall>q. self_at t' q = self_at t q)"
    using shape by blast
  let ?t = "t\<lparr>pt_nodes := (pt_nodes t)[i := (node_of t i)\<lparr>tn_self := tn_self (node_of t i) + v\<rparr>]\<rparr>"
  have shape: "same_shape t ?t" using i by (simp add: same_shape_def nth_list_update)
  have "add_self i v t = Some ?t" using i by (simp add: add_self_def update_node_def nth_opt_def)
  moreover have "\<forall>q. self_at ?t q = self_at t q + (if q = p then v else 0)" "\<forall>q. total_at ?t q = total_at t q"
    unfolding value_from_def same_shape_locate [OF shape] eq using i by (auto simp: nth_list_update split: option.splits)
  ultimately show "\<exists>t'. add_self i v t = Some t' \<and> same_shape t t'
      \<and> (\<forall>q. total_at t' q = total_at t q) \<and> (\<forall>q. self_at t' q = self_at t q + (if q = p then v else 0))"
    using shape by blast
qed

section \<open>Adding a child\<close>

definition grown :: "nat \<Rightarrow> string \<Rightarrow> profile_tree \<Rightarrow> profile_tree" where
  "grown i n t =
     (let node = node_of t i; pos = sorted_child_position (tn_children node) (pt_nodes t @ [empty_node n]) n
      in t\<lparr>pt_nodes := (pt_nodes t @ [empty_node n])[i := node\<lparr>tn_children := take pos (tn_children node) @ length (pt_nodes t) # drop pos (tn_children node),
             tn_child_by_name := (tn_child_by_name node)(n \<mapsto> length (pt_nodes t))\<rparr>]\<rparr>)"

lemma grown_simps:
  assumes "i < length (pt_nodes t)"
  shows "length (pt_nodes (grown i n t)) = Suc (length (pt_nodes t))" and "pt_root (grown i n t) = pt_root t"
    and "node_of (grown i n t) (length (pt_nodes t)) = empty_node n"
    and "j < length (pt_nodes t) \<Longrightarrow> tn_name (node_of (grown i n t) j) = tn_name (node_of t j)
      \<and> tn_total (node_of (grown i n t) j) = tn_total (node_of t j) \<and> tn_self (node_of (grown i n t) j) = tn_self (node_of t j)"
    and "j < length (pt_nodes t) \<Longrightarrow> child (grown i n t) j = (if j = i then (child t i)(n \<mapsto> length (pt_nodes t)) else child t j)"
    and "j < length (pt_nodes t) \<Longrightarrow> j \<noteq> i \<Longrightarrow> tn_children (node_of (grown i n t) j) = tn_children (node_of t j)"
  using assms by (auto simp: grown_def Let_def nth_append nth_list_update)

lemma sorted_insert_at:
  fixes f :: "'a \<Rightarrow> 'b::linorder"
  assumes "sorted_wrt (<) (map f xs)" and "\<forall>x \<in> set xs. f x \<noteq> f y"
  shows "sorted_wrt (<) (map f (takeWhile (\<lambda>x. f x < f y) xs @ y # dropWhile (\<lambda>x. f x < f y) xs))"
  using assms
proof (induction xs)
  case (Cons x xs)
  show ?case
  proof (cases "f x < f y")
    case True
    let ?rest = "takeWhile (\<lambda>x. f x < f y) xs @ y # dropWhile (\<lambda>x. f x < f y) xs"
    have "set ?rest = insert y (set xs)" by (metis set_append list.simps(15) Un_insert_right takeWhile_dropWhile_id)
    then have "\<forall>z \<in> set (map f ?rest). f x < z" unfolding set_map using Cons.prems(1) True by simp
    moreover have "sorted_wrt (<) (map f ?rest)" using Cons by simp
    ultimately have "sorted_wrt (<) (f x # map f ?rest)" by (simp only: sorted_wrt.simps simp_thms)
    then show ?thesis using True by simp
  next
    case False
    then have "f y < f x" using Cons.prems(2) by force
    then show ?thesis using Cons.prems(1) False by auto
  qed
qed simp

lemma grown_children:
  assumes ok: "tree_ok t" and i: "i < length (pt_nodes t)" and new: "child t i n = None"
  shows "children_ok (grown i n t) i"
proof -
  let ?t = "grown i n t" and ?cs = "tn_children (node_of t i)" and ?len = "length (pt_nodes t)"
  let ?name = "\<lambda>c. tn_name (node_of ?t c)"
  have cs: "sorted_wrt (<) (map (\<lambda>c. tn_name (node_of t c)) ?cs)" "set ?cs = {c. \<exists>n. child t i n = Some c}"
    using tree_okD(3) [OF ok i] by (simp_all add: children_ok_def)
  have old: "c < ?len \<and> tn_name (node_of t c) \<noteq> n" if c: "c \<in> set ?cs" for c
  proof -
    obtain m where m: "child t i m = Some c" using c unfolding cs(2) by blast
    then have "m \<noteq> n" using new by auto
    then show ?thesis using tree_okD(4) [OF ok i m] by simp
  qed
  then have names: "?name c = tn_name (node_of t c)" if "c \<in> set ?cs" for c using grown_simps(4) [OF i, of c n] that by simp
  define k where "k = sorted_child_position ?cs (pt_nodes t @ [empty_node n]) n"
  have k: "take k ?cs = takeWhile (\<lambda>c. tn_name (node_of t c) < n) ?cs" "drop k ?cs = dropWhile (\<lambda>c. tn_name (node_of t c) < n) ?cs"
  proof -
    have "takeWhile (\<lambda>c. tn_name ((pt_nodes t @ [empty_node n]) ! c) < n) ?cs = takeWhile (\<lambda>c. tn_name (node_of t c) < n) ?cs"
      using old by (intro takeWhile_cong) (auto simp: nth_append)
    then have "k = length (takeWhile (\<lambda>c. tn_name (node_of t c) < n) ?cs)" by (simp add: k_def sorted_child_position_def)
    then show "take k ?cs = takeWhile (\<lambda>c. tn_name (node_of t c) < n) ?cs" "drop k ?cs = dropWhile (\<lambda>c. tn_name (node_of t c) < n) ?cs"
      by (metis takeWhile_eq_take, metis dropWhile_eq_drop)
  qed
  have children: "tn_children (node_of ?t i) = take k ?cs @ ?len # drop k ?cs"
    using i by (simp add: grown_def Let_def k_def nth_list_update)
  have "map ?name ?cs = map (\<lambda>c. tn_name (node_of t c)) ?cs" using names by simp
  moreover have "?name ?len = n" using grown_simps(3) [OF i] by (simp add: empty_node_def)
  moreover have "takeWhile (\<lambda>c. ?name c < n) ?cs = take k ?cs" "dropWhile (\<lambda>c. ?name c < n) ?cs = drop k ?cs"
    unfolding k by (rule takeWhile_cong; simp add: names) (rule dropWhile_cong; simp add: names)
  ultimately have "sorted_wrt (<) (map ?name (take k ?cs @ ?len # drop k ?cs))"
    using sorted_insert_at [of ?name ?cs ?len] cs(1) old names by metis
  then have "sorted_wrt (<) (map ?name (tn_children (node_of ?t i)))" using children by simp
  moreover have "set (tn_children (node_of ?t i)) = {c. \<exists>m. child ?t i m = Some c}"
  proof -
    have "set (tn_children (node_of ?t i)) = insert ?len (set ?cs)" unfolding children by (metis append_take_drop_id set_append list.simps(15) Un_insert_right)
    also have "\<dots> = {c. \<exists>m. child ?t i m = Some c}" unfolding cs(2) grown_simps(5) [OF i i] using new by (auto, metis option.distinct(1))
    finally show ?thesis .
  qed
  ultimately show ?thesis by (simp add: children_ok_def)
qed

lemma grown_ok:
  assumes ok: "tree_ok t" and i: "i < length (pt_nodes t)" and new: "child t i n = None"
  shows "tree_ok (grown i n t)"
proof -
  let ?t = "grown i n t" and ?len = "length (pt_nodes t)"
  note simps = grown_simps [OF i, where n = n]
  have leaf: "child ?t ?len = Map.empty" "tn_children (node_of ?t ?len) = []" by (simp_all add: simps(3) empty_node_def)
  have kids: "j < c \<and> c < Suc ?len \<and> tn_name (node_of ?t c) = m" if "j < ?len" "child ?t j m = Some c" for j m c
  proof (cases "j = i \<and> m = n")
    case True
    then show ?thesis using that simps(3,5) i by (simp add: empty_node_def)
  next
    case False
    then have old: "child t j m = Some c" using that by (auto simp: simps(5) split: if_splits)
    show ?thesis using tree_okD(4) [OF ok that(1) old] simps(4) [of c] by simp
  qed
  have uniq: "j = k" if "j < ?len" "k < ?len" "child ?t j m = Some c" "child ?t k l = Some c" for j k m l c
  proof -
    have fresh: "child t a b \<noteq> Some ?len" if "a < ?len" for a b using tree_okD(4) [OF ok that] by fastforce
    show ?thesis
      using that fresh tree_okD(5) [OF ok] by (auto simp: simps(5) split: if_splits)
  qed
  have "children_ok ?t j" if "j < ?len" for j
  proof (cases "j = i")
    case True
    then show ?thesis using grown_children [OF ok i new] by simp
  next
    case False
    have j: "children_ok t j" using tree_okD(3) [OF ok that] .
    then have range: "c < ?len" if "c \<in> set (tn_children (node_of t j))" for c
      using that tree_okD(4) [OF ok \<open>j < ?len\<close>] unfolding children_ok_def by blast
    then have eq: "map (\<lambda>c. tn_name (node_of ?t c)) (tn_children (node_of t j)) = map (\<lambda>c. tn_name (node_of t c)) (tn_children (node_of t j))"
      using simps(4) by simp
    have "child ?t j = child t j" using simps(5) [OF that] False by simp
    then show ?thesis using j unfolding children_ok_def simps(6) [OF that False] eq by simp
  qed
  moreover have "children_ok ?t ?len" by (simp add: children_ok_def leaf)
  ultimately show ?thesis
    unfolding tree_ok_def simps(1,2) less_Suc_eq using kids uniq leaf(1) tree_okD(1,2) [OF ok] by (auto simp: less_Suc_eq)
qed

lemma grown_locate:
  assumes ok: "tree_ok t" and i: "i < length (pt_nodes t)" and new: "child t i n = None" and "j < length (pt_nodes t)"
  shows "locate (grown i n t) j p = (case locate t j p of
      Some k \<Rightarrow> Some k | None \<Rightarrow> if \<exists>q. p = q @ [n] \<and> locate t j q = Some i then Some (length (pt_nodes t)) else None)"
  using assms(4)
proof (induction p arbitrary: j)
  case Nil
  then show ?case by simp
next
  case (Cons m p)
  let ?t = "grown i n t" and ?len = "length (pt_nodes t)"
  note simps = grown_simps [OF i, where n = n]
  show ?case
  proof (cases "j = i \<and> m = n")
    case True
    have "locate ?t ?len p = (if p = [] then Some ?len else None)"
      by (cases p) (simp_all add: simps(3) empty_node_def)
    then show ?thesis using True new i by (auto simp: simps(5) Cons_eq_append_conv)
  next
    case False
    then have same: "child ?t j m = child t j m" using Cons.prems by (auto simp: simps(5))
    show ?thesis
    proof (cases "child t j m")
      case None
      then show ?thesis using same False by (auto simp: Cons_eq_append_conv)
    next
      case (Some c)
      then have "c < ?len" using tree_okD(4) [OF ok Cons.prems] by simp
      then show ?thesis using Cons.IH [of c] Some same False by (auto simp: Cons_eq_append_conv split: option.splits)
    qed
  qed
qed

lemma grown_values:
  assumes ok: "tree_ok t" and i: "i < length (pt_nodes t)" and new: "child t i n = None"
  shows "total_at (grown i n t) q = total_at t q" and "self_at (grown i n t) q = self_at t q"
proof -
  have "k < length (pt_nodes t)" if "locate t 0 q = Some k" for k
    using locate_range [OF ok tree_okD(2) [OF ok] that] by simp
  then show "total_at (grown i n t) q = total_at t q" "self_at (grown i n t) q = self_at t q"
    unfolding value_from_def grown_locate [OF ok i new tree_okD(2) [OF ok]]
    using grown_simps(3,4) [OF i, where n = n] by (auto simp: empty_node_def split: option.splits)
qed

lemma child_named_ok:
  assumes ok: "tree_ok t" and at: "locate t 0 p = Some i"
  shows "\<exists>c t'. child_named i n t = Some (c, t') \<and> tree_ok t' \<and> locate t' 0 (p @ [n]) = Some c
    \<and> (\<forall>q k. locate t 0 q = Some k \<longrightarrow> locate t' 0 q = Some k)
    \<and> (\<forall>q. total_at t' q = total_at t q \<and> self_at t' q = self_at t q)"
proof -
  have i: "i < length (pt_nodes t)" using locate_range [OF ok tree_okD(2) [OF ok] at] by simp
  show ?thesis
  proof (cases "child t i n")
    case None
    have "child_named i n t = Some (length (pt_nodes t), grown i n t)"
      using i None by (simp add: child_named_def nth_opt_def grown_def Let_def)
    moreover have "locate (grown i n t) 0 (p @ [n]) = Some (length (pt_nodes t))"
      unfolding grown_locate [OF ok i None tree_okD(2) [OF ok]] using at None by (simp add: locate_append)
    moreover have "locate (grown i n t) 0 q = Some k" if "locate t 0 q = Some k" for q k
      unfolding grown_locate [OF ok i None tree_okD(2) [OF ok]] using that by simp
    ultimately show ?thesis using grown_ok [OF ok i None] grown_values [OF ok i None] by blast
  next
    case (Some c)
    then show ?thesis using ok at i by (simp add: child_named_def nth_opt_def locate_append)
  qed
qed

section \<open>Adding a stack\<close>

lemma add_frames_ok:
  assumes "tree_ok t" and "locate t 0 p = Some i"
  shows "\<exists>t'. add_frames names v i t = Some t' \<and> tree_ok t'
    \<and> (\<forall>q. total_at t' q = total_at t q + (if strict_prefix p q \<and> prefix q (p @ names) then v else 0))
    \<and> (\<forall>q. self_at t' q = self_at t q + (if q = p @ names then v else 0))"
  using assms
proof (induction names arbitrary: p i t)
  case Nil
  obtain t' where "add_self i v t = Some t'" "same_shape t t'" "\<forall>q. total_at t' q = total_at t q" "\<forall>q. self_at t' q = self_at t q + (if q = p then v else 0)"
    using add_value_ok(2) [OF Nil] by blast
  moreover have "\<not> (strict_prefix p q \<and> prefix q p)" for q by (metis prefix_order.less_le_not_le)
  ultimately show ?case using same_shape_ok Nil(1) by auto
next
  case (Cons n names)
  obtain c t1 where one: "child_named i n t = Some (c, t1)" "tree_ok t1" "locate t1 0 (p @ [n]) = Some c"
    "\<forall>q. total_at t1 q = total_at t q \<and> self_at t1 q = self_at t q"
    using child_named_ok [OF Cons.prems] by blast
  obtain t2 where two: "add_total c v t1 = Some t2" "same_shape t1 t2"
    "\<forall>q. total_at t2 q = total_at t1 q + (if q = p @ [n] then v else 0)" "\<forall>q. self_at t2 q = self_at t1 q"
    using add_value_ok(1) [OF one(2,3)] by blast
  have t2: "tree_ok t2" "locate t2 0 (p @ [n]) = Some c" using same_shape_ok [OF two(2)] same_shape_locate [OF two(2)] one by auto
  obtain t3 where three: "add_frames names v c t2 = Some t3" "tree_ok t3"
    "\<forall>q. total_at t3 q = total_at t2 q + (if strict_prefix (p @ [n]) q \<and> prefix q ((p @ [n]) @ names) then v else 0)"
    "\<forall>q. self_at t3 q = self_at t2 q + (if q = (p @ [n]) @ names then v else 0)"
    using Cons.IH [OF t2] by blast
  have path: "strict_prefix p q \<and> prefix q (p @ n # names) \<longleftrightarrow> q = p @ [n] \<or> strict_prefix (p @ [n]) q \<and> prefix q ((p @ [n]) @ names)" for q
    by (auto simp: strict_prefix_def prefix_def append_eq_append_conv2 Cons_eq_append_conv)
  have "\<not> (q = p @ [n] \<and> strict_prefix (p @ [n]) q)" for q by auto
  then show ?case using one two three unfolding path by auto
qed

definition stack_path :: "stack_frame list \<Rightarrow> string list" where
  "stack_path frames = map fr_function (rev frames)"

lemma add_stack_ok:
  assumes "tree_ok t"
  shows "\<exists>t'. add_stack frames v t = Some t' \<and> tree_ok t'
    \<and> (\<forall>q. total_at t' q = total_at t q + (if frames \<noteq> [] \<and> prefix q (stack_path frames) then v else 0))
    \<and> (\<forall>q. self_at t' q = self_at t q + (if frames \<noteq> [] \<and> q = stack_path frames then v else 0))"
proof (cases "frames = []")
  case True
  then show ?thesis using assms by (simp add: add_stack_def)
next
  case False
  have root: "locate t 0 [] = Some (pt_root t)" using tree_okD(1) [OF assms] by simp
  obtain t1 where one: "add_total (pt_root t) v t = Some t1" "same_shape t t1"
    "\<forall>q. total_at t1 q = total_at t q + (if q = [] then v else 0)" "\<forall>q. self_at t1 q = self_at t q"
    using add_value_ok(1) [OF assms root] by blast
  have t1: "tree_ok t1" "locate t1 0 [] = Some (pt_root t)" using same_shape_ok [OF one(2)] same_shape_locate [OF one(2)] assms root by auto
  obtain t2 where two: "add_frames (stack_path frames) v (pt_root t) t1 = Some t2" "tree_ok t2"
    "\<forall>q. total_at t2 q = total_at t1 q + (if strict_prefix [] q \<and> prefix q ([] @ stack_path frames) then v else 0)"
    "\<forall>q. self_at t2 q = self_at t1 q + (if q = [] @ stack_path frames then v else 0)"
    using add_frames_ok [OF t1] by blast
  have "strict_prefix [] q \<longleftrightarrow> q \<noteq> []" for q :: "string list" by (auto simp: strict_prefix_def)
  then show ?thesis using one two False by (auto simp: add_stack_def stack_path_def)
qed

section \<open>Merging\<close>

text \<open>A tree hung below a path.\<close>

definition graft :: "string list \<Rightarrow> (string list \<Rightarrow> i64w) \<Rightarrow> string list \<Rightarrow> i64w" where
  "graft p f q = (if prefix p q then f (drop (length p) q) else 0)"

lemma value_from_simps:
  "value_from field t i [] = field (node_of t i)"
  "value_from field t i (n # q) = (case child t i n of None \<Rightarrow> 0 | Some c \<Rightarrow> value_from field t c q)"
  by (simp_all add: value_from_def split: option.splits)

lemma graft_simps: "graft p f (p @ q) = f q" "\<not> prefix p q \<Longrightarrow> graft p f q = 0"
  by (simp_all add: graft_def)

lemma sum_list_one:
  assumes "distinct xs" and "\<And>x. x \<in> set xs \<Longrightarrow> x \<noteq> c \<Longrightarrow> g x = 0"
  shows "(\<Sum>x\<leftarrow>xs. g x) = (if c \<in> set xs then g c else (0 :: 'b::comm_monoid_add))"
proof -
  have "(\<Sum>x\<leftarrow>xs. g x) = (\<Sum>x\<in>set xs. g x)" using assms(1) by (simp add: sum_list_distinct_conv_sum_set)
  also have "\<dots> = (\<Sum>x\<in>set xs. if x = c then g c else 0)" using assms(2) by (intro sum.cong) auto
  finally show ?thesis by simp
qed

lemma children_distinct:
  assumes "tree_ok t" and "i < length (pt_nodes t)"
  shows "distinct (map (\<lambda>c. tn_name (node_of t c)) (tn_children (node_of t i)))" "distinct (tn_children (node_of t i))"
proof -
  have "sorted_wrt (<) (map (\<lambda>c. tn_name (node_of t c)) (tn_children (node_of t i)))"
    using tree_okD(3) [OF assms] by (simp add: children_ok_def)
  then show "distinct (map (\<lambda>c. tn_name (node_of t c)) (tn_children (node_of t i)))" by (simp add: strict_sorted_iff)
  then show "distinct (tn_children (node_of t i))" by (rule distinct_map [THEN iffD1, THEN conjunct1])
qed

lemma children_iff:
  assumes "tree_ok t" and "i < length (pt_nodes t)"
  shows "c \<in> set (tn_children (node_of t i)) \<and> tn_name (node_of t c) = n \<longleftrightarrow> child t i n = Some c"
  using tree_okD(3) [OF assms] tree_okD(4) [OF assms] unfolding children_ok_def by fastforce

lemma graft_unfold:
  assumes ok: "tree_ok t" and i: "i < length (pt_nodes t)"
  shows "graft p (value_from field t i) q = (if q = p then field (node_of t i) else 0)
    + (\<Sum>c\<leftarrow>tn_children (node_of t i). graft (p @ [tn_name (node_of t c)]) (value_from field t c) q)"
proof (cases "prefix p q")
  case False
  then have "\<not> prefix (p @ [m]) q" for m by (meson prefix_order.trans prefixI)
  then show ?thesis using False by (auto simp: graft_simps)
next
  case True
  then obtain r where q: "q = p @ r" by (auto elim: prefixE)
  show ?thesis
  proof (cases r)
    case Nil
    have "graft (p @ [m]) f p = 0" for m f by (simp add: graft_def prefix_def)
    then show ?thesis using q Nil by (simp add: graft_def value_from_simps)
  next
    case (Cons m r')
    have zero: "graft (p @ [tn_name (node_of t x)]) (value_from field t x) q = 0" if "tn_name (node_of t x) \<noteq> m" for x
      using that q Cons by (auto simp: graft_def prefix_def)
    have hit: "graft (p @ [m]) f q = f r'" for f using q Cons by (simp add: graft_def prefix_def)
    have left: "graft p (value_from field t i) q = (case child t i m of None \<Rightarrow> 0 | Some c \<Rightarrow> value_from field t c r')"
      using q Cons by (simp add: graft_simps value_from_simps)
    show ?thesis
    proof (cases "child t i m")
      case None
      then have "graft (p @ [tn_name (node_of t x)]) (value_from field t x) q = 0" if "x \<in> set (tn_children (node_of t i))" for x
        using zero [of x] children_iff [OF ok i, of x m] that by auto
      then show ?thesis using left None q Cons by (simp cong: map_cong)
    next
      case (Some c)
      then have c: "c \<in> set (tn_children (node_of t i))" "tn_name (node_of t c) = m" using children_iff [OF ok i] by blast+
      have "x = c" if "x \<in> set (tn_children (node_of t i))" "tn_name (node_of t x) = m" for x
        using children_iff [OF ok i, of x m] that Some by simp
      then have "(\<Sum>x\<leftarrow>tn_children (node_of t i). graft (p @ [tn_name (node_of t x)]) (value_from field t x) q)
          = graft (p @ [tn_name (node_of t c)]) (value_from field t c) q"
        using sum_list_one [OF children_distinct(2) [OF ok i], of c "\<lambda>x. graft (p @ [tn_name (node_of t x)]) (value_from field t x) q"] zero c(1) by auto
      then show ?thesis using left Some c(2) hit q Cons by simp
    qed
  qed
qed

text \<open>What merging the subtree at \<open>source\<close> below the path \<open>p\<close> does to a tree.\<close>

definition grafted :: "string list \<Rightarrow> profile_tree \<Rightarrow> nat \<Rightarrow> profile_tree \<Rightarrow> profile_tree \<Rightarrow> bool" where
  "grafted p other source t t' \<longleftrightarrow> tree_ok t' \<and> (\<forall>q k. locate t 0 q = Some k \<longrightarrow> locate t' 0 q = Some k)
     \<and> (\<forall>q. total_at t' q = total_at t q + graft p (value_from tn_total other source) q)
     \<and> (\<forall>q. self_at t' q = self_at t q + graft p (value_from tn_self other source) q)"

lemma merge_children_ok:
  assumes merge: "\<And>c tc u. c \<in> set cs \<Longrightarrow> tree_ok u \<Longrightarrow> locate u 0 (p @ [tn_name (node_of other c)]) = Some tc \<Longrightarrow>
      \<exists>u'. merge_node fuel other c tc u = Some u' \<and> grafted (p @ [tn_name (node_of other c)]) other c u u'"
    and range: "\<And>c. c \<in> set cs \<Longrightarrow> c < length (pt_nodes other)"
    and "tree_ok u" and "locate u 0 p = Some target"
  shows "\<exists>t'. fold_opt (\<lambda>source_child t. Option.bind (nth_opt (pt_nodes other) source_child) (\<lambda>sc.
           Option.bind (child_named target (tn_name sc) t) (\<lambda>(target_child, t).
             merge_node fuel other source_child target_child t))) cs u = Some t'
      \<and> tree_ok t' \<and> (\<forall>q k. locate u 0 q = Some k \<longrightarrow> locate t' 0 q = Some k)
      \<and> (\<forall>q. total_at t' q = total_at u q + (\<Sum>c\<leftarrow>cs. graft (p @ [tn_name (node_of other c)]) (value_from tn_total other c) q))
      \<and> (\<forall>q. self_at t' q = self_at u q + (\<Sum>c\<leftarrow>cs. graft (p @ [tn_name (node_of other c)]) (value_from tn_self other c) q))"
  using assms
proof (induction cs arbitrary: u)
  case Nil
  then show ?case by simp
next
  case (Cons c cs)
  let ?n = "tn_name (node_of other c)"
  obtain tc u1 where u1: "child_named target ?n u = Some (tc, u1)" "tree_ok u1" "locate u1 0 (p @ [?n]) = Some tc"
    "\<forall>q k. locate u 0 q = Some k \<longrightarrow> locate u1 0 q = Some k" "\<forall>q. total_at u1 q = total_at u q \<and> self_at u1 q = self_at u q"
    using child_named_ok [OF Cons.prems(3,4)] by blast
  obtain u2 where u2: "merge_node fuel other c tc u1 = Some u2" "grafted (p @ [?n]) other c u1 u2"
    using Cons.prems(1) [OF list.set_intros(1) u1(2,3)] by blast
  have at: "tree_ok u2" "locate u2 0 p = Some target" using u2(2) u1(4) Cons.prems(4) by (auto simp: grafted_def)
  obtain u3 where u3: "fold_opt (\<lambda>source_child t. Option.bind (nth_opt (pt_nodes other) source_child) (\<lambda>sc.
        Option.bind (child_named target (tn_name sc) t) (\<lambda>(target_child, t).
          merge_node fuel other source_child target_child t))) cs u2 = Some u3" "tree_ok u3" "\<forall>q k. locate u2 0 q = Some k \<longrightarrow> locate u3 0 q = Some k"
    "\<forall>q. total_at u3 q = total_at u2 q + (\<Sum>c\<leftarrow>cs. graft (p @ [tn_name (node_of other c)]) (value_from tn_total other c) q)"
    "\<forall>q. self_at u3 q = self_at u2 q + (\<Sum>c\<leftarrow>cs. graft (p @ [tn_name (node_of other c)]) (value_from tn_self other c) q)"
    using Cons.IH [OF Cons.prems(1) [OF list.set_intros(2)] Cons.prems(2) [OF list.set_intros(2)] at] by blast
  have "c < length (pt_nodes other)" using Cons.prems(2) by simp
  then show ?case using u1 u2 u3 by (intro exI [of _ u3]) (simp add: grafted_def nth_opt_def add.assoc)
qed

lemma merge_node_ok:
  assumes other: "tree_ok other" and "source < length (pt_nodes other)" and "length (pt_nodes other) - source \<le> fuel"
    and "tree_ok t" and "locate t 0 p = Some target"
  shows "\<exists>t'. merge_node fuel other source target t = Some t' \<and> grafted p other source t t'"
  using assms(2-)
proof (induction fuel arbitrary: source target t p)
  case 0
  then show ?case by simp
next
  case (Suc fuel)
  let ?s = "node_of other source"
  obtain t1 where one: "add_total target (tn_total ?s) t = Some t1" "same_shape t t1"
    "\<forall>q. total_at t1 q = total_at t q + (if q = p then tn_total ?s else 0)" "\<forall>q. self_at t1 q = self_at t q"
    using add_value_ok(1) [OF Suc.prems(3,4)] by blast
  have t1: "tree_ok t1" "locate t1 0 p = Some target" using same_shape_ok [OF one(2)] same_shape_locate [OF one(2)] Suc.prems(3,4) by auto
  obtain t2 where two: "add_self target (tn_self ?s) t1 = Some t2" "same_shape t1 t2"
    "\<forall>q. total_at t2 q = total_at t1 q" "\<forall>q. self_at t2 q = self_at t1 q + (if q = p then tn_self ?s else 0)"
    using add_value_ok(2) [OF t1] by blast
  have t2: "tree_ok t2" "locate t2 0 p = Some target" using same_shape_ok [OF two(2)] same_shape_locate [OF two(2)] t1 by auto
  have kids: "source < c \<and> c < length (pt_nodes other)" if "c \<in> set (tn_children ?s)" for c
    using that children_iff [OF other Suc.prems(1), of c] tree_okD(4) [OF other Suc.prems(1)] by blast
  have "\<exists>u'. merge_node fuel other c tc u = Some u' \<and> grafted (p @ [tn_name (node_of other c)]) other c u u'"
    if "c \<in> set (tn_children ?s)" "tree_ok u" "locate u 0 (p @ [tn_name (node_of other c)]) = Some tc" for c tc u
  proof -
    have "length (pt_nodes other) - c \<le> fuel" using kids [OF that(1)] Suc.prems(2) by linarith
    then show ?thesis using Suc.IH [OF _ _ that(2,3)] kids [OF that(1)] by blast
  qed
  from merge_children_ok [OF this conjunct2 [OF kids] t2] obtain t3 where
    three: "fold_opt (\<lambda>source_child t. Option.bind (nth_opt (pt_nodes other) source_child) (\<lambda>sc.
        Option.bind (child_named target (tn_name sc) t) (\<lambda>(target_child, t).
          merge_node fuel other source_child target_child t))) (tn_children ?s) t2 = Some t3" "tree_ok t3" "\<forall>q k. locate t2 0 q = Some k \<longrightarrow> locate t3 0 q = Some k"
    "\<forall>q. total_at t3 q = total_at t2 q + (\<Sum>c\<leftarrow>tn_children ?s. graft (p @ [tn_name (node_of other c)]) (value_from tn_total other c) q)"
    "\<forall>q. self_at t3 q = self_at t2 q + (\<Sum>c\<leftarrow>tn_children ?s. graft (p @ [tn_name (node_of other c)]) (value_from tn_self other c) q)"
    by blast
  have "merge_node (Suc fuel) other source target t = Some t3"
    using one(1) two(1) three(1) Suc.prems(1) by (simp add: nth_opt_def)
  moreover have "grafted p other source t t3"
    using three one two same_shape_locate [OF one(2)] same_shape_locate [OF two(2)]
    unfolding grafted_def graft_unfold [OF other Suc.prems(1)] by (auto simp: add.assoc)
  ultimately show ?case by blast
qed

lemma merge_trees_ok:
  assumes "tree_ok other" and "tree_ok t"
  shows "\<exists>t'. merge_trees other t = Some t' \<and> tree_ok t' \<and> (\<forall>q. total_at t' q = total_at t q + total_at other q) \<and> (\<forall>q. self_at t' q = self_at t q + self_at other q)"
proof -
  have "locate t 0 [] = Some (pt_root t)" using tree_okD(1) [OF assms(2)] by simp
  then show ?thesis
    using merge_node_ok [OF assms(1) tree_okD(2) [OF assms(1)], of "length (pt_nodes other)" t "[]" "pt_root t"] assms tree_okD(1) [OF assms(1)]
    by (auto simp: merge_trees_def grafted_def graft_def)
qed

end
