(* ===== verification/Profile_Samples.thy ===== *)
theory Profile_Samples
  imports Profile_Tree_Spec
begin

text \<open>
  A profile tree is its samples: whatever stacks were added and trees merged, each path holds the sum of the
  samples that pass it and of those that end at it.  Reading the samples back loses no value, also when small
  subtrees are folded into an \<open>other\<close> frame.
\<close>

section \<open>Trees and the samples they were built from\<close>

type_synonym samples = "(string list \<times> i64w) list"

inductive built :: "profile_tree \<Rightarrow> samples \<Rightarrow> bool" where
  built_new: "built tree_new []"
| built_stack: "built t ss \<Longrightarrow> add_stack frames v t = Some t' \<Longrightarrow> built t' ((stack_path frames, v) # ss)"
| built_merge: "built t ss \<Longrightarrow> built other ss' \<Longrightarrow> merge_trees other t = Some t' \<Longrightarrow> built t' (ss' @ ss)"

definition passing :: "samples \<Rightarrow> string list \<Rightarrow> i64w" where
  "passing ss q = (\<Sum>(p, v)\<leftarrow>ss. if p \<noteq> [] \<and> prefix q p then v else 0)"

definition ending :: "samples \<Rightarrow> string list \<Rightarrow> i64w" where
  "ending ss q = (\<Sum>(p, v)\<leftarrow>ss. if p \<noteq> [] \<and> q = p then v else 0)"

lemma passing_simps [simp]:
  "passing [] q = 0" "passing ((p, v) # ss) q = (if p \<noteq> [] \<and> prefix q p then v else 0) + passing ss q"
  "passing (ss @ ss') q = passing ss q + passing ss' q"
  by (simp_all add: passing_def)

lemma ending_simps [simp]:
  "ending [] q = 0" "ending ((p, v) # ss) q = (if p \<noteq> [] \<and> q = p then v else 0) + ending ss q"
  "ending (ss @ ss') q = ending ss q + ending ss' q"
  by (simp_all add: ending_def)

lemma stack_path_Nil [simp]: "stack_path frames = [] \<longleftrightarrow> frames = []"
  by (simp add: stack_path_def)

lemma tree_new_values: "total_at tree_new q = 0" "self_at tree_new q = 0"
  by (cases q; simp add: value_from_def tree_new_def empty_node_def)+

lemma built_values:
  assumes "built t ss"
  shows "tree_ok t \<and> (\<forall>q. total_at t q = passing ss q) \<and> (\<forall>q. self_at t q = ending ss q)"
  using assms
proof (induction rule: built.induct)
  case built_new
  then show ?case by (simp add: tree_new_ok tree_new_values)
next
  case (built_stack t ss frames v t')
  then show ?case using add_stack_ok [of t frames v] by (auto simp: add.commute)
next
  case (built_merge t ss other ss' t')
  then show ?case using merge_trees_ok [of other t] by (auto simp: add.commute)
qed

text \<open>
  C38. A profile tree holds exactly its samples.  After any sequence of stacks added and trees merged, the total
  at a path is the sum of the samples whose stack starts with it, the self value is the sum of the samples
  whose stack it is, and samples without a stack count nowhere; children are in name order without repetition.
  Adding a stack and merging another such tree always succeed.
\<close>

theorem tree_holds_samples:
  assumes "built t ss"
  shows "(\<forall>q. total_at t q = passing ss q \<and> self_at t q = ending ss q) \<and> tree_ok t
    \<and> (\<forall>frames v. \<exists>t'. add_stack frames v t = Some t') \<and> (\<forall>other ss'. built other ss' \<longrightarrow> (\<exists>t'. merge_trees other t = Some t'))"
proof -
  have ok: "tree_ok t" using built_values [OF assms] by blast
  have "\<exists>t'. add_stack frames v t = Some t'" for frames v using add_stack_ok [OF ok] by blast
  moreover have "\<exists>t'. merge_trees other t = Some t'" if "built other ss'" for other ss'
    using built_values [OF that] merge_trees_ok [OF _ ok] by blast
  ultimately show ?thesis using built_values [OF assms] by blast
qed

section \<open>A total is its parts\<close>

lemma passing_parts:
  assumes "finite M" and "\<forall>(p, v) \<in> set ss. \<forall>n. prefix (q @ [n]) p \<longrightarrow> n \<in> M"
  shows "passing ss q = ending ss q + (\<Sum>n\<in>M. passing ss (q @ [n]))"
  using assms(2)
proof (induction ss)
  case Nil
  then show ?case by simp
next
  case (Cons s ss)
  obtain p v where s: "s = (p, v)" by force
  have "(\<Sum>n\<in>M. if p \<noteq> [] \<and> prefix (q @ [n]) p then v else 0) = (if p \<noteq> [] \<and> strict_prefix q p then v else 0)"
  proof (cases "strict_prefix q p")
    case True
    then obtain zs where "p = q @ zs" "zs \<noteq> []" by (auto simp: strict_prefix_def prefix_def)
    then obtain m r where p: "p = q @ m # r" by (cases zs) auto
    have "(\<Sum>n\<in>M. if p \<noteq> [] \<and> prefix (q @ [n]) p then v else 0) = (\<Sum>n\<in>M. if n = m then v else 0)"
      by (intro sum.cong) (auto simp: p prefix_def)
    moreover have "m \<in> M" using Cons.prems s p by (auto simp: prefix_def)
    ultimately show ?thesis using True p assms(1) by simp
  next
    case False
    then have "\<not> prefix (q @ [n]) p" for n by (auto simp: strict_prefix_def prefix_def)
    then show ?thesis using False by simp
  qed
  then have parts: "(\<Sum>n\<in>M. passing (s # ss) (q @ [n])) = (if p \<noteq> [] \<and> strict_prefix q p then v else 0) + (\<Sum>n\<in>M. passing ss (q @ [n]))"
    by (simp add: s sum.distrib)
  have "passing (s # ss) q = (if p \<noteq> [] \<and> q = p then v else 0) + (if p \<noteq> [] \<and> strict_prefix q p then v else 0) + passing ss q"
    by (simp add: s strict_prefix_def)
  also have "passing ss q = ending ss q + (\<Sum>n\<in>M. passing ss (q @ [n]))" using Cons by simp
  finally show ?case unfolding parts by (simp add: s add_ac)
qed

lemma ending_root [simp]: "ending ss [] = 0"
  by (induction ss) (auto simp: ending_def)

lemma total_parts:
  assumes built: "built t ss" and at: "locate t 0 q = Some i"
  shows "tn_total (node_of t i) = tn_self (node_of t i) + (\<Sum>c\<leftarrow>tn_children (node_of t i). tn_total (node_of t c))"
proof -
  have ok: "tree_ok t" using built_values [OF built] by blast
  have total: "passing ss p = total_at t p" and self: "ending ss p = self_at t p" for p
    using built_values [OF built] by metis+
  have i: "i < length (pt_nodes t)" using locate_range [OF ok tree_okD(2) [OF ok] at] by simp
  let ?cs = "tn_children (node_of t i)" and ?name = "\<lambda>c. tn_name (node_of t c)"
  let ?M = "?name ` set ?cs \<union> (\<lambda>p. p ! length q) ` fst ` set ss"
  have child: "passing ss (q @ [n]) = (case child t i n of None \<Rightarrow> 0 | Some c \<Rightarrow> tn_total (node_of t c))" for n
    unfolding total by (simp add: value_from_def locate_append at split: option.splits)
  have "n \<in> ?M" if "(p, v) \<in> set ss" "prefix (q @ [n]) p" for p v n
  proof -
    have "n = p ! length q" using that(2) by (auto simp: prefix_def nth_append)
    moreover have "p \<in> fst ` set ss" using that(1) by force
    ultimately show ?thesis by blast
  qed
  then have "\<forall>(p, v) \<in> set ss. \<forall>n. prefix (q @ [n]) p \<longrightarrow> n \<in> ?M" by blast
  then have parts: "passing ss q = ending ss q + (\<Sum>n\<in>?M. passing ss (q @ [n]))" by (intro passing_parts) simp_all
  have "(\<Sum>n\<in>?M. passing ss (q @ [n])) = (\<Sum>n\<in>?name ` set ?cs. passing ss (q @ [n]))"
  proof (rule sum.mono_neutral_right)
    show "\<forall>n \<in> ?M - ?name ` set ?cs. passing ss (q @ [n]) = 0"
    proof
      fix n
      assume "n \<in> ?M - ?name ` set ?cs"
      then have "n \<noteq> ?name c" if "c \<in> set ?cs" for c using that by blast
      then have "child t i n \<noteq> Some c" for c using children_iff [OF ok i, of c n] by blast
      then have "child t i n = None" by (cases "child t i n") blast+
      then show "passing ss (q @ [n]) = 0" by (simp only: child option.case)
    qed
  qed simp_all
  also have "\<dots> = (\<Sum>c\<in>set ?cs. passing ss (q @ [?name c]))"
  proof -
    have "inj_on ?name (set ?cs)" using children_distinct(1) [OF ok i] by (simp add: distinct_map)
    then show ?thesis by (simp add: sum.reindex)
  qed
  also have "\<dots> = (\<Sum>c\<in>set ?cs. tn_total (node_of t c))"
  proof (rule sum.cong)
    fix c
    assume "c \<in> set ?cs"
    then have "child t i (?name c) = Some c" using children_iff [OF ok i] by blast
    then show "passing ss (q @ [?name c]) = tn_total (node_of t c)" by (simp only: child option.case)
  qed simp
  also have "\<dots> = (\<Sum>c\<leftarrow>?cs. tn_total (node_of t c))"
    using children_distinct(2) [OF ok i] by (simp add: sum_list_distinct_conv_sum_set)
  finally have "total_at t q = self_at t q + (\<Sum>c\<leftarrow>?cs. tn_total (node_of t c))"
    unfolding total [symmetric] self [symmetric] using parts by (simp only:)
  then show ?thesis by (simp add: value_from_def at)
qed

section \<open>Truncation\<close>

definition before_child :: "nat \<Rightarrow> nat option list \<Rightarrow> bool" where
  "before_child n ps \<longleftrightarrow> length ps = n \<and> (\<forall>c i. c < n \<and> ps ! c = Some i \<longrightarrow> i < c)"

lemma parents_ok:
  assumes ok: "tree_ok t"
  shows "\<exists>ps. parents t = Some ps \<and> before_child (length (pt_nodes t)) ps"
  unfolding parents_def
proof (rule fold_opt_rule)
  show "before_child (length (pt_nodes t)) (replicate (length (pt_nodes t)) None)" by (auto simp: before_child_def)
  fix entry ps
  assume e: "entry \<in> set (enumerate 0 (pt_nodes t))" and inv: "before_child (length (pt_nodes t)) ps"
  define i where "i = fst entry"
  have i: "entry = (i, node_of t i)" "i < length (pt_nodes t)"
    using e by (simp_all add: in_set_enumerate_eq prod_eq_iff i_def)
  have "\<exists>ps'. fold_opt (\<lambda>child ps. upd_opt ps child (Some i)) (tn_children (node_of t i)) ps = Some ps' \<and> before_child (length (pt_nodes t)) ps'"
  proof (rule fold_opt_rule)
    show "before_child (length (pt_nodes t)) ps" by (rule inv)
    fix c ps
    assume c: "c \<in> set (tn_children (node_of t i))" and ps: "before_child (length (pt_nodes t)) ps"
    have "child t i (tn_name (node_of t c)) = Some c" using children_iff [OF ok i(2), of c] c by blast
    then have "i < c \<and> c < length (pt_nodes t)" using tree_okD(4) [OF ok i(2)] by blast
    then show "\<exists>ps'. upd_opt ps c (Some i) = Some ps' \<and> before_child (length (pt_nodes t)) ps'"
      using ps by (auto simp: upd_opt_def before_child_def nth_list_update)
  qed
  then show "\<exists>ps'. (case entry of (parent, node) \<Rightarrow> fold_opt (\<lambda>child ps. upd_opt ps child (Some parent)) (tn_children node)) ps = Some ps'
      \<and> before_child (length (pt_nodes t)) ps'"
    by (simp add: i(1))
qed

lemma climb_total:
  assumes ps: "before_child (length (pt_nodes t)) ps"
    and "case current of None \<Rightarrow> 0 < fuel | Some i \<Rightarrow> i < length ps \<and> Suc i < fuel"
  shows "\<exists>r. climb fuel t threshold ps current path = Some r"
  using assms(2)
proof (induction fuel arbitrary: current path)
  case 0
  then show ?case by (simp split: option.splits)
next
  case (Suc fuel)
  show ?case
  proof (cases current)
    case None
    then show ?thesis by simp
  next
    case (Some i)
    then have i: "i < length ps" "i < fuel" using Suc.prems by auto
    have "case ps ! i of None \<Rightarrow> 0 < fuel | Some j \<Rightarrow> j < length ps \<and> Suc j < fuel"
    proof (cases "ps ! i")
      case None
      then show ?thesis using i by simp
    next
      case (Some j)
      then have "j < i" using ps i by (simp add: before_child_def)
      then show ?thesis using i Some by simp
    qed
    then have "\<exists>r. climb fuel t threshold ps (ps ! i) (path @ [i]) = Some r" by (rule Suc.IH)
    then show ?thesis using Some i ps by (simp add: nth_opt_def before_child_def)
  qed
qed

lemma keep_set_total:
  assumes ok: "tree_ok t"
  shows "\<exists>keep. keep_set max_nodes t = Some keep"
proof -
  let ?n = "length (pt_nodes t)"
  let ?totals = "map (\<lambda>i. tn_total (node_of t i)) (filter (\<lambda>i. i \<noteq> pt_root t) [0..<?n])"
  obtain ps where ps: "parents t = Some ps" "before_child ?n ps" using parents_ok [OF ok] by blast
  have keep: "\<exists>keep. fold_opt (keep_node t threshold ps) [0..<?n] {pt_root t} = Some keep \<and> True" for threshold
  proof (rule fold_opt_rule)
    fix i keep
    assume "i \<in> set [0..<?n]"
    then have "\<exists>r. climb (Suc ?n) t threshold ps (Some i) [] = Some r"
      using ps(2) by (intro climb_total) (simp_all add: before_child_def)
    then show "\<exists>keep'. keep_node t threshold ps i keep = Some keep' \<and> True" unfolding keep_node_def by auto
  qed simp
  have "[0..<?n] = 0 # [1..<?n]" using tree_okD(2) [OF ok] by (simp add: upt_conv_Cons)
  moreover have "filter (\<lambda>i. i \<noteq> 0) [1..<?n] = [1..<?n]" by (simp add: filter_id_conv)
  ultimately have "length ?totals = ?n - 1" using tree_okD(1) [OF ok] by simp
  then have "nth_opt (rev (sort_key sint ?totals)) (nat (max max_nodes 1) - 1 - 1) \<noteq> None" if "\<not> ?n \<le> nat (max max_nodes 1)"
    using that by (simp add: nth_opt_def)
  then show ?thesis using keep ps(1) by (auto simp: keep_set_def Let_def)
qed

section \<open>Reading the samples back\<close>

lemma fold_opt_sum:
  assumes "\<And>c. c \<in> set cs \<Longrightarrow> f c = Some (g c)"
  shows "fold_opt (\<lambda>c acc. map_option (\<lambda>v. acc + v) (f c)) cs acc = Some (acc + (\<Sum>c\<leftarrow>cs. g c) :: 'a::comm_monoid_add)"
  using assms by (induction cs arbitrary: acc) (simp_all add: add.assoc)

lemma child_at:
  assumes ok: "tree_ok t" and at: "locate t 0 q = Some i" and c: "c \<in> set (tn_children (node_of t i))"
  shows "locate t 0 (q @ [tn_name (node_of t c)]) = Some c" and "i < c" and "c < length (pt_nodes t)"
proof -
  have i: "i < length (pt_nodes t)" using locate_range [OF ok tree_okD(2) [OF ok] at] by simp
  have link: "child t i (tn_name (node_of t c)) = Some c" using children_iff [OF ok i, of c] c by blast
  then show "locate t 0 (q @ [tn_name (node_of t c)]) = Some c" by (simp add: locate_append at)
  show "i < c" "c < length (pt_nodes t)" using tree_okD(4) [OF ok i link] by simp_all
qed

lemma subtree_self_total:
  assumes built: "built t ss" and "locate t 0 q = Some i" and "length (pt_nodes t) - i \<le> fuel"
  shows "subtree_self fuel t i = Some (tn_total (node_of t i))"
  using assms(2,3)
proof (induction fuel arbitrary: q i)
  case 0
  have ok: "tree_ok t" using built_values [OF built] by blast
  then show ?case using locate_range [OF ok tree_okD(2) [OF ok] "0.prems"(1)] "0.prems"(2) by simp
next
  case (Suc fuel)
  have ok: "tree_ok t" using built_values [OF built] by blast
  have i: "i < length (pt_nodes t)" using locate_range [OF ok tree_okD(2) [OF ok] Suc.prems(1)] by simp
  have "subtree_self fuel t c = Some (tn_total (node_of t c))" if "c \<in> set (tn_children (node_of t i))" for c
  proof -
    have "length (pt_nodes t) - c \<le> fuel" using child_at(2) [OF ok Suc.prems(1) that] Suc.prems(2) by linarith
    then show ?thesis by (rule Suc.IH [OF child_at(1) [OF ok Suc.prems(1) that]])
  qed
  then have "fold_opt (\<lambda>c total. map_option (\<lambda>v. total + v) (subtree_self fuel t c)) (tn_children (node_of t i)) 0
      = Some (0 + (\<Sum>c\<leftarrow>tn_children (node_of t i). tn_total (node_of t c)))" by (rule fold_opt_sum)
  then show ?case using i total_parts [OF built Suc.prems(1)] by (simp add: nth_opt_def)
qed

abbreviation value_sum :: "sample_path list \<Rightarrow> i64w" where
  "value_sum samples \<equiv> (\<Sum>s\<leftarrow>samples. sp_self_value s)"

lemma collect_children_sum:
  assumes kept: "\<And>c samples. c \<in> set cs \<Longrightarrow> c \<in> keep \<Longrightarrow> \<exists>new. f c samples = Some (samples @ new) \<and> value_sum new = g c"
    and dropped: "\<And>c. c \<in> set cs \<Longrightarrow> c \<notin> keep \<Longrightarrow> h c = Some (g c)"
  shows "\<exists>new other'. fold_opt (\<lambda>c (samples, other). if c \<in> keep then map_option (\<lambda>samples. (samples, other)) (f c samples)
      else map_option (\<lambda>v. (samples, other + v)) (h c)) cs (samples, other) = Some (samples @ new, other')
    \<and> value_sum new + other' = other + (\<Sum>c\<leftarrow>cs. g c)"
  using assms
proof (induction cs arbitrary: samples other)
  case Nil
  then show ?case by simp
next
  case (Cons c cs)
  note IH = Cons.IH [OF Cons.prems(1) [OF list.set_intros(2)] Cons.prems(2) [OF list.set_intros(2)]]
  show ?case
  proof (cases "c \<in> keep")
    case True
    then obtain new where new: "f c samples = Some (samples @ new)" "value_sum new = g c"
      using Cons.prems(1) [OF list.set_intros(1)] by blast
    obtain new' other' where rest: "fold_opt (\<lambda>c (samples, other). if c \<in> keep then map_option (\<lambda>samples. (samples, other)) (f c samples)
        else map_option (\<lambda>v. (samples, other + v)) (h c)) cs (samples @ new, other) = Some ((samples @ new) @ new', other')"
      "value_sum new' + other' = other + (\<Sum>c\<leftarrow>cs. g c)"
      using IH [of "samples @ new" other] by blast
    have "value_sum (new @ new') + other' = other + (\<Sum>c\<leftarrow>c # cs. g c)" using new(2) rest(2) by (simp add: add.assoc add.left_commute)
    then show ?thesis using True new(1) rest(1) by (intro exI [of _ "new @ new'"] exI [of _ other']) simp
  next
    case False
    then have "h c = Some (g c)" using Cons.prems(2) [OF list.set_intros(1)] by blast
    then show ?thesis using IH [of samples "other + g c"] False by (simp add: add.assoc)
  qed
qed

lemma collect_sum:
  assumes built: "built t ss" and "locate t 0 (if i \<noteq> pt_root t then path @ [tn_name (node_of t i)] else path) = Some i"
    and "length (pt_nodes t) - i \<le> fuel" and "i = pt_root t \<Longrightarrow> path = []"
  shows "\<exists>new. collect_sample_paths fuel t keep i path samples = Some (samples @ new) \<and> value_sum new = tn_total (node_of t i)"
  using assms(2-)
proof (induction fuel arbitrary: i path samples)
  case 0
  have ok: "tree_ok t" using built_values [OF built] by blast
  then show ?case using locate_range [OF ok tree_okD(2) [OF ok] "0.prems"(1)] "0.prems"(2) by simp
next
  case (Suc fuel)
  have ok: "tree_ok t" using built_values [OF built] by blast
  define P where "P = (if i \<noteq> pt_root t then path @ [tn_name (node_of t i)] else path)"
  have at: "locate t 0 P = Some i" using Suc.prems(1) by (simp add: P_def)
  let ?cs = "tn_children (node_of t i)"
  let ?own = "if tn_self (node_of t i) \<noteq> 0 \<and> P \<noteq> [] then [\<lparr>sp_frames = P, sp_self_value = tn_self (node_of t i)\<rparr>] else []"
  have i: "i < length (pt_nodes t)" using locate_range [OF ok tree_okD(2) [OF ok] at] by simp
  have "self_at t [] = 0" using built_values [OF built] by simp
  then have own: "value_sum ?own = tn_self (node_of t i)" using Suc.prems(3) tree_okD(1) [OF ok] by (auto simp: value_from_def P_def)
  have kid: "locate t 0 (if c \<noteq> pt_root t then P @ [tn_name (node_of t c)] else P) = Some c" "c \<noteq> pt_root t" "length (pt_nodes t) - c \<le> fuel"
    if "c \<in> set ?cs" for c
    using child_at [OF ok at that] Suc.prems(2) tree_okD(1) [OF ok] by auto
  have "subtree_self (length (pt_nodes t)) t c = Some (tn_total (node_of t c))" if "c \<in> set ?cs" for c
    using subtree_self_total [OF built child_at(1) [OF ok at that]] by simp
  from collect_children_sum [where f = "\<lambda>c. collect_sample_paths fuel t keep c P" and g = "\<lambda>c. tn_total (node_of t c)", OF Suc.IH [OF kid(1,3)] this]
  obtain new other' where kids: "fold_opt (\<lambda>c (samples, other). if c \<in> keep then map_option (\<lambda>samples. (samples, other)) (collect_sample_paths fuel t keep c P samples)
      else map_option (\<lambda>v. (samples, other + v)) (subtree_self (length (pt_nodes t)) t c)) ?cs (samples @ ?own, 0) = Some ((samples @ ?own) @ new, other')"
    "value_sum new + other' = 0 + (\<Sum>c\<leftarrow>?cs. tn_total (node_of t c))"
    using kid(2) by blast
  let ?other = "if other' \<noteq> 0 then [\<lparr>sp_frames = P @ [other_name], sp_self_value = other'\<rparr>] else []"
  have "collect_sample_paths (Suc fuel) t keep i path samples = Some (samples @ ?own @ new @ ?other)"
  proof -
    have start: "(if tn_self (node_of t i) \<noteq> 0 \<and> P \<noteq> [] then samples @ [\<lparr>sp_frames = P, sp_self_value = tn_self (node_of t i)\<rparr>] else samples) = samples @ ?own"
      by simp
    show ?thesis
      by (simp only: collect_sample_paths.simps(2) nth_opt_Some [OF i] Option.bind.simps Let_def P_def [symmetric] start kids(1) option.map prod.case) simp
  qed
  moreover have "value_sum (?own @ new @ ?other) = tn_total (node_of t i)"
    using own kids(2) total_parts [OF built at] by (auto simp: add.assoc)
  ultimately show ?case by blast
qed

text \<open>
  C39. Reading a profile tree back loses no value.  For a tree built from any samples and any node budget,
  truncation and the walk succeed, and the values of the returned samples add up to the total of the tree,
  which is the sum of all samples that had a stack: what the budget hides is counted in \<open>other\<close> frames.
\<close>

theorem sample_paths_conserve:
  assumes "built t ss"
  shows "\<exists>samples. sample_paths max_nodes t = Some samples \<and> value_sum samples = total_at t []
    \<and> total_at t [] = (\<Sum>(p, v)\<leftarrow>ss. if p \<noteq> [] then v else 0)"
proof -
  have ok: "tree_ok t" using built_values [OF assms] by blast
  obtain keep where keep: "keep_set max_nodes t = Some keep" using keep_set_total [OF ok] by blast
  have root: "pt_root t = 0" by (rule tree_okD(1) [OF ok])
  obtain samples where "collect_sample_paths (length (pt_nodes t)) t keep (pt_root t) [] [] = Some ([] @ samples)" "value_sum samples = tn_total (node_of t (pt_root t))"
    using collect_sum [OF assms, of "pt_root t" "[]" "length (pt_nodes t)" keep "[]"] root by auto
  moreover have "total_at t [] = passing ss []" using built_values [OF assms] by blast
  ultimately show ?thesis using keep root by (simp add: sample_paths_def value_from_def passing_def)
qed

section \<open>A small profile\<close>

definition sample_frame :: "string \<Rightarrow> stack_frame" where
  "sample_frame name = \<lparr>fr_function = name, fr_file = [], fr_line = 0\<rparr>"

definition sample_profile :: "profile_tree option" where
  "sample_profile = Option.bind (add_stack [sample_frame ''leaf'', sample_frame ''main''] 3 tree_new) (add_stack [sample_frame ''main''] 4)"

lemma sample_profile_built:
  "\<exists>t. sample_profile = Some t \<and> built t [([''main''], 4), ([''main'', ''leaf''], 3)]"
proof -
  obtain t1 where t1: "add_stack [sample_frame ''leaf'', sample_frame ''main''] 3 tree_new = Some t1"
    using add_stack_ok [OF tree_new_ok] by blast
  then have b1: "built t1 [([''main'', ''leaf''], 3)]" using built.built_stack [OF built.built_new t1] by (simp add: stack_path_def sample_frame_def)
  then obtain t2 where t2: "add_stack [sample_frame ''main''] 4 t1 = Some t2" using built_values [OF b1] add_stack_ok by blast
  then have "built t2 [([''main''], 4), ([''main'', ''leaf''], 3)]" using built.built_stack [OF b1 t2] by (simp add: stack_path_def sample_frame_def)
  then show ?thesis using t1 t2 by (simp add: sample_profile_def)
qed

theorem tree_holds_samples_witness:
  "\<exists>t. sample_profile = Some t \<and> total_at t [''main''] = 7 \<and> self_at t [''main''] = 4 \<and> total_at t [''other''] = 0"
proof -
  obtain t where t: "sample_profile = Some t" "built t [([''main''], 4), ([''main'', ''leaf''], 3)]" using sample_profile_built by blast
  show ?thesis
    using t(1) tree_holds_samples [OF t(2)] by (intro exI [of _ t]) simp
qed

theorem sample_paths_conserve_witness:
  "\<exists>t samples. sample_profile = Some t \<and> sample_paths 1 t = Some samples \<and> value_sum samples = 7"
proof -
  obtain t where t: "sample_profile = Some t" "built t [([''main''], 4), ([''main'', ''leaf''], 3)]" using sample_profile_built by blast
  show ?thesis using t(1) sample_paths_conserve [OF t(2), of 1] by auto
qed

end
