(* ===== verification/Spec2Isabelle.thy ===== *)
theory Spec2Isabelle
  imports Kernels Block_List_Spec Series_Index_Props Shard_Roundtrip Tenant_Spec Shard_Layout_Spec Compaction_Spec
    Lifecycle_Spec Publication_Props Query_Frontend_Spec Nested_Set_Spec Profile_Samples
begin

text \<open>
  Verification of krabka-o11y, an observability stack that keeps metrics, traces, profiles and logs as
  columnar blocks in an object store.  The development covers the parts that decide which data a query sees
  and which data a background pass may delete: the block index and its persisted forms, the planning of
  compaction, retention and deletion, the publication of index snapshots by concurrent writers, the query
  frontend, the interval numbering of spans, and the profile tree.

  \<^bold>\<open>How the parts interact.\<close>  Writers register blocks with an in-memory index (series index or trace
  index).  The index is cut into time shards, each shard is encoded and stored as a payload, and a manifest
  that names the payloads is published as the next generation by a conditional create.  Readers load a
  manifest and the shards that a time window needs, and ask the index for candidate blocks.  Compaction and
  retention plan over the same registrations; the lifecycle code deletes what they retire.  A query frontend
  plans a request into subqueries, answers some from a cache, admits the others in batches and merges.

  \<^bold>\<open>Conventions.\<close>  \<open>i64\<close> and \<open>i32\<close> are \<^typ>\<open>int\<close> with the saturating, wrapping or checked operation
  of the source written out; \<open>u64\<close> and \<open>u8\<close> are words; \<open>usize\<close> is \<^typ>\<open>nat\<close>, bounded where a
  sum may overflow; the sample values of profiles are 64-bit words, whose sums wrap.  A \<open>BTreeMap\<close> is an
  ascending association list and a \<open>BTreeSet\<close> an ascending list.  \<open>None\<close> is a panic, and errors are
  values of sum types.  Third-party code is an argument: the object store, the JSON codec, the regular
  expression engine, the hash functions, the clock and the signal adapters.  What is relied on is stated as a
  named predicate over the argument, and a concrete store in memory satisfies it.

  \<^bold>\<open>Theories, under \<open>crates/blockstore/src\<close> unless said otherwise.\<close>
  \<^item> \<open>O11y_Prelude\<close>: integers, panics, loops over lists that may panic, ordered maps and sets, with the rules
    the other theories share.
  \<^item> \<open>Kernels\<close>: the kernels of \<open>crates/verified\<close> (run boundaries, overlap window, retention cutoff, time
    shards), each shown to compute what its name says; the binary search ends.
  \<^item> \<open>Block_List\<close> (\<open>index/block_list.rs\<close>) with \<open>Block_List_Inv\<close>, \<open>_Ops\<close>, \<open>_Query\<close>, \<open>_Refine\<close> and \<open>_Spec\<close>:
    the invariant of the ordinal table with its derived order and postings, every operation without a panic
    under it, and the refinement to a map from keys to blocks.  Candidate queries are exact.
  \<^item> \<open>Labels\<close>, \<open>Tenant_Index\<close>, \<open>Series_Index\<close> and their \<open>_Spec\<close> and \<open>_Props\<close> theories (\<open>labels\<close>, \<open>matcher.rs\<close>,
    \<open>index/tenant_index.rs\<close>, \<open>index/resolve_selective.rs\<close>, \<open>index/index_type.rs\<close>): selectors resolve
    exactly, the selective plan agrees with the plain one, indexes merge to their union, and the invariant
    holds of every index the operations build.
  \<^item> \<open>Wire\<close>, \<open>Wire_Codec\<close>, \<open>Shard_Codec\<close>, \<open>Shard_Codec_Spec\<close>, \<open>Shard_Roundtrip\<close> (\<open>index/byte_reader.rs\<close>,
    \<open>index/shard_wire.rs\<close>, \<open>index/decode_index_shard.rs\<close>): a shard decodes to what was encoded, and any
    bytes decode to an error or to a well-formed index.
  \<^item> \<open>Tenant\<close>, \<open>Tenant_Spec\<close>, \<open>Shard_Layout\<close>, \<open>Shard_Layout_Spec\<close> (\<open>path_escape.rs\<close>, \<open>tenant.rs\<close>,
    \<open>index/shard_planning.rs\<close>, \<open>index/shard_keys.rs\<close>, \<open>index/shard_loading.rs\<close>): names and keys round
    trip, and the plan puts each block into every shard its span crosses.
  \<^item> \<open>Compaction\<close>, \<open>Compaction_Spec\<close>, \<open>Lifecycle\<close>, \<open>Lifecycle_Spec\<close> (\<open>compaction.rs\<close>, \<open>lifecycle.rs\<close>): jobs are
    sound and disjoint, planning and applying comes to rest, retention plans are exact, and deletion touches
    nothing that is live or recent.
  \<^item> \<open>Bloom\<close>, \<open>Trace_Index\<close>, \<open>Trace_Shard\<close> and their \<open>_Spec\<close> theories (\<open>bloom\<close>, \<open>trace_index\<close>): no false
    negatives, one record per key with consistent pending sets, order-independent loads, and the codec of a
    trace shard.
  \<^item> \<open>Snapshot\<close>, \<open>Snapshot_Store\<close>, \<open>Trace_Snapshot\<close> and their \<open>_Spec\<close> theories, \<open>Generations_Spec\<close>,
    \<open>Publication_Spec\<close>, \<open>Publication_Props\<close> (\<open>index_snapshot.rs\<close> and its directory): a save refines the
    update of the published contents, a load returns them, a windowed load misses nothing in its window, and a
    stale writer is detected as long as its base is not older than what pruning retains; what happens beyond
    that is stated as it is.
  \<^item> \<open>Admission\<close>, \<open>Query_Cache\<close>, \<open>Query_Frontend\<close> and their \<open>_Spec\<close> theories
    (\<open>crates/query-frontend/src\<close>): the controller as a step relation with its accounting and progress, the
    cache within its ceilings, and the pipeline, which returns what the adapter merges from the answers.  The
    contract between pipeline and cache is the locale \<open>value_cache\<close>.
  \<^item> \<open>Nested_Set\<close>, \<open>Nested_Set_Spec\<close> (\<open>nested_set.rs\<close>): intervals nest exactly as spans descend.
  \<^item> \<open>Profile_Tree\<close>, \<open>Profile_Tree_Spec\<close>, \<open>Profile_Samples\<close> (\<open>crates/pprof/src/tree.rs\<close>, \<open>tree/tree_type.rs\<close>): a tree
    holds exactly its samples, and reading it back under a node budget loses no value.

  \<^bold>\<open>Bounds and fuel.\<close>  Loops are total functions with a measure wherever the source bounds them.  Fuel occurs
  in two places.  The recursions over a profile tree get as much fuel as the arena has nodes, one more for
  the climb to the root; in a well-formed arena indices grow from parent to child, and the lemmas show that
  this is enough.  A queued request polls a given number of times; the theorems ask for one poll.  The 64
  attempts of a publication are those of the source.  The walk over spans needs two numbers per span below the largest
  \<open>i32\<close>.

  \<^bold>\<open>Simplifications.\<close>  The clock is read at each lookup and insert, where the source reads it only for a cache
  with a time to live; the readings are arbitrary.  The futures of a batch run one after the other in the order
  in which they complete.  The in-memory cache cannot fail, so the error of a failing cache has no value.

  \<^bold>\<open>Not modelled.\<close>  Parquet and Arrow input and output, the object store itself with retries and metering, the
  save and load of the series index over it, the object store cache, the registration of metrics, and the
  flame graph encodings are plumbing around code that is not in the repository.  The query languages evaluate
  floating point on a third-party engine.  The services of metrics, traces, profiles and logs are HTTP, gRPC
  and Kafka code.  The floating-point sizing of a bloom filter is a parameter.
\<close>

end
